(* ===== verification/Prelude.thy ===== *)
theory Prelude
  imports Main "HOL-Library.Word" "HOL-Library.List_Lexorder" "HOL-Library.Char_ord"
begin

text \<open>
  Vocabulary every component shares: the widths of the machine integers, the exceptions the
  library throws (\<^verbatim>\<open>utils/error.hh\<close> and \<^verbatim>\<open>std::runtime_error\<close>) as values of a
  sum type, sequencing of computations that may throw, and the generic facts on lists that
  the component proofs use.
\<close>

named_theorems exn_simps \<open>rewrite rules of the exception monad\<close>

unbundle bit_operations_syntax

type_synonym u8 = "8 word"
type_synonym u16 = "16 word"
type_synonym u32 = "32 word"
type_synonym u64 = "64 word"
type_synonym bytes = "u8 list"

section \<open>Exceptions\<close>

text \<open>
  The exception classes of \<^verbatim>\<open>utils/error.hh\<close> (\<^verbatim>\<open>Rd_UtilsError\<close> and the classes
  derived from it) and \<^verbatim>\<open>std::runtime_error\<close>, with the message they carry;
  \<open>InvalidArgument\<close> and \<open>OutOfRange\<close> are thrown by \<^verbatim>\<open>std::stoi\<close>.
  \<open>NoFuel\<close> is not an exception of the program: it is the value of a recursion that reached the
  bound the model gave it, and the bounds are shown to be enough wherever one is used.
  \<open>Undefined\<close> stands for the points where the C++ has undefined behaviour (a read past the
  end of a buffer, an index past the end of a vector, \<^verbatim>\<open>back\<close> on an empty vector):
  nothing is promised about what the program does from there on.
\<close>

datatype exn =
    RuntimeError string
  | Rd_UtilsError string
  | AddrError string
  | LexerError nat string
  | ConfigError
  | FileError string
  | InvalidArgument
  | OutOfRange
  | Undefined
  | NoFuel

type_synonym 'a res = "exn + 'a"

definition ebind :: "'a res \<Rightarrow> ('a \<Rightarrow> 'b res) \<Rightarrow> 'b res" where
  "ebind m f = (case m of Inl e \<Rightarrow> Inl e | Inr x \<Rightarrow> f x)"

lemma ebind_Inl [simp, exn_simps]: "ebind (Inl e) f = Inl e"
  by (simp add: ebind_def)

lemma ebind_Inr [simp, exn_simps]: "ebind (Inr x) f = f x"
  by (simp add: ebind_def)

lemma ebind_assoc [exn_simps]: "ebind (ebind m f) g = ebind m (\<lambda>x. ebind (f x) g)"
  by (cases m) simp_all

lemma ebind_eq_Inr: "ebind m f = Inr y \<longleftrightarrow> (\<exists>x. m = Inr x \<and> f x = Inr y)"
  by (cases m) simp_all

lemma ebind_eq_Inl: "ebind m f = Inl e \<longleftrightarrow> m = Inl e \<or> (\<exists>x. m = Inr x \<and> f x = Inl e)"
  by (cases m) simp_all

lemma ebind_cong [fundef_cong]:
  "m = m' \<Longrightarrow> (\<And>x. m' = Inr x \<Longrightarrow> f x = f' x) \<Longrightarrow> ebind m f = ebind m' f'"
  by (cases m') (simp_all add: ebind_def)

text \<open>\<^verbatim>\<open>try { x } catch (...) { return d; }\<close>\<close>

definition catch_all :: "'a res \<Rightarrow> 'a \<Rightarrow> 'a" where
  "catch_all m d = (case m of Inl _ \<Rightarrow> d | Inr x \<Rightarrow> x)"

lemma catch_all_simps [simp, exn_simps]:
  "catch_all (Inl e) d = d" "catch_all (Inr x) d = x"
  by (simp_all add: catch_all_def)

text \<open>A loop over a list whose body may throw.\<close>

fun emap :: "('a \<Rightarrow> 'b res) \<Rightarrow> 'a list \<Rightarrow> 'b list res" where
  "emap f [] = Inr []"
| "emap f (x # xs) = ebind (f x) (\<lambda>y. ebind (emap f xs) (\<lambda>ys. Inr (y # ys)))"

lemma emap_cong [fundef_cong]:
  "xs = ys \<Longrightarrow> (\<And>x. x \<in> set ys \<Longrightarrow> f x = g x) \<Longrightarrow> emap f xs = emap g ys"
  by (induction ys arbitrary: xs) auto

lemma emap_Inr: "(\<And>x. x \<in> set xs \<Longrightarrow> f x = Inr (g x)) \<Longrightarrow> emap f xs = Inr (map g xs)"
  by (induction xs) auto

lemma emap_total: "(\<And>x. x \<in> set xs \<Longrightarrow> \<exists>y. f x = Inr y) \<Longrightarrow> \<exists>ys. emap f xs = Inr ys"
proof (induction xs)
  case (Cons x xs)
  then obtain y ys where "f x = Inr y" "emap f xs = Inr ys" by fastforce
  then show ?case by simp
qed simp

section \<open>Loops that may not return\<close>

text \<open>Monotonicity of case distinctions, for the bodies of \<^theory_text>\<open>partial_function\<close>s.\<close>

lemma mono_case_option [partial_function_mono]:
  assumes "monotone orda ordb c1" and "\<And>y. monotone orda ordb (\<lambda>f. c2 y f)"
  shows "monotone orda ordb (\<lambda>f. case z of None \<Rightarrow> c1 f | Some y \<Rightarrow> c2 y f)"
  using assms by (cases z) simp_all

lemma mono_case_list [partial_function_mono]:
  assumes "monotone orda ordb c1" and "\<And>y ys. monotone orda ordb (\<lambda>f. c2 y ys f)"
  shows "monotone orda ordb (\<lambda>f. case z of [] \<Rightarrow> c1 f | y # ys \<Rightarrow> c2 y ys f)"
  using assms by (cases z) simp_all

lemma mono_case_sum [partial_function_mono]:
  assumes "\<And>x. monotone orda ordb (\<lambda>f. c1 x f)" and "\<And>y. monotone orda ordb (\<lambda>f. c2 y f)"
  shows "monotone orda ordb (\<lambda>f. case z of Inl x \<Rightarrow> c1 x f | Inr y \<Rightarrow> c2 y f)"
  using assms by (cases z) simp_all

section \<open>Machine integers\<close>

lemma unat_less_u8: "unat (b :: u8) < 256"
  by (rule order.strict_trans2 [OF unsigned_less]) simp

lemma unat_less_u32: "unat (b :: u32) < 4294967296"
  by (rule order.strict_trans2 [OF unsigned_less]) simp

lemma unat_less_u64: "unat (b :: u64) < 18446744073709551616"
  by (rule order.strict_trans2 [OF unsigned_less]) simp

lemma unat_add_u32: "unat a + unat b < 4294967296 \<Longrightarrow> unat (a + b :: u32) = unat a + unat b"
  by (simp add: unat_word_ariths)

section \<open>Lists\<close>

lemma take_drop_update:
  assumes "length xs = n" and "i + n \<le> length ys"
  shows "take n (drop i (take i ys @ xs @ drop (i + n) ys)) = xs"
  using assms by simp

lemma sorted_wrt_less_distinct: "sorted_wrt (<) (xs :: 'a :: linorder list) \<Longrightarrow> distinct xs"
  by (induction xs) auto

lemma concat_map_snoc: "concat (map f (xs @ [x])) = concat (map f xs) @ f x"
  by simp

section \<open>Finite maps\<close>

text \<open>
  What every associative container of the program promises: after an update the new key is
  found with its value and every other key as before. \<open>inv\<close> is the representation invariant.
\<close>

locale assoc_map =
  fixes empty :: "'m"
    and update :: "'k \<Rightarrow> 'v \<Rightarrow> 'm \<Rightarrow> 'm"
    and lookup :: "'m \<Rightarrow> 'k \<Rightarrow> 'v option"
    and inv :: "'m \<Rightarrow> bool"
    and key_ok :: "'k \<Rightarrow> bool"
  assumes inv_empty: "inv empty"
    and lookup_empty: "lookup empty k = None"
    and inv_update: "inv m \<Longrightarrow> key_ok k \<Longrightarrow> inv (update k v m)"
    and lookup_update: "inv m \<Longrightarrow> key_ok k \<Longrightarrow> lookup (update k v m) = (lookup m) (k \<mapsto> v)"
begin

definition updates :: "('k \<times> 'v) list \<Rightarrow> 'm \<Rightarrow> 'm" where
  "updates kvs m = fold (\<lambda>(k, v). update k v) kvs m"

lemma updates_simps:
  "updates [] m = m" "updates ((k, v) # kvs) m = updates kvs (update k v m)"
  by (simp_all add: updates_def)

lemma updates_spec:
  "inv m \<Longrightarrow> \<forall>(k, v) \<in> set kvs. key_ok k \<Longrightarrow>
     inv (updates kvs m) \<and> lookup (updates kvs m) = lookup m ++ map_of (rev kvs)"
proof (induction kvs arbitrary: m)
  case (Cons kv kvs)
  obtain k v where kv: "kv = (k, v)" by (cases kv) auto
  with Cons show ?case by (simp add: updates_simps inv_update lookup_update map_add_upd_left)
qed (simp add: updates_simps)

lemma updates_empty:
  "\<forall>(k, v) \<in> set kvs. key_ok k \<Longrightarrow> distinct (List.map fst kvs) \<Longrightarrow>
     lookup (updates kvs empty) = map_of kvs"
proof -
  assume ok: "\<forall>(k, v) \<in> set kvs. key_ok k" and d: "distinct (List.map fst kvs)"
  have "lookup empty = Map.empty" by (rule ext) (rule lookup_empty)
  moreover have "map_of (rev kvs) = map_of kvs"
    using d by (metis distinct_rev map_of_eqI rev_map set_rev map_of_inject_set)
  ultimately show "lookup (updates kvs empty) = map_of kvs"
    using updates_spec [OF inv_empty ok] by simp
qed

end

section \<open>Sorted association lists\<close>

text \<open>
  \<^verbatim>\<open>std::map\<close> and \<^verbatim>\<open>std::set\<close> keep their keys in increasing order and iterate in that order:
  a strictly sorted list.
\<close>

fun map_assign :: "'k :: linorder \<Rightarrow> 'v \<Rightarrow> ('k \<times> 'v) list \<Rightarrow> ('k \<times> 'v) list" where
  "map_assign k v [] = [(k, v)]"
| "map_assign k v ((k', v') # m) =
     (if k < k' then (k, v) # (k', v') # m
      else if k = k' then (k', v) # m
      else (k', v') # map_assign k v m)"

fun map_erase :: "'k :: linorder \<Rightarrow> ('k \<times> 'v) list \<Rightarrow> ('k \<times> 'v) list" where
  "map_erase k [] = []"
| "map_erase k ((k', v') # m) = (if k = k' then m else (k', v') # map_erase k m)"

fun set_insert :: "'k :: linorder \<Rightarrow> 'k list \<Rightarrow> 'k list" where
  "set_insert k [] = [k]"
| "set_insert k (k' # s) =
     (if k < k' then k # k' # s else if k = k' then k' # s else k' # set_insert k s)"

definition map_ok :: "('k :: linorder \<times> 'v) list \<Rightarrow> bool" where
  "map_ok m \<longleftrightarrow> sorted_wrt (<) (map fst m)"

lemma set_map_assign_keys: "set (map fst (map_assign k v m)) = insert k (set (map fst m))"
  by (induction k v m rule: map_assign.induct) auto

lemma map_ok_assign: "map_ok m \<Longrightarrow> map_ok (map_assign k v m)"
proof (induction k v m rule: map_assign.induct)
  case (2 k v k' v' m)
  have "set (map fst (map_assign k v m)) = insert k (set (map fst m))" by (rule set_map_assign_keys)
  then have keys: "fst ` set (map_assign k v m) = insert k (fst ` set m)" by simp
  have IH: "map_ok (map_assign k v m)" if "\<not> k < k'" "k \<noteq> k'"
    using 2 that by (simp add: map_ok_def)
  show ?case
  proof (cases "k < k' \<or> k = k'")
    case True
    with 2(2) show ?thesis by (auto simp: map_ok_def dest: less_trans)
  next
    case False
    with IH 2(2) keys show ?thesis by (auto simp: map_ok_def ball_conj_distrib simp flip: set_map)
  qed
qed (simp add: map_ok_def)

lemma map_of_assign: "map_ok m \<Longrightarrow> map_of (map_assign k v m) = (map_of m)(k \<mapsto> v)"
  by (induction k v m rule: map_assign.induct) (auto simp: map_ok_def)

lemma map_erase_keys: "set (map_erase k m) \<subseteq> set m"
  by (induction k m rule: map_erase.induct) auto

lemma map_ok_erase: "map_ok m \<Longrightarrow> map_ok (map_erase k m)"
proof (induction k m rule: map_erase.induct)
  case (2 k k' v' m)
  then show ?case using map_erase_keys [of k m] by (auto simp: map_ok_def)
qed simp

lemma map_of_erase: "map_ok m \<Longrightarrow> map_of (map_erase k m) = (map_of m)(k := None)"
proof (induction k m rule: map_erase.induct)
  case (2 k k' v' m)
  have "map_of m k' = None"
    using 2(2) by (auto simp: map_ok_def map_of_eq_None_iff)
  with 2 show ?case by (auto simp: map_ok_def fun_upd_twist)
qed simp

lemma keys_map_assign: "map fst (map_assign k v m) = set_insert k (map fst m)"
  by (induction k v m rule: map_assign.induct) auto

lemma map_assign_last: "\<forall>k' \<in> set (map fst m). k' < k \<Longrightarrow> map_assign k v m = m @ [(k, v)]"
proof (induction k v m rule: map_assign.induct)
  case (2 k v k' v' m)
  then have "k' < k" by simp
  with 2 show ?case by (simp add: less_not_sym)
qed simp

text \<open>A sorted association list is determined by its lookups.\<close>

lemma map_ok_unique: "map_ok m \<Longrightarrow> map_ok n \<Longrightarrow> map_of m = map_of n \<Longrightarrow> m = n"
proof -
  assume ok: "map_ok m" "map_ok n" and eq: "map_of m = map_of n"
  have d: "distinct (map fst m)" "distinct (map fst n)"
    using ok by (simp_all add: map_ok_def sorted_wrt_less_distinct)
  then have "set m = set n" using eq map_of_inject_set by blast
  moreover have "sorted (map fst m)" "sorted (map fst n)"
    using ok by (simp_all add: map_ok_def strict_sorted_imp_sorted)
  ultimately show "m = n" using d map_sorted_distinct_set_unique [of fst m n]
    by (simp add: distinct_map)
qed

interpretation sorted_map: assoc_map "[]" map_assign map_of map_ok "\<lambda>_. True"
  by unfold_locales (simp_all add: map_ok_assign map_of_assign, simp add: map_ok_def)

end
