(* ===== verification/Stdlib.thy ===== *)
theory Stdlib
  imports Prelude
begin

text \<open>
  The parts of the C and C++ standard library the modelled code calls: character classes of
  the \<^verbatim>\<open>"C"\<close> locale, decimal output of integers (\<^verbatim>\<open>std::to_string\<close>,
  \<^verbatim>\<open>operator<<\<close>), integer input (\<^verbatim>\<open>strtoull\<close>, \<^verbatim>\<open>atoi\<close>, \<^verbatim>\<open>std::stoi\<close>) and searching in a
  \<^verbatim>\<open>std::string\<close>.
\<close>

section \<open>Character classes\<close>

definition code :: "char \<Rightarrow> nat" where
  "code c = of_char c"

definition isdigit :: "char \<Rightarrow> bool" where
  "isdigit c \<longleftrightarrow> 48 \<le> code c \<and> code c \<le> 57"

definition isupper :: "char \<Rightarrow> bool" where
  "isupper c \<longleftrightarrow> 65 \<le> code c \<and> code c \<le> 90"

definition islower :: "char \<Rightarrow> bool" where
  "islower c \<longleftrightarrow> 97 \<le> code c \<and> code c \<le> 122"

definition isalnum :: "char \<Rightarrow> bool" where
  "isalnum c \<longleftrightarrow> isdigit c \<or> isupper c \<or> islower c"

definition isspace :: "char \<Rightarrow> bool" where
  "isspace c \<longleftrightarrow> code c = 32 \<or> (9 \<le> code c \<and> code c \<le> 13)"

definition tolower :: "char \<Rightarrow> char" where
  "tolower c = (if isupper c then char_of (code c + 32) else c)"

definition toupper :: "char \<Rightarrow> char" where
  "toupper c = (if islower c then char_of (code c - 32) else c)"

section \<open>Decimal output\<close>

definition digit_char :: "nat \<Rightarrow> char" where
  "digit_char d = char_of (48 + d)"

fun show_nat :: "nat \<Rightarrow> string" where
  "show_nat n = (if n < 10 then [digit_char n] else show_nat (n div 10) @ [digit_char (n mod 10)])"

declare show_nat.simps [simp del]

definition show_int :: "int \<Rightarrow> string" where
  "show_int i = (if i < 0 then CHR ''-'' # show_nat (nat (- i)) else show_nat (nat i))"

lemma code_digit_char: "d < 10 \<Longrightarrow> code (digit_char d) = 48 + d"
  by (simp add: code_def digit_char_def)

lemma isdigit_digit_char: "d < 10 \<Longrightarrow> isdigit (digit_char d)"
  by (simp add: isdigit_def code_digit_char)

lemma show_nat_ne [simp]: "show_nat n \<noteq> []"
  by (subst show_nat.simps) simp

lemma show_nat_digits: "c \<in> set (show_nat n) \<Longrightarrow> isdigit c"
proof (induction n rule: show_nat.induct)
  case (1 n)
  show ?case
  proof (cases "n < 10")
    case True
    with "1.prems" show ?thesis by (simp add: show_nat.simps [of n] isdigit_digit_char)
  next
    case False
    then have "c \<in> set (show_nat (n div 10)) \<or> c = digit_char (n mod 10)"
      using "1.prems" by (auto simp: show_nat.simps [of n])
    with "1.IH" [OF False] show ?thesis by (auto simp: isdigit_digit_char)
  qed
qed

section \<open>Integer input\<close>

text \<open>The value of a digit of any base up to 36.\<close>

definition digit_of :: "char \<Rightarrow> nat option" where
  "digit_of c =
     (if isdigit c then Some (code c - 48)
      else if islower c then Some (code c - 87)
      else if isupper c then Some (code c - 55)
      else None)"

text \<open>The longest run of digits: its value, whether there was any digit.\<close>

fun scan_digits :: "nat \<Rightarrow> nat \<Rightarrow> bool \<Rightarrow> string \<Rightarrow> nat \<times> bool" where
  "scan_digits base acc seen [] = (acc, seen)"
| "scan_digits base acc seen (c # cs) =
     (case digit_of c of
        None \<Rightarrow> (acc, seen)
      | Some d \<Rightarrow> if d < base then scan_digits base (acc * base + d) True cs else (acc, seen))"

definition is_hex_prefix :: "string \<Rightarrow> bool" where
  "is_hex_prefix s =
     (case s of
        z # x # d # _ \<Rightarrow> z = CHR ''0'' \<and> tolower x = CHR ''x'' \<and>
          (case digit_of d of None \<Rightarrow> False | Some v \<Rightarrow> v < 16)
      | _ \<Rightarrow> False)"

definition strip_sign :: "string \<Rightarrow> bool \<times> string" where
  "strip_sign s =
     (case s of
        c # cs \<Rightarrow> if c = CHR ''-'' then (True, cs) else if c = CHR ''+'' then (False, cs) else (False, s)
      | [] \<Rightarrow> (False, []))"

text \<open>\<^verbatim>\<open>strtol\<close> in base 10 before any clamping: was there a number, and its value.\<close>

definition strtol10 :: "string \<Rightarrow> bool \<times> int" where
  "strtol10 s =
     (let (neg, t) = strip_sign (dropWhile isspace s);
          (v, seen) = scan_digits 10 0 False t
      in (seen, if neg then - int v else int v))"

text \<open>\<^verbatim>\<open>strtoull (s, nullptr, 0)\<close>: base prefix, negation modulo \<open>2 ^ 64\<close>, saturation.\<close>

definition strtoull0 :: "string \<Rightarrow> u64" where
  "strtoull0 s =
     (let (neg, t) = strip_sign (dropWhile isspace s);
          (base, t') = (if is_hex_prefix t then (16, drop 2 t)
                        else if take 1 t = ''0'' then (8, t) else (10, t));
          (v, _) = scan_digits base 0 False t'
      in if 2 ^ 64 \<le> v then - 1
         else if neg then - of_nat v else of_nat v)"

text \<open>
  \<^verbatim>\<open>std::stoi\<close> throws on no conversion and outside the 32-bit range. \<^verbatim>\<open>atoi\<close> is
  \<^verbatim>\<open>(int) strtol (s, NULL, 10)\<close>: the value is clamped to the range of \<^verbatim>\<open>long\<close> and
  then cut to 32 bits.
\<close>

definition stoi :: "string \<Rightarrow> int res" where
  "stoi s =
     (let (seen, v) = strtol10 s in
      if \<not> seen then Inl InvalidArgument
      else if v < - (2 ^ 31) \<or> 2 ^ 31 \<le> v then Inl OutOfRange
      else Inr v)"

definition atoi :: "string \<Rightarrow> u32" where
  "atoi s = (let (_, v) = strtol10 s in word_of_int (max (- (2 ^ 63)) (min (2 ^ 63 - 1) v)))"

lemma digit_of_digit_char [simp]: "d < 10 \<Longrightarrow> digit_of (digit_char d) = Some d"
  by (simp add: digit_of_def isdigit_digit_char code_digit_char)

lemma scan_digits_snoc:
  "scan_digits 10 a s xs = (v, s') \<Longrightarrow> \<forall>c \<in> set xs. isdigit c \<Longrightarrow> d < 10 \<Longrightarrow>
     scan_digits 10 a s (xs @ digit_char d # ys) = scan_digits 10 (v * 10 + d) True ys"
proof (induction xs arbitrary: a s)
  case Nil
  then show ?case by simp
next
  case (Cons x xs)
  then obtain e where "digit_of x = Some e" "e < 10"
    by (auto simp: digit_of_def isdigit_def)
  with Cons show ?case by simp
qed

lemma scan_digits_show_nat: "scan_digits 10 0 s (show_nat n) = (n, True)"
proof (induction n arbitrary: s rule: show_nat.induct)
  case (1 n)
  show ?case
  proof (cases "n < 10")
    case True
    then show ?thesis by (simp add: show_nat.simps [of n])
  next
    case False
    have "scan_digits 10 0 s (show_nat (n div 10) @ digit_char (n mod 10) # []) =
        scan_digits 10 (n div 10 * 10 + n mod 10) True []"
      using "1.IH" [OF False, of s] by (intro scan_digits_snoc) (auto intro: show_nat_digits)
    with False show ?thesis by (simp add: show_nat.simps [of n])
  qed
qed

lemma show_nat_hd: "isdigit (hd (show_nat n))"
  by (meson hd_in_set show_nat_digits show_nat_ne)

lemma show_nat_hd_nonzero: "0 < n \<Longrightarrow> hd (show_nat n) \<noteq> CHR ''0''"
proof (induction n rule: show_nat.induct)
  case (1 n)
  show ?case
  proof (cases "n < 10")
    case True
    then have "code (digit_char n) = 48 + n" by (rule code_digit_char)
    with "1.prems" True show ?thesis by (auto simp: show_nat.simps [of n] code_def)
  next
    case False
    with 1 show ?thesis by (simp add: show_nat.simps [of n])
  qed
qed

lemma isdigit_not_special:
  "isdigit c \<Longrightarrow> \<not> isspace c \<and> c \<noteq> CHR ''-'' \<and> c \<noteq> CHR ''+''"
  by (auto simp: isdigit_def isspace_def code_def)

lemma strtol10_show_nat: "strtol10 (show_nat n) = (True, int n)"
proof -
  obtain c cs where s: "show_nat n = c # cs" by (cases "show_nat n") auto
  then have c: "\<not> isspace c" "c \<noteq> CHR ''-''" "c \<noteq> CHR ''+''"
    using show_nat_hd [of n] isdigit_not_special [of c] by auto
  then have "strip_sign (dropWhile isspace (show_nat n)) = (False, show_nat n)"
    by (simp add: strip_sign_def s)
  then show ?thesis by (simp add: strtol10_def scan_digits_show_nat)
qed

lemma strtol10_show_int: "strtol10 (show_int i) = (True, i)"
proof (cases "i < 0")
  case True
  have "\<not> isspace CHR ''-''" by (simp add: isspace_def code_def)
  with True show ?thesis
    by (simp add: show_int_def strtol10_def strip_sign_def scan_digits_show_nat)
next
  case False
  then show ?thesis by (simp add: show_int_def strtol10_show_nat)
qed

lemma stoi_show_int: "- (2 ^ 31) \<le> i \<Longrightarrow> i < 2 ^ 31 \<Longrightarrow> stoi (show_int i) = Inr i"
  by (simp add: stoi_def strtol10_show_int)

lemma atoi_show_nat: "n < 2 ^ 31 \<Longrightarrow> atoi (show_nat n) = of_nat n"
  by (simp add: atoi_def strtol10_show_nat)

section \<open>Searching in a string\<close>

definition is_prefix :: "'a list \<Rightarrow> 'a list \<Rightarrow> bool" where
  "is_prefix p s \<longleftrightarrow> take (length p) s = p"

text \<open>\<^verbatim>\<open>std::string::find (pat)\<close>: the offset of the first occurrence, \<open>None\<close> for \<^verbatim>\<open>npos\<close>.\<close>

fun str_find :: "'a list \<Rightarrow> 'a list \<Rightarrow> nat option" where
  "str_find pat [] = (if pat = [] then Some 0 else None)"
| "str_find pat (c # cs) =
     (if is_prefix pat (c # cs) then Some 0 else map_option Suc (str_find pat cs))"

text \<open>\<^verbatim>\<open>std::string::find (pat, pos)\<close>.\<close>

definition str_find_from :: "'a list \<Rightarrow> 'a list \<Rightarrow> nat \<Rightarrow> nat option" where
  "str_find_from pat s pos =
     (if length s < pos then None else map_option ((+) pos) (str_find pat (drop pos s)))"

lemma is_prefix_append [simp]: "is_prefix p (p @ s)"
  by (simp add: is_prefix_def)

lemma is_prefix_length: "is_prefix p s \<Longrightarrow> length p \<le> length s"
  by (metis is_prefix_def length_take min.cobounded1)

lemma is_prefix_iff: "is_prefix p s \<longleftrightarrow> (\<exists>t. s = p @ t)"
  by (metis append_eq_conv_conj is_prefix_def append_take_drop_id)

lemma str_find_Nil [simp]: "str_find [] s = Some 0"
  by (cases s) (simp_all add: is_prefix_def)

lemma str_find_SomeD: "str_find pat s = Some i \<Longrightarrow> is_prefix pat (drop i s) \<and> i \<le> length s"
proof (induction pat s arbitrary: i rule: str_find.induct)
  case (1 pat)
  then show ?case by (simp add: is_prefix_def split: if_splits)
next
  case (2 pat c cs)
  then show ?case by (fastforce split: if_splits)
qed

lemma str_find_least: "str_find pat s = Some i \<Longrightarrow> j < i \<Longrightarrow> \<not> is_prefix pat (drop j s)"
proof (induction pat s arbitrary: i j rule: str_find.induct)
  case (1 pat)
  then show ?case by (simp split: if_splits)
next
  case (2 pat c cs)
  then show ?case by (cases j) (auto split: if_splits)
qed

lemma str_find_NoneD: "str_find pat s = None \<Longrightarrow> \<not> is_prefix pat (drop j s)"
proof (induction pat s arbitrary: j rule: str_find.induct)
  case (1 pat)
  then show ?case by (simp add: is_prefix_def split: if_splits)
next
  case (2 pat c cs)
  then show ?case by (cases j) (auto split: if_splits)
qed

end
