(* ===== verification/MemSize.thy ===== *)
theory MemSize
  imports Stdlib
begin

text \<open>
  \<^verbatim>\<open>utils/mem_size.cc\<close>: memory sizes in bytes on 64 unsigned bits, their units, arithmetic,
  rounding, and the text form. Everything is computed on \<^typ>\<open>u64\<close>, so overflow wraps where
  the C++ wraps; a division by zero and an over-long \<^verbatim>\<open>int\<close> shift are \<open>Undefined\<close>.
\<close>

record memory_size =
  ms_size :: u64

datatype unit_tag = U_B | U_KB | U_MB | U_GB

section \<open>Construction\<close>

definition ms_B :: "u64 \<Rightarrow> memory_size" where
  "ms_B nb = \<lparr>ms_size = nb\<rparr>"

definition ms_KB :: "u64 \<Rightarrow> memory_size" where
  "ms_KB nb = \<lparr>ms_size = nb * 1024\<rparr>"

definition ms_MB :: "u64 \<Rightarrow> memory_size" where
  "ms_MB nb = \<lparr>ms_size = nb * 1024 * 1024\<rparr>"

definition ms_GB :: "u64 \<Rightarrow> memory_size" where
  "ms_GB nb = \<lparr>ms_size = nb * 1024 * 1024 * 1024\<rparr>"

definition ms_unit_str :: "u64 \<Rightarrow> string \<Rightarrow> memory_size res" where
  "ms_unit_str nb u =
     (if length u = 1 \<and> u ! 0 = CHR ''b'' then Inr (ms_B nb)
      else if length u \<noteq> 2 then Inl (RuntimeError ''unknown unit'')
      else if tolower (u ! 1) \<noteq> CHR ''b'' then Inl (RuntimeError ''unknown unit'')
      else if tolower (u ! 0) = CHR ''k'' then Inr (ms_KB nb)
      else if tolower (u ! 0) = CHR ''m'' then Inr (ms_MB nb)
      else if tolower (u ! 0) = CHR ''g'' then Inr (ms_GB nb)
      else Inl (RuntimeError ''unknown unit''))"

fun ms_unit :: "u64 \<Rightarrow> unit_tag \<Rightarrow> memory_size" where
  "ms_unit nb U_B = ms_B nb"
| "ms_unit nb U_KB = ms_KB nb"
| "ms_unit nb U_MB = ms_MB nb"
| "ms_unit nb U_GB = ms_GB nb"

definition ms_str :: "string \<Rightarrow> memory_size res" where
  "ms_str value =
     (if 2 < length value then
        ms_unit_str (strtoull0 (take (length value - 2) value)) (drop (length value - 2) value)
      else Inl (RuntimeError ''malformed memory size''))"

section \<open>Accessors and arithmetic\<close>

definition ms_bytes :: "memory_size \<Rightarrow> u64" where
  "ms_bytes m = ms_size m"

definition ms_kilobytes :: "memory_size \<Rightarrow> u64" where
  "ms_kilobytes m = ms_size m div 1024"

definition ms_megabytes :: "memory_size \<Rightarrow> u64" where
  "ms_megabytes m = ms_size m div 1024 div 1024"

definition ms_gigabytes :: "memory_size \<Rightarrow> u64" where
  "ms_gigabytes m = ms_size m div 1024 div 1024 div 1024"

definition ms_add :: "memory_size \<Rightarrow> memory_size \<Rightarrow> memory_size" where
  "ms_add a b = \<lparr>ms_size = ms_size a + ms_size b\<rparr>"

definition ms_sub :: "memory_size \<Rightarrow> memory_size \<Rightarrow> memory_size" where
  "ms_sub a b = \<lparr>ms_size = ms_size a - ms_size b\<rparr>"

definition ms_mul :: "memory_size \<Rightarrow> memory_size \<Rightarrow> memory_size" where
  "ms_mul a b = \<lparr>ms_size = ms_bytes a * ms_bytes b\<rparr>"

definition ms_div :: "memory_size \<Rightarrow> memory_size \<Rightarrow> memory_size res" where
  "ms_div a b =
     (if ms_bytes b = 0 then Inl Undefined else Inr \<lparr>ms_size = ms_bytes a div ms_bytes b\<rparr>)"

definition ms_mod :: "memory_size \<Rightarrow> memory_size \<Rightarrow> memory_size res" where
  "ms_mod a b =
     (if ms_bytes b = 0 then Inl Undefined else Inr \<lparr>ms_size = ms_bytes a mod ms_bytes b\<rparr>)"

definition ms_mul_cst :: "memory_size \<Rightarrow> u64 \<Rightarrow> memory_size" where
  "ms_mul_cst a c = \<lparr>ms_size = ms_size a * c\<rparr>"

definition ms_div_cst :: "memory_size \<Rightarrow> u64 \<Rightarrow> memory_size res" where
  "ms_div_cst a c = (if c = 0 then Inl Undefined else Inr \<lparr>ms_size = ms_size a div c\<rparr>)"

definition ms_gt :: "memory_size \<Rightarrow> memory_size \<Rightarrow> bool" where
  "ms_gt a b \<longleftrightarrow> ms_bytes b < ms_bytes a"

definition ms_lt :: "memory_size \<Rightarrow> memory_size \<Rightarrow> bool" where
  "ms_lt a b \<longleftrightarrow> ms_bytes a < ms_bytes b"

definition ms_eq :: "memory_size \<Rightarrow> memory_size \<Rightarrow> bool" where
  "ms_eq a b \<longleftrightarrow> ms_bytes a = ms_bytes b"

definition ms_neq :: "memory_size \<Rightarrow> memory_size \<Rightarrow> bool" where
  "ms_neq a b \<longleftrightarrow> ms_bytes a \<noteq> ms_bytes b"

definition ms_sub_assign :: "memory_size \<Rightarrow> memory_size \<Rightarrow> memory_size" where
  "ms_sub_assign a b = a\<lparr>ms_size := ms_size a - ms_size b\<rparr>"

definition ms_add_assign :: "memory_size \<Rightarrow> memory_size \<Rightarrow> memory_size" where
  "ms_add_assign a b = a\<lparr>ms_size := ms_size a + ms_size b\<rparr>"

definition ms_min :: "memory_size \<Rightarrow> memory_size \<Rightarrow> memory_size" where
  "ms_min a b = \<lparr>ms_size = (if ms_size b < ms_size a then ms_size b else ms_size a)\<rparr>"

definition ms_max :: "memory_size \<Rightarrow> memory_size \<Rightarrow> memory_size" where
  "ms_max a b = \<lparr>ms_size = (if ms_size b < ms_size a then ms_size a else ms_size b)\<rparr>"

text \<open>
  \<^verbatim>\<open>__builtin_clzl\<close> on a non-zero argument, and the \<^verbatim>\<open>int\<close> shift \<^verbatim>\<open>1 << n\<close> as gcc
  compiles it for C++17: 31 gives \<^verbatim>\<open>INT_MIN\<close>, 32 and more is undefined; the conversion to
  \<^verbatim>\<open>uint64_t\<close> sign-extends.
\<close>

fun bit_length :: "nat \<Rightarrow> nat" where
  "bit_length n = (if n = 0 then 0 else Suc (bit_length (n div 2)))"

declare bit_length.simps [simp del]

definition builtin_clzl :: "u64 \<Rightarrow> nat" where
  "builtin_clzl x = 64 - bit_length (unat x)"

definition int_shl1 :: "nat \<Rightarrow> u64 res" where
  "int_shl1 n =
     (if n < 31 then Inr (push_bit n 1)
      else if n = 31 then Inr (signed (push_bit 31 1 :: u32))
      else Inl Undefined)"

definition ms_nextPow2 :: "memory_size \<Rightarrow> memory_size res" where
  "ms_nextPow2 a =
     (if ms_bytes a \<le> 1 then Inr a
      else ebind (int_shl1 (64 - builtin_clzl (ms_bytes a - 1))) (\<lambda>v. Inr (ms_B v)))"

definition ms_roundUp :: "memory_size \<Rightarrow> memory_size \<Rightarrow> memory_size" where
  "ms_roundUp a rnd =
     (if ms_bytes rnd = 0 then a
      else let remainder = ms_bytes a mod ms_bytes rnd in
        if remainder = 0 then a else ms_add a (ms_sub rnd \<lparr>ms_size = remainder\<rparr>))"

definition ms_show :: "memory_size \<Rightarrow> string" where
  "ms_show m =
     (let gb = ms_gigabytes m; mb = ms_megabytes m mod 1024;
          kb = ms_kilobytes m mod 1024; b = ms_bytes m mod 1024
      in (if gb \<noteq> 0 then show_nat (unat gb) @ ''G'' else []) @
         (if mb \<noteq> 0 then show_nat (unat mb) @ ''M'' else []) @
         (if kb \<noteq> 0 then show_nat (unat kb) @ ''K'' else []) @
         (if b \<noteq> 0 then show_nat (unat b) @ ''B'' else []))"

section \<open>Rounding up\<close>

lemma roundUp_bytes:
  assumes r: "ms_bytes rnd \<noteq> 0"
    and fits: "unat (ms_bytes a) + unat (ms_bytes rnd) < 2 ^ 64"
  shows "unat (ms_bytes (ms_roundUp a rnd)) =
    unat (ms_bytes a) + (unat (ms_bytes rnd) - unat (ms_bytes a) mod unat (ms_bytes rnd)) mod unat (ms_bytes rnd)"
proof -
  let ?a = "unat (ms_size a)" and ?r = "unat (ms_size rnd)"
  have r0: "0 < ?r" using r by (simp add: ms_bytes_def unat_gt_0)
  have m: "unat (ms_size a mod ms_size rnd) = ?a mod ?r" by (simp add: unat_mod)
  show ?thesis
  proof (cases "?a mod ?r = 0")
    case True
    then have "ms_size a mod ms_size rnd = 0" using m by (simp add: unat_eq_0)
    with True r show ?thesis by (simp add: ms_roundUp_def ms_bytes_def)
  next
    case False
    then have z: "ms_size a mod ms_size rnd \<noteq> 0" using m by (metis unat_0)
    have lt: "?a mod ?r < ?r" using r0 by simp
    then have s: "unat (ms_size rnd - ms_size a mod ms_size rnd) = ?r - ?a mod ?r"
      using m by (simp add: unat_sub_if')
    have "?a + (?r - ?a mod ?r) < 2 ^ 64" using fits by (simp add: ms_bytes_def)
    then have "unat (ms_size a + (ms_size rnd - ms_size a mod ms_size rnd)) = ?a + (?r - ?a mod ?r)"
      using s by (simp add: unat_word_ariths)
    moreover have "(?r - ?a mod ?r) mod ?r = ?r - ?a mod ?r" using False lt by simp
    ultimately show ?thesis
      using r z by (simp add: ms_roundUp_def ms_bytes_def ms_add_def ms_sub_def)
  qed
qed

section \<open>Powers of two\<close>

lemma bit_length_bounds:
  "0 < n \<Longrightarrow> 2 ^ (bit_length n - 1) \<le> n \<and> n < 2 ^ bit_length n \<and> 0 < bit_length n"
proof (induction n rule: bit_length.induct)
  case (1 n)
  show ?case
  proof (cases "n div 2 = 0")
    case True
    with "1.prems" have "n = 1" by auto
    then show ?thesis by (simp add: bit_length.simps)
  next
    case False
    have bl: "bit_length n = Suc (bit_length (n div 2))"
      using "1.prems" by (simp add: bit_length.simps [of n])
    from "1.IH" "1.prems" False
    have IH: "2 ^ (bit_length (n div 2) - 1) \<le> n div 2" "n div 2 < 2 ^ bit_length (n div 2)"
      "0 < bit_length (n div 2)" by simp_all
    obtain k where k: "bit_length (n div 2) = Suc k" using IH(3) by (cases "bit_length (n div 2)") auto
    have "2 ^ Suc k \<le> n" "n < 2 ^ Suc (Suc k)" using IH(1,2) k by simp_all
    then show ?thesis using bl k by simp
  qed
qed

lemma bit_length_le: "n < 2 ^ k \<Longrightarrow> bit_length n \<le> k"
proof (rule ccontr)
  assume n: "n < 2 ^ k" and k: "\<not> bit_length n \<le> k"
  then have "0 < n" by (cases "n = 0") (simp_all add: bit_length.simps)
  from bit_length_bounds [OF this] have "2 ^ (bit_length n - 1) \<le> n" by simp
  moreover have "(2 :: nat) ^ k \<le> 2 ^ (bit_length n - 1)" using k by simp
  ultimately show False using n by linarith
qed

lemma bit_length_eq:
  "0 < n \<Longrightarrow> 2 ^ k < Suc n \<Longrightarrow> n < 2 ^ Suc k \<Longrightarrow> bit_length n = Suc k"
proof -
  assume n: "0 < n" "2 ^ k < Suc n" "n < 2 ^ Suc k"
  have "bit_length n \<le> Suc k" using n(3) by (rule bit_length_le)
  moreover have "\<not> bit_length n \<le> k"
  proof
    assume "bit_length n \<le> k"
    then have "(2 :: nat) ^ bit_length n \<le> 2 ^ k" by simp
    with bit_length_bounds [OF n(1)] n(2) show False by linarith
  qed
  ultimately show ?thesis by simp
qed

text \<open>
  \<open>roundUp\<close> returns the least multiple of the rounding factor that is not below the
  argument, as long as argument and factor together stay below \<open>2 ^ 64\<close>.
\<close>

theorem ms_roundUp_least_multiple:
  assumes "ms_bytes rnd \<noteq> 0" and "unat (ms_bytes a) + unat (ms_bytes rnd) < 2 ^ 64"
  defines "v \<equiv> unat (ms_bytes (ms_roundUp a rnd))"
  shows "unat (ms_bytes rnd) dvd v \<and> unat (ms_bytes a) \<le> v \<and> v < unat (ms_bytes a) + unat (ms_bytes rnd)"
proof -
  let ?a = "unat (ms_bytes a)" and ?r = "unat (ms_bytes rnd)"
  have r: "0 < ?r" using assms(1) by (simp add: unat_gt_0)
  have v: "v = ?a + (?r - ?a mod ?r) mod ?r"
    unfolding v_def by (rule roundUp_bytes [OF assms(1,2)])
  have "(?a + (?r - ?a mod ?r)) mod ?r = 0"
  proof -
    have "?a + (?r - ?a mod ?r) = ?a div ?r * ?r + ?r"
      using r div_mult_mod_eq [of ?a ?r] mod_less_divisor [OF r, of ?a] by linarith
    then show ?thesis by simp
  qed
  then have "?r dvd v" unfolding v by (metis dvd_eq_mod_eq_0 mod_add_right_eq)
  with r show ?thesis unfolding v by simp
qed

theorem ms_roundUp_least_multiple_witness:
  "unat (ms_bytes (ms_B 512)) dvd unat (ms_bytes (ms_roundUp (ms_B 1000) (ms_B 512))) \<and>
   (1000 :: nat) \<le> unat (ms_bytes (ms_roundUp (ms_B 1000) (ms_B 512)))"
  using ms_roundUp_least_multiple [of "ms_B 512" "ms_B 1000"] by (simp add: ms_B_def ms_bytes_def)

lemma nextPow2_shift:
  assumes "1 < unat (ms_bytes a)"
  shows "ms_nextPow2 a =
    ebind (int_shl1 (bit_length (unat (ms_bytes a) - 1))) (\<lambda>v. Inr (ms_B v))"
proof -
  have big: "\<not> ms_bytes a \<le> 1" using assms by (simp add: word_le_nat_alt)
  have u: "unat (ms_bytes a - 1) = unat (ms_bytes a) - 1"
    using assms by (simp add: unat_sub_if')
  have "bit_length (unat (ms_bytes a) - 1) \<le> 64"
    using unat_less_u64 [of "ms_bytes a"] by (intro bit_length_le) simp
  then show ?thesis using big by (simp add: ms_nextPow2_def builtin_clzl_def u)
qed

text \<open>
  C29. Up to 1 GiB \<open>nextPow2\<close> gives the least power of two not below its argument. From there to
  2 GiB the \<^verbatim>\<open>int\<close> shift overflows into the sign and the result is \<open>2 ^ 64 - 2 ^ 31\<close>;
  above 2 GiB the shift is undefined.
\<close>

theorem ms_nextPow2_spec:
  assumes "1 < unat (ms_bytes a)"
  shows "if unat (ms_bytes a) \<le> 2 ^ 30 then
      (\<exists>k. ms_nextPow2 a = Inr (ms_B (push_bit k 1)) \<and> k \<le> 30 \<and>
           unat (ms_bytes a) \<le> 2 ^ k \<and> 2 ^ k < 2 * unat (ms_bytes a))
    else if unat (ms_bytes a) \<le> 2 ^ 31 then ms_nextPow2 a = Inr (ms_B (- (2 ^ 31)))
    else ms_nextPow2 a = Inl Undefined"
proof -
  let ?n = "unat (ms_bytes a)" and ?k = "bit_length (unat (ms_bytes a) - 1)"
  have pos: "0 < ?n - 1" using assms by simp
  note b = bit_length_bounds [OF pos]
  consider "?n \<le> 2 ^ 30" | "2 ^ 30 < ?n" "?n \<le> 2 ^ 31" | "2 ^ 31 < ?n" by linarith
  then show ?thesis
  proof cases
    case 1
    have k: "?k \<le> 30" using 1 pos by (intro bit_length_le) simp
    obtain j where j: "?k = Suc j" using b by (cases ?k) auto
    have "?n \<le> 2 ^ ?k" "2 ^ ?k < 2 * ?n" using b pos j by auto
    moreover have "ms_nextPow2 a = Inr (ms_B (push_bit ?k 1))"
      using k nextPow2_shift [OF assms] by (simp add: int_shl1_def)
    ultimately show ?thesis using 1 k by auto
  next
    case 2
    have "?k = Suc 30" using 2 by (intro bit_length_eq [OF pos]) auto
    then show ?thesis using 2 nextPow2_shift [OF assms] by (simp add: int_shl1_def)
  next
    case 3
    have "\<not> ?k \<le> 31"
    proof
      assume "?k \<le> 31"
      then have "(2 :: nat) ^ ?k \<le> 2 ^ 31" by (rule power_increasing) simp
      with b 3 show False by linarith
    qed
    then show ?thesis using 3 nextPow2_shift [OF assms] by (simp add: int_shl1_def)
  qed
qed

theorem ms_nextPow2_spec_witness:
  "\<exists>k. ms_nextPow2 (ms_B 1000) = Inr (ms_B (push_bit k 1)) \<and> k \<le> 30 \<and>
     1000 \<le> (2 :: nat) ^ k \<and> (2 :: nat) ^ k < 2 * 1000"
  using ms_nextPow2_spec [of "ms_B 1000"] by (simp add: ms_B_def ms_bytes_def)

text \<open>The four parts of the text form recompose the size: nothing is lost by printing.\<close>

lemma ms_show_parts:
  "unat (ms_bytes m) =
     ((unat (ms_gigabytes m) * 1024 + unat (ms_megabytes m mod 1024)) * 1024 +
       unat (ms_kilobytes m mod 1024)) * 1024 + unat (ms_bytes m mod 1024)"
  by (simp add: ms_bytes_def ms_kilobytes_def ms_megabytes_def ms_gigabytes_def unat_div unat_mod)

section \<open>Text form\<close>

lemma strtoull0_show_nat:
  assumes "n < 2 ^ 64"
  shows "strtoull0 (show_nat n) = of_nat n"
proof -
  obtain c cs where s: "show_nat n = c # cs" by (cases "show_nat n") auto
  have digits: "isdigit x" if "x \<in> set (show_nat n)" for x using that by (rule show_nat_digits)
  then have c: "\<not> isspace c" "c \<noteq> CHR ''-''" "c \<noteq> CHR ''+''"
    using isdigit_not_special [of c] by (auto simp: s)
  have hex: "\<not> is_hex_prefix (show_nat n)"
  proof -
    have "tolower x \<noteq> CHR ''x''" if "isdigit x" for x
      using that by (auto simp: tolower_def isupper_def isdigit_def code_def)
    then show ?thesis using digits by (auto simp: is_hex_prefix_def s split: list.splits)
  qed
  have ss: "strip_sign (dropWhile isspace (show_nat n)) = (False, show_nat n)"
    using c by (simp add: strip_sign_def s)
  show ?thesis
  proof (cases "n = 0")
    case True
    have "show_nat 0 = [CHR ''0'']" by (subst show_nat.simps, simp add: digit_char_def, code_simp)
    then show ?thesis
      by (simp add: True strtoull0_def strip_sign_def is_hex_prefix_def isspace_def code_def
          digit_of_def isdigit_def)
  next
    case False
    have "c \<noteq> CHR ''0''"
      using show_nat_hd_nonzero [of n] False by (simp add: s)
    then show ?thesis
      using assms hex ss scan_digits_show_nat [of False n] by (simp add: strtoull0_def s)
  qed
qed

text \<open>
  \<open>str\<close> reads a decimal number followed by \<^verbatim>\<open>kb\<close>, \<^verbatim>\<open>mb\<close> or \<^verbatim>\<open>gb\<close> in any case as that
  many units; a number followed by the unit \<^verbatim>\<open>b\<close>, which \<open>ms_unit_str\<close> knows, is always
  refused, because \<open>str\<close> takes the last two characters for the unit.
\<close>

theorem ms_str_units:
  assumes "n < 2 ^ 64" and "tolower c = CHR ''b''"
  shows "ms_str (show_nat n @ [k, c]) =
      (if tolower k = CHR ''k'' then Inr (ms_KB (of_nat n))
       else if tolower k = CHR ''m'' then Inr (ms_MB (of_nat n))
       else if tolower k = CHR ''g'' then Inr (ms_GB (of_nat n))
       else Inl (RuntimeError ''unknown unit'')) \<and>
    (\<exists>msg. ms_str (show_nat n @ ''b'') = Inl (RuntimeError msg))"
proof
  have ne: "0 < length (show_nat n)" by simp
  have "ms_str (show_nat n @ [k, c]) = ms_unit_str (of_nat n) [k, c]"
    using ne strtoull0_show_nat [OF assms(1)] by (simp add: ms_str_def)
  then show "ms_str (show_nat n @ [k, c]) =
      (if tolower k = CHR ''k'' then Inr (ms_KB (of_nat n))
       else if tolower k = CHR ''m'' then Inr (ms_MB (of_nat n))
       else if tolower k = CHR ''g'' then Inr (ms_GB (of_nat n))
       else Inl (RuntimeError ''unknown unit''))"
    using assms(2) by (simp add: ms_unit_str_def)
  obtain xs d where d: "show_nat n = xs @ [d]" by (metis rev_exhaust show_nat_ne)
  then have "isdigit d" using show_nat_digits [of d n] by simp
  then have "tolower d \<noteq> CHR ''k''" "tolower d \<noteq> CHR ''m''" "tolower d \<noteq> CHR ''g''"
    by (auto simp: tolower_def isupper_def isdigit_def code_def)
  then show "\<exists>msg. ms_str (show_nat n @ ''b'') = Inl (RuntimeError msg)"
    by (simp add: ms_str_def ms_unit_str_def d)
qed

theorem ms_str_units_witness: "ms_str (show_nat 12 @ ''MB'') = Inr (ms_MB 12)"
proof -
  have "tolower (CHR ''B'') = CHR ''b''" "tolower (CHR ''M'') = CHR ''m''" by code_simp+
  then show ?thesis using ms_str_units [of 12 "CHR ''B''" "CHR ''M''"] by simp
qed

end
