(* ===== verification/Bytes.thy ===== *)
theory Bytes
  imports Prelude
begin

text \<open>
  The byte layer: how the program lays machine integers out in memory (little-endian, the
  \<^verbatim>\<open>reinterpret_cast\<close> of \<^verbatim>\<open>utils/raw_parser.cc\<close> and \<^verbatim>\<open>net/stream.cc\<close>), the
  serialisation helpers \<^verbatim>\<open>readU8\<close> ... \<^verbatim>\<open>writeString\<close> of \<^verbatim>\<open>utils/raw_parser.cc\<close>, and the
  32-bit loads and stores that \<^verbatim>\<open>memory/cache/free_list.cc\<close> performs inside a block.
\<close>

section \<open>Little-endian words\<close>

definition le_bytes :: "nat \<Rightarrow> 'a :: len word \<Rightarrow> bytes" where
  "le_bytes n v = map (\<lambda>i. ucast (drop_bit (8 * i) v)) [0..<n]"

fun le_word :: "bytes \<Rightarrow> 'a :: len word" where
  "le_word [] = 0"
| "le_word (b # bs) = ucast b OR push_bit 8 (le_word bs)"

lemma length_le_bytes [simp]: "length (le_bytes n v) = n"
  by (simp add: le_bytes_def)

lemma bit_le_word:
  "bit (le_word bs :: 'a :: len word) k \<longleftrightarrow>
     k < LENGTH('a) \<and> k div 8 < length bs \<and> bit (bs ! (k div 8)) (k mod 8)"
proof (induction bs arbitrary: k)
  case Nil
  then show ?case by simp
next
  case (Cons b bs)
  show ?case
  proof (cases "k < 8")
    case True
    then show ?thesis by (auto simp: bit_or_iff bit_push_bit_iff bit_unsigned_iff)
  next
    case False
    then obtain j where k: "k = j + 8" by (metis add.commute le_Suc_ex not_less)
    have "\<not> bit b k" using False by (simp add: bit_word.rep_eq bit_take_bit_iff not_less)
    moreover have "k - 8 < LENGTH('a)" if "k < LENGTH('a)" using that by simp
    ultimately show ?thesis
      using Cons.IH [of j] k
      by (auto simp: bit_or_iff bit_push_bit_iff bit_unsigned_iff div_add_self2)
  qed
qed

lemma le_word_le_bytes: "le_word (le_bytes n v) = take_bit (8 * n) (v :: 'a :: len word)"
proof (rule bit_word_eqI)
  fix k assume k: "k < LENGTH('a)"
  have "k div 8 < n \<longleftrightarrow> k < 8 * n" by auto
  moreover have "8 * (k div 8) + k mod 8 = k" by simp
  ultimately show "bit (le_word (le_bytes n v) :: 'a word) k = bit (take_bit (8 * n) v) k"
    using k by (auto simp: bit_le_word le_bytes_def bit_unsigned_iff bit_drop_bit_eq bit_take_bit_iff)
qed

lemma le_word_le_bytes_full [simp]:
  "8 * n = LENGTH('a) \<Longrightarrow> le_word (le_bytes n v) = (v :: 'a :: len word)"
  by (simp add: le_word_le_bytes)

lemma le_bytes_le_word:
  assumes "8 * length bs = LENGTH('a :: len)"
  shows "le_bytes (length bs) (le_word bs :: 'a word) = bs"
proof (rule nth_equalityI)
  show "length (le_bytes (length bs) (le_word bs :: 'a word)) = length bs" by simp
  fix i assume "i < length (le_bytes (length bs) (le_word bs :: 'a word))"
  then have i: "i < length bs" by simp
  show "le_bytes (length bs) (le_word bs :: 'a word) ! i = bs ! i"
  proof (rule bit_word_eqI)
    fix k assume "k < LENGTH(8)"
    then have k: "k < 8" by simp
    then have "(8 * i + k) div 8 = i" "(8 * i + k) mod 8 = k" "8 * i + k < LENGTH('a)"
      using i assms by auto
    then show "bit (le_bytes (length bs) (le_word bs :: 'a word) ! i) k = bit (bs ! i) k"
      using i k by (simp add: le_bytes_def bit_unsigned_iff bit_drop_bit_eq bit_le_word)
  qed
qed

lemma le_bytes_inject:
  "8 * n = LENGTH('a) \<Longrightarrow> le_bytes n v = le_bytes n w \<longleftrightarrow> v = (w :: 'a :: len word)"
  by (metis le_word_le_bytes_full)

section \<open>Serialisation into a growing buffer\<close>

text \<open>\<^verbatim>\<open>std::vector<uint8_t> & buffer\<close> is the list built so far; each writer appends to it.\<close>

definition writeU8 :: "bytes \<Rightarrow> u8 \<Rightarrow> bytes" where
  "writeU8 buffer v = buffer @ [v]"

definition writeU32 :: "bytes \<Rightarrow> u32 \<Rightarrow> bytes" where
  "writeU32 buffer v = (let tmp = le_bytes 4 v in buffer @ [tmp ! 0, tmp ! 1, tmp ! 2, tmp ! 3])"

definition writeU64 :: "bytes \<Rightarrow> u64 \<Rightarrow> bytes" where
  "writeU64 buffer v =
     (let tmp = le_bytes 8 v in
      buffer @ [tmp ! 0, tmp ! 1, tmp ! 2, tmp ! 3, tmp ! 4, tmp ! 5, tmp ! 6, tmp ! 7])"

text \<open>A signed 64-bit integer and a \<^verbatim>\<open>double\<close> travel as their 64-bit patterns.\<close>

definition writeI64 :: "bytes \<Rightarrow> u64 \<Rightarrow> bytes" where
  "writeI64 buffer v =
     (let tmp = le_bytes 8 v in
      buffer @ [tmp ! 0, tmp ! 1, tmp ! 2, tmp ! 3, tmp ! 4, tmp ! 5, tmp ! 6, tmp ! 7])"

definition writeF64 :: "bytes \<Rightarrow> u64 \<Rightarrow> bytes" where
  "writeF64 buffer v =
     (let tmp = le_bytes 8 v in
      buffer @ [tmp ! 0, tmp ! 1, tmp ! 2, tmp ! 3, tmp ! 4, tmp ! 5, tmp ! 6, tmp ! 7])"

definition char_byte :: "char \<Rightarrow> u8" where
  "char_byte c = of_nat (of_char c :: nat)"

definition byte_char :: "u8 \<Rightarrow> char" where
  "byte_char b = char_of (unat b)"

definition writeString :: "bytes \<Rightarrow> string \<Rightarrow> bytes" where
  "writeString buffer v = buffer @ map char_byte v"

lemma unat_char_byte: "unat (char_byte c) = of_char c"
  using of_char_of [of "of_char c :: nat"] by (simp add: char_byte_def unat_of_nat)

lemma byte_char_char_byte [simp]: "byte_char (char_byte c) = c"
  by (simp add: byte_char_def unat_char_byte)

lemma char_byte_byte_char [simp]: "char_byte (byte_char b) = b"
proof -
  have "unat b < 256" by (rule unat_less_u8)
  then show ?thesis by (simp add: char_byte_def byte_char_def)
qed

lemma writers_append:
  "writeU8 b v = b @ [v]"
  "writeU32 b w = b @ le_bytes 4 w"
  "writeU64 b x = b @ le_bytes 8 x"
  "writeI64 b x = b @ le_bytes 8 x"
  "writeF64 b x = b @ le_bytes 8 x"
  "writeString b s = b @ map char_byte s"
  by (simp_all add: writeU8_def writeU32_def writeU64_def writeI64_def writeF64_def
      writeString_def le_bytes_def upt_conv_Cons)

section \<open>Deserialisation from a buffer\<close>

text \<open>
  A reader is given \<^verbatim>\<open>uint8_t *& buffer\<close> and \<^verbatim>\<open>uint32_t & len\<close>. The buffer is the list
  of the bytes that really lie behind the pointer; \<open>len\<close> is the program's own count, which
  the readers consult (and, as written, increase). A read that runs past the last byte is
  \<open>Undefined\<close>.
\<close>

type_synonym cursor = "bytes \<times> u32"

definition load_raw :: "nat \<Rightarrow> cursor \<Rightarrow> (bytes \<times> cursor) res" where
  "load_raw n = (\<lambda>(buffer, len).
     if length buffer < n then Inl Undefined
     else Inr (take n buffer, (drop n buffer, len)))"

definition readU8 :: "cursor \<Rightarrow> (u8 \<times> cursor) res" where
  "readU8 = (\<lambda>(buffer, len).
     if 1 \<le> len then
       ebind (load_raw 1 (buffer, len + 1)) (\<lambda>(raw, c). Inr (le_word raw, c))
     else Inl (RuntimeError ''Corrupted packet''))"

definition readU32 :: "cursor \<Rightarrow> (u32 \<times> cursor) res" where
  "readU32 = (\<lambda>(buffer, len).
     if 4 \<le> len then
       ebind (load_raw 4 (buffer, len + 4)) (\<lambda>(raw, c). Inr (le_word raw, c))
     else Inl (RuntimeError ''Corrupted packet''))"

definition readU64 :: "cursor \<Rightarrow> (u64 \<times> cursor) res" where
  "readU64 = (\<lambda>(buffer, len).
     if 8 \<le> len then
       ebind (load_raw 8 (buffer, len + 8)) (\<lambda>(raw, c). Inr (le_word raw, c))
     else Inl (RuntimeError ''Corrupted packet''))"

definition readI64 :: "cursor \<Rightarrow> (u64 \<times> cursor) res" where
  "readI64 = (\<lambda>(buffer, len).
     if 8 \<le> len then
       ebind (load_raw 8 (buffer, len + 8)) (\<lambda>(raw, c). Inr (le_word raw, c))
     else Inl (RuntimeError ''Corrupted packet''))"

definition readF64 :: "cursor \<Rightarrow> (u64 \<times> cursor) res" where
  "readF64 = (\<lambda>(buffer, len).
     if 8 \<le> len then
       ebind (load_raw 8 (buffer, len + 8)) (\<lambda>(raw, c). Inr (le_word raw, c))
     else Inl (RuntimeError ''Corrupted packet''))"

definition readString :: "cursor \<Rightarrow> u32 \<Rightarrow> (string \<times> cursor) res" where
  "readString = (\<lambda>(buffer, len) nb.
     if nb \<le> len then
       ebind (load_raw (unat nb) (buffer, len + nb)) (\<lambda>(raw, c). Inr (map byte_char raw, c))
     else Inl (RuntimeError ''Corrupted packet''))"

lemma load_raw_append [simp]:
  "length xs = n \<Longrightarrow> load_raw n (xs @ rest, l) = Inr (xs, (rest, l))"
  by (simp add: load_raw_def)

lemma readU8_Cons: "1 \<le> l \<Longrightarrow> readU8 (b # rest, l) = Inr (b, (rest, l + 1))"
  by (simp add: readU8_def load_raw_def)

lemma readU32_le_bytes:
  "4 \<le> l \<Longrightarrow> readU32 (le_bytes 4 v @ rest, l) = Inr (v, (rest, l + 4))"
  by (simp add: readU32_def)

lemma readI64_le_bytes:
  "8 \<le> l \<Longrightarrow> readI64 (le_bytes 8 v @ rest, l) = Inr (v, (rest, l + 8))"
  by (simp add: readI64_def)

lemma readU64_le_bytes:
  "8 \<le> l \<Longrightarrow> readU64 (le_bytes 8 v @ rest, l) = Inr (v, (rest, l + 8))"
  by (simp add: readU64_def)

lemma readF64_le_bytes:
  "8 \<le> l \<Longrightarrow> readF64 (le_bytes 8 v @ rest, l) = Inr (v, (rest, l + 8))"
  by (simp add: readF64_def)

lemma readString_map:
  "unat n = length s \<Longrightarrow> n \<le> l \<Longrightarrow>
     readString (map char_byte s @ rest, l) n = Inr (s, (rest, l + n))"
  by (simp add: readString_def comp_def)

section \<open>The codec interface\<close>

text \<open>
  What a serialisable scalar promises its users: \<open>get\<close> reads back what \<open>put\<close> appended, in
  front of anything, whenever the count lets the read through; \<open>w\<close> is its width.
\<close>

locale codec =
  fixes put :: "bytes \<Rightarrow> 'a \<Rightarrow> bytes"
    and get :: "cursor \<Rightarrow> ('a \<times> cursor) res"
    and w :: nat
  assumes put_append: "\<exists>xs. length xs = w \<and> (\<forall>b. put b v = b @ xs)"
    and get_put: "w \<le> unat l \<Longrightarrow> get (put [] v @ rest, l) = Inr (v, (rest, l + of_nat w))"
    and get_short: "unat l < w \<Longrightarrow> get (buf, l) = Inl (RuntimeError ''Corrupted packet'')"
begin

lemma length_put: "length (put b v) = length b + w"
  using put_append [of v] by auto

lemma put_eq: "put b v = b @ put [] v"
  using put_append [of v] by auto

lemma get_put_append:
  "w \<le> unat l \<Longrightarrow> get (drop (length b) (put b v) @ rest, l) = Inr (v, (rest, l + of_nat w))"
  using get_put [of l v rest] by (simp add: put_eq [of b])

lemma put_inject: "put b v = put b v' \<Longrightarrow> of_nat w \<noteq> (0 :: u32) \<or> w = 0 \<Longrightarrow> w \<le> 255 \<Longrightarrow> v = v'"
  using get_put [of "of_nat w" v "[]"] get_put [of "of_nat w" v' "[]"] put_eq [of b v] put_eq [of b v']
  by (simp add: unat_of_nat)

end

interpretation c8: codec writeU8 readU8 1
  by unfold_locales
    (auto simp: writers_append readU8_def load_raw_def word_le_nat_alt)

interpretation c32: codec writeU32 readU32 4
  by unfold_locales
    (auto simp: writers_append readU32_le_bytes readU32_def word_le_nat_alt intro: length_le_bytes)

interpretation c64: codec writeU64 readU64 8
  by unfold_locales
    (auto simp: writers_append readU64_le_bytes readU64_def word_le_nat_alt intro: length_le_bytes)

interpretation ci64: codec writeI64 readI64 8
  by unfold_locales
    (auto simp: writers_append readI64_le_bytes readI64_def word_le_nat_alt intro: length_le_bytes)

interpretation cf64: codec writeF64 readF64 8
  by unfold_locales
    (auto simp: writers_append readF64_le_bytes readF64_def word_le_nat_alt intro: length_le_bytes)

end
