(* ===== verification/Base64.thy ===== *)
theory Base64
  imports Stdlib Bytes
begin

text \<open>
  \<^verbatim>\<open>utils/base64.cc\<close>: the encoder and the decoder, each a loop over groups (three bytes,
  four characters) followed by the treatment of an incomplete last group.
\<close>

definition base64_chars :: string where
  "base64_chars = ''ABCDEFGHIJKLMNOPQRSTUVWXYZabcdefghijklmnopqrstuvwxyz0123456789+/''"

definition is_base64 :: "char \<Rightarrow> bool" where
  "is_base64 c \<longleftrightarrow> isalnum c \<or> c = CHR ''+'' \<or> c = CHR ''/''"

section \<open>Encoding\<close>

text \<open>The four 6-bit digits of three bytes, as the code computes them on \<^verbatim>\<open>uint8_t\<close>.\<close>

definition split_group :: "u8 \<Rightarrow> u8 \<Rightarrow> u8 \<Rightarrow> u8 list" where
  "split_group c0 c1 c2 =
     [drop_bit 2 (c0 AND 0xfc),
      push_bit 4 (c0 AND 0x03) + drop_bit 4 (c1 AND 0xf0),
      push_bit 2 (c1 AND 0x0f) + drop_bit 6 (c2 AND 0xc0),
      c2 AND 0x3f]"

definition enc_char :: "nat \<Rightarrow> u8 \<Rightarrow> char" where
  "enc_char len d = base64_chars ! (unat d mod len)"

fun encode_loop :: "nat \<Rightarrow> bool \<Rightarrow> bytes \<Rightarrow> string" where
  "encode_loop len withSpec (c0 # c1 # c2 # buf) =
     map (enc_char len) (split_group c0 c1 c2) @ encode_loop len withSpec buf"
| "encode_loop len withSpec [c0, c1] =
     map (enc_char len) (take 3 (split_group c0 c1 0)) @ (if withSpec then ''='' else [])"
| "encode_loop len withSpec [c0] =
     map (enc_char len) (take 2 (split_group c0 0 0)) @ (if withSpec then ''=='' else [])"
| "encode_loop len withSpec [] = []"

definition base64_encode :: "bytes \<Rightarrow> bool \<Rightarrow> string" where
  "base64_encode buf withSpec =
     (let len = length base64_chars; len = (if withSpec then len else len - 2)
      in encode_loop len withSpec buf)"

section \<open>Decoding\<close>

text \<open>
  \<^verbatim>\<open>base64_chars.find (c)\<close> stored in a \<^verbatim>\<open>uint8_t\<close>: \<^verbatim>\<open>npos\<close> becomes 255.
\<close>

definition dec_char :: "char \<Rightarrow> u8" where
  "dec_char c = (case str_find [c] base64_chars of None \<Rightarrow> 255 | Some i \<Rightarrow> of_nat i)"

definition join_group :: "u8 \<Rightarrow> u8 \<Rightarrow> u8 \<Rightarrow> u8 \<Rightarrow> bytes" where
  "join_group d0 d1 d2 d3 =
     [push_bit 2 d0 + drop_bit 4 (d1 AND 0x30),
      push_bit 4 (d1 AND 0xf) + drop_bit 2 (d2 AND 0x3c),
      push_bit 6 (d2 AND 0x3) + d3]"

text \<open>
  The loop keeps \<open>in_len\<close>, the characters not read yet, and the group being filled; the
  trailing positions of an incomplete group are filled with the character 0.
\<close>

definition decode_tail :: "string \<Rightarrow> bytes" where
  "decode_tail grp =
     (if grp = [] then []
      else let full = map dec_char (grp @ replicate (4 - length grp) (CHR 0x00))
        in take (length grp - 1) (join_group (full ! 0) (full ! 1) (full ! 2) (full ! 3)))"

fun decode_loop :: "string \<Rightarrow> string \<Rightarrow> bytes" where
  "decode_loop grp [] = decode_tail grp"
| "decode_loop grp (c # cs) =
     (if c \<noteq> CHR ''='' \<and> is_base64 c then
        let grp' = grp @ [c] in
          if length grp' = 4 then
            join_group (dec_char (grp' ! 0)) (dec_char (grp' ! 1))
              (dec_char (grp' ! 2)) (dec_char (grp' ! 3)) @ decode_loop [] cs
          else decode_loop grp' cs
      else decode_tail grp)"

definition base64_decode :: "string \<Rightarrow> bytes" where
  "base64_decode encoded_string = decode_loop [] encoded_string"

section \<open>The alphabet\<close>

lemma base64_chars_alphabet:
  "distinct base64_chars" "length base64_chars = 64"
  "list_all (\<lambda>c. is_base64 c \<and> c \<noteq> CHR ''='') base64_chars"
  subgoal by code_simp
  subgoal by code_simp
  subgoal by (simp add: base64_chars_def is_base64_def isalnum_def isdigit_def isupper_def islower_def code_def)
  done

lemma str_find_nth: "distinct xs \<Longrightarrow> i < length xs \<Longrightarrow> str_find [xs ! i] xs = Some i"
proof (induction xs arbitrary: i)
  case (Cons x xs)
  then show ?case by (cases i) (auto simp: is_prefix_def)
qed simp

lemma enc_char_64:
  assumes "unat d < 64"
  shows "dec_char (enc_char 64 d) = d" "is_base64 (enc_char 64 d)" "enc_char 64 d \<noteq> CHR ''=''"
  using assms base64_chars_alphabet str_find_nth [of base64_chars "unat d"]
  by (simp_all add: enc_char_def dec_char_def list_all_length)

section \<open>Groups\<close>

lemma u8_eqI:
  assumes "bit a 0 = bit b 0" "bit a 1 = bit b 1" "bit a 2 = bit b 2" "bit a 3 = bit b 3"
    "bit a 4 = bit b 4" "bit a 5 = bit b 5" "bit a 6 = bit b 6" "bit a 7 = bit b 7"
  shows "a = (b :: u8)"
proof (rule bit_word_eqI)
  fix k assume "k < LENGTH(8)"
  then have "k = 0 \<or> k = 1 \<or> k = 2 \<or> k = 3 \<or> k = 4 \<or> k = 5 \<or> k = 6 \<or> k = 7" by simp arith
  then show "bit a k = bit b k" using assms by (elim disjE; simp only:)
qed

lemma bit_u8_out: "8 \<le> k \<Longrightarrow> \<not> bit (a :: u8) k"
  by (simp add: bit_word.rep_eq bit_take_bit_iff not_less)

lemma u8_lt64:
  assumes "\<not> bit d 6" "\<not> bit d 7"
  shows "unat (d :: u8) < 64"
proof -
  from assms have "take_bit 6 d = d" by (intro u8_eqI) (simp_all add: bit_take_bit_iff)
  then have "unat d = take_bit 6 (unat d)" by (metis unsigned_take_bit_eq)
  also have "\<dots> < 2 ^ 6" by (rule take_bit_nat_less_exp)
  finally show ?thesis by simp
qed

lemma split_group_or:
  "split_group c0 c1 c2 =
     [drop_bit 2 (c0 AND 0xfc),
      push_bit 4 (c0 AND 0x03) OR drop_bit 4 (c1 AND 0xf0),
      push_bit 2 (c1 AND 0x0f) OR drop_bit 6 (c2 AND 0xc0),
      c2 AND 0x3f]"
  unfolding split_group_def list.inject
  by (intro conjI refl) (rule disjunctive_add_eq_or, rule u8_eqI, simp_all add: bit_simps bit_u8_out)+

lemma join_group_or:
  "join_group d0 d1 d2 d3 =
     [push_bit 2 d0 OR drop_bit 4 (d1 AND 0x30),
      push_bit 4 (d1 AND 0xf) OR drop_bit 2 (d2 AND 0x3c),
      push_bit 6 (d2 AND 0x3) + d3]"
  unfolding join_group_def list.inject
  by (intro conjI refl) (rule disjunctive_add_eq_or, rule u8_eqI, simp_all add: bit_simps bit_u8_out)+

lemma join_split_group:
  "split_group c0 c1 c2 = [d0, d1, d2, d3] \<Longrightarrow> join_group d0 d1 d2 d3 = [c0, c1, c2]"
  unfolding split_group_or join_group_or list.inject
  apply (elim conjE, hypsubst_thin)
  apply (intro conjI refl)
    apply (rule u8_eqI; simp add: bit_simps bit_u8_out)
   apply (rule u8_eqI; simp add: bit_simps bit_u8_out)
  apply (subst disjunctive_add_eq_or)
   apply (rule u8_eqI; simp add: bit_simps bit_u8_out)
  apply (rule u8_eqI; simp add: bit_simps bit_u8_out)
  done

text \<open>
  Of an incomplete group only the leading bytes are kept; they do not depend on the digits
  that were padded in.
\<close>

lemma join_group_prefix:
  "take 1 (join_group d0 d1 x y) = take 1 (join_group d0 d1 0 0)"
  "take 2 (join_group d0 d1 d2 y) = take 2 (join_group d0 d1 d2 0)"
  by (simp_all add: join_group_def)

lemma split_group_small: "d \<in> set (split_group c0 c1 c2) \<Longrightarrow> unat d < 64"
  unfolding split_group_or
  by (rule u8_lt64) (auto simp: bit_simps bit_u8_out)

section \<open>Round trip\<close>

lemma decode_full_group:
  assumes g: "split_group c0 c1 c2 = [d0, d1, d2, d3]"
  shows "decode_loop [] (map (enc_char 64) [d0, d1, d2, d3] @ cs) = [c0, c1, c2] @ decode_loop [] cs"
proof -
  have "unat d < 64" if "d \<in> {d0, d1, d2, d3}" for d
    using split_group_small [of d c0 c1 c2] g that by auto
  then show ?thesis
    using join_split_group [OF g] by (simp add: enc_char_64)
qed

lemma decode_encode_loop: "decode_loop [] (encode_loop 64 withSpec buf) = buf"
proof (induction "64 :: nat" withSpec buf rule: encode_loop.induct)
  case (1 withSpec c0 c1 c2 buf)
  obtain d0 d1 d2 d3 where g: "split_group c0 c1 c2 = [d0, d1, d2, d3]"
    by (simp add: split_group_def)
  show ?case using decode_full_group [OF g] 1 by (simp add: g)
next
  case (2 withSpec c0 c1)
  obtain d0 d1 d2 d3 where g: "split_group c0 c1 0 = [d0, d1, d2, d3]"
    by (simp add: split_group_def)
  have small: "unat d0 < 64" "unat d1 < 64" "unat d2 < 64"
    using split_group_small [of _ c0 c1 0] g by auto
  have "take 2 (join_group d0 d1 d2 y) = [c0, c1]" for y
    using join_split_group [OF g] join_group_prefix(2) [of d0 d1 d2 y] join_group_prefix(2) [of d0 d1 d2 d3]
    by simp
  then show ?case
    using small by (simp add: g enc_char_64 decode_tail_def numeral_2_eq_2 numeral_3_eq_3 split: if_splits)
next
  case (3 withSpec c0)
  obtain d0 d1 d2 d3 where g: "split_group c0 0 0 = [d0, d1, d2, d3]"
    by (simp add: split_group_def)
  have small: "unat d0 < 64" "unat d1 < 64"
    using split_group_small [of _ c0 0 0] g by auto
  have "take 1 (join_group d0 d1 x y) = [c0]" for x y
    using join_split_group [OF g] join_group_prefix(1) [of d0 d1 x y] join_group_prefix(1) [of d0 d1 d2 d3]
    by simp
  then show ?case
    using small by (simp add: g enc_char_64 decode_tail_def numeral_2_eq_2 split: if_splits)
next
  case (4 withSpec)
  then show ?case by (simp add: decode_tail_def)
qed

text \<open>
  C28. Decoding the text the encoder produced with padding (\<^verbatim>\<open>withSpec\<close>) gives the bytes
  back, whatever their number modulo three.
\<close>

theorem base64_roundtrip: "base64_decode (base64_encode buf True) = buf"
  using decode_encode_loop [of True buf] base64_chars_alphabet(2)
  by (simp add: base64_decode_def base64_encode_def)

end
