(* ===== verification/StrUtils.thy ===== *)
theory StrUtils
  imports Stdlib
begin

text \<open>
  \<^verbatim>\<open>utils/str.cc\<close>: search and replace, splitting, stripping, and the text table. The two
  loops that advance by the length of the pattern (\<open>replace_loop\<close>, \<open>split_loop\<close>) do not return
  on an empty pattern; they are \<^theory_text>\<open>partial_function\<close>s, \<open>None\<close> meaning that the
  call does not return.
\<close>

section \<open>Search and replace\<close>

partial_function (option) replace_loop ::
  "string \<Rightarrow> string \<Rightarrow> string \<Rightarrow> nat option \<Rightarrow> string option" where
  "replace_loop toSearch replaceStr data pos =
     (case pos of
        None \<Rightarrow> Some data
      | Some p \<Rightarrow>
          replace_loop toSearch replaceStr
            (take p data @ replaceStr @ drop (p + length toSearch) data)
            (str_find_from toSearch
               (take p data @ replaceStr @ drop (p + length toSearch) data) (p + length replaceStr)))"

definition findAndReplaceAll :: "string \<Rightarrow> string \<Rightarrow> string \<Rightarrow> string option" where
  "findAndReplaceAll input toSearch replaceStr =
     replace_loop toSearch replaceStr input (str_find toSearch input)"

text \<open>The overload over a \<^verbatim>\<open>std::map\<close>, given by its entries in key order.\<close>

fun findAndReplaceMap :: "string \<Rightarrow> (string \<times> string) list \<Rightarrow> string option" where
  "findAndReplaceMap res [] = Some res"
| "findAndReplaceMap res ((k, v) # repl) =
     Option.bind (findAndReplaceAll res k v) (\<lambda>res'. findAndReplaceMap res' repl)"

text \<open>Reference: one pass from left to right, never looking back into what was replaced.\<close>

fun replace_ref :: "string \<Rightarrow> string \<Rightarrow> string \<Rightarrow> string" where
  "replace_ref pat rep [] = []"
| "replace_ref pat rep (c # cs) =
     (if is_prefix pat (c # cs) then rep @ replace_ref pat rep (drop (length pat - 1) cs)
      else c # replace_ref pat rep cs)"

lemma replace_ref_None: "str_find pat s = None \<Longrightarrow> replace_ref pat rep s = s"
  by (induction pat s rule: str_find.induct) (auto split: if_splits)

lemma replace_ref_Some:
  "pat \<noteq> [] \<Longrightarrow> str_find pat s = Some i \<Longrightarrow>
     replace_ref pat rep s = take i s @ rep @ replace_ref pat rep (drop (i + length pat) s)"
proof (induction pat s arbitrary: i rule: str_find.induct)
  case (1 pat)
  then show ?case by simp
next
  case (2 pat c cs)
  show ?case
  proof (cases "is_prefix pat (c # cs)")
    case True
    with 2 show ?thesis by (cases pat) simp_all
  next
    case False
    with "2.prems" obtain j where "str_find pat cs = Some j" "i = Suc j" by auto
    with 2 False show ?thesis by simp
  qed
qed

lemma str_find_from_append:
  "str_find_from pat (xs @ ys) (length xs) = map_option ((+) (length xs)) (str_find pat ys)"
  by (simp add: str_find_from_def)

lemma replace_loop_correct:
  "pat \<noteq> [] \<Longrightarrow>
     replace_loop pat rep (done @ s) (map_option ((+) (length done)) (str_find pat s)) =
       Some (done @ replace_ref pat rep s)"
proof (induction "length s" arbitrary: s "done" rule: less_induct)
  case less
  show ?case
  proof (cases "str_find pat s")
    case None
    then show ?thesis by (simp add: replace_loop.simps replace_ref_None)
  next
    case (Some i)
    let ?r = "drop (i + length pat) s" and ?d = "done @ take i s @ rep"
    have i: "i \<le> length s" "is_prefix pat (drop i s)" using str_find_SomeD [OF Some] by auto
    have "length pat \<le> length s - i" using is_prefix_length [OF i(2)] by simp
    then have shorter: "length ?r < length s" using \<open>pat \<noteq> []\<close> i(1)
      by (cases pat) auto
    have "str_find_from pat (?d @ ?r) (length done + i + length rep) =
        map_option ((+) (length ?d)) (str_find pat ?r)"
      using str_find_from_append [of pat ?d ?r] i(1) by (simp add: add.assoc)
    moreover have "replace_loop pat rep (?d @ ?r) (map_option ((+) (length ?d)) (str_find pat ?r)) =
        Some (?d @ replace_ref pat rep ?r)"
      using less.hyps [OF shorter less.prems] .
    ultimately show ?thesis
      using i(1) Some replace_ref_Some [OF less.prems Some, of rep]
      by (subst replace_loop.simps) (simp add: add.assoc)
  qed
qed

lemma replace_loop_empty_pattern:
  assumes "replace_loop pat rep data pos = Some r"
  shows "pat = [] \<longrightarrow> pos \<noteq> None \<and> the pos \<le> length data \<longrightarrow> False"
proof (rule replace_loop.raw_induct
    [where P = "\<lambda>pat rep data pos r. pat = [] \<longrightarrow> pos \<noteq> None \<and> the pos \<le> length data \<longrightarrow> False",
     OF _ assms])
  fix f pat rep data pos r
  assume IH: "\<And>pat rep data pos r. f pat rep data pos = Some r \<Longrightarrow>
      pat = [] \<longrightarrow> pos \<noteq> None \<and> the pos \<le> length data \<longrightarrow> False"
    and eq: "(case pos of None \<Rightarrow> Some data
      | Some p \<Rightarrow> f pat rep (take p data @ rep @ drop (p + length pat) data)
          (str_find_from pat (take p data @ rep @ drop (p + length pat) data) (p + length rep))) = Some r"
  show "pat = [] \<longrightarrow> pos \<noteq> None \<and> the pos \<le> length data \<longrightarrow> False"
  proof (intro impI)
    assume "pat = []" and pos: "pos \<noteq> None \<and> the pos \<le> length data"
    then obtain p where p: "pos = Some p" "p \<le> length data" by auto
    let ?d = "take p data @ rep @ drop p data"
    have "f [] rep ?d (str_find_from [] ?d (p + length rep)) = Some r"
      using eq p \<open>pat = []\<close> by simp
    moreover have "str_find_from [] ?d (p + length rep) = Some (p + length rep)"
      using p by (simp add: str_find_from_def)
    ultimately show False using IH [of "[]" rep ?d "Some (p + length rep)" r] p by simp
  qed
qed

text \<open>
  Replacing every occurrence of a non-empty pattern returns, and returns what the
  left-to-right reference computes; for the empty pattern the call never returns.
\<close>

lemma findAndReplaceAll_spec:
  "findAndReplaceAll input pat rep = (if pat = [] then None else Some (replace_ref pat rep input))"
proof (cases "pat = []")
  case True
  show ?thesis
  proof (cases "findAndReplaceAll input pat rep")
    case (Some r)
    then have False
      using replace_loop_empty_pattern [of pat rep input "str_find pat input" r] True
      by (simp add: findAndReplaceAll_def)
    then show ?thesis ..
  qed (simp add: True)
next
  case False
  have "map_option ((+) 0) (str_find pat input) = str_find pat input"
    by (cases "str_find pat input") simp_all
  with replace_loop_correct [OF False, of rep "[]" input] False show ?thesis
    by (simp add: findAndReplaceAll_def)
qed

section \<open>Splitting\<close>

text \<open>\<^verbatim>\<open>getline\<close> until it fails: a last line without newline counts only if it is not empty.\<close>

fun getlines :: "string \<Rightarrow> string \<Rightarrow> string list" where
  "getlines line [] = (if line = [] then [] else [line])"
| "getlines line (c # cs) =
     (if c = CHR 0x0A then line # getlines [] cs else getlines (line @ [c]) cs)"

definition splitLines :: "string \<Rightarrow> string list" where
  "splitLines content = getlines [] content"

definition is_blank :: "char \<Rightarrow> bool" where
  "is_blank c \<longleftrightarrow> c \<in> {CHR '' '', CHR 0x0A, CHR 0x0D, CHR 0x09}"

text \<open>
  \<^verbatim>\<open>find_first_not_of\<close> and \<^verbatim>\<open>find_last_not_of\<close> give \<^verbatim>\<open>npos\<close> on an all-blank
  string, and then nothing is cut.
\<close>

definition strip :: "string \<Rightarrow> string" where
  "strip str =
     (let s = (if \<exists>c \<in> set str. \<not> is_blank c then dropWhile is_blank str else str)
      in if \<exists>c \<in> set s. \<not> is_blank c then rev (dropWhile is_blank (rev s)) else s)"

partial_function (option) split_loop :: "string \<Rightarrow> string list \<Rightarrow> string \<Rightarrow> string list option" where
  "split_loop splitter result s =
     (case str_find splitter s of
        None \<Rightarrow> Some (if length s \<noteq> 0 then result @ [strip s] else result)
      | Some pos \<Rightarrow>
          split_loop splitter
            (if take pos s \<noteq> splitter \<and> length (take pos s) \<noteq> 0 then result @ [take pos s] else result)
            (drop (pos + length splitter) s))"

definition splitByString :: "string \<Rightarrow> string \<Rightarrow> string list option" where
  "splitByString inp splitter = split_loop splitter [] inp"

definition toUpper :: "string \<Rightarrow> string" where
  "toUpper content = map toupper content"

text \<open>
  Reference for \<open>splitByString\<close>: the pieces between occurrences, the empty ones dropped, and
  only the last one stripped.
\<close>

function split_ref :: "string \<Rightarrow> string \<Rightarrow> string list" where
  "split_ref sp s =
     (if sp = [] then []
      else case str_find sp s of
        None \<Rightarrow> (if s = [] then [] else [strip s])
      | Some pos \<Rightarrow> (if pos = 0 then [] else [take pos s]) @ split_ref sp (drop (pos + length sp) s))"
  by pat_completeness auto
termination
proof (relation "measure (\<lambda>(sp, s). length s)", goal_cases)
  case (2 sp s i)
  then have "length sp \<le> length (drop i s)" "i \<le> length s"
    using str_find_SomeD is_prefix_length by blast+
  with \<open>sp \<noteq> []\<close> show ?case by (cases sp) auto
qed simp

declare split_ref.simps [simp del]

lemma str_find_take_ne:
  "sp \<noteq> [] \<Longrightarrow> str_find sp s = Some i \<Longrightarrow> take i s = sp \<Longrightarrow> False"
proof -
  assume a: "sp \<noteq> []" "str_find sp s = Some i" "take i s = sp"
  then have "i \<noteq> 0" by auto
  have "length sp = i" using a str_find_SomeD [of sp s i] by (metis length_take min.absorb2)
  with a(3) have "is_prefix sp (drop 0 s)" by (simp add: is_prefix_def)
  with str_find_least [OF a(2), of 0] \<open>i \<noteq> 0\<close> show False by simp
qed

lemma split_loop_correct:
  "sp \<noteq> [] \<Longrightarrow> split_loop sp result s = Some (result @ split_ref sp s)"
proof (induction "length s" arbitrary: s result rule: less_induct)
  case less
  show ?case
  proof (cases "str_find sp s")
    case None
    with less.prems show ?thesis by (simp add: split_loop.simps split_ref.simps [of sp s])
  next
    case (Some i)
    have "length sp \<le> length s - i" "i \<le> length s"
      using str_find_SomeD [OF Some] is_prefix_length by fastforce+
    with less.prems have shorter: "length (drop (i + length sp) s) < length s" by (cases sp) auto
    have "take i s \<noteq> sp" using str_find_take_ne [OF less.prems Some] by blast
    moreover have "length (take i s) = i" using \<open>i \<le> length s\<close> by simp
    ultimately show ?thesis
      using Some less.prems less.hyps [OF shorter less.prems]
      by (subst split_loop.simps) (simp add: split_ref.simps [of sp s])
  qed
qed

text \<open>
  \<open>splitByString\<close> with a non-empty splitter returns the reference pieces.
\<close>

theorem splitByString_spec:
  "sp \<noteq> [] \<Longrightarrow> splitByString inp sp = Some (split_ref sp inp)"
  using split_loop_correct [of sp "[]" inp] by (simp add: splitByString_def)

theorem splitByString_spec_witness:
  "splitByString ''a;b '' '';'' = Some (split_ref '';'' ''a;b '')"
  using splitByString_spec [of "'';''" "''a;b ''"] by simp

text \<open>
  \<open>strip\<close> removes the blanks at both ends of a string with a non-blank character; a
  string of blanks only is returned unchanged.
\<close>

theorem strip_spec:
  "(if \<forall>c \<in> set s. is_blank c then strip s = s
    else \<exists>pre post. s = pre @ strip s @ post \<and> (\<forall>c \<in> set (pre @ post). is_blank c) \<and>
           \<not> is_blank (hd (strip s)) \<and> \<not> is_blank (last (strip s)))"
proof (cases "\<forall>c \<in> set s. is_blank c")
  case True
  then show ?thesis by (simp add: strip_def)
next
  case False
  let ?t = "dropWhile is_blank s"
  let ?u = "rev (dropWhile is_blank (rev ?t))"
  have ne: "?t \<noteq> []" using False by (simp add: dropWhile_eq_Nil_conv)
  then have hd_t: "\<not> is_blank (hd ?t)" using hd_dropWhile by blast
  have nb: "\<exists>c \<in> set ?t. \<not> is_blank c" using ne hd_t hd_in_set by blast
  then have strip: "strip s = ?u" using False by (auto simp: strip_def)
  have ne': "dropWhile is_blank (rev ?t) \<noteq> []" using nb by (auto simp: dropWhile_eq_Nil_conv)
  have t: "?t = ?u @ rev (takeWhile is_blank (rev ?t))"
    by (metis rev_append rev_rev_ident takeWhile_dropWhile_id)
  then have "hd ?u = hd ?t" using ne' by (metis hd_append2 rev_is_Nil_conv)
  moreover have "last ?u = hd (dropWhile is_blank (rev ?t))" using ne' by (simp add: last_rev)
  moreover have "s = takeWhile is_blank s @ ?u @ rev (takeWhile is_blank (rev ?t))"
    using t by (metis takeWhile_dropWhile_id)
  moreover have "\<forall>c \<in> set (takeWhile is_blank s @ rev (takeWhile is_blank (rev ?t))). is_blank c"
    by (auto dest: set_takeWhileD)
  ultimately show ?thesis
    using hd_t hd_dropWhile [OF ne'] False by (auto simp: strip simp del: set_append)
qed

theorem strip_spec_witness:
  "\<exists>pre post. '' a '' = pre @ strip '' a '' @ post \<and> (\<forall>c \<in> set (pre @ post). is_blank c) \<and>
     \<not> is_blank (hd (strip '' a '')) \<and> \<not> is_blank (last (strip '' a ''))"
  using strip_spec [of "'' a ''"] by (simp add: is_blank_def del: set_append)

section \<open>Tables\<close>

record table =
  tb_head :: "string list"
  tb_rows :: "string list list"

definition table_new :: "string list \<Rightarrow> table" where
  "table_new head = \<lparr>tb_head = head, tb_rows = []\<rparr>"

definition addRow :: "table \<Rightarrow> string list \<Rightarrow> table res" where
  "addRow t row =
     (if length row = length (tb_head t) then Inr (t\<lparr>tb_rows := tb_rows t @ [row]\<rparr>)
      else Inl (Rd_UtilsError ''What are you doing !''))"

text \<open>
  \<^verbatim>\<open>std::setw (w) << std::setfill (f) << s\<close>: the output is padded up to \<open>w\<close>; whether on
  the right or on the left depends on the stream's adjustment flag, which starts as right
  adjustment and stays \<^verbatim>\<open>std::left\<close> once it was set.
\<close>

definition setw :: "bool \<Rightarrow> nat \<Rightarrow> char \<Rightarrow> string \<Rightarrow> string" where
  "setw left w fill s =
     (if left then s @ replicate (w - length s) fill else replicate (w - length s) fill @ s)"

fun write_cells :: "bool \<Rightarrow> bool \<Rightarrow> nat list \<Rightarrow> string list \<Rightarrow> string \<times> bool" where
  "write_cells left first (w # width) (c # row) =
     (let sep = (if first then [] else '' | '');
          left' = (if c = [] then left else True);
          out = setw left' w (CHR '' '') (if c = [] then ''-'' else c);
          (rest, left'') = write_cells left' False width row
      in (sep @ out @ rest, left''))"
| "write_cells left first _ _ = ([], left)"

definition writeLine :: "bool \<Rightarrow> nat list \<Rightarrow> string list \<Rightarrow> string \<times> bool" where
  "writeLine left width row =
     (let (cells, left') = write_cells left True width row in (''| '' @ cells @ '' |'', left'))"

fun hline_cells :: "bool \<Rightarrow> nat list \<Rightarrow> string" where
  "hline_cells first [] = []"
| "hline_cells first (w # width) =
     (if first then [] else ''-+-'') @ replicate w (CHR ''-'') @ hline_cells False width"

definition hline :: "nat list \<Rightarrow> string" where
  "hline width = ''+-'' @ hline_cells True width @ ''-+''"

fun widen :: "nat list \<Rightarrow> string list \<Rightarrow> nat list" where
  "widen (w # ws) (c # cs) = (if w < length c + 2 then length c + 2 else w) # widen ws cs"
| "widen ws _ = ws"

definition computeLineWidth :: "table \<Rightarrow> nat list" where
  "computeLineWidth t = fold (\<lambda>row width. widen width row) (tb_rows t) (map (\<lambda>h. length h + 2) (tb_head t))"

fun write_rows :: "bool \<Rightarrow> nat list \<Rightarrow> string list list \<Rightarrow> string" where
  "write_rows left width [] = []"
| "write_rows left width (row # rows) =
     (let (l, left') = writeLine left width row in l @ [CHR 0x0A] @ write_rows left' width rows)"

definition table_toString :: "table \<Rightarrow> string" where
  "table_toString t =
     (let width = computeLineWidth t;
          (l, left) = writeLine False width (tb_head t)
      in hline width @ [CHR 0x0A] @ l @ [CHR 0x0A] @ hline width @ [CHR 0x0A] @
         write_rows left width (tb_rows t) @ hline width)"

subsection \<open>All lines of a table have the same width\<close>

definition line_width :: "nat list \<Rightarrow> nat" where
  "line_width width = 4 + sum_list width + 3 * (length width - 1)"

definition table_ok :: "table \<Rightarrow> bool" where
  "table_ok t \<longleftrightarrow> (\<forall>row \<in> set (tb_rows t). length row = length (tb_head t))"

definition fits :: "nat list \<Rightarrow> string list \<Rightarrow> bool" where
  "fits width row \<longleftrightarrow> list_all2 (\<lambda>w c. length c + 2 \<le> w) width row"

lemma table_ok_new: "table_ok (table_new head)"
  by (simp add: table_ok_def table_new_def)

lemma addRow_ok: "table_ok t \<Longrightarrow> addRow t row = Inr t' \<Longrightarrow> table_ok t'"
  by (auto simp: table_ok_def addRow_def split: if_splits)

lemma length_widen [simp]: "length (widen ws cs) = length ws"
  by (induction ws cs rule: widen.induct) auto

lemma widen_ge: "list_all2 (\<le>) ws (widen ws cs)"
  by (induction ws cs rule: widen.induct) (auto simp: list.rel_refl)

lemma widen_fits: "length ws = length cs \<Longrightarrow> fits (widen ws cs) cs"
  by (induction ws cs rule: widen.induct) (auto simp: fits_def)

lemma fits_mono: "fits ws cs \<Longrightarrow> list_all2 (\<le>) ws ws' \<Longrightarrow> fits ws' cs"
  unfolding fits_def by (fastforce simp: list_all2_conv_all_nth)

lemma fold_widen_ge: "list_all2 (\<le>) ws (fold (\<lambda>row width. widen width row) rows ws)"
proof (induction rows arbitrary: ws)
  case (Cons row rows)
  have "list_all2 (\<le>) ws (widen ws row)" by (rule widen_ge)
  from list_all2_trans [OF _ this Cons.IH] show ?case by simp
qed (simp add: list.rel_refl)

lemma length_fold_widen [simp]:
  "length (fold (\<lambda>row width. widen width row) rows ws) = length ws"
  by (induction rows arbitrary: ws) auto

lemma fold_widen_fits:
  "\<forall>row \<in> set rows. length row = length ws \<Longrightarrow> row \<in> set rows \<Longrightarrow>
     fits (fold (\<lambda>row width. widen width row) rows ws) row"
proof (induction rows arbitrary: ws)
  case (Cons r rows)
  show ?case
  proof (cases "row \<in> set rows")
    case True
    with Cons show ?thesis by simp
  next
    case False
    with Cons.prems have "row = r" "length ws = length r" by auto
    with widen_fits fits_mono fold_widen_ge show ?thesis by fastforce
  qed
qed simp

lemma computeLineWidth_fits:
  assumes "table_ok t"
  shows "fits (computeLineWidth t) (tb_head t)"
    and "row \<in> set (tb_rows t) \<Longrightarrow> fits (computeLineWidth t) row"
proof -
  have "fits (map (\<lambda>h. length h + 2) (tb_head t)) (tb_head t)"
    by (simp add: fits_def list_all2_conv_all_nth)
  with fold_widen_ge show "fits (computeLineWidth t) (tb_head t)"
    unfolding computeLineWidth_def by (blast intro: fits_mono)
  show "fits (computeLineWidth t) row" if "row \<in> set (tb_rows t)"
    using assms that unfolding computeLineWidth_def table_ok_def by (intro fold_widen_fits) auto
qed

lemma length_write_cells:
  "fits width row \<Longrightarrow>
     length (fst (write_cells left f width row)) =
       sum_list width + (if f then 3 * (length width - 1) else 3 * length width)"
  unfolding fits_def
proof (induction arbitrary: left f rule: list_all2_induct)
  case (Cons w width c row)
  then show ?case
    by (cases width) (simp_all add: Let_def split_beta setw_def)
qed simp

lemma length_writeLine: "fits width row \<Longrightarrow> length (fst (writeLine left width row)) = line_width width"
  using length_write_cells [of width row left True]
  by (auto simp: writeLine_def line_width_def split: prod.splits)

lemma length_hline_cells:
  "length (hline_cells f width) = sum_list width + (if f then 3 * (length width - 1) else 3 * length width)"
proof (induction f width rule: hline_cells.induct)
  case (2 f w width)
  then show ?case by (cases width) auto
qed simp

lemma length_hline: "length (hline width) = line_width width"
  by (simp add: hline_def line_width_def length_hline_cells)

lemma set_write_cells:
  "c \<in> set (fst (write_cells left f width row)) \<Longrightarrow>
     c \<in> {CHR '' '', CHR ''|'', CHR ''-''} \<or> (\<exists>x \<in> set row. c \<in> set x)"
  by (induction left f width row rule: write_cells.induct)
    (auto simp: Let_def setw_def split: prod.splits if_splits)

lemma newline_free_line:
  "\<forall>x \<in> set row. CHR 0x0A \<notin> set x \<Longrightarrow> CHR 0x0A \<notin> set (fst (writeLine left width row))"
  using set_write_cells [of "CHR 0x0A" left True width row]
  by (auto simp: writeLine_def split: prod.splits)

lemma newline_free_hline: "CHR 0x0A \<notin> set (hline width)"
proof -
  have "CHR 0x0A \<notin> set (hline_cells f width)" for f
    by (induction f width rule: hline_cells.induct) auto
  then show ?thesis by (simp add: hline_def)
qed

lemma getlines_line:
  "CHR 0x0A \<notin> set l \<Longrightarrow> getlines acc (l @ CHR 0x0A # rest) = (acc @ l) # getlines [] rest"
  by (induction l arbitrary: acc) auto

lemma getlines_no_newline:
  "CHR 0x0A \<notin> set l \<Longrightarrow> getlines acc l = (if acc @ l = [] then [] else [acc @ l])"
  by (induction l arbitrary: acc) auto

lemma getlines_write_rows:
  "\<forall>row \<in> set rows. fits width row \<and> (\<forall>x \<in> set row. CHR 0x0A \<notin> set x) \<Longrightarrow>
     l \<in> set (getlines [] (write_rows left width rows @ hline width)) \<Longrightarrow> length l = line_width width"
proof (induction rows arbitrary: left)
  case Nil
  then show ?case by (simp add: getlines_no_newline newline_free_hline length_hline split: if_splits)
next
  case (Cons row rows)
  obtain t left' where wl: "writeLine left width row = (t, left')" by fastforce
  have "CHR 0x0A \<notin> set t" "length t = line_width width"
    using Cons.prems newline_free_line [of row left width] length_writeLine [of width row left] wl
    by auto
  with Cons wl show ?case by (auto simp: getlines_line)
qed

text \<open>
  The printed form of any table built by \<open>addRow\<close> is rectangular: all its lines have the
  width that \<open>computeLineWidth\<close> gives, when no cell holds a newline.
\<close>

theorem table_toString_rectangular:
  assumes "table_ok t"
    and "\<forall>row \<in> set (tb_head t # tb_rows t). \<forall>cell \<in> set row. CHR 0x0A \<notin> set cell"
    and "l \<in> set (splitLines (table_toString t))"
  shows "length l = line_width (computeLineWidth t)"
proof -
  let ?w = "computeLineWidth t"
  obtain h left where wl: "writeLine False ?w (tb_head t) = (h, left)" by fastforce
  have "CHR 0x0A \<notin> set h" "length h = line_width ?w"
    using newline_free_line [of "tb_head t" False ?w] assms(1,2)
      length_writeLine [OF computeLineWidth_fits(1) [OF assms(1)], of False] wl by auto
  then have "l = hline ?w \<or> l = h \<or> l \<in> set (getlines [] (write_rows left ?w (tb_rows t) @ hline ?w))"
    using assms(3) wl
    by (auto simp: splitLines_def table_toString_def Let_def getlines_line newline_free_hline)
  moreover have "\<forall>row \<in> set (tb_rows t). fits ?w row \<and> (\<forall>x \<in> set row. CHR 0x0A \<notin> set x)"
    using assms(1,2) computeLineWidth_fits(2) by auto
  ultimately show ?thesis
    using getlines_write_rows [of "tb_rows t" ?w l left] \<open>length h = line_width ?w\<close>
    by (auto simp: length_hline)
qed

theorem table_toString_rectangular_witness:
  "table_ok \<lparr>tb_head = [''a'', ''bb''], tb_rows = [[''xyz'', []]]\<rparr> \<and>
   length ''+-------+------+'' = line_width (computeLineWidth \<lparr>tb_head = [''a'', ''bb''], tb_rows = [[''xyz'', []]]\<rparr>)"
proof -
  let ?t = "\<lparr>tb_head = [''a'', ''bb''], tb_rows = [[''xyz'', []]]\<rparr> :: table"
  have ok: "table_ok ?t" by (simp add: table_ok_def)
  have nl: "\<forall>row \<in> set (tb_head ?t # tb_rows ?t). \<forall>cell \<in> set row. CHR 0x0A \<notin> set cell" by simp
  have mem: "''+-------+------+'' \<in> set (splitLines (table_toString ?t))" by code_simp
  show ?thesis using ok table_toString_rectangular [OF ok nl mem] by simp
qed

end
