(* ===== verification/Float64.thy ===== *)
theory Float64
  imports MemSize
begin

text \<open>
  The floating-point operations the library uses, on the IEEE-754 bit patterns the machine
  keeps: a \<^verbatim>\<open>double\<close> is its 64-bit pattern. Conversions round to nearest, ties to even.
  Modelled are \<^verbatim>\<open>(double) i\<close>, \<^verbatim>\<open>(int64_t) f\<close>, \<^verbatim>\<open>std::stof\<close> followed by the widening to
  \<^verbatim>\<open>double\<close>, and the default \<^verbatim>\<open>operator<<\<close> (six significant digits, \<^verbatim>\<open>%g\<close>).
\<close>

section \<open>Rounding a fraction to a format\<close>

text \<open>
  A format is a precision \<open>p\<close> and the exponent \<open>emin\<close> of its smallest subnormal. The pattern
  without sign of \<open>m * 2 ^ e\<close> is \<open>(e - emin) * 2 ^ (p - 1) + m\<close>; a mantissa that rounds up to
  \<open>2 ^ p\<close> carries into the exponent.
\<close>

definition round_half_even :: "nat \<Rightarrow> nat \<Rightarrow> nat" where
  "round_half_even n d =
     (let q = n div d; r = n mod d
      in if 2 * r < d then q else if d < 2 * r then q + 1 else q + q mod 2)"

definition scaled :: "int \<Rightarrow> nat \<Rightarrow> nat \<Rightarrow> nat \<times> nat" where
  "scaled e n d = (if 0 \<le> e then (n, d * 2 ^ nat e) else (n * 2 ^ nat (- e), d))"

definition float_exponent :: "nat \<Rightarrow> nat \<Rightarrow> nat \<Rightarrow> int" where
  "float_exponent p n d =
     (let e = int (bit_length n) - int (bit_length d) - int p; (n', d') = scaled e n d
      in if 2 ^ p \<le> n' div d' then e + 1 else e)"

definition float_pattern :: "nat \<Rightarrow> int \<Rightarrow> nat \<Rightarrow> nat \<Rightarrow> nat" where
  "float_pattern p emin n d =
     (if n = 0 then 0
      else let e = max emin (float_exponent p n d); (n', d') = scaled e n d
        in nat (e - emin) * 2 ^ (p - 1) + round_half_even n' d')"

text \<open>The value of a finite pattern without sign, as mantissa and exponent.\<close>

definition float_value :: "nat \<Rightarrow> int \<Rightarrow> nat \<Rightarrow> nat \<times> int" where
  "float_value p emin b =
     (let E = b div 2 ^ (p - 1); F = b mod 2 ^ (p - 1)
      in if E = 0 then (F, emin) else (F + 2 ^ (p - 1), emin + int E - 1))"

section \<open>Doubles\<close>

type_synonym f64 = u64

definition f64_inf :: nat where
  "f64_inf = 2047 * 2 ^ 52"

definition f64_neg :: "f64 \<Rightarrow> bool" where
  "f64_neg x \<longleftrightarrow> 2 ^ 63 \<le> unat x"

definition f64_abs :: "f64 \<Rightarrow> nat" where
  "f64_abs x = unat x mod 2 ^ 63"

definition f64_make :: "bool \<Rightarrow> nat \<Rightarrow> f64" where
  "f64_make neg b = of_nat (if neg then 2 ^ 63 + b else b)"

definition f64_of_ratio :: "bool \<Rightarrow> nat \<Rightarrow> nat \<Rightarrow> f64" where
  "f64_of_ratio neg n d = f64_make neg (min f64_inf (float_pattern 53 (-1074) n d))"

text \<open>\<^verbatim>\<open>(double) i\<close> of an \<^verbatim>\<open>int64_t\<close>.\<close>

definition f64_of_int :: "int \<Rightarrow> f64" where
  "f64_of_int i = f64_of_ratio (i < 0) (nat \<bar>i\<bar>) 1"

text \<open>
  \<^verbatim>\<open>(int64_t) f\<close>: truncation; a value outside the range of the type (infinities and NaNs
  included) is undefined behaviour.
\<close>

definition f64_to_i64 :: "f64 \<Rightarrow> int res" where
  "f64_to_i64 x =
     (if f64_inf \<le> f64_abs x then Inl Undefined
      else let (m, e) = float_value 53 (-1074) (f64_abs x);
               v = int (if 0 \<le> e then m * 2 ^ nat e else m div 2 ^ nat (- e));
               i = (if f64_neg x then - v else v)
        in if i < - (2 ^ 63) \<or> 2 ^ 63 \<le> i then Inl Undefined else Inr i)"

section \<open>Decimal output\<close>

fun dec_length :: "nat \<Rightarrow> nat" where
  "dec_length n = (if n < 10 then 1 else Suc (dec_length (n div 10)))"

declare dec_length.simps [simp del]

definition dec_scaled :: "int \<Rightarrow> nat \<Rightarrow> nat \<Rightarrow> nat \<times> nat" where
  "dec_scaled e n d = (if 0 \<le> e then (n, d * 10 ^ nat e) else (n * 10 ^ nat (- e), d))"

text \<open>The six significant digits of \<open>n / d\<close> and the exponent of the first one.\<close>

definition six_digits :: "nat \<Rightarrow> nat \<Rightarrow> nat \<times> int" where
  "six_digits n d =
     (let x0 = int (dec_length n) - int (dec_length d) - 1;
          (a, b) = dec_scaled (x0 + 1) n d;
          x = (if b \<le> a then x0 + 1 else x0);
          (n', d') = dec_scaled (x - 5) n d;
          m = round_half_even n' d'
      in if m = 1000000 then (100000, x + 1) else (m, x))"

definition strip_zeros :: "string \<Rightarrow> string" where
  "strip_zeros s = rev (dropWhile (\<lambda>c. c = CHR ''0'') (rev s))"

definition with_point :: "string \<Rightarrow> string \<Rightarrow> string" where
  "with_point i f = (let f' = strip_zeros f in if f' = [] then i else i @ CHR ''.'' # f')"

definition show_ratio :: "nat \<Rightarrow> nat \<Rightarrow> string" where
  "show_ratio n d =
     (let (m, x) = six_digits n d; ds = show_nat m
      in if -4 \<le> x \<and> x < 6 then
           (if 0 \<le> x then with_point (take (nat x + 1) ds) (drop (nat x + 1) ds)
            else with_point ''0'' (replicate (nat (- x) - 1) (CHR ''0'') @ ds))
         else with_point (take 1 ds) (drop 1 ds) @ ''e'' @ (if x < 0 then ''-'' else ''+'') @
           (let es = show_nat (nat \<bar>x\<bar>) in if length es < 2 then CHR ''0'' # es else es))"

definition show_f64 :: "f64 \<Rightarrow> string" where
  "show_f64 x =
     (if f64_neg x then ''-'' else '''') @
     (if f64_abs x = f64_inf then ''inf''
      else if f64_inf < f64_abs x then ''nan''
      else if f64_abs x = 0 then ''0''
      else let (m, e) = float_value 53 (-1074) (f64_abs x)
        in if 0 \<le> e then show_ratio (m * 2 ^ nat e) 1 else show_ratio m (2 ^ nat (- e)))"

section \<open>Decimal input\<close>

text \<open>
  A numeral of \<^verbatim>\<open>strtof\<close>: digits with at most one point and at least one digit, in base 10
  (exponent mark \<open>e\<close>, power of ten) or, after \<^verbatim>\<open>0x\<close>, in base 16 (mark \<open>p\<close>, power of two).
  \<open>scan_frac\<close> returns the digits as a number, how many of them follow the point, whether there
  was a digit, and the rest of the text.
\<close>

fun scan_frac :: "nat \<Rightarrow> bool \<Rightarrow> nat \<Rightarrow> nat \<Rightarrow> bool \<Rightarrow> string \<Rightarrow> nat \<times> nat \<times> bool \<times> string" where
  "scan_frac base pt acc k seen [] = (acc, k, seen, [])"
| "scan_frac base pt acc k seen (c # cs) =
     (if c = CHR ''.'' \<and> \<not> pt then scan_frac base True acc k seen cs
      else case digit_of c of
          None \<Rightarrow> (acc, k, seen, c # cs)
        | Some d \<Rightarrow> if d < base then scan_frac base pt (acc * base + d) (if pt then k + 1 else k) True cs
            else (acc, k, seen, c # cs))"

text \<open>The exponent part, 0 when it is absent or has no digit.\<close>

definition scan_exp :: "char \<Rightarrow> string \<Rightarrow> int" where
  "scan_exp mark s =
     (case s of
        [] \<Rightarrow> 0
      | c # cs \<Rightarrow> if tolower c = mark then
          (let (neg, t) = strip_sign cs; (v, _) = scan_digits 10 0 False t
           in if neg then - int v else int v) else 0)"

datatype number = Finite nat nat | Infinite | NotANumber

definition fraction :: "nat \<Rightarrow> nat \<Rightarrow> int \<Rightarrow> number" where
  "fraction base m e =
     (if 0 \<le> e then Finite (m * base ^ nat e) 1 else Finite m (base ^ nat (- e)))"

definition hex_numeral :: "string \<Rightarrow> bool" where
  "hex_numeral t \<longleftrightarrow> is_hex_prefix t \<or>
     (case t of
        z # x # p # d # _ \<Rightarrow> z = CHR ''0'' \<and> tolower x = CHR ''x'' \<and> p = CHR ''.'' \<and>
          (case digit_of d of None \<Rightarrow> False | Some v \<Rightarrow> v < 16)
      | _ \<Rightarrow> False)"

definition scan_number :: "string \<Rightarrow> number option" where
  "scan_number t =
     (let low = map tolower t in
      if is_prefix ''inf'' low then Some Infinite
      else if is_prefix ''nan'' low then Some NotANumber
      else if hex_numeral t then
        (let (m, k, _, r) = scan_frac 16 False 0 0 False (drop 2 t)
         in Some (fraction 2 m (scan_exp (CHR ''p'') r - 4 * int k)))
      else
        (let (m, k, seen, r) = scan_frac 10 False 0 0 False t
         in if seen then Some (fraction 10 m (scan_exp (CHR ''e'') r - int k)) else None))"

text \<open>
  \<^verbatim>\<open>std::stof\<close>: rounding to the 24-bit format; an overflow, and an inexact result below the
  normal range, throw. The \<^verbatim>\<open>float\<close> is then widened to a \<^verbatim>\<open>double\<close>, which is exact.
\<close>

definition f32_inf :: nat where
  "f32_inf = 255 * 2 ^ 23"

definition f32_tiny :: "nat \<Rightarrow> nat \<Rightarrow> bool" where
  "f32_tiny n d \<longleftrightarrow>
     (let e = float_exponent 24 n d; (n', d') = scaled e n d; m = round_half_even n' d'
      in e < -149 \<and> \<not> (e = -150 \<and> m = 2 ^ 24))"

definition f32_exact :: "nat \<Rightarrow> nat \<Rightarrow> bool" where
  "f32_exact n d \<longleftrightarrow> (let (n', d') = scaled (-149) n d in n' mod d' = 0)"

definition stof :: "string \<Rightarrow> f64 res" where
  "stof s =
     (let (neg, t) = strip_sign (dropWhile isspace s) in
      case scan_number t of
        None \<Rightarrow> Inl InvalidArgument
      | Some Infinite \<Rightarrow> Inr (f64_make neg f64_inf)
      | Some NotANumber \<Rightarrow> Inr (f64_make neg (f64_inf + 2 ^ 51))
      | Some (Finite n d) \<Rightarrow>
          (let b = float_pattern 24 (-149) n d in
           if f32_inf \<le> b \<or> (n \<noteq> 0 \<and> f32_tiny n d \<and> \<not> f32_exact n d) then Inl OutOfRange
           else let (m, e) = float_value 24 (-149) b
             in Inr (if 0 \<le> e then f64_of_ratio neg (m * 2 ^ nat e) 1
                     else f64_of_ratio neg m (2 ^ nat (- e)))))"

section \<open>Integers are exact\<close>

lemma bit_length_1: "bit_length 1 = 1" "bit_length (Suc 0) = 1"
  using bit_length.simps [of 1] bit_length.simps [of 0] by simp_all

lemma round_half_even_dvd: "0 < d \<Longrightarrow> round_half_even (m * d) d = m"
  by (simp add: round_half_even_def Let_def)

lemma div_pow_ge:
  assumes "0 < n" and "bit_length n = b"
  shows "(2::nat) ^ (k + b - 1) \<le> n * 2 ^ k"
proof -
  from bit_length_bounds [OF assms(1)] assms(2) have "2 ^ (b - 1) \<le> n" "0 < b" by auto
  then have "2 ^ (b - 1) * 2 ^ k \<le> n * 2 ^ k" by simp
  also have "(2::nat) ^ (b - 1) * 2 ^ k = 2 ^ (k + b - 1)"
    using \<open>0 < b\<close> by (simp add: power_add [symmetric] add.commute)
  finally show ?thesis .
qed

text \<open>A positive integer of at most 53 bits is its own mantissa, shifted.\<close>

lemma float_pattern_int:
  assumes "0 < n" and "bit_length n \<le> 53"
  defines "s \<equiv> 53 - bit_length n"
  shows "float_pattern 53 (-1074) n 1 = (1074 - s) * 2 ^ 52 + n * 2 ^ s"
proof -
  let ?b = "bit_length n"
  have b: "0 < ?b" using bit_length_bounds [OF assms(1)] by simp
  have e0: "int ?b - int (bit_length 1) - int 53 = - int (54 - ?b)"
    using assms(2) by (simp add: bit_length_1)
  have "(2::nat) ^ 53 \<le> n * 2 ^ (54 - ?b)"
    using div_pow_ge [OF assms(1) refl, of "54 - ?b"] assms(2) by simp
  moreover have "nat (54 - int ?b) = 54 - ?b" using assms(2) by linarith
  ultimately have fe: "float_exponent 53 n 1 = - int s"
    using assms(2) unfolding float_exponent_def e0 by (simp add: scaled_def Let_def s_def)
  have mx: "max (-1074) (- int s) = - int s" unfolding s_def by simp
  have "round_half_even k 1 = k" for k using round_half_even_dvd [of 1 k] by simp
  then have "float_pattern 53 (-1074) n 1 = nat (- int s + 1074) * 2 ^ 52 + n * 2 ^ s"
    using assms(1) unfolding float_pattern_def fe mx by (simp add: Let_def scaled_def)
  moreover have "nat (- int s + 1074) = 1074 - s" unfolding s_def by simp
  ultimately show ?thesis by simp
qed

lemma float_value_int:
  assumes "0 < n" and "bit_length n \<le> 53"
  defines "s \<equiv> 53 - bit_length n"
  shows "float_value 53 (-1074) ((1074 - s) * 2 ^ 52 + n * 2 ^ s) = (n * 2 ^ s, - int s)"
proof -
  have up: "n * 2 ^ s < 2 ^ 53"
  proof -
    have "n * 2 ^ s < 2 ^ bit_length n * 2 ^ s" using bit_length_bounds [OF assms(1)] by simp
    also have "(2::nat) ^ bit_length n * 2 ^ s = 2 ^ 53"
      using assms(2) by (simp add: s_def power_add [symmetric])
    finally show ?thesis .
  qed
  have lo: "2 ^ 52 \<le> n * 2 ^ s"
    using div_pow_ge [OF assms(1) refl, of s] assms(2) bit_length_bounds [OF assms(1)] by (simp add: s_def)
  define F where "F = n * 2 ^ s - 2 ^ 52"
  have F: "n * 2 ^ s = 2 ^ 52 + F" "F < 2 ^ 52" using lo up by (simp_all add: F_def)
  have s: "s \<le> 52" using conjunct2 [OF conjunct2 [OF bit_length_bounds [OF assms(1)]]] by (simp add: s_def)
  have eq: "(1074 - s) * 2 ^ 52 + n * 2 ^ s = (1075 - s) * 2 ^ 52 + F"
    using s F(1) by (simp add: algebra_simps diff_mult_distrib)
  have "((1075 - s) * 2 ^ 52 + F) div 2 ^ 52 = 1075 - s" "((1075 - s) * 2 ^ 52 + F) mod 2 ^ 52 = F"
    using F(2) by simp_all
  moreover have "0 < 1075 - s" using s by simp
  ultimately show ?thesis using s F unfolding float_value_def eq by (simp add: Let_def of_nat_diff)
qed

text \<open>Integers of at most 53 bits survive the trip through a \<^verbatim>\<open>double\<close>.\<close>

lemma f64_int_roundtrip:
  assumes "\<bar>i\<bar> < 2 ^ 53"
  shows "f64_to_i64 (f64_of_int i) = Inr i"
proof (cases "i = 0")
  case True
  show ?thesis
    unfolding True by (simp add: f64_of_int_def f64_of_ratio_def float_pattern_def f64_make_def
        f64_to_i64_def f64_abs_def f64_inf_def float_value_def)
next
  case False
  define n where "n = nat \<bar>i\<bar>"
  have n: "0 < n" "n < 2 ^ 53" using False assms by (simp_all add: n_def nat_less_iff)
  have "bit_length n \<le> 53"
  proof (rule ccontr)
    assume "\<not> bit_length n \<le> 53"
    then have "(2::nat) ^ 53 \<le> 2 ^ (bit_length n - 1)" by (intro power_increasing) auto
    with bit_length_bounds [OF n(1)] n(2) show False by simp
  qed
  note bl = this
  define s where "s = 53 - bit_length n"
  let ?p = "(1074 - s) * 2 ^ 52 + n * 2 ^ s"
  have s: "s \<le> 52" using conjunct2 [OF conjunct2 [OF bit_length_bounds [OF n(1)]]] by (simp add: s_def)
  have "n * 2 ^ s < 2 ^ bit_length n * 2 ^ s" using bit_length_bounds [OF n(1)] by simp
  also have "(2::nat) ^ bit_length n * 2 ^ s = 2 ^ 53" using bl by (simp add: s_def power_add [symmetric])
  finally have p: "?p < f64_inf" by (simp add: f64_inf_def)
  have x: "f64_of_int i = f64_make (i < 0) ?p"
    using p float_pattern_int [OF n(1) bl, folded s_def] by (simp add: f64_of_int_def f64_of_ratio_def n_def)
  have pb: "?p < 2 ^ 63" using p by (simp add: f64_inf_def)
  then have "unat (f64_make (i < 0) ?p) = (if i < 0 then 2 ^ 63 + ?p else ?p)"
    by (simp add: f64_make_def unat_of_nat)
  then have sg: "f64_abs (f64_make (i < 0) ?p) = ?p" "f64_neg (f64_make (i < 0) ?p) \<longleftrightarrow> i < 0"
    using pb by (simp_all add: f64_abs_def f64_neg_def del: power_numeral)
  have v: "float_value 53 (-1074) ?p = (n * 2 ^ s, - int s)" using float_value_int [OF n(1) bl, folded s_def] .
  have tr: "(if 0 \<le> - int s then n * 2 ^ s * 2 ^ nat (- int s) else n * 2 ^ s div 2 ^ nat (- (- int s))) = n"
    by (cases "s = 0") (simp_all add: nat_minus_as_int)
  have "(if i < 0 then - int n else int n) = i" by (simp add: n_def)
  moreover have "- (2 ^ 63) \<le> i" "i < 2 ^ 63" using assms by simp_all
  ultimately show ?thesis
    using p assms unfolding x f64_to_i64_def sg v prod.case Let_def tr by simp
qed

end
