(* ===== verification/Config.thy ===== *)
theory Config
  imports Float64
begin

text \<open>
  \<^verbatim>\<open>utils/config/\<close>: the tree of configuration nodes. The class hierarchy under
  \<^verbatim>\<open>ConfigNode\<close> is a datatype with one constructor per final class; a virtual function is a
  function by cases whose default is the base class, which throws \<^verbatim>\<open>ConfigError\<close>. A
  \<^verbatim>\<open>Dict\<close> has the two members of the C++ class: the ordered set \<^verbatim>\<open>_keys\<close> and the ordered
  map \<^verbatim>\<open>_nodes\<close>. Nodes are values: the sharing of a subtree through \<^verbatim>\<open>shared_ptr\<close> is not
  represented. An \<^verbatim>\<open>int64_t\<close> is a 64-bit word read with \<^const>\<open>sint\<close>, a \<^verbatim>\<open>double\<close> its pattern.
\<close>

type_synonym i64 = "64 word"

datatype config =
    Dict "string list" "(string \<times> config) list"
  | Array "config list"
  | CInt i64
  | CFloat f64
  | CString string
  | CBool bool

section \<open>Access\<close>

definition config_at_key :: "config \<Rightarrow> string \<Rightarrow> config res" where
  "config_at_key c key =
     (case c of
        Dict _ nodes \<Rightarrow> (case map_of nodes key of None \<Rightarrow> Inl ConfigError | Some v \<Rightarrow> Inr v)
      | _ \<Rightarrow> Inl ConfigError)"

definition config_at :: "config \<Rightarrow> u32 \<Rightarrow> config res" where
  "config_at c i =
     (case c of
        Array nodes \<Rightarrow> if length nodes \<le> unat i then Inl ConfigError else Inr (nodes ! unat i)
      | _ \<Rightarrow> Inl ConfigError)"

definition config_contains :: "config \<Rightarrow> string \<Rightarrow> bool" where
  "config_contains c key =
     (case c of Dict _ nodes \<Rightarrow> map_of nodes key \<noteq> None | _ \<Rightarrow> False)"

definition isTrue :: "config \<Rightarrow> bool res" where
  "isTrue c = (case c of CBool b \<Rightarrow> Inr b | _ \<Rightarrow> Inl ConfigError)"

definition getI :: "config \<Rightarrow> i64 res" where
  "getI c =
     (case c of
        CInt i \<Rightarrow> Inr i
      | CFloat f \<Rightarrow> ebind (f64_to_i64 f) (\<lambda>i. Inr (word_of_int i))
      | _ \<Rightarrow> Inl ConfigError)"

definition getF :: "config \<Rightarrow> f64 res" where
  "getF c =
     (case c of
        CInt i \<Rightarrow> Inr (f64_of_int (sint i))
      | CFloat f \<Rightarrow> Inr f
      | _ \<Rightarrow> Inl ConfigError)"

definition getStr :: "config \<Rightarrow> string res" where
  "getStr c = (case c of CString s \<Rightarrow> Inr s | _ \<Rightarrow> Inl ConfigError)"

text \<open>
  \<^verbatim>\<open>getOr\<close>: every exception is caught and replaced by the default; undefined behaviour is
  not an exception and stays.
\<close>

definition or_default :: "'a res \<Rightarrow> 'a \<Rightarrow> 'a res" where
  "or_default r d = (case r of Inl e \<Rightarrow> if e = Undefined then Inl e else Inr d | Inr v \<Rightarrow> Inr v)"

definition getOrI :: "config \<Rightarrow> string \<Rightarrow> i64 \<Rightarrow> i64 res" where
  "getOrI c key d = or_default (ebind (config_at_key c key) getI) d"

definition getOrI32 :: "config \<Rightarrow> string \<Rightarrow> u32 \<Rightarrow> i64 res" where
  "getOrI32 c key d = or_default (ebind (config_at_key c key) getI) (scast d)"

definition getOrF :: "config \<Rightarrow> string \<Rightarrow> f64 \<Rightarrow> f64 res" where
  "getOrF c key d = or_default (ebind (config_at_key c key) getF) d"

definition getOrStr :: "config \<Rightarrow> string \<Rightarrow> string \<Rightarrow> string res" where
  "getOrStr c key d = or_default (ebind (config_at_key c key) getStr) d"

definition getOrBool :: "config \<Rightarrow> string \<Rightarrow> bool \<Rightarrow> bool res" where
  "getOrBool c key d = or_default (ebind (config_at_key c key) isTrue) d"

section \<open>Construction\<close>

definition emptyDict :: config where
  "emptyDict = Dict [] []"

text \<open>\<^verbatim>\<open>Dict::insert\<close> and \<^verbatim>\<open>Array::insert\<close>; they are methods of those two classes only.\<close>

definition dict_insert :: "string \<Rightarrow> config \<Rightarrow> config \<Rightarrow> config" where
  "dict_insert key v c =
     (case c of Dict ks nodes \<Rightarrow> Dict (set_insert key ks) (map_assign key v nodes) | _ \<Rightarrow> c)"

definition dict_insert_str :: "string \<Rightarrow> string \<Rightarrow> config \<Rightarrow> config" where
  "dict_insert_str key v = dict_insert key (CString v)"

definition dict_insert_int :: "string \<Rightarrow> i64 \<Rightarrow> config \<Rightarrow> config" where
  "dict_insert_int key v = dict_insert key (CInt v)"

definition dict_insert_float :: "string \<Rightarrow> f64 \<Rightarrow> config \<Rightarrow> config" where
  "dict_insert_float key v = dict_insert key (CFloat v)"

text \<open>\<^verbatim>\<open>getInDic\<close>: the inner dictionary, a null pointer when it is absent or of another class.\<close>

definition getInDic :: "config \<Rightarrow> string \<Rightarrow> config option" where
  "getInDic c key =
     (case c of
        Dict _ nodes \<Rightarrow> (case map_of nodes key of Some (Dict ks ns) \<Rightarrow> Some (Dict ks ns) | _ \<Rightarrow> None)
      | _ \<Rightarrow> None)"

definition getKeys :: "config \<Rightarrow> string list" where
  "getKeys c = (case c of Dict ks _ \<Rightarrow> ks | _ \<Rightarrow> [])"

definition getValues :: "config \<Rightarrow> (string \<times> config) list" where
  "getValues c = (case c of Dict _ nodes \<Rightarrow> nodes | _ \<Rightarrow> [])"

definition array_insert :: "config \<Rightarrow> config \<Rightarrow> config" where
  "array_insert v c = (case c of Array nodes \<Rightarrow> Array (nodes @ [v]) | _ \<Rightarrow> c)"

definition array_insert_str :: "string \<Rightarrow> config \<Rightarrow> config" where
  "array_insert_str v = array_insert (CString v)"

definition array_insert_int :: "i64 \<Rightarrow> config \<Rightarrow> config" where
  "array_insert_int v = array_insert (CInt v)"

definition array_insert_float :: "f64 \<Rightarrow> config \<Rightarrow> config" where
  "array_insert_float v = array_insert (CFloat v)"

definition getLen :: "config \<Rightarrow> u32" where
  "getLen c = (case c of Array nodes \<Rightarrow> of_nat (length nodes) | _ \<Rightarrow> 0)"

section \<open>Printing\<close>

fun join :: "string \<Rightarrow> string list \<Rightarrow> string" where
  "join sep [] = []"
| "join sep [x] = x"
| "join sep (x # y # xs) = x @ sep @ join sep (y # xs)"

fun config_format :: "config \<Rightarrow> string" where
  "config_format (Dict _ nodes) =
     ''{'' @ join '', '' (map (\<lambda>(k, v). k @ '' => '' @ config_format v) nodes) @ ''}''"
| "config_format (Array nodes) = ''['' @ join '', '' (map config_format nodes) @ '']''"
| "config_format (CInt i) = show_int (sint i)"
| "config_format (CFloat f) = show_f64 f"
| "config_format (CString s) = s"
| "config_format (CBool b) = (if b then ''true'' else ''false'')"

section \<open>The invariant of the tree\<close>

fun config_ok :: "config \<Rightarrow> bool" where
  "config_ok (Dict ks nodes) \<longleftrightarrow>
     ks = map fst nodes \<and> map_ok nodes \<and> (\<forall>p \<in> set nodes. config_ok (snd p))"
| "config_ok (Array nodes) \<longleftrightarrow> (\<forall>c \<in> set nodes. config_ok c)"
| "config_ok (CInt _) \<longleftrightarrow> True"
| "config_ok (CFloat _) \<longleftrightarrow> True"
| "config_ok (CString _) \<longleftrightarrow> True"
| "config_ok (CBool _) \<longleftrightarrow> True"

fun is_dict :: "config \<Rightarrow> bool" where
  "is_dict (Dict _ _) \<longleftrightarrow> True"
| "is_dict _ \<longleftrightarrow> False"

definition dict_lookup :: "config \<Rightarrow> string \<Rightarrow> config option" where
  "dict_lookup c key = (case c of Dict _ nodes \<Rightarrow> map_of nodes key | _ \<Rightarrow> None)"

definition dict_ok :: "config \<Rightarrow> bool" where
  "dict_ok c \<longleftrightarrow> (case c of Dict ks nodes \<Rightarrow> ks = map fst nodes \<and> map_ok nodes | _ \<Rightarrow> False)"

lemma set_map_assign: "set (map_assign k v m) \<subseteq> insert (k, v) (set m)"
  by (induction k v m rule: map_assign.induct) auto

lemma dict_insert_ok:
  "config_ok d \<Longrightarrow> config_ok v \<Longrightarrow> config_ok (dict_insert k v d)"
proof (cases d)
  case (Dict ks nodes)
  assume ok: "config_ok d" "config_ok v"
  have "config_ok (snd p)" if "p \<in> set (map_assign k v nodes)" for p
    using that ok Dict set_map_assign [of k v nodes] by auto
  then show ?thesis using ok Dict by (simp add: dict_insert_def keys_map_assign map_ok_assign)
qed (simp_all add: dict_insert_def)

interpretation dict_map: assoc_map emptyDict dict_insert dict_lookup dict_ok "\<lambda>_. True"
  by unfold_locales
    (auto simp: emptyDict_def dict_lookup_def dict_insert_def dict_ok_def keys_map_assign
      map_ok_assign map_of_assign split: config.splits, simp_all add: map_ok_def)

lemma config_at_key_lookup:
  "config_at_key c key = (case dict_lookup c key of None \<Rightarrow> Inl ConfigError | Some v \<Rightarrow> Inr v)"
  by (cases c) (simp_all add: config_at_key_def dict_lookup_def)

lemma config_contains_lookup: "config_contains c key \<longleftrightarrow> dict_lookup c key \<noteq> None"
  by (cases c) (simp_all add: config_contains_def dict_lookup_def)

text \<open>
  A dictionary filled by any sequence of insertions of distinct keys is well formed, answers
  every key with the value that was inserted under it and throws for every other key, and does
  not depend on the order of the insertions.
\<close>

theorem dict_insertions:
  assumes "distinct (map fst kvs)" and "\<forall>(k, v) \<in> set kvs. config_ok v" and "set kvs' = set kvs"
    and "distinct (map fst kvs')"
  defines "d \<equiv> fold (\<lambda>(k, v). dict_insert k v) kvs emptyDict"
  shows "config_ok d \<and>
    (\<forall>key. config_at_key d key = (case map_of kvs key of None \<Rightarrow> Inl ConfigError | Some v \<Rightarrow> Inr v)) \<and>
    (\<forall>key. config_contains d key \<longleftrightarrow> key \<in> fst ` set kvs) \<and>
    fold (\<lambda>(k, v). dict_insert k v) kvs' emptyDict = d"
proof -
  have d: "d = dict_map.updates kvs emptyDict" by (simp add: d_def dict_map.updates_def)
  have lk: "dict_lookup d = map_of kvs" unfolding d using assms(1) by (intro dict_map.updates_empty) auto
  have lk': "dict_lookup (dict_map.updates kvs' emptyDict) = map_of kvs"
    using assms(1,3,4) dict_map.updates_empty [of kvs'] map_of_inject_set [of kvs' kvs] by simp
  have inv: "dict_ok d" "dict_ok (dict_map.updates kvs' emptyDict)"
    unfolding d using dict_map.updates_spec [OF dict_map.inv_empty] by auto
  have "config_ok c \<Longrightarrow> config_ok (fold (\<lambda>(k, v). dict_insert k v) kvs c)" for c
    using assms(2) by (induction kvs arbitrary: c) (auto intro: dict_insert_ok)
  then have "config_ok d" unfolding d_def by (simp add: emptyDict_def map_ok_def)
  moreover have "dict_map.updates kvs' emptyDict = d"
  proof -
    obtain m where m: "d = Dict (map fst m) m" "map_ok m"
      using inv(1) by (cases d) (auto simp: dict_ok_def)
    obtain n where n: "dict_map.updates kvs' emptyDict = Dict (map fst n) n" "map_ok n"
      using inv(2) by (cases "dict_map.updates kvs' emptyDict") (auto simp: dict_ok_def)
    have "dict_lookup (Dict (map fst m) m) = map_of kvs" using lk m(1) by simp
    moreover have "dict_lookup (Dict (map fst n) n) = map_of kvs" using lk' n(1) by simp
    ultimately have "map_of n = map_of m" by (simp add: dict_lookup_def fun_eq_iff)
    with m n map_ok_unique show ?thesis by metis
  qed
  ultimately show ?thesis
    by (auto simp: config_at_key_lookup config_contains_lookup lk dict_map.updates_def
        map_of_eq_None_iff split: option.splits)
qed

theorem dict_insertions_witness:
  "fold (\<lambda>(k, v). dict_insert k v) [(''b'', CBool True), (''a'', CInt 1)] emptyDict =
   fold (\<lambda>(k, v). dict_insert k v) [(''a'', CInt 1), (''b'', CBool True)] emptyDict"
proof -
  have "set [(''b'', CBool True), (''a'', CInt 1)] = set [(''a'', CInt 1), (''b'', CBool True)]" by auto
  with dict_insertions [of "[(''a'', CInt 1), (''b'', CBool True)]"
      "[(''b'', CBool True), (''a'', CInt 1)]"] show ?thesis by simp
qed

text \<open>
  The typed accessors with a default: the value is returned exactly when the key is bound to a
  node that can be read at the type (a number for \<open>getI\<close>, where a double is truncated; a string;
  a boolean), and the default in every other case.
\<close>

theorem getOr_spec:
  "getOrI c key d =
     (case dict_lookup c key of
        Some (CInt i) \<Rightarrow> Inr i
      | Some (CFloat f) \<Rightarrow> ebind (f64_to_i64 f) (\<lambda>i. Inr (word_of_int i))
      | _ \<Rightarrow> Inr d) \<and>
   getOrI32 c key d32 = getOrI c key (scast d32) \<and>
   getOrF c key df =
     (case dict_lookup c key of
        Some (CInt i) \<Rightarrow> Inr (f64_of_int (sint i)) | Some (CFloat f) \<Rightarrow> Inr f | _ \<Rightarrow> Inr df) \<and>
   getOrStr c key ds = (case dict_lookup c key of Some (CString s) \<Rightarrow> Inr s | _ \<Rightarrow> Inr ds) \<and>
   getOrBool c key db = (case dict_lookup c key of Some (CBool b) \<Rightarrow> Inr b | _ \<Rightarrow> Inr db)"
proof -
  have "f64_to_i64 f = Inl e \<Longrightarrow> e = Undefined" for f e
    by (auto simp: f64_to_i64_def Let_def split: if_splits prod.splits)
  then show ?thesis
    by (auto simp: getOrI_def getOrI32_def getOrF_def getOrStr_def getOrBool_def or_default_def
        config_at_key_lookup getI_def getF_def getStr_def isTrue_def ebind_def
        split: option.splits config.splits sum.splits)
qed

text \<open>
  An integer node read as a float, stored in a float node and read back as an integer is the same
  integer, as long as it has at most 53 bits.
\<close>

theorem int_float_roundtrip:
  assumes "\<bar>sint i\<bar> < 2 ^ 53"
  shows "ebind (getF (CInt i)) (\<lambda>f. getI (CFloat f)) = Inr i"
  using f64_int_roundtrip [OF assms] by (simp add: getF_def getI_def)

theorem int_float_roundtrip_witness: "ebind (getF (CInt 5)) (\<lambda>f. getI (CFloat f)) = Inr 5"
  by (rule int_float_roundtrip) simp

end
