(* ===== verification/Tokenizer.thy ===== *)
theory Tokenizer
  imports Prelude
begin

text \<open>
  \<^verbatim>\<open>utils/tokenizer.cc\<close>: the tokens of a grammar, kept as a trie of \<open>TokenNode\<close>s, and the
  cutting of a text into tokens. The abstraction of a trie is the map from its tokens to their
  attributes (\<open>tn_lookup\<close>, \<open>tk_lookup\<close>).
\<close>

section \<open>Nodes\<close>

record token_result =
  tr_len :: nat
  tr_skip :: bool
  tr_commentEnd :: string

datatype token_node =
  TokenNode (tn_key: char) (tn_isToken: bool) (tn_heads: "token_node list")
    (tn_keyHeads: "char list") (tn_isSkip: bool) (tn_isComment: bool) (tn_closing: string)

text \<open>The constructor with its default arguments.\<close>

definition tn_new :: "char \<Rightarrow> token_node" where
  "tn_new key = TokenNode key False [] [] False False []"

text \<open>The search loop \<^verbatim>\<open>for (i = 0 ; i < keyHeads.size () ; i++) if (keyHeads [i] == c)\<close>.\<close>

fun key_index :: "char list \<Rightarrow> char \<Rightarrow> nat option" where
  "key_index [] c = None"
| "key_index (k # ks) c = (if k = c then Some 0 else map_option Suc (key_index ks c))"

fun tn_insert :: "token_node \<Rightarrow> string \<Rightarrow> bool \<Rightarrow> string \<Rightarrow> token_node" where
  "tn_insert (TokenNode key isToken heads keyHeads sk com closing) [] isSkip isComment =
     TokenNode key True heads keyHeads isSkip (isComment \<noteq> []) isComment"
| "tn_insert (TokenNode key isToken heads keyHeads sk com closing) (c # str) isSkip isComment =
     (case key_index keyHeads c of
        Some i \<Rightarrow>
          TokenNode key isToken (heads[i := tn_insert (heads ! i) str isSkip isComment]) keyHeads sk com closing
      | None \<Rightarrow>
          TokenNode key isToken (heads @ [tn_insert (tn_new c) str isSkip isComment]) (keyHeads @ [c])
            sk com closing)"

definition no_token :: token_result where
  "no_token = \<lparr>tr_len = 0, tr_skip = False, tr_commentEnd = []\<rparr>"

definition tn_own :: "token_node \<Rightarrow> token_result" where
  "tn_own n =
     (if tn_isToken n then \<lparr>tr_len = 1, tr_skip = tn_isSkip n, tr_commentEnd = tn_closing n\<rparr>
      else no_token)"

text \<open>
  \<^verbatim>\<open>TokenNode::len (content, len)\<close>, the remaining content being the list; \<open>tn_len_heads\<close> is
  its loop over the continuations.
\<close>

function (sequential) tn_len :: "token_node \<Rightarrow> string \<Rightarrow> token_result"
  and tn_len_heads :: "char list \<Rightarrow> token_node list \<Rightarrow> char \<Rightarrow> string \<Rightarrow> token_result option" where
  "tn_len n [] = tn_own n"
| "tn_len n (c # content) =
     (case tn_len_heads (tn_keyHeads n) (tn_heads n) c content of
        Some sub \<Rightarrow> sub
      | None \<Rightarrow> tn_own n)"
| "tn_len_heads (k # ks) (h # hs) c content =
     (if c = k then
        (let sub = tn_len h content in
         if tr_len sub \<noteq> 0 then Some (sub\<lparr>tr_len := tr_len sub + 1\<rparr>)
         else tn_len_heads ks hs c content)
      else tn_len_heads ks hs c content)"
| "tn_len_heads _ _ c content = None"
  by pat_completeness auto
termination
  by (relation "measures [\<lambda>x. case x of Inl (n, s) \<Rightarrow> length s | Inr (ks, hs, c, s) \<Rightarrow> length s,
        \<lambda>x. case x of Inl (n, s) \<Rightarrow> 0 | Inr (ks, hs, c, s) \<Rightarrow> Suc (length ks)]") auto

section \<open>The tokenizer\<close>

record tokenizer =
  tk_heads :: "token_node list"
  tk_keyHeads :: "char list"

definition tk_new :: tokenizer where
  "tk_new = \<lparr>tk_heads = [], tk_keyHeads = []\<rparr>"

definition tk_insert :: "tokenizer \<Rightarrow> string \<Rightarrow> bool \<Rightarrow> string \<Rightarrow> tokenizer" where
  "tk_insert t token isSkip isComment =
     (case token of
        [] \<Rightarrow> t
      | c # rest \<Rightarrow>
          (case key_index (tk_keyHeads t) c of
             Some i \<Rightarrow> t\<lparr>tk_heads := (tk_heads t)[i := tn_insert (tk_heads t ! i) rest isSkip isComment]\<rparr>
           | None \<Rightarrow> t\<lparr>tk_keyHeads := tk_keyHeads t @ [c],
                       tk_heads := tk_heads t @ [tn_insert (tn_new c) rest isSkip isComment]\<rparr>))"

definition tk_find :: "tokenizer \<Rightarrow> char \<Rightarrow> nat" where
  "tk_find t tok = (case key_index (tk_keyHeads t) tok of Some i \<Rightarrow> i | None \<Rightarrow> length (tk_keyHeads t))"

text \<open>The loop of \<^verbatim>\<open>Tokenizer::next\<close> at index \<open>i\<close>, \<open>rest\<close> being the text from there on.\<close>

fun tk_next_loop :: "tokenizer \<Rightarrow> nat \<Rightarrow> string \<Rightarrow> token_result" where
  "tk_next_loop t i [] = no_token"
| "tk_next_loop t i (c # rest) =
     (let index = tk_find t c in
      if index \<noteq> length (tk_keyHeads t) then
        (if i \<noteq> 0 then \<lparr>tr_len = i, tr_skip = False, tr_commentEnd = []\<rparr>
         else let sub = tn_len (tk_heads t ! index) rest in
           if tr_len sub \<noteq> 0 then sub else tk_next_loop t (i + 1) rest)
      else tk_next_loop t (i + 1) rest)"

definition tk_next :: "tokenizer \<Rightarrow> string \<Rightarrow> token_result" where
  "tk_next t str = (if str = [] then no_token else tk_next_loop t 0 str)"

section \<open>Abstraction\<close>

type_synonym token_attr = "bool \<times> string"

fun tn_lookup :: "token_node \<Rightarrow> string \<Rightarrow> token_attr option" where
  "tn_lookup (TokenNode key isToken heads keyHeads sk com closing) [] =
     (if isToken then Some (sk, closing) else None)"
| "tn_lookup (TokenNode key isToken heads keyHeads sk com closing) (c # str) =
     (case key_index keyHeads c of Some i \<Rightarrow> tn_lookup (heads ! i) str | None \<Rightarrow> None)"

definition tk_lookup :: "tokenizer \<Rightarrow> string \<Rightarrow> token_attr option" where
  "tk_lookup t token =
     (case token of
        [] \<Rightarrow> None
      | c # rest \<Rightarrow>
          (case key_index (tk_keyHeads t) c of Some i \<Rightarrow> tn_lookup (tk_heads t ! i) rest | None \<Rightarrow> None))"

text \<open>
  Well-formedness: the two parallel vectors of a node have the same length and the keys are
  distinct.
\<close>

fun tn_wf :: "token_node \<Rightarrow> bool" where
  "tn_wf (TokenNode key isToken heads keyHeads sk com closing) \<longleftrightarrow>
     length heads = length keyHeads \<and> distinct keyHeads \<and> (\<forall>h \<in> set heads. tn_wf h)"

definition tk_wf :: "tokenizer \<Rightarrow> bool" where
  "tk_wf t \<longleftrightarrow>
     length (tk_heads t) = length (tk_keyHeads t) \<and> distinct (tk_keyHeads t) \<and>
     (\<forall>h \<in> set (tk_heads t). tn_wf h)"

lemma key_index_Some: "key_index ks c = Some i \<Longrightarrow> i < length ks \<and> ks ! i = c"
  by (induction ks arbitrary: i) (auto split: if_splits)

lemma key_index_None: "key_index ks c = None \<longleftrightarrow> c \<notin> set ks"
  by (induction ks) auto

lemma key_index_append:
  "key_index (ks @ [c]) d =
     (case key_index ks d of Some i \<Rightarrow> Some i | None \<Rightarrow> if d = c then Some (length ks) else None)"
  by (induction ks) (auto split: option.splits)

lemma key_index_distinct: "distinct ks \<Longrightarrow> i < length ks \<Longrightarrow> key_index ks (ks ! i) = Some i"
proof (induction ks arbitrary: i)
  case (Cons k ks)
  then show ?case by (cases i) auto
qed simp

lemma tn_wf_new [simp]: "tn_wf (tn_new c)"
  by (simp add: tn_new_def)

lemma tn_lookup_new: "tn_lookup (tn_new c) s = None"
  by (cases s) (simp_all add: tn_new_def)

lemma tn_wf_insert: "tn_wf n \<Longrightarrow> tn_wf (tn_insert n str sk com)"
proof (induction n str sk com rule: tn_insert.induct)
  case (1 key isToken heads keyHeads sk com closing isSkip isComment)
  then show ?case by simp
next
  case (2 key isToken heads keyHeads sk com closing c str isSkip isComment)
  show ?case
  proof (cases "key_index keyHeads c")
    case None
    moreover from None have "c \<notin> set keyHeads" by (simp add: key_index_None)
    ultimately show ?thesis using 2 by simp
  next
    case (Some i)
    with 2 key_index_Some [OF Some] show ?thesis
      by (auto dest!: set_update_subset_insert [THEN subsetD])
  qed
qed

lemma tn_lookup_insert:
  "tn_wf n \<Longrightarrow> tn_lookup (tn_insert n str sk com) = (tn_lookup n)(str \<mapsto> (sk, com))"
proof (induction n str sk com rule: tn_insert.induct)
  case (1 key isToken heads keyHeads sk com closing isSkip isComment)
  show ?case
  proof
    fix s show "tn_lookup (tn_insert (TokenNode key isToken heads keyHeads sk com closing) [] isSkip isComment) s =
      ((tn_lookup (TokenNode key isToken heads keyHeads sk com closing))([] \<mapsto> (isSkip, isComment))) s"
      by (cases s) simp_all
  qed
next
  case (2 key isToken heads keyHeads sk com closing c str isSkip isComment)
  let ?n = "TokenNode key isToken heads keyHeads sk com closing"
  show ?case
  proof
    fix s
    show "tn_lookup (tn_insert ?n (c # str) isSkip isComment) s =
      ((tn_lookup ?n)(c # str \<mapsto> (isSkip, isComment))) s"
    proof (cases s)
      case Nil
      then show ?thesis by (simp split: option.splits)
    next
      case (Cons d s')
      show ?thesis
      proof (cases "key_index keyHeads c")
        case None
        with 2 Cons show ?thesis
          by (auto simp: key_index_append key_index_None nth_append tn_lookup_new dest: key_index_Some
              split: option.splits)
      next
        case (Some i)
        then have i: "i < length heads" "keyHeads ! i = c" "tn_wf (heads ! i)"
          using 2 key_index_Some [OF Some] by auto
        show ?thesis
        proof (cases "d = c")
          case True
          with 2 Cons Some i show ?thesis by simp
        next
          case False
          then have "key_index keyHeads d \<noteq> Some i" using i key_index_Some by metis
          with Cons Some False show ?thesis by (auto split: option.splits)
        qed
      qed
    qed
  qed
qed

lemma tk_wf_new: "tk_wf tk_new"
  by (simp add: tk_wf_def tk_new_def)

lemma tk_lookup_new: "tk_lookup tk_new s = None"
  by (simp add: tk_lookup_def tk_new_def split: list.splits)

text \<open>
  A tokenizer behaves like a node whose own token is never set; the facts on nodes carry over.
\<close>

definition tk_root :: "tokenizer \<Rightarrow> token_node" where
  "tk_root t = TokenNode (CHR 0x00) False (tk_heads t) (tk_keyHeads t) False False []"

lemma tk_root_simps:
  "tk_wf t \<longleftrightarrow> tn_wf (tk_root t)"
  "tk_lookup t = tn_lookup (tk_root t)"
  "s \<noteq> [] \<Longrightarrow> tk_root (tk_insert t s sk com) = tn_insert (tk_root t) s sk com"
  by (auto simp: tk_wf_def tk_root_def tk_lookup_def tk_insert_def fun_eq_iff split: list.splits option.splits)

lemma tk_wf_insert: "tk_wf t \<Longrightarrow> tk_wf (tk_insert t s sk com)"
  by (cases "s = []") (simp_all add: tk_root_simps tn_wf_insert, simp add: tk_insert_def)

lemma tk_lookup_insert:
  "tk_wf t \<Longrightarrow>
     tk_lookup (tk_insert t s sk com) = (if s = [] then tk_lookup t else (tk_lookup t)(s \<mapsto> (sk, com)))"
  by (auto simp: tk_root_simps tn_lookup_insert) (simp add: tk_insert_def)

section \<open>Longest match\<close>

lemma tn_len_heads_index:
  "distinct ks \<Longrightarrow> length hs = length ks \<Longrightarrow>
     tn_len_heads ks hs c content =
       (case key_index ks c of
          None \<Rightarrow> None
        | Some i \<Rightarrow> (let sub = tn_len (hs ! i) content in
            if tr_len sub \<noteq> 0 then Some (sub\<lparr>tr_len := tr_len sub + 1\<rparr>) else None))"
proof (induction ks arbitrary: hs)
  case (Cons k ks)
  then obtain h hs' where hs: "hs = h # hs'" by (cases hs) auto
  show ?case
  proof (cases "k = c")
    case True
    then have "key_index ks c = None" using Cons.prems by (simp add: key_index_None)
    with Cons True hs show ?thesis by (auto simp: Let_def)
  next
    case False
    with Cons hs show ?thesis by (auto split: option.splits)
  qed
qed simp

text \<open>
  Reference: the longest prefix of a text that is in a map of tokens, with its attributes.
\<close>

fun longest :: "(string \<Rightarrow> token_attr option) \<Rightarrow> string \<Rightarrow> (nat \<times> token_attr) option" where
  "longest m [] = map_option (Pair 0) (m [])"
| "longest m (c # s) =
     (case longest (\<lambda>t. m (c # t)) s of
        Some (k, a) \<Rightarrow> Some (Suc k, a)
      | None \<Rightarrow> map_option (Pair 0) (m []))"

lemma longest_None: "longest m s = None \<Longrightarrow> m (take j s) = None"
proof (induction m s arbitrary: j rule: longest.induct)
  case (2 m c s)
  then have "longest (\<lambda>t. m (c # t)) s = None" "m [] = None" by (auto split: option.splits)
  with 2 show ?case by (cases j) auto
qed simp

lemma longest_Some:
  "longest m s = Some (k, a) \<Longrightarrow>
     k \<le> length s \<and> m (take k s) = Some a \<and> (\<forall>j. k < j \<longrightarrow> j \<le> length s \<longrightarrow> m (take j s) = None)"
proof (induction m s arbitrary: k rule: longest.induct)
  case (2 m c s)
  show ?case
  proof (cases "longest (\<lambda>t. m (c # t)) s")
    case None
    with "2.prems" have k: "k = 0" "m [] = Some a" by auto
    have "m (take j (c # s)) = None" if "0 < j" for j
      using longest_None [OF None] that by (cases j) auto
    with k show ?thesis by simp
  next
    case (Some p)
    with "2.prems" obtain k' where k: "k = Suc k'" "p = (k', a)" by (cases p) auto
    with "2.IH" Some have IH: "k' \<le> length s" "m (c # take k' s) = Some a"
      "\<forall>j. k' < j \<longrightarrow> j \<le> length s \<longrightarrow> m (c # take j s) = None" by auto
    have "m (take j (c # s)) = None" if "k < j" "j \<le> length (c # s)" for j
      using IH(3) that k by (cases j) auto
    with IH k show ?thesis by simp
  qed
qed auto

definition result_of :: "(nat \<times> token_attr) option \<Rightarrow> token_result" where
  "result_of r =
     (case r of
        None \<Rightarrow> no_token
      | Some (k, sk, cl) \<Rightarrow> \<lparr>tr_len = k + 1, tr_skip = sk, tr_commentEnd = cl\<rparr>)"

lemma tr_len_result_of: "tr_len (result_of r) = 0 \<longleftrightarrow> r = None"
  by (auto simp: result_of_def no_token_def split: option.splits)

lemma tn_own_result: "tn_own n = result_of (map_option (Pair 0) (tn_lookup n []))"
  by (cases n) (simp add: tn_own_def result_of_def)

lemma tn_len_longest: "tn_wf n \<Longrightarrow> tn_len n s = result_of (longest (tn_lookup n) s)"
proof (induction s arbitrary: n)
  case Nil
  then show ?case by (simp add: tn_own_result)
next
  case (Cons c s)
  obtain key isToken heads keyHeads sk com closing
    where n: "n = TokenNode key isToken heads keyHeads sk com closing" by (cases n)
  have wf: "distinct keyHeads" "length heads = length keyHeads" "\<forall>h \<in> set heads. tn_wf h"
    using Cons.prems n by auto
  show ?case
  proof (cases "key_index keyHeads c")
    case None
    then have "(\<lambda>t. tn_lookup n (c # t)) = (\<lambda>t. None)" by (simp add: n)
    moreover have "longest (\<lambda>t. None) s = None" by (induction s) auto
    ultimately show ?thesis
      using None wf by (simp add: n tn_len_heads_index tn_own_result)
  next
    case (Some i)
    then have h: "tn_wf (heads ! i)" using key_index_Some wf by fastforce
    have "(\<lambda>t. tn_lookup n (c # t)) = tn_lookup (heads ! i)" using Some by (simp add: n)
    with Some wf Cons.IH [OF h] show ?thesis
      by (auto simp: n tn_len_heads_index tn_own_result result_of_def no_token_def Let_def split: option.splits)
  qed
qed

section \<open>The tokenizer built from a list of insertions\<close>

type_synonym insertion = "string \<times> bool \<times> string"

fun tk_inserts :: "tokenizer \<Rightarrow> insertion list \<Rightarrow> tokenizer" where
  "tk_inserts t [] = t"
| "tk_inserts t ((s, sk, com) # ins) = tk_inserts (tk_insert t s sk com) ins"

lemma tk_wf_inserts: "tk_wf t \<Longrightarrow> tk_wf (tk_inserts t ins)"
  by (induction t ins rule: tk_inserts.induct) (auto simp: tk_wf_insert)

lemma tk_inserts_append: "tk_inserts t (xs @ ys) = tk_inserts (tk_inserts t xs) ys"
  by (induction t xs rule: tk_inserts.induct) auto

text \<open>The tokens and their attributes: the last insertion of a token counts.\<close>

definition token_map :: "insertion list \<Rightarrow> string \<Rightarrow> token_attr option" where
  "token_map ins s = (if s = [] then None else map_of (rev ins) s)"

definition token_heads :: "insertion list \<Rightarrow> char set" where
  "token_heads ins = {hd s | s sk com. (s, sk, com) \<in> set ins \<and> s \<noteq> []}"

lemma tk_lookup_Nil [simp]: "tk_lookup t [] = None"
  by (simp add: tk_lookup_def)

lemma tk_lookup_inserts_gen:
  "tk_wf t \<Longrightarrow> tk_lookup (tk_inserts t ins) s =
     (case token_map ins s of None \<Rightarrow> tk_lookup t s | Some a \<Rightarrow> Some a)"
proof (induction t ins rule: tk_inserts.induct)
  case (2 t s' sk com ins)
  then show ?case
    by (auto simp: tk_wf_insert tk_lookup_insert token_map_def map_add_def split: option.splits)
qed (simp add: token_map_def)

lemma tk_lookup_inserts: "tk_lookup (tk_inserts tk_new ins) = token_map ins"
  by (rule ext) (simp add: tk_lookup_inserts_gen tk_wf_new tk_lookup_new split: option.splits)

lemma keyHeads_insert:
  "set (tk_keyHeads (tk_insert t s sk com)) = set (tk_keyHeads t) \<union> (if s = [] then {} else {hd s})"
  by (cases s) (auto simp: tk_insert_def key_index_None dest!: key_index_Some split: option.splits)

lemma keyHeads_inserts:
  "set (tk_keyHeads (tk_inserts t ins)) = set (tk_keyHeads t) \<union> token_heads ins"
proof (induction t ins rule: tk_inserts.induct)
  case (2 t s sk com ins)
  then show ?case by (auto simp: keyHeads_insert token_heads_def)
qed (simp add: token_heads_def)

lemma keyHeads_new_inserts: "set (tk_keyHeads (tk_inserts tk_new ins)) = token_heads ins"
  by (simp add: keyHeads_inserts) (simp add: tk_new_def)

section \<open>The next token\<close>

lemma tk_find_index:
  "tk_find t c \<noteq> length (tk_keyHeads t) \<longleftrightarrow> c \<in> set (tk_keyHeads t)"
  "key_index (tk_keyHeads t) c = Some i \<Longrightarrow> tk_find t c = i"
  by (auto simp: tk_find_def key_index_None [symmetric] dest: key_index_Some split: option.splits)

lemma tk_next_loop_later:
  "0 < i \<Longrightarrow> tk_next_loop t i rest =
     (let d = length (takeWhile (\<lambda>c. c \<notin> set (tk_keyHeads t)) rest) in
      if d < length rest then \<lparr>tr_len = i + d, tr_skip = False, tr_commentEnd = []\<rparr> else no_token)"
proof (induction t i rest rule: tk_next_loop.induct)
  case (2 t i c rest)
  then show ?case by (cases "c \<in> set (tk_keyHeads t)") (auto simp: tk_find_index(1) Let_def)
qed simp

lemma tk_next_spec:
  assumes "tk_wf t"
  shows "tk_next t str =
    (case longest (tk_lookup t) str of
       Some (k, sk, cl) \<Rightarrow> \<lparr>tr_len = k, tr_skip = sk, tr_commentEnd = cl\<rparr>
     | None \<Rightarrow> (let d = length (takeWhile (\<lambda>c. c \<notin> set (tk_keyHeads t)) (tl str)) in
         if d < length (tl str) then \<lparr>tr_len = Suc d, tr_skip = False, tr_commentEnd = []\<rparr>
         else no_token))"
proof (cases str)
  case Nil
  then show ?thesis by (simp add: tk_next_def)
next
  case (Cons c rest)
  show ?thesis
  proof (cases "key_index (tk_keyHeads t) c")
    case None
    then have "(\<lambda>s. tk_lookup t (c # s)) = (\<lambda>s. None)" by (simp add: tk_lookup_def)
    moreover have "longest (\<lambda>s. None) rest = None" by (induction rest) auto
    moreover have "tk_find t c = length (tk_keyHeads t)"
      using None tk_find_index(1) [of t c] by (auto simp: key_index_None)
    ultimately show ?thesis
      using Cons by (simp add: tk_next_def tk_next_loop_later Let_def)
  next
    case (Some i)
    then have i: "i < length (tk_keyHeads t)" using key_index_Some by blast
    then have h: "tn_wf (tk_heads t ! i)" using assms by (simp add: tk_wf_def)
    have "(\<lambda>s. tk_lookup t (c # s)) = tn_lookup (tk_heads t ! i)" using Some by (simp add: tk_lookup_def)
    then show ?thesis
      using Cons i tk_find_index(2) [OF Some]
      by (auto simp: tk_next_def tn_len_longest [OF h] tk_next_loop_later Let_def
          result_of_def no_token_def split: option.splits)
  qed
qed

lemma tk_next_inserts:
  "tk_next (tk_inserts tk_new ins) str =
    (case longest (token_map ins) str of
       Some (k, sk, cl) \<Rightarrow> \<lparr>tr_len = k, tr_skip = sk, tr_commentEnd = cl\<rparr>
     | None \<Rightarrow> (let d = length (takeWhile (\<lambda>c. c \<notin> token_heads ins) (tl str)) in
         if d < length (tl str) then \<lparr>tr_len = Suc d, tr_skip = False, tr_commentEnd = []\<rparr>
         else no_token))"
  by (rule tk_next_spec [OF tk_wf_inserts [OF tk_wf_new], of ins str,
        unfolded tk_lookup_inserts keyHeads_new_inserts])

text \<open>
  C10. The next token of a text is the longest of the inserted tokens that the text starts with,
  with its attributes; if there is none, it is everything up to the next character that starts
  some token, and 0 is returned when there is no such character.
\<close>

theorem tokenizer_next_longest:
  "tk_next (tk_inserts tk_new ins) str =
    (case longest (token_map ins) str of
       Some (k, sk, cl) \<Rightarrow> \<lparr>tr_len = k, tr_skip = sk, tr_commentEnd = cl\<rparr>
     | None \<Rightarrow> (let d = length (takeWhile (\<lambda>c. c \<notin> token_heads ins) (tl str)) in
         if d < length (tl str) then \<lparr>tr_len = Suc d, tr_skip = False, tr_commentEnd = []\<rparr>
         else no_token))"
  by (rule tk_next_inserts)

lemma tk_next_le: "tk_wf t \<Longrightarrow> tr_len (tk_next t str) \<le> length str"
  by (cases str)
    (auto simp: tk_next_spec no_token_def Let_def dest!: longest_Some split: option.splits)

lemma tk_next_token: "tk_wf t \<Longrightarrow> longest (tk_lookup t) str = Some (k, a) \<Longrightarrow> 0 < k"
  using longest_Some [of "tk_lookup t" str k a] by (cases k) auto

section \<open>tokenize\<close>

text \<open>
  The loop over the text; what is left when no token is found is copied with
  \<^verbatim>\<open>std::string (data)\<close>, that is up to a NUL character.
\<close>

function tokenize_loop :: "tokenizer \<Rightarrow> string \<Rightarrow> string list" where
  "tokenize_loop t data =
     (if data = [] then []
      else let res = tk_next t data in
        if tr_len res \<noteq> 0 then
          (if tr_skip res then [] else [take (tr_len res) data]) @
          tokenize_loop t (drop (tr_len res) data)
        else [takeWhile (\<lambda>c. c \<noteq> CHR 0x00) data])"
  by pat_completeness auto
termination
  by (relation "measure (\<lambda>(t, data). length data)") auto

declare tokenize_loop.simps [simp del]

definition tokenize :: "string \<Rightarrow> string list \<Rightarrow> string list \<Rightarrow> string list" where
  "tokenize str tokens skips =
     tokenize_loop (tk_inserts tk_new (map (\<lambda>s. (s, False, [])) tokens @ map (\<lambda>s. (s, True, [])) skips)) str"

lemma tokenize_loop_lossless:
  "(\<forall>s. \<not> tr_skip (tk_next t s)) \<Longrightarrow> CHR 0x00 \<notin> set data \<Longrightarrow> concat (tokenize_loop t data) = data"
proof (induction t data rule: tokenize_loop.induct)
  case (1 t data)
  have "takeWhile (\<lambda>c. c \<noteq> CHR 0x00) data = data"
    using "1.prems"(2) by (auto simp: takeWhile_eq_all_conv)
  moreover have "CHR 0x00 \<notin> set (drop n data)" for n
    using "1.prems"(2) by (meson in_set_dropD)
  ultimately show ?case
    using 1 by (subst tokenize_loop.simps) (auto simp: Let_def)
qed

lemma map_of_all_False: "(\<forall>p \<in> set xs. snd p = (False, [])) \<Longrightarrow> map_of xs s = Some a \<Longrightarrow> a = (False, [])"
  by (induction xs) (auto split: if_splits)

text \<open>
  With nothing to skip, cutting a text into tokens loses nothing: the pieces, put together
  again, are the text.
\<close>

theorem tokenize_lossless:
  assumes "CHR 0x00 \<notin> set str"
  shows "concat (tokenize str tokens []) = str"
proof -
  let ?ins = "map (\<lambda>s. (s, False, [])) tokens :: insertion list"
  have plain: "a = (False, [])" if "token_map ?ins s = Some a" for s a
    using that map_of_all_False [of "rev ?ins" s a] by (auto simp: token_map_def split: if_splits)
  have "\<not> tr_skip (tk_next (tk_inserts tk_new ?ins) s)" for s
  proof (cases "longest (token_map ?ins) s")
    case (Some p)
    obtain k a where p: "p = (k, a)" by (cases p)
    with Some longest_Some [of "token_map ?ins" s k a] plain have "a = (False, [])" by blast
    with Some p show ?thesis by (simp add: tk_next_inserts)
  qed (simp add: tk_next_inserts no_token_def Let_def)
  then show ?thesis
    using assms by (simp add: tokenize_def tokenize_loop_lossless)
qed

theorem tokenize_lossless_witness: "concat (tokenize ''a.b'' [''.''] []) = ''a.b''"
  by (rule tokenize_lossless) simp

end
