(* ===== verification/Lexer.thy ===== *)
theory Lexer
  imports Tokenizer
begin

text \<open>
  \<^verbatim>\<open>utils/lexer.cc\<close>: a text is cut once into words by the tokenizer; the reader then moves a
  cursor over the words, skipping blanks and comments, and can go back to the positions it
  remembered. \<^verbatim>\<open>std::vector\<close> indices are natural numbers; the vector \<^verbatim>\<open>_rewinders\<close> is a
  list whose head is \<^verbatim>\<open>back ()\<close>. Popping or reading an empty vector is \<open>Undefined\<close>.
\<close>

record lex_word =
  w_str :: string
  w_line :: nat
  w_col :: nat
  w_eof :: bool

record lexer =
  lx_words :: "lex_word list"
  lx_wordInfos :: "token_result list"
  lx_wordCursor :: nat
  lx_rewinders :: "nat list"
  lx_eof :: bool

definition eofWord :: lex_word where
  "eofWord = \<lparr>w_str = [], w_line = 0, w_col = 0, w_eof = True\<rparr>"

section \<open>Cutting the text\<close>

function read_words :: "tokenizer \<Rightarrow> nat \<Rightarrow> nat \<Rightarrow> string \<Rightarrow> (lex_word \<times> token_result) list" where
  "read_words t line col str =
     (if str = [] then []
      else let wd = tk_next t str in
        if tr_len wd = 0 then
          [(\<lparr>w_str = str, w_line = line, w_col = col, w_eof = False\<rparr>,
            \<lparr>tr_len = length str, tr_skip = False, tr_commentEnd = []\<rparr>)]
        else let ret = take (tr_len wd) str; nl = (hd ret = CHR 0x0A) in
          (\<lparr>w_str = ret, w_line = line, w_col = col, w_eof = False\<rparr>, wd) #
          read_words t (if nl then line + 1 else line) (if nl then 1 else col + tr_len wd)
            (drop (tr_len wd) str))"
  by pat_completeness auto
termination
  by (relation "measure (\<lambda>(t, l, c, str). length str)") auto

declare read_words.simps [simp del]

definition lexer_insertions ::
  "string list \<Rightarrow> string list \<Rightarrow> (string \<times> string) list \<Rightarrow> insertion list" where
  "lexer_insertions tokens skipTokens commentTokens =
     map (\<lambda>s. (s, False, [])) tokens @ map (\<lambda>s. (s, True, [])) skipTokens @
     map (\<lambda>(s, e). (s, False, e)) commentTokens"

definition lexer_new ::
  "string \<Rightarrow> string list \<Rightarrow> string list \<Rightarrow> (string \<times> string) list \<Rightarrow> lexer" where
  "lexer_new content tokens skipTokens commentTokens =
     (let tok = tk_inserts tk_new (lexer_insertions tokens skipTokens commentTokens);
          ws = read_words tok 1 1 content
      in \<lparr>lx_words = map fst ws, lx_wordInfos = map snd ws, lx_wordCursor = 0,
          lx_rewinders = [0], lx_eof = False\<rparr>)"

section \<open>Reading\<close>

function gotoNextToken :: "lexer \<Rightarrow> string \<Rightarrow> lexer" where
  "gotoNextToken lx end_tok =
     (if lx_wordCursor lx < length (lx_wordInfos lx) then
        (if w_str (lx_words lx ! lx_wordCursor lx) = end_tok
         then lx\<lparr>lx_wordCursor := lx_wordCursor lx + 1\<rparr>
         else gotoNextToken (lx\<lparr>lx_wordCursor := lx_wordCursor lx + 1\<rparr>) end_tok)
      else lx\<lparr>lx_eof := True\<rparr>)"
  by pat_completeness auto
termination
  by (relation "measure (\<lambda>(lx, e). length (lx_wordInfos lx) - lx_wordCursor lx)") auto

declare gotoNextToken.simps [simp del]

lemma gotoNextToken_frame:
  "lx_wordInfos (gotoNextToken lx e) = lx_wordInfos lx \<and> lx_words (gotoNextToken lx e) = lx_words lx \<and>
   lx_rewinders (gotoNextToken lx e) = lx_rewinders lx \<and>
   lx_wordCursor lx \<le> lx_wordCursor (gotoNextToken lx e) \<and>
   (lx_wordCursor lx \<le> length (lx_wordInfos lx) \<longrightarrow>
      lx_wordCursor (gotoNextToken lx e) \<le> length (lx_wordInfos lx))"
proof (induction lx e rule: gotoNextToken.induct)
  case (1 lx e)
  then show ?case by (subst (1 2 3 4 5) gotoNextToken.simps) auto
qed

function next_loop :: "lexer \<Rightarrow> lex_word option \<times> lexer" where
  "next_loop lx =
     (if lx_wordCursor lx < length (lx_wordInfos lx) then
        let wd = lx_wordInfos lx ! lx_wordCursor lx;
            lx' = lx\<lparr>lx_wordCursor := lx_wordCursor lx + 1\<rparr>
        in if \<not> tr_skip wd then
             (if tr_commentEnd wd \<noteq> [] then next_loop (gotoNextToken lx' (tr_commentEnd wd))
              else (Some (lx_words lx' ! (lx_wordCursor lx' - 1)), lx'))
           else next_loop lx'
      else (None, lx\<lparr>lx_eof := True\<rparr>))"
  by pat_completeness auto
termination
proof (relation "measure (\<lambda>lx. length (lx_wordInfos lx) - lx_wordCursor lx)", goal_cases)
  case (2 lx wd lx')
  then show ?case using gotoNextToken_frame [of lx' "tr_commentEnd wd"] by auto
qed auto

declare next_loop.simps [simp del]

definition lexNext :: "lexer \<Rightarrow> lex_word \<times> lexer" where
  "lexNext lx =
     (if lx_eof lx then (eofWord, lx)
      else case next_loop (lx\<lparr>lx_rewinders := lx_wordCursor lx # lx_rewinders lx\<rparr>) of
          (Some w, lx') \<Rightarrow> (w, lx')
        | (None, lx') \<Rightarrow> (eofWord, lx'))"

definition directNext :: "lexer \<Rightarrow> lex_word \<times> lexer" where
  "directNext lx =
     (if lx_eof lx then (eofWord, lx)
      else let lx = lx\<lparr>lx_rewinders := lx_wordCursor lx # lx_rewinders lx\<rparr> in
        if lx_wordCursor lx < length (lx_wordInfos lx) then
          (let lx = lx\<lparr>lx_wordCursor := lx_wordCursor lx + 1\<rparr> in (lx_words lx ! (lx_wordCursor lx - 1), lx))
        else (eofWord, lx\<lparr>lx_eof := True\<rparr>))"

function getString_loop :: "lexer \<Rightarrow> string \<Rightarrow> bool \<Rightarrow> bool \<Rightarrow> string \<Rightarrow> string option \<times> lexer" where
  "getString_loop lx closing escaping currentEscape ss =
     (if lx_wordCursor lx < length (lx_wordInfos lx) then
        let ret = lx_words lx ! lx_wordCursor lx;
            lx' = lx\<lparr>lx_wordCursor := lx_wordCursor lx + 1\<rparr>
        in if w_str ret = closing \<and> \<not> currentEscape then (Some ss, lx')
           else getString_loop lx' closing escaping
             (escaping \<and> \<not> currentEscape \<and> w_str ret = [CHR 0x5C]) (ss @ w_str ret)
      else (None, lx\<lparr>lx_eof := True\<rparr>))"
  by pat_completeness auto
termination
  by (relation "measure (\<lambda>(lx, c, e, x, s). length (lx_wordInfos lx) - lx_wordCursor lx)") auto

declare getString_loop.simps [simp del]

text \<open>The exception of an unterminated string carries the line of the last word.\<close>

definition getString :: "lexer \<Rightarrow> string \<Rightarrow> bool \<Rightarrow> string res \<times> lexer" where
  "getString lx closing escaping =
     (case getString_loop lx closing escaping False [] of
        (Some s, lx') \<Rightarrow> (Inr s, lx')
      | (None, lx') \<Rightarrow>
          (Inl (if lx_words lx' = [] then Undefined
                else LexerError (w_line (last (lx_words lx'))) ''Unterminated string literal''), lx'))"

section \<open>Going back\<close>

definition pop_back :: "nat list \<Rightarrow> nat list res" where
  "pop_back v = (case v of [] \<Rightarrow> Inl Undefined | _ # v' \<Rightarrow> Inr v')"

fun pop_back_n :: "nat \<Rightarrow> nat list \<Rightarrow> nat list res" where
  "pop_back_n 0 v = Inr v"
| "pop_back_n (Suc n) v = ebind (pop_back v) (pop_back_n n)"

definition leave_eof :: "lexer \<Rightarrow> lexer res" where
  "leave_eof lx =
     (if lx_eof lx then
        ebind (pop_back (lx_rewinders lx)) (\<lambda>r. Inr (lx\<lparr>lx_rewinders := r, lx_eof := False\<rparr>))
      else Inr lx)"

definition lexRewind :: "lexer \<Rightarrow> nat \<Rightarrow> lexer res" where
  "lexRewind lx nb =
     ebind (leave_eof lx) (\<lambda>lx.
     ebind (if 1 < nb then pop_back_n (nb - 1) (lx_rewinders lx) else Inr (lx_rewinders lx)) (\<lambda>rew.
     case rew of
       [] \<Rightarrow> Inl Undefined
     | x # rew' \<Rightarrow>
         Inr (lx\<lparr>lx_wordCursor := x, lx_rewinders := (if rew' = [] then [0] else rew')\<rparr>)))"

fun rewindTo_loop :: "nat \<Rightarrow> nat \<Rightarrow> nat list \<Rightarrow> nat \<times> nat list" where
  "rewindTo_loop target cursor [] = (cursor, [])"
| "rewindTo_loop target cursor (x # rew) =
     (if x = target then (target, rew) else rewindTo_loop target cursor rew)"

definition lexRewindTo :: "lexer \<Rightarrow> nat \<Rightarrow> lexer res" where
  "lexRewindTo lx target =
     ebind (leave_eof lx) (\<lambda>lx.
     let (cursor, rew) = rewindTo_loop target (lx_wordCursor lx) (lx_rewinders lx) in
     Inr (lx\<lparr>lx_wordCursor := cursor, lx_rewinders := (if rew = [] then [0] else rew)\<rparr>))"

definition getCursor :: "lexer \<Rightarrow> nat" where
  "getCursor lx = lx_wordCursor lx"

section \<open>The words left, as a list\<close>

type_synonym lex_item = "lex_word \<times> token_result"

definition lexer_ok :: "lexer \<Rightarrow> bool" where
  "lexer_ok lx \<longleftrightarrow>
     length (lx_words lx) = length (lx_wordInfos lx) \<and>
     lx_wordCursor lx \<le> length (lx_wordInfos lx) \<and> lx_rewinders lx \<noteq> []"

definition lx_rest :: "lexer \<Rightarrow> lex_item list" where
  "lx_rest lx = drop (lx_wordCursor lx) (zip (lx_words lx) (lx_wordInfos lx))"

text \<open>The first word that is neither skipped nor part of a comment, and what follows it.\<close>

function significant :: "lex_item list \<Rightarrow> (lex_word \<times> lex_item list) option" where
  "significant [] = None"
| "significant ((w, i) # xs) =
     (if tr_skip i then significant xs
      else if tr_commentEnd i \<noteq> [] then
        significant (tl (dropWhile (\<lambda>p. w_str (fst p) \<noteq> tr_commentEnd i) xs))
      else Some (w, xs))"
  by pat_completeness auto
termination
proof (relation "measure length", goal_cases)
  case (3 w i xs)
  have "length (tl (dropWhile (\<lambda>p. w_str (fst p) \<noteq> tr_commentEnd i) xs)) \<le> length xs"
    by (simp add: length_dropWhile_le le_diff_conv le_SucI)
  then show ?case by simp
qed auto

lemma significant_length: "significant xs = Some (w, rest) \<Longrightarrow> length rest < length xs"
proof (induction xs rule: significant.induct)
  case (2 v i xs)
  have "length (tl (dropWhile (\<lambda>p. w_str (fst p) \<noteq> tr_commentEnd i) xs)) \<le> length xs"
    by (simp add: length_dropWhile_le le_diff_conv le_SucI)
  with 2 show ?case by (fastforce split: if_splits)
qed simp

lemma lx_rest_Cons:
  "lexer_ok lx \<Longrightarrow> lx_wordCursor lx < length (lx_wordInfos lx) \<Longrightarrow>
     lx_rest lx = (lx_words lx ! lx_wordCursor lx, lx_wordInfos lx ! lx_wordCursor lx) #
       lx_rest (lx\<lparr>lx_wordCursor := Suc (lx_wordCursor lx)\<rparr>)"
  by (simp add: lx_rest_def lexer_ok_def Cons_nth_drop_Suc flip: nth_zip)

lemma lx_rest_Nil: "lexer_ok lx \<Longrightarrow> \<not> lx_wordCursor lx < length (lx_wordInfos lx) \<Longrightarrow> lx_rest lx = []"
  by (simp add: lx_rest_def lexer_ok_def)

lemma length_lx_rest: "lexer_ok lx \<Longrightarrow> length (lx_rest lx) = length (lx_wordInfos lx) - lx_wordCursor lx"
  by (simp add: lx_rest_def lexer_ok_def)

lemma lexer_ok_step [simp]:
  "lexer_ok lx \<Longrightarrow> lx_wordCursor lx < length (lx_wordInfos lx) \<Longrightarrow>
     lexer_ok (lx\<lparr>lx_wordCursor := Suc (lx_wordCursor lx)\<rparr>)"
  by (simp add: lexer_ok_def)

lemma lexer_eta: "lexer_ok lx \<Longrightarrow> \<not> lx_wordCursor lx < length (lx_wordInfos lx) \<Longrightarrow>
    lx\<lparr>lx_wordCursor := length (lx_wordInfos lx)\<rparr> = lx"
  by (simp add: lexer_ok_def)

lemma gotoNextToken_list:
  "lexer_ok lx \<Longrightarrow>
     gotoNextToken lx e =
       (case dropWhile (\<lambda>p. w_str (fst p) \<noteq> e) (lx_rest lx) of
          [] \<Rightarrow> lx\<lparr>lx_wordCursor := length (lx_wordInfos lx), lx_eof := True\<rparr>
        | _ # rest \<Rightarrow> lx\<lparr>lx_wordCursor := length (lx_wordInfos lx) - length rest\<rparr>)"
proof (induction lx e rule: gotoNextToken.induct)
  case (1 lx e)
  show ?case
  proof (cases "lx_wordCursor lx < length (lx_wordInfos lx)")
    case True
    let ?lx' = "lx\<lparr>lx_wordCursor := Suc (lx_wordCursor lx)\<rparr>"
    have len: "length (lx_rest ?lx') = length (lx_wordInfos lx) - Suc (lx_wordCursor lx)"
      using length_lx_rest [of ?lx'] 1 True by simp
    show ?thesis
    proof (cases "w_str (lx_words lx ! lx_wordCursor lx) = e")
      case found: True
      then show ?thesis
        using True 1 len by (subst gotoNextToken.simps) (simp add: lx_rest_Cons)
    next
      case False
      with 1 True show ?thesis
        by (subst gotoNextToken.simps) (simp add: lx_rest_Cons del: dropWhile_eq_Nil_conv split: list.splits)
    qed
  next
    case False
    then show ?thesis
      using 1 by (subst gotoNextToken.simps) (simp add: lx_rest_Nil lexer_ok_def)
  qed
qed

lemma next_loop_list:
  "lexer_ok lx \<Longrightarrow>
     next_loop lx =
       (case significant (lx_rest lx) of
          None \<Rightarrow> (None, lx\<lparr>lx_wordCursor := length (lx_wordInfos lx), lx_eof := True\<rparr>)
        | Some (w, rest) \<Rightarrow> (Some w, lx\<lparr>lx_wordCursor := length (lx_wordInfos lx) - length rest\<rparr>))"
proof (induction lx rule: next_loop.induct)
  case (1 lx)
  show ?case
  proof (cases "lx_wordCursor lx < length (lx_wordInfos lx)")
    case False
    then show ?thesis
      using 1 by (subst next_loop.simps) (simp add: lx_rest_Nil lexer_ok_def)
  next
    case True
    let ?i = "lx_wordInfos lx ! lx_wordCursor lx"
    let ?lx' = "lx\<lparr>lx_wordCursor := Suc (lx_wordCursor lx)\<rparr>"
    note rest = lx_rest_Cons [OF "1.prems" True]
    have ok: "lexer_ok ?lx'" using "1.prems" True by simp
    have len: "length (lx_rest ?lx') = length (lx_wordInfos lx) - Suc (lx_wordCursor lx)"
      using length_lx_rest [OF ok] by simp
    consider (skip) "tr_skip ?i" | (comment) "\<not> tr_skip ?i" "tr_commentEnd ?i \<noteq> []"
      | (word) "\<not> tr_skip ?i" "tr_commentEnd ?i = []" by blast
    then show ?thesis
    proof cases
      case skip
      then show ?thesis
        using "1.IH"(2) [OF True refl refl, folded Suc_eq_plus1] ok rest True by (subst next_loop.simps) (simp add: Let_def split: option.splits)
    next
      case word
      then show ?thesis
        using len rest True by (subst next_loop.simps) (simp add: Let_def)
    next
      case comment
      let ?d = "dropWhile (\<lambda>p. w_str (fst p) \<noteq> tr_commentEnd ?i) (lx_rest ?lx')"
      let ?g = "gotoNextToken ?lx' (tr_commentEnd ?i)"
      have okg: "lexer_ok ?g"
        using gotoNextToken_frame [of ?lx' "tr_commentEnd ?i"] ok by (auto simp: lexer_ok_def)
      have step: "next_loop lx = next_loop ?g"
        using comment True by (subst next_loop.simps) (simp add: Let_def)
      have IH: "next_loop ?g = (case significant (lx_rest ?g) of
          None \<Rightarrow> (None, ?g\<lparr>lx_wordCursor := length (lx_wordInfos ?g), lx_eof := True\<rparr>)
        | Some (w, rest) \<Rightarrow> (Some w, ?g\<lparr>lx_wordCursor := length (lx_wordInfos ?g) - length rest\<rparr>))"
        using "1.IH"(1) [OF True refl refl, folded Suc_eq_plus1] comment okg by blast
      have sig: "significant (lx_rest lx) = significant (tl ?d)" using comment rest by simp
      show ?thesis
      proof (cases ?d)
        case Nil
        then have "?g = ?lx'\<lparr>lx_wordCursor := length (lx_wordInfos lx), lx_eof := True\<rparr>"
          using gotoNextToken_list [OF ok, of "tr_commentEnd ?i"] unfolding Nil by simp
        moreover have "lx_rest ?g = []" using calculation "1.prems" by (simp add: lx_rest_def lexer_ok_def)
        moreover have "significant (tl ?d) = None" unfolding Nil by simp
        ultimately show ?thesis using step IH sig by simp
      next
        case (Cons p rest')
        then have g: "?g = ?lx'\<lparr>lx_wordCursor := length (lx_wordInfos lx) - length rest'\<rparr>"
          using gotoNextToken_list [OF ok, of "tr_commentEnd ?i"] unfolding Cons by simp
        have "lx_rest ?g = rest'"
        proof -
          have "\<exists>pre. lx_rest ?lx' = pre @ p # rest'"
            using Cons by (metis takeWhile_dropWhile_id)
          then obtain pre where pre: "zip (lx_words lx) (lx_wordInfos lx) = pre @ rest'"
            unfolding lx_rest_def by simp (metis append.assoc append_Cons append_Nil append_take_drop_id)
          have "length (zip (lx_words lx) (lx_wordInfos lx)) = length (lx_wordInfos lx)"
            using "1.prems" by (simp add: lexer_ok_def)
          then have "length (lx_wordInfos lx) = length pre + length rest'"
            unfolding pre by simp
          then show ?thesis using pre g by (simp add: lx_rest_def)
        qed
        then show ?thesis using step IH sig Cons g by (auto split: option.splits)
      qed
    qed
  qed
qed

lemma lexNext_list:
  assumes "lexer_ok lx" and "\<not> lx_eof lx"
  shows "lexNext lx =
    (case significant (lx_rest lx) of
       None \<Rightarrow> (eofWord, lx\<lparr>lx_wordCursor := length (lx_wordInfos lx),
                lx_rewinders := lx_wordCursor lx # lx_rewinders lx, lx_eof := True\<rparr>)
     | Some (w, rest) \<Rightarrow> (w, lx\<lparr>lx_wordCursor := length (lx_wordInfos lx) - length rest,
                lx_rewinders := lx_wordCursor lx # lx_rewinders lx\<rparr>))"
proof -
  let ?lx = "lx\<lparr>lx_rewinders := lx_wordCursor lx # lx_rewinders lx\<rparr>"
  have "lexer_ok ?lx" "lx_rest ?lx = lx_rest lx" using assms by (simp_all add: lexer_ok_def lx_rest_def)
  with assms(2) next_loop_list [of ?lx] show ?thesis
    by (auto simp: lexNext_def split: option.splits)
qed

lemma dropWhile_suffix: "\<exists>pre. xs = pre @ tl (dropWhile P xs)"
proof (cases "dropWhile P xs")
  case (Cons y ys)
  have "xs = takeWhile P xs @ y # ys" using takeWhile_dropWhile_id [of P xs] Cons by simp
  then have "xs = (takeWhile P xs @ [y]) @ tl (dropWhile P xs)" using Cons by simp
  then show ?thesis by blast
qed (simp del: dropWhile_eq_Nil_conv)

lemma suffix_Cons_ex: "\<exists>pre. xs = pre @ rest \<Longrightarrow> \<exists>pre. x # xs = pre @ rest"
  by (metis append_Cons)

lemma suffix_trans_ex: "\<exists>pre. xs = pre @ ys \<Longrightarrow> \<exists>pre. ys = pre @ rest \<Longrightarrow> \<exists>pre. xs = pre @ rest"
  by (metis append.assoc)

lemma significant_suffix: "significant xs = Some (w, rest) \<Longrightarrow> \<exists>pre. xs = pre @ rest"
proof (induction xs rule: significant.induct)
  case (2 v i xs)
  let ?d = "dropWhile (\<lambda>p. w_str (fst p) \<noteq> tr_commentEnd i) xs"
  show ?case
  proof (cases "tr_skip i")
    case True
    then show ?thesis using 2 by (intro suffix_Cons_ex) simp
  next
    case False
    show ?thesis
    proof (cases "tr_commentEnd i = []")
      case True
      with False 2(3) show ?thesis by auto
    next
      case comment: False
      with False 2(3) have "significant (tl ?d) = Some (w, rest)" by simp
      from 2(2) [OF False comment this] show ?thesis
        by (rule suffix_Cons_ex [OF suffix_trans_ex [OF dropWhile_suffix]])
    qed
  qed
qed simp

lemma lx_rest_after:
  "lexer_ok lx \<Longrightarrow> \<exists>pre. lx_rest lx = pre @ rest \<Longrightarrow>
     drop (length (lx_wordInfos lx) - length rest) (zip (lx_words lx) (lx_wordInfos lx)) = rest"
proof -
  assume ok: "lexer_ok lx" and "\<exists>pre. lx_rest lx = pre @ rest"
  then obtain pre where "zip (lx_words lx) (lx_wordInfos lx) = pre @ rest"
    unfolding lx_rest_def by (metis append.assoc append_take_drop_id)
  moreover have "length (zip (lx_words lx) (lx_wordInfos lx)) = length (lx_wordInfos lx)"
    using ok by (simp add: lexer_ok_def)
  ultimately show ?thesis by (metis append_eq_conv_conj diff_add_inverse2 length_append)
qed

text \<open>
  \<open>lexNext\<close> returns the first significant word of what is left (blanks and comments are
  passed over) and leaves exactly what follows that word; when there is none it returns the
  end-of-file word and sets the end-of-file flag.
\<close>

theorem lexNext_significant:
  assumes "lexer_ok lx" and "\<not> lx_eof lx"
  shows "case significant (lx_rest lx) of
      None \<Rightarrow> fst (lexNext lx) = eofWord \<and> lx_eof (snd (lexNext lx)) \<and> lx_rest (snd (lexNext lx)) = []
    | Some (w, rest) \<Rightarrow> fst (lexNext lx) = w \<and> \<not> lx_eof (snd (lexNext lx)) \<and>
        lx_rest (snd (lexNext lx)) = rest \<and> lexer_ok (snd (lexNext lx))"
proof (cases "significant (lx_rest lx)")
  case None
  with lexNext_list [OF assms] show ?thesis by (simp add: lx_rest_def)
next
  case (Some p)
  then obtain w rest where p: "significant (lx_rest lx) = Some (w, rest)" by (cases p) auto
  from significant_suffix [OF p] lx_rest_after [OF assms(1)]
  have "drop (length (lx_wordInfos lx) - length rest) (zip (lx_words lx) (lx_wordInfos lx)) = rest" by blast
  with p lexNext_list [OF assms] assms show ?thesis by (simp add: lx_rest_def lexer_ok_def)
qed

theorem lexNext_significant_witness:
  "fst (lexNext (lexer_new '' a#b'' ['' '', ''#''] ['' ''] [(''#'', [CHR 0x0A])])) =
     \<lparr>w_str = ''a'', w_line = 1, w_col = 2, w_eof = False\<rparr>"
proof -
  let ?lx = "lexer_new '' a#b'' ['' '', ''#''] ['' ''] [(''#'', [CHR 0x0A])]"
  have ok: "lexer_ok ?lx" "\<not> lx_eof ?lx" by (simp_all add: lexer_new_def Let_def lexer_ok_def)
  have "map_option fst (significant (lx_rest ?lx)) =
      Some \<lparr>w_str = ''a'', w_line = 1, w_col = 2, w_eof = False\<rparr>" by code_simp
  then show ?thesis using lexNext_significant [OF ok] by (auto split: option.splits)
qed

lemma lexer_restore: "lx\<lparr>lx_wordCursor := lx_wordCursor lx, lx_rewinders := lx_rewinders lx\<rparr> = lx"
  by simp

text \<open>
  Going back undoes reading: after a read that found a word, rewinding by one gives back the
  very lexer the read started from.
\<close>

lemma lexRewind_next:
  assumes "lexer_ok lx" and "\<not> lx_eof lx" and "lexNext lx = (w, lx')" and "\<not> lx_eof lx'"
  shows "lexRewind lx' 1 = Inr lx"
proof -
  have "\<exists>rest :: lex_item list. lx' = lx\<lparr>lx_wordCursor := length (lx_wordInfos lx) - length rest,
      lx_rewinders := lx_wordCursor lx # lx_rewinders lx\<rparr>"
  proof (cases "significant (lx_rest lx)")
    case None
    with assms lexNext_list [OF assms(1,2)] show ?thesis by auto
  next
    case (Some p)
    with assms(3) lexNext_list [OF assms(1,2)]
    have "lx' = lx\<lparr>lx_wordCursor := length (lx_wordInfos lx) - length (snd p),
        lx_rewinders := lx_wordCursor lx # lx_rewinders lx\<rparr>" by (cases p) simp
    then show ?thesis by (rule exI)
  qed
  then obtain rest :: "lex_item list" where "lx' = lx\<lparr>lx_wordCursor := length (lx_wordInfos lx) - length rest,
      lx_rewinders := lx_wordCursor lx # lx_rewinders lx\<rparr>" by blast
  with assms show ?thesis
    by (simp add: lexRewind_def leave_eof_def lexer_ok_def)
qed

lemma lexRewind_next_witness:
  "let lx = lexer_new ''a b'' ['' ''] ['' ''] [] in lexRewind (snd (lexNext lx)) 1 = Inr lx"
proof -
  let ?lx = "lexer_new ''a b'' ['' ''] ['' ''] []"
  have ok: "lexer_ok ?lx" "\<not> lx_eof ?lx" by (simp_all add: lexer_new_def Let_def lexer_ok_def)
  have "\<not> lx_eof (snd (lexNext ?lx))" by code_simp
  then show ?thesis using lexRewind_next [OF ok, of "fst (lexNext ?lx)" "snd (lexNext ?lx)"] by simp
qed

section \<open>Positions\<close>

abbreviation newline :: char where
  "newline \<equiv> CHR 0x0A"

definition line_of :: "string \<Rightarrow> nat" where
  "line_of pre = 1 + length (filter (\<lambda>c. c = newline) pre)"

definition col_of :: "string \<Rightarrow> nat" where
  "col_of pre = 1 + length (takeWhile (\<lambda>c. c \<noteq> newline) (rev pre))"

text \<open>The newline is a token of its own and occurs in no other token.\<close>

definition newline_token :: "insertion list \<Rightarrow> bool" where
  "newline_token ins \<longleftrightarrow>
     token_map ins [newline] \<noteq> None \<and>
     (\<forall>(s, a, e) \<in> set ins. newline \<in> set s \<longrightarrow> s = [newline])"

lemma line_col_append:
  "newline \<notin> set s \<Longrightarrow> line_of (pre @ s) = line_of pre"
  "newline \<notin> set s \<Longrightarrow> col_of (pre @ s) = col_of pre + length s"
  "line_of (pre @ [newline]) = line_of pre + 1" "col_of (pre @ [newline]) = 1"
  by (auto simp: line_of_def col_of_def filter_empty_conv takeWhile_append)

lemma token_map_mem: "token_map ins s = Some a \<Longrightarrow> (s, a) \<in> set ins \<and> s \<noteq> []"
  by (auto simp: token_map_def split: if_splits dest: map_of_SomeD)

text \<open>What one step of the cut takes: a newline alone, or a text without newline.\<close>

lemma cut_newline:
  assumes nt: "newline_token ins" and "str \<noteq> []"
  defines "r \<equiv> tk_next (tk_inserts tk_new ins) str"
  defines "w \<equiv> take (if tr_len r = 0 then length str else tr_len r) str"
  shows "w = [newline] \<or> newline \<notin> set w"
proof -
  obtain c rest where str: "str = c # rest" using \<open>str \<noteq> []\<close> by (cases str) auto
  have nl_head: "newline \<in> token_heads ins"
    using nt token_map_mem [of ins "[newline]"] by (force simp: newline_token_def token_heads_def)
  show ?thesis
  proof (cases "longest (token_map ins) str")
    case (Some p)
    then obtain k a where l: "longest (token_map ins) str = Some (k, a)" by (cases p) auto
    then have t: "(take k str, a) \<in> set ins" "take k str \<noteq> []"
      using longest_Some [OF l] token_map_mem by blast+
    then have "w = take k str" using l by (cases a) (auto simp: w_def r_def tk_next_inserts)
    then show ?thesis using nt t by (cases a) (auto simp: newline_token_def)
  next
    case None
    let ?tw = "takeWhile (\<lambda>c. c \<notin> token_heads ins) rest"
    note None' = None [unfolded str]
    have "c \<noteq> newline"
    proof
      assume "c = newline"
      then have "token_map ins (take 1 str) \<noteq> None" using nt by (simp add: str newline_token_def)
      with longest_None [OF None, of 1] show False by simp
    qed
    moreover have "w = c # ?tw"
    proof (cases "length ?tw < length rest")
      case True
      have "take (length ?tw) rest = ?tw" by (metis takeWhile_eq_take)
      moreover have "tr_len r = Suc (length ?tw)"
        using True None' by (simp add: r_def tk_next_inserts str Let_def del: longest.simps)
      ultimately show ?thesis by (simp add: w_def str)
    next
      case False
      then have tw: "?tw = rest" by (metis takeWhile_eq_take take_all not_less)
      have "tr_len r = 0"
        using False None' by (simp add: r_def tk_next_inserts str Let_def no_token_def del: longest.simps)
      then have "w = str" by (simp add: w_def)
      then show ?thesis unfolding tw str .
    qed
    moreover have "newline \<notin> set ?tw" using nl_head by (auto dest: set_takeWhileD)
    ultimately show ?thesis by auto
  qed
qed

lemma read_words_lossless: "concat (map (w_str \<circ> fst) (read_words t line col str)) = str"
proof (induction t line col str rule: read_words.induct)
  case (1 t line col str)
  note IH = 1 [OF _ refl _ refl refl]
  show ?case
  proof (cases "str = [] \<or> tr_len (tk_next t str) = 0")
    case True
    then show ?thesis by (subst read_words.simps) (auto simp: Let_def)
  next
    case False
    then show ?thesis using IH
      by (subst read_words.simps) (simp add: Let_def comp_def del: One_nat_def split del: if_split)
  qed
qed

lemma read_words_positions:
  assumes "newline_token ins"
  shows "i < length ws \<Longrightarrow> ws = read_words (tk_inserts tk_new ins) line col str \<Longrightarrow>
     line = line_of pre \<Longrightarrow> col = col_of pre \<Longrightarrow>
     w_line (fst (ws ! i)) = line_of (pre @ concat (map (w_str \<circ> fst) (take i ws))) \<and>
     w_col (fst (ws ! i)) = col_of (pre @ concat (map (w_str \<circ> fst) (take i ws)))"
proof (induction "length str" arbitrary: str line col pre i ws rule: less_induct)
  case less
  let ?t = "tk_inserts tk_new ins"
  let ?r = "tk_next ?t str"
  have ne: "str \<noteq> []" using less.prems(1,2) by (subst (asm) read_words.simps) auto
  show ?case
  proof (cases i)
    case 0
    with less.prems ne show ?thesis by (subst (asm) read_words.simps) (auto simp: Let_def split: if_splits)
  next
    case (Suc j)
    have len: "tr_len ?r \<noteq> 0"
      using less.prems(1,2) ne Suc by (subst (asm) read_words.simps) (auto simp: Let_def split: if_splits)
    let ?w = "take (tr_len ?r) str" and ?d = "drop (tr_len ?r) str"
    let ?nl = "hd ?w = newline"
    let ?line = "if ?nl then line + 1 else line" and ?col = "if ?nl then 1 else col + tr_len ?r"
    let ?ws = "read_words ?t ?line ?col ?d"
    have ws: "ws = (\<lparr>w_str = ?w, w_line = line, w_col = col, w_eof = False\<rparr>, ?r) # ?ws"
      using less.prems(2) ne len by (subst (asm) read_words.simps) (simp add: Let_def)
    have "?w = [newline] \<or> newline \<notin> set ?w" using cut_newline [OF assms ne] len by simp
    moreover have "?w \<noteq> []" using ne len by simp
    moreover have "length ?w = tr_len ?r" using tk_next_le [OF tk_wf_inserts [OF tk_wf_new]] by simp
    ultimately have pos: "?line = line_of (pre @ ?w)" "?col = col_of (pre @ ?w)"
      using less.prems(3,4) line_col_append(1,2) [of ?w pre] line_col_append(3,4) [of pre] by (cases ?w; auto)+
    have "length ?d < length str" using ne len by (cases str) auto
    from less.hyps [OF this _ refl pos, of j] less.prems(1) ws Suc
    show ?thesis by simp
  qed
qed

text \<open>
  C11. The words of a lexer, put together, are the text it was made from; and when newline is a
  token of its own, the line and the column of every word are those of its place in the text.
\<close>

theorem lexer_words_positions:
  fixes content tokens skips comments
  defines "lx \<equiv> lexer_new content tokens skips comments"
  assumes "newline_token (lexer_insertions tokens skips comments)"
  shows "concat (map w_str (lx_words lx)) = content \<and>
    (\<forall>i < length (lx_words lx).
       w_line (lx_words lx ! i) = line_of (concat (map w_str (take i (lx_words lx)))) \<and>
       w_col (lx_words lx ! i) = col_of (concat (map w_str (take i (lx_words lx)))))"
proof -
  let ?ins = "lexer_insertions tokens skips comments"
  let ?ws = "read_words (tk_inserts tk_new ?ins) 1 1 content"
  have lx: "lx_words lx = map fst ?ws" by (simp add: lx_def lexer_new_def Let_def)
  have "w_line (fst (?ws ! i)) = line_of ([] @ concat (map (w_str \<circ> fst) (take i ?ws))) \<and>
      w_col (fst (?ws ! i)) = col_of ([] @ concat (map (w_str \<circ> fst) (take i ?ws)))"
    if "i < length ?ws" for i
    by (rule read_words_positions [OF assms(2) that refl]) (simp_all add: line_of_def col_of_def)
  then show ?thesis
    using read_words_lossless [of "tk_inserts tk_new ?ins" 1 1 content]
    by (simp add: lx take_map comp_def)
qed

theorem lexer_words_positions_witness:
  "let lx = lexer_new ''a b'' ['' '', [newline]] ['' ''] [] in concat (map w_str (lx_words lx)) = ''a b''"
proof -
  have "newline_token (lexer_insertions ['' '', [newline]] ['' ''] [])"
    by (simp add: newline_token_def lexer_insertions_def token_map_def)
  from lexer_words_positions [OF this, of "''a b''"] show ?thesis by (simp add: Let_def)
qed

end
