(* ===== verification/TomlDump.thy ===== *)
theory TomlDump
  imports TomlParser
begin

text \<open>
  The printing half of \<^verbatim>\<open>utils/toml_parser.cc\<close>. Each function returns the text it appends to
  the stream; \<^verbatim>\<open>dict [k]\<close> throws on a missing key, so the result is a text or an exception.
  The functions recurse on the tree through \<^verbatim>\<open>dict [k]\<close>, which yields a node of the dictionary.
\<close>

section \<open>Definitions\<close>

definition spaces :: "int \<Rightarrow> string" where
  "spaces n = replicate (nat n) (CHR 32)"

definition dumpString :: "string \<Rightarrow> string" where
  "dumpString s = [CHR 0x22] @ s @ [CHR 0x22]"

definition dumpInt :: "i64 \<Rightarrow> string" where
  "dumpInt i = show_int (sint i)"

definition dumpBool :: "bool \<Rightarrow> string" where
  "dumpBool b = (if b then ''true'' else ''false'')"

definition dumpFloat :: "f64 \<Rightarrow> string" where
  "dumpFloat f = show_f64 f"

definition node_at :: "(string \<times> config) list \<Rightarrow> string \<Rightarrow> config res" where
  "node_at nodes k = (case map_of nodes k of None \<Rightarrow> Inl ConfigError | Some v \<Rightarrow> Inr v)"

fun has_others :: "(string \<times> config) list \<Rightarrow> string list \<Rightarrow> bool res" where
  "has_others nodes [] = Inr False"
| "has_others nodes (ik # iks) =
     ebind (node_at nodes ik) (\<lambda>v. if is_dict v then has_others nodes iks else Inr True)"

definition sets_returned :: "config \<Rightarrow> bool" where
  "sets_returned c \<longleftrightarrow> (case c of Array _ \<Rightarrow> True | CString _ \<Rightarrow> True | Dict _ _ \<Rightarrow> True | _ \<Rightarrow> False)"

lemma size_node_at: "map_of nodes k = Some v \<Longrightarrow> size v < size (Dict ks nodes)"
proof -
  assume "map_of nodes k = Some v"
  then have "(k, v) \<in> set nodes" by (rule map_of_SomeD)
  then have "size v \<le> size_list (size_prod (\<lambda>x. 0) size) nodes"
    by (induction nodes) auto
  then show ?thesis by simp
qed

text \<open>
  \<open>dump_node\<close> is \<^verbatim>\<open>dump\<close>; the loop of \<^verbatim>\<open>dumpArray\<close> carries whether it is past the first
  element and whether a line break is due.
\<close>

function (sequential)
  dump_node :: "config \<Rightarrow> bool \<Rightarrow> int \<Rightarrow> string res" and
  dumpSuperDict :: "string \<Rightarrow> config \<Rightarrow> string res" and
  dumpGlobalDict :: "config \<Rightarrow> int \<Rightarrow> string res" and
  dumpLocalDict :: "config \<Rightarrow> int \<Rightarrow> string res" and
  dumpArray_loop :: "config list \<Rightarrow> int \<Rightarrow> bool \<Rightarrow> bool \<Rightarrow> string res"
where
  "dump_node (Dict ks nodes) global indent =
     (if indent = - 1 then dumpSuperDict '''' (Dict ks nodes)
      else if global then dumpGlobalDict (Dict ks nodes) 0
      else dumpLocalDict (Dict ks nodes) indent)"
| "dump_node (Array nodes) global indent =
     ebind (dumpArray_loop nodes indent False False) (\<lambda>s. Inr (''['' @ s @ '']''))"
| "dump_node (CInt i) global indent = Inr (dumpInt i)"
| "dump_node (CBool b) global indent = Inr (dumpBool b)"
| "dump_node (CFloat f) global indent = Inr (dumpFloat f)"
| "dump_node (CString s) global indent = Inr (dumpString s)"
| "dumpSuperDict base (Dict ks nodes) =
     ebind (emap (\<lambda>k.
       case map_of nodes k of
         None \<Rightarrow> Inl ConfigError
       | Some (Dict iks inodes) \<Rightarrow>
           ebind (has_others inodes iks) (\<lambda>others.
             if others then
               ebind (dumpGlobalDict (Dict iks inodes) 0) (\<lambda>s.
                 Inr ('''', [CHR 0x0A] @ ''['' @ base @ k @ '']'' @ [CHR 0x0A] @ s))
             else
               ebind (dumpSuperDict (base @ k @ ''.'') (Dict iks inodes)) (\<lambda>s. Inr ('''', s)))
       | Some n \<Rightarrow>
           ebind (dump_node n False 0) (\<lambda>s. Inr (k @ '' = '' @ s @ [CHR 0x0A], ''''))) ks)
     (\<lambda>parts. Inr (concat (map fst parts) @ concat (map snd parts)))"
| "dumpSuperDict base _ = Inl Undefined"
| "dumpGlobalDict (Dict ks nodes) indent =
     ebind (emap (\<lambda>k.
       case map_of nodes k of
         None \<Rightarrow> Inl ConfigError
       | Some v \<Rightarrow>
           ebind (dump_node v False (indent + int (length k) + 3)) (\<lambda>s.
             Inr (k @ '' = '' @ s @ [CHR 0x0A]))) ks)
     (\<lambda>parts. Inr (join (spaces indent) parts))"
| "dumpGlobalDict _ indent = Inl Undefined"
| "dumpLocalDict (Dict ks nodes) indent =
     ebind (emap (\<lambda>k.
       case map_of nodes k of
         None \<Rightarrow> Inl ConfigError
       | Some v \<Rightarrow>
           ebind (dump_node v False (indent + int (length k) + 3)) (\<lambda>s. Inr (k @ '' = '' @ s))) ks)
     (\<lambda>parts. Inr (''{'' @ join '', '' parts @ ''}''))"
| "dumpLocalDict _ indent = Inl Undefined"
| "dumpArray_loop [] indent later returned = Inr ''''"
| "dumpArray_loop (v # vs) indent later returned =
     ebind (dump_node v False (indent + 1)) (\<lambda>s.
     ebind (dumpArray_loop vs indent True (returned \<or> sets_returned v)) (\<lambda>t.
       Inr ((if later then '', '' @ (if returned then [CHR 0x0A] @ spaces (indent + 1) else '''') else '''') @
         s @ t)))"
  by pat_completeness auto
termination
  by (relation "measure (\<lambda>x. case x of
      Inl (Inl (c, _)) \<Rightarrow> 2 * size c + 1
    | Inl (Inr (_, c)) \<Rightarrow> 2 * size c
    | Inr (Inl (c, _)) \<Rightarrow> 2 * size c
    | Inr (Inr (Inl (c, _))) \<Rightarrow> 2 * size c
    | Inr (Inr (Inr (cs, _))) \<Rightarrow> 2 * size_list size cs)")
    (auto dest: size_node_at)

definition toml_dump :: "config \<Rightarrow> string res" where
  "toml_dump node = dump_node node True (- 1)"

section \<open>Printing does not fail\<close>

lemma config_ok_at: "config_ok (Dict ks nodes) \<Longrightarrow> k \<in> set ks \<Longrightarrow> \<exists>v. map_of nodes k = Some v \<and> config_ok v"
proof -
  assume ok: "config_ok (Dict ks nodes)" and "k \<in> set ks"
  then have "map_of nodes k \<noteq> None" by (auto simp: map_of_eq_None_iff)
  then obtain v where "map_of nodes k = Some v" by blast
  then show ?thesis using ok map_of_SomeD [of nodes k v] by fastforce
qed

lemma has_others_total:
  "\<forall>k \<in> set iks. map_of nodes k \<noteq> None \<Longrightarrow> \<exists>b. has_others nodes iks = Inr b"
  by (induction iks) (auto simp: node_at_def)

lemma has_others_ok: "config_ok (Dict iks nodes) \<Longrightarrow> \<exists>b. has_others nodes iks = Inr b"
  using config_ok_at [of iks nodes] by (intro has_others_total) fastforce

lemma dumps_total:
  shows "config_ok c \<Longrightarrow> \<exists>s. dump_node c global indent = Inr s"
    and "config_ok c \<Longrightarrow> is_dict c \<Longrightarrow> \<exists>s. dumpSuperDict base c = Inr s"
    and "config_ok c \<Longrightarrow> is_dict c \<Longrightarrow> \<exists>s. dumpGlobalDict c indent = Inr s"
    and "config_ok c \<Longrightarrow> is_dict c \<Longrightarrow> \<exists>s. dumpLocalDict c indent = Inr s"
    and "\<forall>c \<in> set cs. config_ok c \<Longrightarrow> \<exists>s. dumpArray_loop cs indent later returned = Inr s"
proof (induction c global indent and base c and c indent and c indent and cs indent later returned
    rule: dump_node_dumpSuperDict_dumpGlobalDict_dumpLocalDict_dumpArray_loop.induct)
  case (1 ks nodes global indent)
  then show ?case by auto
next
  case (2 nodes global indent)
  then show ?case by fastforce
next
  case (7 base ks nodes)
  let ?f = "\<lambda>k. case map_of nodes k of
         None \<Rightarrow> Inl ConfigError
       | Some (Dict iks inodes) \<Rightarrow>
           ebind (has_others inodes iks) (\<lambda>others.
             if others then
               ebind (dumpGlobalDict (Dict iks inodes) 0) (\<lambda>s.
                 Inr ('''', [CHR 0x0A] @ ''['' @ base @ k @ '']'' @ [CHR 0x0A] @ s))
             else
               ebind (dumpSuperDict (base @ k @ ''.'') (Dict iks inodes)) (\<lambda>s. Inr ('''', s)))
       | Some n \<Rightarrow>
           ebind (dump_node n False 0) (\<lambda>s. Inr (k @ '' = '' @ s @ [CHR 0x0A], ''''))"
  have "\<exists>p. ?f k = Inr p" if k: "k \<in> set ks" for k
  proof -
    obtain v where v: "map_of nodes k = Some v" "config_ok v" using config_ok_at [OF 7(8) k] by blast
    then show ?thesis
    proof (cases v)
      case (Dict iks inodes)
      then obtain b where b: "has_others inodes iks = Inr b" using has_others_ok v by blast
      show ?thesis
      proof (cases b)
        case True
        from 7(1) [OF k v(1) Dict b True] v(2) Dict b True v(1) show ?thesis by auto
      next
        case False
        from 7(2) [OF k v(1) Dict b False] v(2) Dict b False v(1) show ?thesis by auto
      qed
    next
      case (Array nodes')
      with 7(3) [OF k v(1)] v show ?thesis by auto
    next
      case (CInt i)
      with 7(4) [OF k v(1)] v show ?thesis by auto
    next
      case (CFloat f)
      with 7(5) [OF k v(1)] v show ?thesis by auto
    next
      case (CString s)
      with 7(6) [OF k v(1)] v show ?thesis by auto
    next
      case (CBool b)
      with 7(7) [OF k v(1)] v show ?thesis by auto
    qed
  qed
  from emap_total [of ks ?f, OF this] show ?case by auto
next
  case (9 ks nodes indent)
  let ?f = "\<lambda>k. case map_of nodes k of
         None \<Rightarrow> Inl ConfigError
       | Some v \<Rightarrow>
           ebind (dump_node v False (indent + int (length k) + 3)) (\<lambda>s.
             Inr (k @ '' = '' @ s @ [CHR 0x0A]))"
  have "\<exists>p. ?f k = Inr p" if k: "k \<in> set ks" for k
  proof -
    obtain v where v: "map_of nodes k = Some v" "config_ok v" using config_ok_at [OF 9(2) k] by blast
    with 9(1) [OF k v(1)] show ?thesis by auto
  qed
  from emap_total [of ks ?f, OF this] show ?case by auto
next
  case (11 ks nodes indent)
  let ?f = "\<lambda>k. case map_of nodes k of
         None \<Rightarrow> Inl ConfigError
       | Some v \<Rightarrow>
           ebind (dump_node v False (indent + int (length k) + 3)) (\<lambda>s. Inr (k @ '' = '' @ s))"
  have "\<exists>p. ?f k = Inr p" if k: "k \<in> set ks" for k
  proof -
    obtain v where v: "map_of nodes k = Some v" "config_ok v" using config_ok_at [OF 11(2) k] by blast
    with 11(1) [OF k v(1)] show ?thesis by auto
  qed
  from emap_total [of ks ?f, OF this] show ?case by auto
next
  case (14 v vs indent later returned)
  then show ?case by fastforce
qed simp_all

text \<open>
  An empty dictionary below the top level has no entry that is not a dictionary, so it is printed
  as the (empty) list of its sub-dictionaries: it is lost.
\<close>

lemma toml_dump_drops_empty:
  "toml_dump (dict_insert ''a'' emptyDict emptyDict) = toml_dump emptyDict"
  by (simp add: toml_dump_def dict_insert_def emptyDict_def)

end
