(* ===== verification/RawParser.thy ===== *)
theory RawParser
  imports Config Bytes
begin

text \<open>
  \<^verbatim>\<open>utils/raw_parser.cc\<close>: the binary form of a configuration, with which actors exchange
  messages. \<open>dump\<close> appends to a byte vector; \<open>parse\<close> reads from a pointer and a length (the
  cursor of \<open>Bytes\<close>). A function of the class that calls \<^verbatim>\<open>this-> parse\<close> back takes the
  recursive call as an argument, and \<open>parse\<close> recurses on a bound of the nesting depth; the
  length of the buffer is always enough.
\<close>

section \<open>Writing\<close>

definition T_DICT :: u8 where "T_DICT = 1"
definition T_ARRAY :: u8 where "T_ARRAY = 2"
definition T_INT :: u8 where "T_INT = 3"
definition T_STRING :: u8 where "T_STRING = 4"
definition T_FLOAT :: u8 where "T_FLOAT = 5"
definition T_BOOL_T :: u8 where "T_BOOL_T = 6"
definition T_BOOL_F :: u8 where "T_BOOL_F = 7"

lemmas T_defs = T_DICT_def T_ARRAY_def T_INT_def T_STRING_def T_FLOAT_def T_BOOL_T_def T_BOOL_F_def

definition dumpInt :: "bytes \<Rightarrow> i64 \<Rightarrow> bytes" where
  "dumpInt buffer i = writeI64 (writeU8 buffer T_INT) i"

definition dumpFloat :: "bytes \<Rightarrow> f64 \<Rightarrow> bytes" where
  "dumpFloat buffer f = writeF64 (writeU8 buffer T_FLOAT) f"

definition dumpString :: "bytes \<Rightarrow> string \<Rightarrow> bytes" where
  "dumpString buffer s = writeString (writeU32 (writeU8 buffer T_STRING) (of_nat (length s))) s"

definition dumpBool :: "bytes \<Rightarrow> bool \<Rightarrow> bytes" where
  "dumpBool buffer b = (if b then writeU8 buffer T_BOOL_T else writeU8 buffer T_BOOL_F)"

fun dump :: "bytes \<Rightarrow> config \<Rightarrow> bytes" where
  "dump buffer (Dict ks nodes) =
     fold (\<lambda>(k, v) buffer. dump (writeString (writeU32 buffer (of_nat (length k))) k) v) nodes
       (writeU32 (writeU8 buffer T_DICT) (of_nat (length ks)))"
| "dump buffer (Array nodes) =
     fold (\<lambda>v buffer. dump buffer v) nodes
       (writeU32 (writeU8 buffer T_ARRAY) (getLen (Array nodes)))"
| "dump buffer (CInt i) = dumpInt buffer i"
| "dump buffer (CFloat f) = dumpFloat buffer f"
| "dump buffer (CString s) = dumpString buffer s"
| "dump buffer (CBool b) = dumpBool buffer b"

section \<open>Reading\<close>

fun dict_items ::
  "(cursor \<Rightarrow> (config \<times> cursor) res) \<Rightarrow> nat \<Rightarrow> cursor \<Rightarrow> config \<Rightarrow> (config \<times> cursor) res" where
  "dict_items parse 0 c dict = Inr (dict, c)"
| "dict_items parse (Suc nb) c dict =
     ebind (readU32 c) (\<lambda>(n, c).
     ebind (readString c n) (\<lambda>(key, c).
     ebind (parse c) (\<lambda>(value, c). dict_items parse nb c (dict_insert key value dict))))"

definition parseDict ::
  "(cursor \<Rightarrow> (config \<times> cursor) res) \<Rightarrow> cursor \<Rightarrow> (config \<times> cursor) res" where
  "parseDict parse c =
     ebind (readU32 c) (\<lambda>(nb, c).
       if 2048 < nb then Inl (RuntimeError ''Too much element sent'')
       else dict_items parse (unat nb) c emptyDict)"

fun array_items ::
  "(cursor \<Rightarrow> (config \<times> cursor) res) \<Rightarrow> nat \<Rightarrow> cursor \<Rightarrow> config \<Rightarrow> (config \<times> cursor) res" where
  "array_items parse 0 c array = Inr (array, c)"
| "array_items parse (Suc nb) c array =
     ebind (parse c) (\<lambda>(value, c). array_items parse nb c (array_insert value array))"

definition parseArray ::
  "(cursor \<Rightarrow> (config \<times> cursor) res) \<Rightarrow> cursor \<Rightarrow> (config \<times> cursor) res" where
  "parseArray parse c =
     ebind (readU32 c) (\<lambda>(nb, c).
       if 2048 < nb then Inl (RuntimeError ''Too much element sent'')
       else array_items parse (unat nb) c (Array []))"

definition parseInt :: "cursor \<Rightarrow> (config \<times> cursor) res" where
  "parseInt c = ebind (readI64 c) (\<lambda>(value, c). Inr (CInt value, c))"

definition parseFloat :: "cursor \<Rightarrow> (config \<times> cursor) res" where
  "parseFloat c = ebind (readF64 c) (\<lambda>(value, c). Inr (CFloat value, c))"

definition parseString :: "cursor \<Rightarrow> (config \<times> cursor) res" where
  "parseString c =
     ebind (readU32 c) (\<lambda>(n, c).
       if 1024 * 1024 < n then Inl (RuntimeError ''String to long'')
       else if n = 0 then Inr (CString '''', c)
       else ebind (readString c n) (\<lambda>(str, c). Inr (CString str, c)))"

fun parse :: "nat \<Rightarrow> cursor \<Rightarrow> (config \<times> cursor) res" where
  "parse 0 c = Inl NoFuel"
| "parse (Suc depth) c =
     ebind (readU8 c) (\<lambda>(ty, c).
       if ty = T_DICT then parseDict (parse depth) c
       else if ty = T_ARRAY then parseArray (parse depth) c
       else if ty = T_INT then parseInt c
       else if ty = T_STRING then parseString c
       else if ty = T_FLOAT then parseFloat c
       else if ty = T_BOOL_T then Inr (CBool True, c)
       else if ty = T_BOOL_F then Inr (CBool False, c)
       else Inl (RuntimeError ''Failed to parse from raw stream''))"

definition raw_parse :: "cursor \<Rightarrow> (config \<times> cursor) res" where
  "raw_parse c = parse (length (fst c) + 1) c"

section \<open>Readers consume\<close>














section \<open>The round trip\<close>

text \<open>What the format can carry: the bounds \<open>parse\<close> checks, and lengths that fit in 32 bits.\<close>

fun raw_limits :: "config \<Rightarrow> bool" where
  "raw_limits (Dict ks nodes) \<longleftrightarrow>
     length nodes \<le> 2048 \<and> (\<forall>p \<in> set nodes. length (fst p) < 2 ^ 32 \<and> raw_limits (snd p))"
| "raw_limits (Array nodes) \<longleftrightarrow> length nodes \<le> 2048 \<and> (\<forall>c \<in> set nodes. raw_limits c)"
| "raw_limits (CString s) \<longleftrightarrow> length s \<le> 1024 * 1024"
| "raw_limits (CInt _) \<longleftrightarrow> True"
| "raw_limits (CFloat _) \<longleftrightarrow> True"
| "raw_limits (CBool _) \<longleftrightarrow> True"

definition dump_entry :: "string \<times> config \<Rightarrow> bytes" where
  "dump_entry p = le_bytes 4 (of_nat (length (fst p)) :: u32) @ map char_byte (fst p) @ dump [] (snd p)"

lemma fold_append:
  "(\<And>x b. x \<in> set xs \<Longrightarrow> f x b = b @ g x) \<Longrightarrow> fold f xs b = b @ concat (map g xs)"
  by (induction xs arbitrary: b) auto

lemma dump_append: "dump b c = b @ dump [] c"
proof (induction c arbitrary: b)
  case (Dict ks nodes)
  have e: "(\<lambda>(k, v) buffer. dump (writeString (writeU32 buffer (of_nat (length k))) k) v) p b' = b' @ dump_entry p"
    if "p \<in> set nodes" for p b'
  proof -
    obtain k v where p: "p = (k, v)" by (cases p) auto
    have ih: "dump x v = x @ dump [] v" for x
      using Dict [of p v x] that p by simp
    show ?thesis using ih [of "writeString (writeU32 b' (of_nat (length k))) k"]
      by (simp add: p dump_entry_def writers_append)
  qed
  have "fold (\<lambda>(k, v) buffer. dump (writeString (writeU32 buffer (of_nat (length k))) k) v) nodes b' =
      b' @ concat (map dump_entry nodes)" for b'
    by (rule fold_append) (rule e)
  then show ?case unfolding dump.simps by (simp only: writers_append) simp
next
  case (Array nodes)
  have e: "(\<lambda>v buffer. dump buffer v) v b' = b' @ dump [] v" if "v \<in> set nodes" for v b'
    using Array [OF that] .
  have "fold (\<lambda>v buffer. dump buffer v) nodes b' = b' @ concat (map (dump []) nodes)" for b'
    by (rule fold_append) (rule e)
  then show ?case unfolding dump.simps by (simp only: writers_append) simp
qed (simp_all add: writers_append dumpInt_def dumpFloat_def dumpString_def dumpBool_def)

lemma dump_Dict:
  "dump [] (Dict ks nodes) =
     T_DICT # le_bytes 4 (of_nat (length ks) :: u32) @ concat (map dump_entry nodes)"
proof -
  have e: "(\<lambda>(k, v) buffer. dump (writeString (writeU32 buffer (of_nat (length k))) k) v) p b' = b' @ dump_entry p"
    for p b'
    using dump_append [of "writeString (writeU32 b' (of_nat (length (fst p)))) (fst p)" "snd p"]
    by (cases p) (simp add: dump_entry_def writers_append)
  show ?thesis unfolding dump.simps fold_append [OF e] by (simp add: writers_append)
qed

lemma dump_Array:
  "dump [] (Array nodes) =
     T_ARRAY # le_bytes 4 (of_nat (length nodes) :: u32) @ concat (map (dump []) nodes)"
  unfolding dump.simps fold_append [of nodes "\<lambda>v buffer. dump buffer v", OF dump_append]
  by (simp add: writers_append getLen_def)

text \<open>
  A parser reads a value back from its encoding, in front of anything, when the count covers the
  encoding and does not wrap; \<open>n\<close> bounds the bytes it is given.
\<close>

definition reads_back :: "nat \<Rightarrow> (cursor \<Rightarrow> ('a \<times> cursor) res) \<Rightarrow> bytes \<Rightarrow> 'a \<Rightarrow> bool" where
  "reads_back n p enc v \<longleftrightarrow>
     (\<forall>rest l. length enc + length rest < n \<longrightarrow> length enc \<le> unat l \<longrightarrow> unat l + length enc < 2 ^ 32 \<longrightarrow>
        p (enc @ rest, l) = Inr (v, (rest, l + of_nat (length enc))))"

lemma reads_backD:
  "reads_back n p enc v \<Longrightarrow> length enc + length rest < n \<Longrightarrow> length enc \<le> unat l \<Longrightarrow>
     unat l + length enc < 2 ^ 32 \<Longrightarrow>
     p (enc @ rest, l) = Inr (v, (rest, l + of_nat (length enc)))"
  by (simp add: reads_back_def)

lemma unat_advance: "unat (l :: u32) + n < 2 ^ 32 \<Longrightarrow> unat (l + of_nat n) = unat l + n"
  by (simp add: unat_word_ariths unat_of_nat)

lemma unat_advance_num:
  "unat (l :: u32) + 1 < 2 ^ 32 \<Longrightarrow> unat (l + 1) = unat l + 1"
  "unat (l :: u32) + 4 < 2 ^ 32 \<Longrightarrow> unat (l + 4) = unat l + 4"
  "unat (l :: u32) + 8 < 2 ^ 32 \<Longrightarrow> unat (l + 8) = unat l + 8"
  using unat_advance [of l 1] unat_advance [of l 4] unat_advance [of l 8] by simp_all

lemma le_u32_num: "1 \<le> unat (l :: u32) \<Longrightarrow> 1 \<le> l" "4 \<le> unat l \<Longrightarrow> 4 \<le> l" "8 \<le> unat l \<Longrightarrow> 8 \<le> l"
  by (simp_all add: word_le_nat_alt)

lemma reads_back_entry:
  assumes v: "reads_back n p (dump [] v) v" and k: "length k < 2 ^ 32"
    and b: "length (dump_entry (k, v)) + length rest < n" "length (dump_entry (k, v)) \<le> unat l"
      "unat l + length (dump_entry (k, v)) < 2 ^ 32"
  shows "dict_items p (Suc m) (dump_entry (k, v) @ rest, l) d =
    dict_items p m (rest, l + of_nat (length (dump_entry (k, v)))) (dict_insert k v d)"
proof -
  let ?r = "dump [] v @ rest"
  have len: "length (dump_entry (k, v)) = 4 + length k + length (dump [] v)"
    by (simp add: dump_entry_def)
  have kn: "unat (of_nat (length k) :: u32) = length k" using k by (simp add: unat_of_nat)
  have l4: "unat (l + 4) = unat l + 4" using b len by (intro unat_advance_num) simp
  have lk: "unat (l + 4 + of_nat (length k)) = unat l + 4 + length k"
    using b len l4 unat_advance [of "l + 4" "length k"] by simp
  have 1: "readU32 (dump_entry (k, v) @ rest, l) = Inr (of_nat (length k), (map char_byte k @ ?r, l + 4))"
    using b len readU32_le_bytes [OF le_u32_num(2), of l "of_nat (length k)" "map char_byte k @ ?r"]
    by (simp add: dump_entry_def)
  have 2: "readString (map char_byte k @ ?r, l + 4) (of_nat (length k)) =
      Inr (k, (?r, l + 4 + of_nat (length k)))"
    using kn b len l4 by (intro readString_map) (simp_all add: word_le_nat_alt)
  have 3: "p (?r, l + 4 + of_nat (length k)) =
      Inr (v, (rest, l + 4 + of_nat (length k) + of_nat (length (dump [] v))))"
    using b len lk by (intro reads_backD [OF v]) simp_all
  have "l + 4 + of_nat (length k) + of_nat (length (dump [] v)) = l + of_nat (length (dump_entry (k, v)))"
    by (simp add: len)
  with 1 2 3 show ?thesis by simp
qed

lemma dict_items_back:
  assumes "\<And>k v. (k, v) \<in> set nodes \<Longrightarrow> reads_back n p (dump [] v) v \<and> length k < 2 ^ 32"
    and "map_ok (done @ nodes)"
    and "length (concat (map dump_entry nodes)) + length rest < n"
    and "length (concat (map dump_entry nodes)) \<le> unat l"
    and "unat l + length (concat (map dump_entry nodes)) < 2 ^ 32"
  shows "dict_items p (length nodes) (concat (map dump_entry nodes) @ rest, l) (Dict (map fst done) done) =
    Inr (Dict (map fst (done @ nodes)) (done @ nodes),
      (rest, l + of_nat (length (concat (map dump_entry nodes)))))"
  using assms
proof (induction nodes arbitrary: "done" l)
  case (Cons kv nodes)
  obtain k v where kv: "kv = (k, v)" by (cases kv) auto
  let ?e = "dump_entry (k, v)" and ?es = "concat (map dump_entry nodes)"
  have v: "reads_back n p (dump [] v) v" "length k < 2 ^ 32" using Cons.prems(1) kv by auto
  have len: "length ?e + length ?es + length rest < n" "length ?e + length ?es \<le> unat l"
    "unat l + length ?e + length ?es < 2 ^ 32"
    using Cons.prems(3-5) kv by simp_all
  have ul: "unat (l + of_nat (length ?e)) = unat l + length ?e" using len by (intro unat_advance) simp
  have keys: "\<forall>k' \<in> set (map fst done). k' < k"
    using Cons.prems(2) kv by (auto simp: map_ok_def sorted_wrt_append)
  have ins: "dict_insert k v (Dict (map fst done) done) = Dict (map fst (done @ [kv])) (done @ [kv])"
    using map_assign_last [OF keys, of v] kv
    by (simp add: dict_insert_def keys_map_assign [of k v "done", symmetric])
  have ok: "map_ok ((done @ [kv]) @ nodes)" using Cons.prems(2) by simp
  have "dict_items p (length (kv # nodes)) (concat (map dump_entry (kv # nodes)) @ rest, l)
        (Dict (map fst done) done) =
      dict_items p (length nodes) (?es @ rest, l + of_nat (length ?e))
        (Dict (map fst (done @ [kv])) (done @ [kv]))"
    using reads_back_entry [OF v, of "?es @ rest" l "length nodes"] len ins kv by simp
  also have "\<dots> = Inr (Dict (map fst ((done @ [kv]) @ nodes)) ((done @ [kv]) @ nodes),
      (rest, l + of_nat (length ?e) + of_nat (length ?es)))"
    using Cons.prems(1) len ul by (intro Cons.IH [OF _ ok]) auto
  finally show ?case using kv by (simp add: add.assoc)
qed simp

lemma array_items_back:
  assumes "\<And>v. v \<in> set nodes \<Longrightarrow> reads_back n p (dump [] v) v"
    and "length (concat (map (dump []) nodes)) + length rest < n"
    and "length (concat (map (dump []) nodes)) \<le> unat l"
    and "unat l + length (concat (map (dump []) nodes)) < 2 ^ 32"
  shows "array_items p (length nodes) (concat (map (dump []) nodes) @ rest, l) (Array done) =
    Inr (Array (done @ nodes), (rest, l + of_nat (length (concat (map (dump []) nodes)))))"
  using assms
proof (induction nodes arbitrary: "done" l)
  case (Cons v nodes)
  let ?e = "dump [] v" and ?es = "concat (map (dump []) nodes)"
  have len: "length ?e + length ?es + length rest < n" "length ?e + length ?es \<le> unat l"
    "unat l + length ?e + length ?es < 2 ^ 32"
    using Cons.prems(2-4) by simp_all
  have ul: "unat (l + of_nat (length ?e)) = unat l + length ?e" using len by (intro unat_advance) simp
  have 1: "p (?e @ ?es @ rest, l) = Inr (v, (?es @ rest, l + of_nat (length ?e)))"
    using len Cons.prems(1) [of v] by (intro reads_backD [of n]) simp_all
  have 2: "array_items p (length nodes) (?es @ rest, l + of_nat (length ?e)) (Array (done @ [v])) =
    Inr (Array ((done @ [v]) @ nodes), (rest, l + of_nat (length ?e) + of_nat (length ?es)))"
    using Cons.prems(1) len ul by (intro Cons.IH) auto
  from 1 2 show ?case by (simp add: array_insert_def add.assoc)
qed simp

lemma parse_reads_back: "config_ok c \<Longrightarrow> raw_limits c \<Longrightarrow> reads_back n (parse n) (dump [] c) c"
proof (induction c arbitrary: n)
  case (Dict ks nodes)
  show ?case unfolding reads_back_def
  proof (intro allI impI)
    fix rest :: bytes and l :: u32
    let ?es = "concat (map dump_entry nodes)"
    assume b: "length (dump [] (Dict ks nodes)) + length rest < n"
      "length (dump [] (Dict ks nodes)) \<le> unat l" "unat l + length (dump [] (Dict ks nodes)) < 2 ^ 32"
    have len: "length (dump [] (Dict ks nodes)) = 5 + length ?es" by (simp only: dump_Dict) simp
    obtain d where n: "n = Suc d" using b by (cases n) auto
    have ks: "ks = map fst nodes" "length nodes \<le> 2048" using Dict.prems by auto
    have nb: "unat (of_nat (length ks) :: u32) = length nodes" "\<not> 2048 < (of_nat (length ks) :: u32)"
      using ks by (simp_all add: unat_of_nat word_less_nat_alt)
    have u: "unat (l + 1) = unat l + 1" "unat (l + 1 + 4) = unat l + 5"
      using b len unat_advance_num(1) [of l] unat_advance_num(2) [of "l + 1"] by simp_all
    have kv: "reads_back d (parse d) (dump [] v) v \<and> length k < 2 ^ 32" if "(k, v) \<in> set nodes" for k v
      using Dict.IH [of "(k, v)" v d] Dict.prems that by fastforce
    have items: "dict_items (parse d) (length nodes) (?es @ rest, l + 1 + 4) (Dict (map fst ([] :: (string \<times> config) list)) []) =
        Inr (Dict (map fst ([] @ nodes)) ([] @ nodes), (rest, l + 1 + 4 + of_nat (length ?es)))"
      using Dict.prems b len n u kv by (intro dict_items_back) auto
    have r8: "readU8 (T_DICT # xs, l) = Inr (T_DICT, (xs, l + 1))" for xs
      using b len by (intro readU8_Cons le_u32_num) simp
    have r32: "readU32 (le_bytes 4 v @ ?es @ rest, l + 1) = Inr (v, (?es @ rest, l + 1 + 4))" for v
      using b len u by (intro readU32_le_bytes le_u32_num) simp
    show "parse n (dump [] (Dict ks nodes) @ rest, l) =
        Inr (Dict ks nodes, (rest, l + of_nat (length (dump [] (Dict ks nodes)))))"
      using items nb ks n unfolding len
      by (simp add: dump_Dict r8 r32 parseDict_def emptyDict_def add.assoc del: dump.simps)
  qed
next
  case (Array nodes)
  show ?case unfolding reads_back_def
  proof (intro allI impI)
    fix rest :: bytes and l :: u32
    let ?es = "concat (map (dump []) nodes)"
    assume b: "length (dump [] (Array nodes)) + length rest < n"
      "length (dump [] (Array nodes)) \<le> unat l" "unat l + length (dump [] (Array nodes)) < 2 ^ 32"
    have len: "length (dump [] (Array nodes)) = 5 + length ?es" by (simp only: dump_Array) simp
    obtain d where n: "n = Suc d" using b by (cases n) auto
    have nb: "unat (of_nat (length nodes) :: u32) = length nodes" "\<not> 2048 < (of_nat (length nodes) :: u32)"
      using Array.prems by (simp_all add: unat_of_nat word_less_nat_alt)
    have u: "unat (l + 1) = unat l + 1" "unat (l + 1 + 4) = unat l + 5"
      using b len unat_advance_num(1) [of l] unat_advance_num(2) [of "l + 1"] by simp_all
    have items: "array_items (parse d) (length nodes) (?es @ rest, l + 1 + 4) (Array []) =
        Inr (Array ([] @ nodes), (rest, l + 1 + 4 + of_nat (length ?es)))"
      using Array.prems Array.IH b len n u by (intro array_items_back) auto
    have r8: "readU8 (T_ARRAY # xs, l) = Inr (T_ARRAY, (xs, l + 1))" for xs
      using b len by (intro readU8_Cons le_u32_num) simp
    have r32: "readU32 (le_bytes 4 v @ ?es @ rest, l + 1) = Inr (v, (?es @ rest, l + 1 + 4))" for v
      using b len u by (intro readU32_le_bytes le_u32_num) simp
    have ty: "T_ARRAY \<noteq> T_DICT" by (simp add: T_defs)
    show "parse n (dump [] (Array nodes) @ rest, l) =
        Inr (Array nodes, (rest, l + of_nat (length (dump [] (Array nodes)))))"
      using items nb n unfolding len
      by (simp add: dump_Array r8 r32 parseArray_def ty add.assoc del: dump.simps)
  qed
next
  case (CInt i)
  show ?case unfolding reads_back_def
  proof (intro allI impI)
    fix rest :: bytes and l :: u32
    assume b: "length (dump [] (CInt i)) + length rest < n"
      "length (dump [] (CInt i)) \<le> unat l" "unat l + length (dump [] (CInt i)) < 2 ^ 32"
    then obtain m where "n = Suc m" by (cases n) auto
    then show "parse n (dump [] (CInt i) @ rest, l) =
        Inr (CInt i, (rest, l + of_nat (length (dump [] (CInt i)))))"
      using b by (simp add: dumpInt_def writers_append T_defs readU8_Cons le_u32_num
          unat_advance_num parseInt_def readI64_le_bytes)
  qed
next
  case (CFloat f)
  show ?case unfolding reads_back_def
  proof (intro allI impI)
    fix rest :: bytes and l :: u32
    assume b: "length (dump [] (CFloat f)) + length rest < n"
      "length (dump [] (CFloat f)) \<le> unat l" "unat l + length (dump [] (CFloat f)) < 2 ^ 32"
    then obtain m where "n = Suc m" by (cases n) auto
    then show "parse n (dump [] (CFloat f) @ rest, l) =
        Inr (CFloat f, (rest, l + of_nat (length (dump [] (CFloat f)))))"
      using b by (simp add: dumpFloat_def writers_append T_defs readU8_Cons le_u32_num
          unat_advance_num parseFloat_def readF64_le_bytes)
  qed
next
  case (CString s)
  show ?case unfolding reads_back_def
  proof (intro allI impI)
    fix rest :: bytes and l :: u32
    assume b: "length (dump [] (CString s)) + length rest < n" "length (dump [] (CString s)) \<le> unat l"
      "unat l + length (dump [] (CString s)) < 2 ^ 32"
    have d: "dump [] (CString s) = T_STRING # le_bytes 4 (of_nat (length s) :: u32) @ map char_byte s"
      by (simp add: dumpString_def writers_append)
    then have len: "length (dump [] (CString s)) = 5 + length s" by simp
    obtain m where n: "n = Suc m" using b by (cases n) auto
    have nb: "unat (of_nat (length s) :: u32) = length s" "\<not> 1024 * 1024 < (of_nat (length s) :: u32)"
      using CString.prems by (simp_all add: unat_of_nat word_less_nat_alt)
    have u: "unat (l + 1) = unat l + 1" "unat (l + 1 + 4) = unat l + 5"
      using b len unat_advance_num(1) [of l] unat_advance_num(2) [of "l + 1"] by simp_all
    have z: "of_nat (length s) = (0 :: u32) \<longleftrightarrow> s = []"
    proof
      assume "of_nat (length s) = (0 :: u32)"
      then have "unat (of_nat (length s) :: u32) = 0" by simp
      with nb(1) show "s = []" by simp
    qed simp
    have r8: "readU8 (T_STRING # xs, l) = Inr (T_STRING, (xs, l + 1))" for xs
      using b len by (intro readU8_Cons le_u32_num) simp
    have r32: "readU32 (le_bytes 4 v @ xs, l + 1) = Inr (v, (xs, l + 1 + 4))" for v xs
      using b len u by (intro readU32_le_bytes le_u32_num) simp
    have rs: "readString (map char_byte s @ rest, l + 1 + 4) (of_nat (length s)) =
        Inr (s, (rest, l + 1 + 4 + of_nat (length s)))"
      using b len u nb by (intro readString_map) (simp_all add: word_le_nat_alt)
    have ty: "T_STRING \<noteq> T_DICT" "T_STRING \<noteq> T_ARRAY" "T_STRING \<noteq> T_INT" by (simp_all add: T_defs)
    let ?c = "(le_bytes 4 (of_nat (length s) :: u32) @ map char_byte s @ rest, l + 1)"
    have 1: "parse n (dump [] (CString s) @ rest, l) = parseString ?c"
      unfolding n d using ty by (simp add: r8)
    have 2: "parseString ?c = Inr (CString s, (rest, l + 5 + of_nat (length s)))"
    proof (cases "s = []")
      case True
      then show ?thesis by (simp add: parseString_def r32)
    next
      case False
      have "l + 1 + 4 = l + 5" by simp
      with False nb(2) z rs show ?thesis unfolding parseString_def r32 by (simp add: add.commute)
    qed
    show "parse n (dump [] (CString s) @ rest, l) =
        Inr (CString s, (rest, l + of_nat (length (dump [] (CString s)))))"
      unfolding 1 2 len by simp
  qed
next
  case (CBool v)
  show ?case unfolding reads_back_def
  proof (intro allI impI)
    fix rest :: bytes and l :: u32
    assume b: "length (dump [] (CBool v)) + length rest < n"
      "length (dump [] (CBool v)) \<le> unat l" "unat l + length (dump [] (CBool v)) < 2 ^ 32"
    then obtain m where n: "n = Suc m" by (cases n) auto
    have len: "length (dump [] (CBool v)) = 1" by (simp add: dumpBool_def writers_append)
    have "1 \<le> l" using b len by (intro le_u32_num) simp
    then show "parse n (dump [] (CBool v) @ rest, l) =
        Inr (CBool v, (rest, l + of_nat (length (dump [] (CBool v)))))"
      unfolding len n
      by (cases v) (simp_all add: dumpBool_def writers_append T_defs readU8_Cons)
  qed
qed

text \<open>
  C7. A well-formed configuration within the limits of the format is read back from its binary form,
  whatever follows it in the buffer: \<open>parse\<close> consumes exactly the bytes \<open>dump\<close> wrote. The count
  must cover the message and, because the readers increase it, stay below \<open>2 ^ 32\<close>.
\<close>

theorem raw_roundtrip:
  assumes "config_ok c" and "raw_limits c"
    and "length (dump [] c) \<le> unat l" and "unat l + length (dump [] c) < 2 ^ 32"
  shows "raw_parse (dump [] c @ rest, l) = Inr (c, (rest, l + of_nat (length (dump [] c))))"
  unfolding raw_parse_def by (rule reads_backD [OF parse_reads_back [OF assms(1,2)]]) (use assms in simp_all)

theorem raw_roundtrip_witness:
  "raw_parse (dump [] (Dict [''a'', ''b''] [(''a'', Array [CInt 7]), (''b'', CBool True)]) @ [9], 100) =
    Inr (Dict [''a'', ''b''] [(''a'', Array [CInt 7]), (''b'', CBool True)], ([9], 130))"
proof -
  let ?c = "Dict [''a'', ''b''] [(''a'', Array [CInt 7]), (''b'', CBool True)]"
  have "config_ok ?c" "raw_limits ?c" by (simp_all add: map_ok_def less_list_code)
  moreover have "length (dump [] ?c) = 30"
    by (simp add: dumpInt_def dumpBool_def writers_append getLen_def)
  ultimately show ?thesis using raw_roundtrip [of ?c 100 "[9]"] by simp
qed


text \<open>
  The readers add to the count instead of subtracting, so the check of the count does not stop a
  read past the end of a truncated message.
\<close>

lemma raw_reads_past_end: "raw_parse ([1, 0, 0, 0], 4) = Inl Undefined"
  by (simp add: raw_parse_def readU8_Cons T_defs parseDict_def readU32_def load_raw_def)

end
