(* ===== verification/Act.thy ===== *)
theory Act
  imports Prelude
begin

text \<open>
  Methods of the classes with state: a function of the state that returns a value or throws, with
  the state it leaves either way, or never returns (\<open>None\<close>: a thread that blocks for ever, a loop
  without end). A throw keeps the changes made before it, as in the program.
\<close>

named_theorems act_simps \<open>rewrite rules of the state and exception monad\<close>

type_synonym ('s, 'a) act = "'s \<Rightarrow> ('a res \<times> 's) option"

definition ret :: "'a \<Rightarrow> ('s, 'a) act" where
  "ret x = (\<lambda>s. Some (Inr x, s))"

definition throw :: "exn \<Rightarrow> ('s, 'a) act" where
  "throw e = (\<lambda>s. Some (Inl e, s))"

definition hang :: "('s, 'a) act" where
  "hang = (\<lambda>s. None)"

definition bnd :: "('s, 'a) act \<Rightarrow> ('a \<Rightarrow> ('s, 'b) act) \<Rightarrow> ('s, 'b) act" where
  "bnd m f = (\<lambda>s. case m s of
       None \<Rightarrow> None
     | Some (r, s') \<Rightarrow> (case r of Inl e \<Rightarrow> Some (Inl e, s') | Inr x \<Rightarrow> f x s'))"

definition gets :: "('s \<Rightarrow> 'a) \<Rightarrow> ('s, 'a) act" where
  "gets f = (\<lambda>s. Some (Inr (f s), s))"

definition modify :: "('s \<Rightarrow> 's) \<Rightarrow> ('s, unit) act" where
  "modify f = (\<lambda>s. Some (Inr (), f s))"

definition lift_res :: "'a res \<Rightarrow> ('s, 'a) act" where
  "lift_res r = (\<lambda>s. Some (r, s))"

text \<open>A computation that may not return, on a part of the state.\<close>

definition lift_opt :: "'a res option \<Rightarrow> ('s, 'a) act" where
  "lift_opt r = (\<lambda>s. case r of None \<Rightarrow> None | Some x \<Rightarrow> Some (x, s))"

lemma act_run [act_simps]:
  "ret x s = Some (Inr x, s)" "throw e s = Some (Inl e, s)" "hang s = None"
  "gets g s = Some (Inr (g s), s)" "modify h s = Some (Inr (), h s)"
  "lift_res r s = Some (r, s)" "lift_opt (Some r) s = Some (r, s)" "lift_opt None s = None"
  by (simp_all add: ret_def throw_def hang_def gets_def modify_def lift_res_def lift_opt_def)

lemma bnd_None [act_simps]: "m s = None \<Longrightarrow> bnd m f s = None"
  by (simp add: bnd_def)

lemma bnd_Inl [act_simps]: "m s = Some (Inl e, s') \<Longrightarrow> bnd m f s = Some (Inl e, s')"
  by (simp add: bnd_def)

lemma bnd_Inr [act_simps]: "m s = Some (Inr x, s') \<Longrightarrow> bnd m f s = f x s'"
  by (simp add: bnd_def)

lemma bnd_ret [act_simps]: "bnd (ret x) f s = f x s"
  by (simp add: bnd_def ret_def)

lemma bnd_gets [act_simps]: "bnd (gets g) f s = f (g s) s"
  by (simp add: bnd_def gets_def)

lemma bnd_modify [act_simps]: "bnd (modify h) f s = f () (h s)"
  by (simp add: bnd_def modify_def)

lemma bnd_throw [act_simps]: "bnd (throw e) f s = Some (Inl e, s)"
  by (simp add: bnd_def throw_def)

lemma bnd_assoc: "bnd (bnd m f) g = bnd m (\<lambda>x. bnd (f x) g)"
  by (rule ext) (auto simp: bnd_def split: option.splits sum.splits)

lemma bnd_if [act_simps]: "bnd (if b then m else m') f s = (if b then bnd m f s else bnd m' f s)"
  by simp

lemma bnd_SomeE:
  assumes "bnd m f s = Some (r, s'')"
  obtains (raised) e where "m s = Some (Inl e, s'')" "r = Inl e"
  | (returned) x s' where "m s = Some (Inr x, s')" "f x s' = Some (r, s'')"
  using assms by (auto simp: bnd_def split: option.splits sum.splits)

lemma bnd_cong [fundef_cong]:
  assumes "m s = m' s'" and "\<And>x t. m' s' = Some (Inr x, t) \<Longrightarrow> f x t = f' x t" and "s = s'"
  shows "bnd m f s = bnd m' f' s'"
  using assms by (auto simp: bnd_def split: option.splits sum.splits)

lemma mono_bnd [partial_function_mono]:
  fixes b :: "('a \<Rightarrow> 'b option) \<Rightarrow> ('s, 'c) act" and c :: "'c \<Rightarrow> ('a \<Rightarrow> 'b option) \<Rightarrow> ('s, 'd) act"
  assumes "mono_option (\<lambda>f. b f s)" and "\<And>x t. mono_option (\<lambda>f. c x f t)"
  shows "mono_option (\<lambda>f. bnd (b f) (\<lambda>x. c x f) s)"
proof (rule monotoneI)
  fix f g :: "'a \<Rightarrow> 'b option"
  assume "option.le_fun f g"
  then have b: "option_ord (b f s) (b g s)" and c: "\<And>x t. option_ord (c x f t) (c x g t)"
    using assms unfolding monotone_on_def by blast+
  show "option_ord (bnd (b f) (\<lambda>x. c x f) s) (bnd (b g) (\<lambda>x. c x g) s)"
  proof (cases "b f s")
    case (Some p)
    with b have g: "b g s = Some p" by (simp add: flat_ord_def)
    obtain r t where p: "p = (r, t)" by (cases p)
    show ?thesis using Some g c [of _ t] by (cases r) (simp_all add: p bnd_def flat_ord_def)
  qed (simp add: bnd_def flat_ord_def)
qed

text \<open>A method of a part of the state: \<open>put\<close> gives the part back.\<close>

definition zoom :: "('s \<Rightarrow> 't) \<Rightarrow> ('t \<Rightarrow> 's \<Rightarrow> 's) \<Rightarrow> ('t, 'a) act \<Rightarrow> ('s, 'a) act" where
  "zoom get put m = (\<lambda>s. case m (get s) of None \<Rightarrow> None | Some (r, t) \<Rightarrow> Some (r, put t s))"

lemma zoom_run [act_simps]:
  "m (get s) = None \<Longrightarrow> zoom get put m s = None"
  "m (get s) = Some (r, t) \<Longrightarrow> zoom get put m s = Some (r, put t s)"
  by (simp_all add: zoom_def)

text \<open>That a method returns a value, and what it does then.\<close>

definition returns :: "('s, 'a) act \<Rightarrow> 's \<Rightarrow> ('a \<Rightarrow> 's \<Rightarrow> bool) \<Rightarrow> bool" where
  "returns m s Q \<longleftrightarrow> (case m s of Some (Inr x, s') \<Rightarrow> Q x s' | _ \<Rightarrow> False)"

lemma returnsI: "m s = Some (Inr x, s') \<Longrightarrow> Q x s' \<Longrightarrow> returns m s Q"
  by (simp add: returns_def)

lemma returnsE:
  assumes "returns m s Q"
  obtains x s' where "m s = Some (Inr x, s')" "Q x s'"
proof (cases "m s")
  case (Some p)
  then show ?thesis using assms that by (cases p; cases "fst p") (auto simp: returns_def)
qed (use assms in \<open>simp add: returns_def\<close>)

lemma returns_bnd: "returns m s (\<lambda>x s'. returns (f x) s' Q) \<Longrightarrow> returns (bnd m f) s Q"
  by (erule returnsE) (simp add: returns_def [of "bnd m f"] bnd_Inr, simp add: returns_def)

lemma returns_mono: "returns m s P \<Longrightarrow> (\<And>x s'. P x s' \<Longrightarrow> Q x s') \<Longrightarrow> returns m s Q"
  by (erule returnsE) (simp add: returns_def)

lemma returns_ret [act_simps]: "returns (ret x) s Q \<longleftrightarrow> Q x s"
  by (simp add: returns_def act_run)

lemma returns_throw [act_simps]: "\<not> returns (throw e) s Q"
  by (simp add: returns_def act_run)

lemma returns_gets [act_simps]: "returns (gets g) s Q \<longleftrightarrow> Q (g s) s"
  by (simp add: returns_def act_run)

lemma returns_modify [act_simps]: "returns (modify h) s Q \<longleftrightarrow> Q () (h s)"
  by (simp add: returns_def act_run)

end
