(* ===== verification/Persister.thy ===== *)
theory Persister
  imports Act Stdlib
begin

text \<open>
  \<^verbatim>\<open>memory/cache/remote/persist.cc\<close>, the local persister: blocks of memory saved in files named by
  the path of the persister and the address of the block. The file system is the map from names to
  contents; opening a file for writing is taken to succeed. The time counters are left out. The name
  is printed in a buffer of 255 characters, then closed by a NUL at the length \<^verbatim>\<open>snprintf\<close> asks
  for: beyond the buffer when the name does not fit.

  The interface of a persister is the locale \<open>block_store\<close>.
\<close>

section \<open>The code\<close>

record local_persister =
  lp_path :: string
  lp_files :: "string \<Rightarrow> bytes option"
  lp_nbLoaded :: u32
  lp_nbSaved :: u32

text \<open>The two counters are not initialised by the constructor: they start with any value.\<close>

definition localPersister :: "string \<Rightarrow> nat \<Rightarrow> u32 \<Rightarrow> u32 \<Rightarrow> (string \<Rightarrow> bytes option) \<Rightarrow> local_persister" where
  "localPersister path pid loads saves files =
     \<lparr>lp_path = path @ ''.'' @ show_nat pid, lp_files = files, lp_nbLoaded = loads, lp_nbSaved = saves\<rparr>"

definition lp_name :: "u64 \<Rightarrow> (local_persister, string) act" where
  "lp_name addr =
     bnd (gets lp_path) (\<lambda>path.
     let name = path @ show_int (sint addr) in
     if 255 \<le> length name then throw Undefined else ret name)"

definition lp_exists :: "u64 \<Rightarrow> (local_persister, bool) act" where
  "lp_exists addr =
     bnd (modify (\<lambda>p. p\<lparr>lp_nbLoaded := lp_nbLoaded p + 1\<rparr>)) (\<lambda>_.
     bnd (lp_name addr) (\<lambda>name.
     gets (\<lambda>p. lp_files p name \<noteq> None)))"

text \<open>The contents of \<open>memory\<close> afterwards; a shorter file fills its beginning only.\<close>

definition lp_load :: "u64 \<Rightarrow> bytes \<Rightarrow> nat \<Rightarrow> (local_persister, bytes) act" where
  "lp_load addr memory sz =
     bnd (modify (\<lambda>p. p\<lparr>lp_nbLoaded := lp_nbLoaded p + 1\<rparr>)) (\<lambda>_.
     bnd (lp_name addr) (\<lambda>name.
     bnd (gets (\<lambda>p. lp_files p name)) (\<lambda>file.
     case file of
       None \<Rightarrow> throw (RuntimeError ''???'')
     | Some content \<Rightarrow>
         let got = take sz content in
         if length memory < length got then throw Undefined
         else bnd (modify (\<lambda>p. p\<lparr>lp_files := (lp_files p)(name := None)\<rparr>)) (\<lambda>_.
           ret (got @ drop (length got) memory)))))"

definition lp_save :: "u64 \<Rightarrow> bytes \<Rightarrow> nat \<Rightarrow> (local_persister, unit) act" where
  "lp_save addr memory sz =
     bnd (modify (\<lambda>p. p\<lparr>lp_nbSaved := lp_nbSaved p + 1\<rparr>)) (\<lambda>_.
     bnd (lp_name addr) (\<lambda>name.
     if length memory < sz then throw Undefined
     else modify (\<lambda>p. p\<lparr>lp_files := (lp_files p)(name := Some (take sz memory))\<rparr>)))"

definition lp_erase :: "u64 \<Rightarrow> (local_persister, unit) act" where
  "lp_erase addr =
     bnd (lp_name addr) (\<lambda>name.
     modify (\<lambda>p. p\<lparr>lp_files := (lp_files p)(name := None)\<rparr>))"

section \<open>The interface of a persister\<close>

text \<open>
  What \<^verbatim>\<open>persist.hh\<close> promises: a saved block is there, loading gives it back and removes it,
  loading what is not there throws, erasing removes. \<open>stored\<close> is what the persister holds, \<open>ok\<close> its
  invariant.
\<close>

locale block_store =
  fixes save :: "u64 \<Rightarrow> bytes \<Rightarrow> nat \<Rightarrow> ('p, unit) act"
    and load :: "u64 \<Rightarrow> bytes \<Rightarrow> nat \<Rightarrow> ('p, bytes) act"
    and erase :: "u64 \<Rightarrow> ('p, unit) act"
    and present :: "u64 \<Rightarrow> ('p, bool) act"
    and stored :: "'p \<Rightarrow> u64 \<Rightarrow> bytes option"
    and ok :: "'p \<Rightarrow> bool"
  assumes save_law: "ok p \<Longrightarrow> length m = n \<Longrightarrow>
      returns (save a m n) p (\<lambda>_ p'. ok p' \<and> stored p' = (stored p)(a := Some m))"
    and load_law: "ok p \<Longrightarrow> stored p a = Some b \<Longrightarrow> length b = n \<Longrightarrow> length m = n \<Longrightarrow>
      returns (load a m n) p (\<lambda>b' p'. b' = b \<and> ok p' \<and> stored p' = (stored p)(a := None))"
    and load_missing: "ok p \<Longrightarrow> stored p a = None \<Longrightarrow>
      \<exists>p'. load a m n p = Some (Inl (RuntimeError ''???''), p') \<and> ok p' \<and> stored p' = stored p"
    and erase_law: "ok p \<Longrightarrow> returns (erase a) p (\<lambda>_ p'. ok p' \<and> stored p' = (stored p)(a := None))"
    and present_law: "ok p \<Longrightarrow>
      returns (present a) p (\<lambda>b p'. (b \<longleftrightarrow> stored p a \<noteq> None) \<and> ok p' \<and> stored p' = stored p)"
begin

lemma save_load:
  assumes "ok p" and "length m = n" and "length junk = n"
  shows "returns (bnd (save a m n) (\<lambda>_. load a junk n)) p
    (\<lambda>m' p'. m' = m \<and> ok p' \<and> stored p' = (stored p)(a := None))"
proof (rule returns_bnd, rule returns_mono [OF save_law [OF assms(1,2), of a]])
  fix u p' assume p': "ok p' \<and> stored p' = (stored p)(a := Some m)"
  then show "returns (load a junk n) p' (\<lambda>m' p'. m' = m \<and> ok p' \<and> stored p' = (stored p)(a := None))"
    by (intro returns_mono [OF load_law [of p' a m n junk]]) (auto simp: assms)
qed

lemma save_load_other:
  assumes "ok p" and "length m = n" and "a \<noteq> b"
  shows "returns (save a m n) p (\<lambda>_ p'. ok p' \<and> stored p' b = stored p b)"
  by (rule returns_mono [OF save_law [OF assms(1,2), of a]]) (use assms(3) in auto)

lemma erase_load:
  assumes "ok p"
  shows "\<exists>p'. bnd (erase a) (\<lambda>_. load a junk n) p = Some (Inl (RuntimeError ''???''), p') \<and>
    stored p' = (stored p)(a := None)"
proof -
  from erase_law [OF assms, of a] obtain u p' where e: "erase a p = Some (Inr u, p')"
    and p': "ok p'" "stored p' = (stored p)(a := None)" by (auto elim: returnsE)
  from load_missing [OF p'(1), of a junk n] p'(2) show ?thesis by (auto simp: bnd_def e)
qed

end

section \<open>The local persister is one\<close>

text \<open>The names of blocks fit in the buffer: an address has at most 20 characters.\<close>

definition lp_ok :: "local_persister \<Rightarrow> bool" where
  "lp_ok p \<longleftrightarrow> length (lp_path p) \<le> 234"

definition lp_file :: "local_persister \<Rightarrow> u64 \<Rightarrow> string" where
  "lp_file p addr = lp_path p @ show_int (sint addr)"

definition lp_stored :: "local_persister \<Rightarrow> u64 \<Rightarrow> bytes option" where
  "lp_stored p addr = lp_files p (lp_file p addr)"

lemma length_show_nat: "n < 10 ^ k \<Longrightarrow> 0 < k \<Longrightarrow> length (show_nat n) \<le> k"
proof (induction n arbitrary: k rule: show_nat.induct)
  case (1 n)
  show ?case
  proof (cases "n < 10")
    case True
    then show ?thesis using 1(3) by (simp add: show_nat.simps [of n])
  next
    case False
    with 1(2) obtain j where k: "k = Suc j" "0 < j"
      by (cases k) (auto, metis One_nat_def gr0I power_one_right power_0 mult_1_right)
    with 1(2) have "n div 10 < 10 ^ j" by (simp add: less_mult_imp_div_less mult.commute)
    with 1(1) [OF False this k(2)] False k show ?thesis by (simp add: show_nat.simps [of n])
  qed
qed

lemma length_show_addr: "length (show_int (sint (a :: u64))) \<le> 20"
proof -
  have "sint a < 2 ^ 63" "- (2 ^ 63) \<le> sint a"
    using sint_lt [of a] sint_ge [of a] by simp_all
  then have "nat \<bar>sint a\<bar> \<le> 2 ^ 63" by auto
  also have "\<dots> < 10 ^ 19" by simp
  finally have "length (show_nat (nat \<bar>sint a\<bar>)) \<le> 19" by (rule length_show_nat) simp
  then show ?thesis by (auto simp: show_int_def)
qed

lemma show_int_inj: "show_int i = show_int j \<Longrightarrow> i = j"
  by (metis strtol10_show_int prod.inject)

lemma lp_file_inj: "lp_file p a = lp_file p b \<longleftrightarrow> a = (b :: u64)"
  by (auto simp: lp_file_def dest!: show_int_inj intro: signed_word_eqI)

lemma lp_name_ok: "lp_ok p \<Longrightarrow> lp_name a p = Some (Inr (lp_file p a), p)"
  using length_show_addr [of a] by (simp add: lp_name_def lp_file_def lp_ok_def act_simps Let_def)

lemma lp_upd [simp]:
  "lp_ok (p\<lparr>lp_nbSaved := x\<rparr>) = lp_ok p" "lp_ok (p\<lparr>lp_nbLoaded := x\<rparr>) = lp_ok p"
  "lp_ok (p\<lparr>lp_files := fs\<rparr>) = lp_ok p"
  "lp_stored (p\<lparr>lp_nbSaved := x\<rparr>) = lp_stored p" "lp_stored (p\<lparr>lp_nbLoaded := x\<rparr>) = lp_stored p"
  "lp_file (p\<lparr>lp_nbSaved := x\<rparr>) = lp_file p" "lp_file (p\<lparr>lp_nbLoaded := x\<rparr>) = lp_file p"
  by (auto simp: lp_ok_def lp_stored_def lp_file_def)

lemma lp_stored_upd:
  "lp_stored (p\<lparr>lp_nbSaved := x, lp_files := (lp_files p)(lp_file p a := y)\<rparr>) = (lp_stored p)(a := y)"
  "lp_stored (p\<lparr>lp_nbLoaded := x, lp_files := (lp_files p)(lp_file p a := y)\<rparr>) = (lp_stored p)(a := y)"
  "lp_stored (p\<lparr>lp_files := (lp_files p)(lp_file p a := y)\<rparr>) = (lp_stored p)(a := y)"
proof -
  have "lp_file (p\<lparr>lp_files := fs\<rparr>) b = lp_file p b" for fs b by (simp add: lp_file_def)
  then show "lp_stored (p\<lparr>lp_files := (lp_files p)(lp_file p a := y)\<rparr>) = (lp_stored p)(a := y)"
    by (intro ext) (simp add: lp_stored_def lp_file_inj)
  have "lp_file (p\<lparr>lp_nbSaved := x, lp_files := fs\<rparr>) b = lp_file p b" for fs b by (simp add: lp_file_def)
  then show "lp_stored (p\<lparr>lp_nbSaved := x, lp_files := (lp_files p)(lp_file p a := y)\<rparr>) = (lp_stored p)(a := y)"
    by (intro ext) (simp add: lp_stored_def lp_file_inj)
  have "lp_file (p\<lparr>lp_nbLoaded := x, lp_files := fs\<rparr>) b = lp_file p b" for fs b by (simp add: lp_file_def)
  then show "lp_stored (p\<lparr>lp_nbLoaded := x, lp_files := (lp_files p)(lp_file p a := y)\<rparr>) = (lp_stored p)(a := y)"
    by (intro ext) (simp add: lp_stored_def lp_file_inj)
qed

interpretation lp: block_store lp_save lp_load lp_erase lp_exists lp_stored lp_ok
proof
  fix p a m n b
  assume ok: "lp_ok p"
  note name = lp_name_ok [OF ok] lp_name_ok [of "p\<lparr>lp_nbSaved := x\<rparr>" for x, simplified, OF ok]
    lp_name_ok [of "p\<lparr>lp_nbLoaded := x\<rparr>" for x, simplified, OF ok]
  note defs = returns_def act_simps name ok lp_stored_upd
  show "returns (lp_save a m n) p (\<lambda>_ p'. lp_ok p' \<and> lp_stored p' = (lp_stored p)(a := Some m))"
    if "length m = n" using that by (simp add: lp_save_def defs)
  show "returns (lp_load a m n) p (\<lambda>b' p'. b' = b \<and> lp_ok p' \<and> lp_stored p' = (lp_stored p)(a := None))"
    if "lp_stored p a = Some b" "length b = n" "length m = n"
    using that by (simp add: lp_load_def defs lp_stored_def [of p a] Let_def)
  show "\<exists>p'. lp_load a m n p = Some (Inl (RuntimeError ''???''), p') \<and> lp_ok p' \<and> lp_stored p' = lp_stored p"
    if "lp_stored p a = None" using that by (simp add: lp_load_def defs lp_stored_def [of p a])
  show "returns (lp_erase a) p (\<lambda>_ p'. lp_ok p' \<and> lp_stored p' = (lp_stored p)(a := None))"
    by (simp add: lp_erase_def defs)
  show "returns (lp_exists a) p (\<lambda>b p'. (b \<longleftrightarrow> lp_stored p a \<noteq> None) \<and> lp_ok p' \<and> lp_stored p' = lp_stored p)"
    by (simp add: lp_exists_def defs lp_stored_def [of p a])
qed

end
