(* ===== verification/Addr.thy ===== *)
theory Addr
  imports Tokenizer Stdlib Bytes
begin

text \<open>
  \<^verbatim>\<open>net/addr.cc\<close>: IPv4 addresses and socket addresses, their textual form and the packed form
  the socket functions take. \<^verbatim>\<open>std::atoi\<close> gives an \<^verbatim>\<open>int\<close> that the assignment to
  \<^verbatim>\<open>unsigned char\<close> truncates. The network interfaces of the machine (\<^verbatim>\<open>getifaddrs\<close>) are a
  parameter: the names and dotted addresses of its IPv4 interfaces.
\<close>

section \<open>The code\<close>

record ipv4 =
  ip_a :: u8
  ip_b :: u8
  ip_c :: u8
  ip_d :: u8

record sockaddr =
  sa_ip :: ipv4
  sa_port :: u16

definition ipv4_new :: "u8 \<Rightarrow> u8 \<Rightarrow> u8 \<Rightarrow> u8 \<Rightarrow> ipv4" where
  "ipv4_new a b c d = \<lparr>ip_a = a, ip_b = b, ip_c = c, ip_d = d\<rparr>"

definition malformed :: "string \<Rightarrow> 'a res" where
  "malformed addr = Inl (AddrError (''Malformed addr : '' @ addr))"

definition ipv4_str :: "string \<Rightarrow> ipv4 res" where
  "ipv4_str addr =
     (if addr = ''localhost'' then Inr (ipv4_new 127 0 0 1)
      else let tokens = tokenize addr [''.'', '' ''] ['' ''] in
        if length tokens \<noteq> 7 then malformed addr
        else if tokens ! 1 \<noteq> ''.'' \<or> tokens ! 3 \<noteq> ''.'' \<or> tokens ! 5 \<noteq> ''.'' then malformed addr
        else Inr (ipv4_new (ucast (atoi (tokens ! 0))) (ucast (atoi (tokens ! 2)))
                   (ucast (atoi (tokens ! 4))) (ucast (atoi (tokens ! 6)))))"

text \<open>The union \<^verbatim>\<open>Packer\<close>: four bytes and the integer they are in memory.\<close>

definition ipv4_int :: "u32 \<Rightarrow> ipv4" where
  "ipv4_int full = (let pack = le_bytes 4 full in ipv4_new (pack ! 0) (pack ! 1) (pack ! 2) (pack ! 3))"

definition toN :: "ipv4 \<Rightarrow> u32" where
  "toN ip = le_word [ip_a ip, ip_b ip, ip_c ip, ip_d ip]"

definition ipv4_toString :: "ipv4 \<Rightarrow> string" where
  "ipv4_toString ip =
     show_nat (unat (ip_a ip)) @ ''.'' @ show_nat (unat (ip_b ip)) @ ''.'' @
     show_nat (unat (ip_c ip)) @ ''.'' @ show_nat (unat (ip_d ip))"

definition sockaddr_str :: "string \<Rightarrow> sockaddr res" where
  "sockaddr_str addr =
     (let tokens = tokenize addr [''.'', '':'', '' ''] ['' ''] in
      if length tokens \<noteq> 7 \<and> length tokens \<noteq> 9 then malformed addr
      else if tokens ! 1 \<noteq> ''.'' \<or> tokens ! 3 \<noteq> ''.'' \<or> tokens ! 5 \<noteq> ''.'' then malformed addr
      else
        let fst = atoi (tokens ! 0); scd = atoi (tokens ! 2);
            thd = atoi (tokens ! 4); fth = atoi (tokens ! 6) in
        ebind (if length tokens = 9
               then if tokens ! 7 \<noteq> '':'' then malformed addr else Inr (atoi (tokens ! 8))
               else Inr 0) (\<lambda>port.
        Inr \<lparr>sa_ip = ipv4_new (ucast fst) (ucast scd) (ucast thd) (ucast fth),
             sa_port = ucast port\<rparr>))"

definition sockaddr_toString :: "sockaddr \<Rightarrow> string" where
  "sockaddr_toString sa = ipv4_toString (sa_ip sa) @ '':'' @ show_nat (unat (sa_port sa))"

fun iface_loop :: "(string \<times> string) list \<Rightarrow> string \<Rightarrow> sockaddr \<Rightarrow> sockaddr res" where
  "iface_loop [] iface ip = Inr ip"
| "iface_loop ((name, addressBuffer) # ifa) iface ip =
     (if iface = name then sockaddr_str (addressBuffer @ '':0'') else iface_loop ifa iface ip)"

definition getIfaceIp :: "(string \<times> string) list \<Rightarrow> string \<Rightarrow> ipv4 res" where
  "getIfaceIp ifaddrs iface =
     ebind (sockaddr_str ''0.0.0.0:0'') (\<lambda>ip.
     ebind (iface_loop ifaddrs iface ip) (\<lambda>ip. Inr (sa_ip ip)))"

definition getAllIps :: "(string \<times> string) list \<Rightarrow> bool \<Rightarrow> ipv4 list res" where
  "getAllIps ifaddrs onlyABC =
     emap (\<lambda>(name, addressBuffer).
       ebind (sockaddr_str (addressBuffer @ '':0'')) (\<lambda>sa.
       Inr (if onlyABC then (sa_ip sa)\<lparr>ip_d := 0\<rparr> else sa_ip sa))) ifaddrs"

section \<open>Tokens of one character\<close>

text \<open>With single characters as tokens, a text is its words and the characters between them.\<close>

definition single :: "insertion list \<Rightarrow> bool" where
  "single ins \<longleftrightarrow> (\<forall>(s, a) \<in> set ins. length s = 1)"

definition is_mark :: "insertion list \<Rightarrow> char \<Rightarrow> bool" where
  "is_mark ins c \<longleftrightarrow> [c] \<in> fst ` set ins"

lemma longest_at_end:
  "(\<And>t. t \<noteq> [] \<Longrightarrow> m t = None) \<Longrightarrow> longest m s = map_option (Pair 0) (m [])"
proof (induction s arbitrary: m)
  case (Cons c s)
  then have "longest (\<lambda>t. m (c # t)) s = None" by (subst Cons.IH) auto
  then show ?case by simp
qed simp

lemma token_map_single:
  assumes "single ins" and "length s \<noteq> 1"
  shows "token_map ins s = None"
proof -
  have "s \<notin> fst ` set (rev ins)" using assms by (auto simp: single_def)
  then show ?thesis by (simp add: token_map_def map_of_eq_None_iff del: set_rev)
qed

lemma longest_single:
  assumes "single ins"
  shows "longest (token_map ins) (c # s) = map_option (Pair 1) (map_of (rev ins) [c])"
proof -
  have "longest (\<lambda>t. token_map ins (c # t)) s = map_option (Pair 0) (token_map ins [c])"
    using token_map_single [OF assms] by (intro longest_at_end) auto
  then show ?thesis
    using token_map_single [OF assms, of "[]"]
    by (cases "map_of (rev ins) [c]") (simp_all add: token_map_def)
qed

lemma token_heads_single: "single ins \<Longrightarrow> token_heads ins = {c. is_mark ins c}"
  by (force simp: token_heads_def is_mark_def single_def length_Suc_conv)

lemma not_mark: "\<not> is_mark ins c \<Longrightarrow> map_of (rev ins) [c] = None"
  by (simp add: is_mark_def map_of_eq_None_iff)

lemma tokenize_mark:
  assumes "single ins" and "map_of (rev ins) [c] = Some (sk, e)"
  shows "tokenize_loop (tk_inserts tk_new ins) (c # s) =
    (if sk then [] else [[c]]) @ tokenize_loop (tk_inserts tk_new ins) s"
  by (subst tokenize_loop.simps) (simp add: tk_next_inserts longest_single [OF assms(1)] assms(2) del: longest.simps)

lemma tokenize_word:
  assumes "single ins" and "w \<noteq> []" and "\<And>c. c \<in> set w \<Longrightarrow> \<not> is_mark ins c" and "is_mark ins d"
  shows "tokenize_loop (tk_inserts tk_new ins) (w @ d # s) =
    w # tokenize_loop (tk_inserts tk_new ins) (d # s)"
proof -
  from assms(2) obtain c w' where w: "w = c # w'" by (cases w) auto
  have l: "longest (token_map ins) (w @ d # s) = None"
    using assms(3) [of c] by (simp add: w longest_single [OF assms(1)] not_mark del: longest.simps)
  have "takeWhile (\<lambda>x. \<not> is_mark ins x) (w' @ d # s) = w'"
    using assms(3,4) w by (subst takeWhile_append) (auto simp: takeWhile_eq_all_conv)
  then show ?thesis
    using w l by (subst tokenize_loop.simps)
      (simp add: tk_next_inserts token_heads_single [OF assms(1)] Let_def)
qed

lemma tokenize_end:
  assumes "single ins" and "w \<noteq> []" and "\<And>c. c \<in> set w \<Longrightarrow> \<not> is_mark ins c \<and> c \<noteq> CHR 0x00"
  shows "tokenize_loop (tk_inserts tk_new ins) w = [w]"
proof -
  from assms(2) obtain c w' where w: "w = c # w'" by (cases w) auto
  have l: "longest (token_map ins) w = None"
    using assms(3) [of c] by (simp add: w longest_single [OF assms(1)] not_mark del: longest.simps)
  have t: "takeWhile (\<lambda>x. \<not> is_mark ins x) w' = w'" "takeWhile (\<lambda>x. x \<noteq> CHR 0x00) w = w"
    using assms(3) w by (auto simp: takeWhile_eq_all_conv)
  then have "length (takeWhile (\<lambda>x. \<not> is_mark ins x) w') = length w'" by (simp only: t)
  note t(2) this
  then show ?thesis
    using w l by (subst tokenize_loop.simps)
      (simp add: tk_next_inserts token_heads_single [OF assms(1)] no_token_def Let_def del: longest.simps)
qed

section \<open>Round trips\<close>

definition addr_marks :: "insertion list" where
  "addr_marks = [(''.'', False, []), ('' '', False, []), ('' '', True, [])]"

definition sock_marks :: "insertion list" where
  "sock_marks = [(''.'', False, []), ('':'', False, []), ('' '', False, []), ('' '', True, [])]"

lemma marks_single [simp]: "single addr_marks" "single sock_marks"
  by (simp_all add: single_def addr_marks_def sock_marks_def)

lemma tokenize_marks:
  "tokenize addr [''.'', '' ''] ['' ''] = tokenize_loop (tk_inserts tk_new addr_marks) addr"
  "tokenize addr [''.'', '':'', '' ''] ['' ''] = tokenize_loop (tk_inserts tk_new sock_marks) addr"
  by (simp_all add: tokenize_def addr_marks_def sock_marks_def)

lemma digits_not_marks:
  assumes "c \<in> set (show_nat n)"
  shows "\<not> is_mark addr_marks c" "\<not> is_mark sock_marks c" "c \<noteq> CHR 0x00"
  using show_nat_digits [OF assms] by (auto simp: is_mark_def addr_marks_def sock_marks_def isdigit_def code_def)

lemma marks [simp]:
  "is_mark addr_marks CHR ''.''" "is_mark sock_marks CHR ''.''" "is_mark sock_marks CHR '':''"
  by (simp_all add: is_mark_def addr_marks_def sock_marks_def)

lemma tokenize_marks_cons:
  "tokenize_loop (tk_inserts tk_new addr_marks) (CHR ''.'' # s) = ''.'' # tokenize_loop (tk_inserts tk_new addr_marks) s"
  "tokenize_loop (tk_inserts tk_new sock_marks) (CHR ''.'' # s) = ''.'' # tokenize_loop (tk_inserts tk_new sock_marks) s"
  "tokenize_loop (tk_inserts tk_new sock_marks) (CHR '':'' # s) = '':'' # tokenize_loop (tk_inserts tk_new sock_marks) s"
  using tokenize_mark [OF marks_single(1), of "CHR ''.''" False "[]" s]
    tokenize_mark [OF marks_single(2), of "CHR ''.''" False "[]" s]
    tokenize_mark [OF marks_single(2), of "CHR '':''" False "[]" s]
  by (simp_all add: addr_marks_def sock_marks_def)

lemma atoi_byte: "ucast (atoi (show_nat (unat (b :: u8)))) = b"
proof -
  have "unat b < 2 ^ 31" using unat_less_u8 [of b] by simp
  then show ?thesis by (simp add: atoi_show_nat unsigned_ucast_eq take_bit_word_beyond_length_eq)
qed

lemma atoi_port: "ucast (atoi (show_nat (unat (p :: u16)))) = p"
proof -
  have "unat p < 2 ^ 31" by (rule order.strict_trans2 [OF unsigned_less]) simp
  then show ?thesis by (simp add: atoi_show_nat unsigned_ucast_eq take_bit_word_beyond_length_eq)
qed

lemmas tokenize_number =
  tokenize_word [OF marks_single(1) show_nat_ne digits_not_marks(1)]
  tokenize_word [OF marks_single(2) show_nat_ne digits_not_marks(2)]
  tokenize_end [OF marks_single(1) show_nat_ne conjI [OF digits_not_marks(1,3)]]
  tokenize_end [OF marks_single(2) show_nat_ne conjI [OF digits_not_marks(2,3)]]

lemma tokenize_ipv4:
  "tokenize (ipv4_toString ip) [''.'', '' ''] ['' ''] =
     [show_nat (unat (ip_a ip)), ''.'', show_nat (unat (ip_b ip)), ''.'',
      show_nat (unat (ip_c ip)), ''.'', show_nat (unat (ip_d ip))]"
  by (simp add: tokenize_marks ipv4_toString_def tokenize_number tokenize_marks_cons)

lemma tokenize_sockaddr:
  "tokenize (sockaddr_toString sa) [''.'', '':'', '' ''] ['' ''] =
     [show_nat (unat (ip_a (sa_ip sa))), ''.'', show_nat (unat (ip_b (sa_ip sa))), ''.'',
      show_nat (unat (ip_c (sa_ip sa))), ''.'', show_nat (unat (ip_d (sa_ip sa))), '':'',
      show_nat (unat (sa_port sa))]"
  by (simp add: tokenize_marks ipv4_toString_def sockaddr_toString_def tokenize_number tokenize_marks_cons)

lemma ipv4_not_localhost: "ipv4_toString ip \<noteq> ''localhost''"
proof
  assume "ipv4_toString ip = ''localhost''"
  then have "CHR ''.'' \<in> set ''localhost''" by (metis ipv4_toString_def in_set_conv_decomp append_Cons append_Nil append_assoc)
  then show False by simp
qed

text \<open>
  C27. Every address and every socket address is read back from what is printed for it, and from the
  integer it is packed in.
\<close>

theorem addr_roundtrip:
  "ipv4_str (ipv4_toString ip) = Inr ip \<and> sockaddr_str (sockaddr_toString sa) = Inr sa \<and>
   ipv4_int (toN ip) = ip \<and> toN (ipv4_int n) = n"
proof (intro conjI)
  show "ipv4_str (ipv4_toString ip) = Inr ip"
    by (simp add: ipv4_str_def ipv4_not_localhost tokenize_ipv4 atoi_byte ipv4_new_def)
  show "sockaddr_str (sockaddr_toString sa) = Inr sa"
    by (simp add: sockaddr_str_def tokenize_sockaddr atoi_byte atoi_port ipv4_new_def)
  have "le_bytes 4 (toN ip) = [ip_a ip, ip_b ip, ip_c ip, ip_d ip]"
    using le_bytes_le_word [of "[ip_a ip, ip_b ip, ip_c ip, ip_d ip]", where 'a = 32]
    by (simp add: toN_def eval_nat_numeral del: le_word.simps)
  then show "ipv4_int (toN ip) = ip" by (simp add: ipv4_int_def ipv4_new_def)
  have l: "[xs ! 0, xs ! 1, xs ! 2, xs ! 3] = xs" if "length xs = 4" for xs :: bytes
    using that by (simp add: numeral_eq_Suc length_Suc_conv) auto
  have "le_word [le_bytes 4 n ! 0, le_bytes 4 n ! 1, le_bytes 4 n ! 2, le_bytes 4 n ! 3] = n"
    by (subst l) simp_all
  then show "toN (ipv4_int n) = n" by (simp add: toN_def ipv4_int_def ipv4_new_def Let_def)
qed

end
