(* ===== verification/Stream.thy ===== *)
theory Stream
  imports Act Addr
begin

text \<open>
  \<^verbatim>\<open>net/stream.cc\<close>: the TCP stream and its typed send and receive operations. The kernel side
  of the socket is part of the state: \<open>inbox\<close> is what \<^verbatim>\<open>recv\<close> will deliver, in the pieces the
  network delivers it in (a call returns at most one piece; no piece left, or an empty one, is the
  end of the stream or an error), \<open>room\<close> how many bytes the next calls of \<^verbatim>\<open>send\<close> accept (none
  left, or 0, is an error), \<open>outbox\<close> what was accepted. The mutex of a stream is released on
  every path by its \<^verbatim>\<open>mutex_locker\<close> and is not modelled here.
\<close>

section \<open>The state\<close>

record tcp_stream =
  sockfd :: nat
  stream_error :: bool
  stream_addr :: sockaddr
  connected :: bool
  inbox :: "bytes list"
  room :: "nat list"
  outbox :: bytes

definition addr_zero :: sockaddr where
  "addr_zero = \<lparr>sa_ip = ipv4_int 0, sa_port = 0\<rparr>"

definition tcpStream_sock :: "nat \<Rightarrow> sockaddr \<Rightarrow> bytes list \<Rightarrow> nat list \<Rightarrow> tcp_stream" where
  "tcpStream_sock sock addr ib rm =
     \<lparr>sockfd = sock, stream_error = False, stream_addr = addr, connected = False,
      inbox = ib, room = rm, outbox = []\<rparr>"

definition tcpStream_addr :: "sockaddr \<Rightarrow> tcp_stream" where
  "tcpStream_addr addr = tcpStream_sock 0 addr [] []"

definition isOpen :: "tcp_stream \<Rightarrow> bool" where
  "isOpen s \<longleftrightarrow> \<not> stream_error s \<and> sockfd s \<noteq> 0"

section \<open>Connecting and closing\<close>

definition stream_close :: "(tcp_stream, unit) act" where
  "stream_close = modify (\<lambda>s. if 0 < sockfd s
     then s\<lparr>sockfd := 0, stream_addr := addr_zero, stream_error := False, connected := False,
            inbox := [], room := []\<rparr>
     else s)"

text \<open>
  \<open>sock\<close> is the result of \<^verbatim>\<open>socket\<close> (\<open>None\<close> for -1), and \<open>dial\<close> that of \<^verbatim>\<open>connect\<close>: whether
  the address answers, with the two kernel queues of the connection.
\<close>

definition stream_connect ::
  "nat option \<Rightarrow> (sockaddr \<Rightarrow> (bytes list \<times> nat list) option) \<Rightarrow> (tcp_stream, unit) act" where
  "stream_connect sock dial =
     bnd stream_close (\<lambda>_.
     case sock of
       None \<Rightarrow> bnd (modify (\<lambda>s. s\<lparr>sockfd := 0\<rparr>)) (\<lambda>_. throw (Rd_UtilsError ''Error creating socket.''))
     | Some fd \<Rightarrow>
         bnd (modify (\<lambda>s. s\<lparr>sockfd := fd\<rparr>)) (\<lambda>_.
         bnd (gets stream_addr) (\<lambda>addr.
         case dial addr of
           None \<Rightarrow> bnd (modify (\<lambda>s. s\<lparr>sockfd := 0\<rparr>)) (\<lambda>_. throw (Rd_UtilsError ''Error connecting.''))
         | Some (ib, rm) \<Rightarrow> modify (\<lambda>s. s\<lparr>connected := True, inbox := ib, room := rm\<rparr>))))"

section \<open>Sending\<close>

definition stream_closed :: "bool \<Rightarrow> (tcp_stream, bool) act" where
  "stream_closed t = (if t then throw (RuntimeError ''Stream is closed'') else ret False)"

text \<open>The result of one call of \<^verbatim>\<open>send\<close>.\<close>

definition os_send :: "bytes \<Rightarrow> (tcp_stream, nat) act" where
  "os_send cur = (\<lambda>s. case room s of
       [] \<Rightarrow> Some (Inr 0, s)
     | k # ks \<Rightarrow> let n = min k (length cur) in
         Some (Inr n, s\<lparr>room := ks, outbox := outbox s @ take n cur\<rparr>))"

function (sequential) send_loop :: "bytes \<Rightarrow> bool \<Rightarrow> tcp_stream \<Rightarrow> (bool res \<times> tcp_stream) option" where
  "send_loop cur t s =
     (if cur = [] then ret True s
      else bnd (os_send cur) (\<lambda>sent.
        if sent < 1 then bnd (modify (\<lambda>s. s\<lparr>stream_error := True\<rparr>)) (\<lambda>_. stream_closed t)
        else send_loop (drop sent cur) t) s)"
  by pat_completeness auto
termination
  by (relation "measure (\<lambda>(cur, t, s). length cur)") auto

declare send_loop.simps [simp del]

text \<open>\<^verbatim>\<open>len\<close> is an \<^verbatim>\<open>int\<close> made from the size, then an \<^verbatim>\<open>uint32_t\<close>.\<close>

definition inner_sendRaw :: "bytes \<Rightarrow> bool \<Rightarrow> (tcp_stream, bool) act" where
  "inner_sendRaw buffer t =
     bnd (gets isOpen) (\<lambda>open.
     if open then send_loop (take (length buffer mod 2 ^ 32) buffer) t else stream_closed t)"

definition sendU64 :: "u64 \<Rightarrow> bool \<Rightarrow> (tcp_stream, bool) act" where
  "sendU64 i t = inner_sendRaw (le_bytes 8 i) t"

definition sendU32 :: "u32 \<Rightarrow> bool \<Rightarrow> (tcp_stream, bool) act" where
  "sendU32 i t = inner_sendRaw (le_bytes 4 i) t"

definition sendI64 :: "u64 \<Rightarrow> bool \<Rightarrow> (tcp_stream, bool) act" where
  "sendI64 i t = inner_sendRaw (le_bytes 8 i) t"

definition sendI32 :: "u32 \<Rightarrow> bool \<Rightarrow> (tcp_stream, bool) act" where
  "sendI32 i t = inner_sendRaw (le_bytes 4 i) t"

definition sendChar :: "u8 \<Rightarrow> bool \<Rightarrow> (tcp_stream, bool) act" where
  "sendChar i t = inner_sendRaw [i] t"

definition sendF32 :: "u32 \<Rightarrow> bool \<Rightarrow> (tcp_stream, bool) act" where
  "sendF32 i t = inner_sendRaw (le_bytes 4 i) t"

definition sendF64 :: "u64 \<Rightarrow> bool \<Rightarrow> (tcp_stream, bool) act" where
  "sendF64 i t = inner_sendRaw (le_bytes 8 i) t"

definition sendStr :: "string \<Rightarrow> bool \<Rightarrow> (tcp_stream, bool) act" where
  "sendStr msg t = inner_sendRaw (map char_byte msg) t"

section \<open>Receiving\<close>

text \<open>One call of \<^verbatim>\<open>recv\<close> for at most \<open>n\<close> bytes; an empty result is \<^verbatim>\<open>valread <= 0\<close>.\<close>

definition os_recv :: "nat \<Rightarrow> (tcp_stream, bytes) act" where
  "os_recv n = (\<lambda>s. case inbox s of
       [] \<Rightarrow> Some (Inr [], s)
     | c # cs \<Rightarrow> Some (Inr (take n c),
         s\<lparr>inbox := (if n < length c then drop n c # cs else cs)\<rparr>))"

text \<open>
  The bytes received are the second component: on an error the destination holds those and keeps
  the rest of what it held.
\<close>

function (sequential) recv_loop ::
  "nat \<Rightarrow> bytes \<Rightarrow> bool \<Rightarrow> tcp_stream \<Rightarrow> ((bool \<times> bytes) res \<times> tcp_stream) option"
where
  "recv_loop lenToRecv got t s =
     (if lenToRecv = 0 then ret (True, got) s
      else bnd (os_recv lenToRecv) (\<lambda>b.
        if b = [] then
          bnd (modify (\<lambda>s. s\<lparr>stream_error := True\<rparr>)) (\<lambda>_.
          bnd (stream_closed t) (\<lambda>r. ret (r, got)))
        else recv_loop (lenToRecv - length b) (got @ b) t) s)"
  by pat_completeness auto
termination
  by (relation "measure (\<lambda>(n, got, t, s). n)") auto

declare recv_loop.simps [simp del]

definition inner_receiveRaw :: "nat \<Rightarrow> bool \<Rightarrow> (tcp_stream, bool \<times> bytes) act" where
  "inner_receiveRaw len t =
     bnd (gets isOpen) (\<lambda>open.
     if open then recv_loop len [] t else bnd (stream_closed t) (\<lambda>r. ret (r, [])))"

text \<open>
  The receivers of a word: into a variable that holds \<open>val\<close> (the answer and what the variable
  holds then), and the ones that return it or throw.
\<close>

definition receive_into :: "nat \<Rightarrow> 'a :: len word \<Rightarrow> (tcp_stream, bool \<times> 'a word) act" where
  "receive_into n val =
     bnd (inner_receiveRaw n False) (\<lambda>(ok, got).
     ret (ok, le_word (got @ drop (length got) (le_bytes n val))))"

definition receive_word :: "nat \<Rightarrow> (tcp_stream, 'a :: len word) act" where
  "receive_word n = bnd (inner_receiveRaw n True) (\<lambda>(ok, got). ret (le_word got))"

definition receiveU64 :: "(tcp_stream, u64) act" where
  "receiveU64 = receive_word 8"

definition receiveU32 :: "(tcp_stream, u32) act" where
  "receiveU32 = receive_word 4"

definition receiveI64 :: "(tcp_stream, u64) act" where
  "receiveI64 = receive_word 8"

definition receiveI32 :: "(tcp_stream, u32) act" where
  "receiveI32 = receive_word 4"

definition receiveChar :: "(tcp_stream, u8) act" where
  "receiveChar = receive_word 1"

definition receiveF32 :: "(tcp_stream, u32) act" where
  "receiveF32 = receive_word 4"

definition receiveF64 :: "(tcp_stream, u64) act" where
  "receiveF64 = receive_word 8"

text \<open>
  \<^verbatim>\<open>receiveStr\<close> appends each piece as a C string, that is up to its first NUL character.
\<close>

function (sequential) recvStr_loop ::
  "nat \<Rightarrow> string \<Rightarrow> bool \<Rightarrow> tcp_stream \<Rightarrow> ((bool \<times> string) res \<times> tcp_stream) option"
where
  "recvStr_loop lenToRecv result t s =
     (if lenToRecv = 0 then ret (True, result) s
      else bnd (os_recv (min lenToRecv 1024)) (\<lambda>b.
        if b = [] then
          bnd (modify (\<lambda>s. s\<lparr>stream_error := True\<rparr>)) (\<lambda>_.
          bnd (stream_closed t) (\<lambda>r. ret (r, [])))
        else recvStr_loop (lenToRecv - length b)
               (result @ takeWhile (\<lambda>c. c \<noteq> CHR 0x00) (map byte_char b)) t) s)"
  by pat_completeness auto
termination
  by (relation "measure (\<lambda>(n, result, t, s). n)") auto

declare recvStr_loop.simps [simp del]

definition receiveStr_into :: "string \<Rightarrow> u32 \<Rightarrow> bool \<Rightarrow> (tcp_stream, bool \<times> string) act" where
  "receiveStr_into v len t =
     bnd (gets isOpen) (\<lambda>open.
     if open then recvStr_loop (unat len) [] t else bnd (stream_closed t) (\<lambda>r. ret (r, v)))"

definition receiveStr :: "u32 \<Rightarrow> (tcp_stream, string) act" where
  "receiveStr len = bnd (receiveStr_into [] len True) (\<lambda>(ok, v). ret v)"

section \<open>Properties\<close>

text \<open>What \<^verbatim>\<open>recv\<close> has left to deliver, and that no piece is empty.\<close>

definition pending :: "tcp_stream \<Rightarrow> bytes" where
  "pending s = concat (inbox s)"

definition live_inbox :: "tcp_stream \<Rightarrow> bool" where
  "live_inbox s \<longleftrightarrow> [] \<notin> set (inbox s)"

lemma os_recv_live:
  assumes "live_inbox s" and "0 < n" and "pending s \<noteq> []"
  shows "\<exists>b s'. os_recv n s = Some (Inr b, s') \<and> b \<noteq> [] \<and> length b \<le> n \<and> b @ pending s' = pending s \<and>
    live_inbox s' \<and> s' = s\<lparr>inbox := inbox s'\<rparr>"
  using assms by (cases "inbox s") (auto simp: os_recv_def live_inbox_def pending_def)

lemma os_recv_end: "pending s = [] \<Longrightarrow> live_inbox s \<Longrightarrow> os_recv n s = Some (Inr [], s)"
  by (cases "inbox s") (auto simp: os_recv_def live_inbox_def pending_def)

lemma recv_loop_ok:
  "live_inbox s \<Longrightarrow> n \<le> length (pending s) \<Longrightarrow>
   \<exists>ib. recv_loop n got t s = Some (Inr (True, got @ take n (pending s)), s\<lparr>inbox := ib\<rparr>) \<and>
     concat ib = drop n (pending s) \<and> [] \<notin> set ib"
proof (induction n got t s rule: recv_loop.induct)
  case (1 n got t s)
  show ?case
  proof (cases "n = 0")
    case True
    then have "s = s\<lparr>inbox := inbox s\<rparr>" by simp
    with True 1(2) show ?thesis
      by (intro exI [of _ "inbox s"]) (simp add: recv_loop.simps act_simps pending_def live_inbox_def)
  next
    case False
    with 1(3) have "pending s \<noteq> []" by auto
    from os_recv_live [OF 1(2) _ this, of n] False
    obtain b s' where b: "os_recv n s = Some (Inr b, s')" "b \<noteq> []" "length b \<le> n"
      "b @ pending s' = pending s" "live_inbox s'" "s' = s\<lparr>inbox := inbox s'\<rparr>" by auto
    have "length (pending s) = length b + length (pending s')" using b(4) by (metis length_append)
    with 1(3) have "n - length b \<le> length (pending s')" by simp
    from "1.IH" [OF False b(1,2,5) this] obtain ib where
      ib: "recv_loop (n - length b) (got @ b) t s' =
             Some (Inr (True, (got @ b) @ take (n - length b) (pending s')), s'\<lparr>inbox := ib\<rparr>)"
        "concat ib = drop (n - length b) (pending s')" "[] \<notin> set ib" by auto
    have "s'\<lparr>inbox := ib\<rparr> = s\<lparr>inbox := ib\<rparr>" using b(6) by (metis tcp_stream.surjective tcp_stream.update_convs(5))
    moreover have "take n (pending s) = b @ take (n - length b) (pending s')"
      "drop n (pending s) = drop (n - length b) (pending s')"
      using b(3,4) by (metis take_append take_all, metis drop_append drop_all append_Nil)
    ultimately show ?thesis
      using False b ib by (intro exI [of _ ib]) (subst recv_loop.simps, simp add: act_simps)
  qed
qed

lemma recv_loop_short:
  "live_inbox s \<Longrightarrow> length (pending s) < n \<Longrightarrow>
   recv_loop n got t s =
     (if t then Some (Inl (RuntimeError ''Stream is closed''), s\<lparr>inbox := [], stream_error := True\<rparr>)
      else Some (Inr (False, got @ pending s), s\<lparr>inbox := [], stream_error := True\<rparr>))"
proof (induction n got t s rule: recv_loop.induct)
  case (1 n got t s)
  then have n: "0 < n" by simp
  show ?case
  proof (cases "pending s = []")
    case True
    then have "inbox s = []" using 1(2) by (cases "inbox s") (auto simp: pending_def live_inbox_def)
    then have "s\<lparr>inbox := [], stream_error := True\<rparr> = s\<lparr>stream_error := True\<rparr>" by simp
    with True n 1(2) show ?thesis
      by (subst recv_loop.simps) (simp add: act_simps os_recv_end stream_closed_def)
  next
    case False
    from os_recv_live [OF 1(2) n False]
    obtain b s' where b: "os_recv n s = Some (Inr b, s')" "b \<noteq> []" "length b \<le> n"
      "b @ pending s' = pending s" "live_inbox s'" "s' = s\<lparr>inbox := inbox s'\<rparr>" by auto
    have "length (pending s) = length b + length (pending s')" using b(4) by (metis length_append)
    with 1(3) have "length (pending s') < n - length b" by simp
    from "1.IH" [OF _ b(1,2,5) this] n
    have "recv_loop (n - length b) (got @ b) t s' =
      (if t then Some (Inl (RuntimeError ''Stream is closed''), s'\<lparr>inbox := [], stream_error := True\<rparr>)
       else Some (Inr (False, (got @ b) @ pending s'), s'\<lparr>inbox := [], stream_error := True\<rparr>))" by auto
    moreover have "s'\<lparr>inbox := [], stream_error := True\<rparr> = s\<lparr>inbox := [], stream_error := True\<rparr>"
      using b(6) by (metis tcp_stream.surjective tcp_stream.update_convs(5))
    ultimately show ?thesis
      using n b by (subst recv_loop.simps) (simp add: act_simps)
  qed
qed

text \<open>A send takes at most one call of the kernel for each byte.\<close>

lemma send_loop_room:
  "0 \<notin> set (room s) \<Longrightarrow> length cur \<le> length (room s) \<Longrightarrow>
   \<exists>rm. send_loop cur t s = Some (Inr True, s\<lparr>outbox := outbox s @ cur, room := rm\<rparr>) \<and>
     length (room s) \<le> length rm + length cur \<and> 0 \<notin> set rm"
proof (induction cur t s rule: send_loop.induct)
  case (1 cur t s)
  show ?case
  proof (cases "cur = []")
    case True
    then have "s = s\<lparr>outbox := outbox s @ cur, room := room s\<rparr>" by simp
    with True 1(2) show ?thesis by (intro exI [of _ "room s"]) (simp add: send_loop.simps act_simps)
  next
    case False
    with 1(3) obtain k ks where k: "room s = k # ks" by (cases "room s") auto
    define n where "n = min k (length cur)"
    define s' where "s' = s\<lparr>room := ks, outbox := outbox s @ take n cur\<rparr>"
    have n: "0 < n" "n \<le> length cur" using k 1(2) False by (auto simp: n_def)
    have o: "os_send cur s = Some (Inr n, s')" by (simp add: os_send_def k n_def s'_def Let_def)
    have "\<not> n < 1" "0 \<notin> set (room s')" "length (drop n cur) \<le> length (room s')"
      using 1(2,3) k n False by (auto simp: s'_def)
    from "1.IH" [OF False o this] obtain rm where
      "send_loop (drop n cur) t s' = Some (Inr True, s'\<lparr>outbox := outbox s' @ drop n cur, room := rm\<rparr>)"
      "length ks \<le> length rm + length (drop n cur)" "0 \<notin> set rm"
      by (auto simp: s'_def)
    then show ?thesis using False o n k
      by (intro exI [of _ rm]) (subst send_loop.simps, simp add: act_simps s'_def)
  qed
qed

lemma send_loop_ok:
  "0 \<notin> set (room s) \<Longrightarrow> length cur \<le> length (room s) \<Longrightarrow>
   \<exists>rm. send_loop cur t s = Some (Inr True, s\<lparr>outbox := outbox s @ cur, room := rm\<rparr>)"
  using send_loop_room by blast

lemma inner_sendRaw_ok:
  assumes "isOpen s" and "0 \<notin> set (room s)" and "length buf \<le> length (room s)" and "length buf < 2 ^ 32"
  shows "\<exists>rm. inner_sendRaw buf t s = Some (Inr True, s\<lparr>outbox := outbox s @ buf, room := rm\<rparr>)"
  using send_loop_ok [OF assms(2,3), of t] assms(1,4) by (simp add: inner_sendRaw_def act_simps)

lemma inner_receiveRaw_ok:
  assumes "isOpen s" and "live_inbox s" and "pending s = buf @ rest"
  shows "\<exists>ib. inner_receiveRaw (length buf) t s = Some (Inr (True, buf), s\<lparr>inbox := ib\<rparr>) \<and>
    concat ib = rest \<and> [] \<notin> set ib"
  using recv_loop_ok [OF assms(2), of "length buf" "[]" t] assms(1,3)
  by (auto simp: inner_receiveRaw_def act_simps)

lemma receive_word_ok:
  assumes "isOpen s" and "live_inbox s" and "8 * n = LENGTH('a)"
    and "pending s = le_bytes n (v :: 'a :: len word) @ rest"
  shows "\<exists>ib. receive_word n s = Some (Inr v, s\<lparr>inbox := ib\<rparr>) \<and> concat ib = rest \<and> [] \<notin> set ib"
  using inner_receiveRaw_ok [OF assms(1,2,4), of True] assms(3)
  by (auto simp: receive_word_def act_simps)

lemma recvStr_loop_ok:
  "live_inbox s \<Longrightarrow> pending s = map char_byte msg @ rest \<Longrightarrow> CHR 0x00 \<notin> set msg \<Longrightarrow>
   \<exists>ib. recvStr_loop (length msg) res t s = Some (Inr (True, res @ msg), s\<lparr>inbox := ib\<rparr>) \<and>
     concat ib = rest \<and> [] \<notin> set ib"
proof (induction "length msg" arbitrary: msg res s rule: less_induct)
  case less
  show ?case
  proof (cases "msg = []")
    case True
    have "s = s\<lparr>inbox := inbox s\<rparr>" by simp
    with True less.prems show ?thesis
      by (intro exI [of _ "inbox s"]) (simp add: recvStr_loop.simps act_simps pending_def live_inbox_def)
  next
    case False
    with less.prems(2) have "pending s \<noteq> []" "0 < min (length msg) 1024" by auto
    from os_recv_live [OF less.prems(1) this(2,1)] obtain b s' where
      b: "os_recv (min (length msg) 1024) s = Some (Inr b, s')" "b \<noteq> []"
        "length b \<le> min (length msg) 1024" "b @ pending s' = pending s" "live_inbox s'"
        "s' = s\<lparr>inbox := inbox s'\<rparr>" by auto
    define m1 where "m1 = take (length b) msg"
    define m2 where "m2 = drop (length b) msg"
    have "b = take (length b) (pending s)" "pending s' = drop (length b) (pending s)"
      using b(4) by (metis append_eq_conv_conj)+
    then have m1: "b = map char_byte m1" and m2: "pending s' = map char_byte m2 @ rest"
      using b(3) by (simp_all add: less.prems(2) m1_def m2_def take_map drop_map)
    have nul: "CHR 0x00 \<notin> set m1" "CHR 0x00 \<notin> set m2" and m: "m1 @ m2 = msg"
      using less.prems(3) by (auto simp: m1_def m2_def dest: in_set_takeD in_set_dropD)
    have piece: "takeWhile (\<lambda>c. c \<noteq> CHR 0x00) (map byte_char b) = m1"
      using nul(1) by (simp add: m1 o_def) (auto simp: takeWhile_eq_all_conv)
    have len: "length m2 = length msg - length b" "length m2 < length msg"
      using b(2) False by (auto simp: m2_def)
    from less.hyps [OF len(2) b(5) m2 nul(2), of "res @ m1"] obtain ib where
      ib: "recvStr_loop (length m2) (res @ m1) t s' = Some (Inr (True, (res @ m1) @ m2), s'\<lparr>inbox := ib\<rparr>)"
        "concat ib = rest" "[] \<notin> set ib" by auto
    have "s'\<lparr>inbox := ib\<rparr> = s\<lparr>inbox := ib\<rparr>"
      using b(6) by (metis tcp_stream.surjective tcp_stream.update_convs(5))
    with False b(1,2) ib piece m show ?thesis
      by (intro exI [of _ ib]) (subst recvStr_loop.simps, simp add: act_simps len(1))
  qed
qed

lemma receiveStr_ok:
  assumes "isOpen s" and "live_inbox s" and "pending s = map char_byte msg @ rest"
    and "CHR 0x00 \<notin> set msg" and "length msg < 2 ^ 32"
  shows "\<exists>ib. receiveStr (of_nat (length msg)) s = Some (Inr msg, s\<lparr>inbox := ib\<rparr>) \<and>
    concat ib = rest \<and> [] \<notin> set ib"
  using recvStr_loop_ok [OF assms(2,3,4), of "[]" True] assms(1,5)
  by (auto simp: receiveStr_def receiveStr_into_def act_simps unat_of_nat)

text \<open>
  C25. What one side sends, the other receives, however the network cuts it: a word of 8 bytes, one
  of 4, a string without NUL characters. The receiver takes exactly what was sent and leaves what
  follows it.
\<close>

theorem stream_transfer:
  assumes "isOpen s" and "0 \<notin> set (room s)" and "isOpen r" and "live_inbox r"
  shows
    "(8 \<le> length (room s) \<longrightarrow> pending r = le_bytes 8 v @ rest \<longrightarrow>
       returns (sendU64 v t) s (\<lambda>ok s'. ok \<and> outbox s' = outbox s @ le_bytes 8 v) \<and>
       returns receiveU64 r (\<lambda>v' r'. v' = v \<and> pending r' = rest \<and> live_inbox r' \<and> isOpen r')) \<and>
     (4 \<le> length (room s) \<longrightarrow> pending r = le_bytes 4 w @ rest \<longrightarrow>
       returns (sendU32 w t) s (\<lambda>ok s'. ok \<and> outbox s' = outbox s @ le_bytes 4 w) \<and>
       returns receiveU32 r (\<lambda>w' r'. w' = w \<and> pending r' = rest \<and> live_inbox r' \<and> isOpen r')) \<and>
     (length msg \<le> length (room s) \<longrightarrow> length msg < 2 ^ 32 \<longrightarrow> CHR 0x00 \<notin> set msg \<longrightarrow>
       pending r = map char_byte msg @ rest \<longrightarrow>
       returns (sendStr msg t) s (\<lambda>ok s'. ok \<and> outbox s' = outbox s @ map char_byte msg) \<and>
       returns (receiveStr (of_nat (length msg))) r
         (\<lambda>msg' r'. msg' = msg \<and> pending r' = rest \<and> live_inbox r' \<and> isOpen r'))"
proof (intro conjI impI)
  note snd = inner_sendRaw_ok [OF assms(1,2), where t = t]
  show "returns (sendU64 v t) s (\<lambda>ok s'. ok \<and> outbox s' = outbox s @ le_bytes 8 v)"
    if "8 \<le> length (room s)" using snd [of "le_bytes 8 v"] that by (auto simp: sendU64_def returns_def)
  show "returns (sendU32 w t) s (\<lambda>ok s'. ok \<and> outbox s' = outbox s @ le_bytes 4 w)"
    if "4 \<le> length (room s)" using snd [of "le_bytes 4 w"] that by (auto simp: sendU32_def returns_def)
  show "returns (sendStr msg t) s (\<lambda>ok s'. ok \<and> outbox s' = outbox s @ map char_byte msg)"
    if "length msg \<le> length (room s)" "length msg < 2 ^ 32"
    using snd [of "map char_byte msg"] that by (auto simp: sendStr_def returns_def)
  note upd = isOpen_def pending_def live_inbox_def
  show "returns receiveU64 r (\<lambda>v' r'. v' = v \<and> pending r' = rest \<and> live_inbox r' \<and> isOpen r')"
    if "pending r = le_bytes 8 v @ rest"
    using receive_word_ok [OF assms(3,4) _ that] assms(3) by (auto simp: receiveU64_def returns_def upd)
  show "returns receiveU32 r (\<lambda>w' r'. w' = w \<and> pending r' = rest \<and> live_inbox r' \<and> isOpen r')"
    if "pending r = le_bytes 4 w @ rest"
    using receive_word_ok [OF assms(3,4) _ that] assms(3) by (auto simp: receiveU32_def returns_def upd)
  show "returns (receiveStr (of_nat (length msg))) r
      (\<lambda>msg' r'. msg' = msg \<and> pending r' = rest \<and> live_inbox r' \<and> isOpen r')"
    if "length msg < 2 ^ 32" "CHR 0x00 \<notin> set msg" "pending r = map char_byte msg @ rest"
    using receiveStr_ok [OF assms(3,4) that(3,2,1)] assms(3) by (auto simp: returns_def upd)
qed

definition demo_sender :: tcp_stream where
  "demo_sender = tcpStream_sock 3 addr_zero [] [1, 2, 7, 1, 1, 1, 1, 1]"

definition demo_receiver :: tcp_stream where
  "demo_receiver = tcpStream_sock 4 addr_zero [[1, 0], [0], [0, 9]] []"

theorem stream_transfer_witness:
  "returns (sendU32 1 True) demo_sender (\<lambda>ok s'. ok \<and> outbox s' = le_bytes 4 (1 :: u32)) \<and>
   returns receiveU32 demo_receiver (\<lambda>w' r'. w' = 1 \<and> pending r' = [9] \<and> live_inbox r' \<and> isOpen r')"
proof -
  have "le_bytes 4 (1 :: u32) = [1, 0, 0, 0]"
    by (simp add: le_bytes_def upt_conv_Cons numeral_eq_Suc del: upt_Suc)
  then have p: "pending demo_receiver = le_bytes 4 (1 :: u32) @ [9]"
    by (simp add: demo_receiver_def pending_def tcpStream_sock_def)
  have d: "isOpen demo_sender" "0 \<notin> set (room demo_sender)" "isOpen demo_receiver"
    "live_inbox demo_receiver" "4 \<le> length (room demo_sender)" "outbox demo_sender = []"
    by (simp_all add: demo_sender_def demo_receiver_def tcpStream_sock_def isOpen_def live_inbox_def)
  from stream_transfer [OF d(1-4), THEN conjunct2, THEN conjunct1, rule_format, OF d(5) p, of True]
  show ?thesis by (simp add: d(6))
qed

text \<open>
  C26. When the peer closes before the bytes asked for have come, a receiver throws (or returns
  \<^verbatim>\<open>false\<close>, by its flag), the stream is marked as failed, and from then on it neither sends nor
  receives: every operation on it ends the same way until it is closed.
\<close>

theorem stream_fails_for_good:
  assumes "isOpen s" and "live_inbox s" and "length (pending s) < n"
  shows "case inner_receiveRaw n t s of
      None \<Rightarrow> False
    | Some (r, s') \<Rightarrow> r = (if t then Inl (RuntimeError ''Stream is closed'') else Inr (False, pending s)) \<and>
        \<not> isOpen s' \<and>
        inner_sendRaw buf t' s' =
          Some (if t' then Inl (RuntimeError ''Stream is closed'') else Inr False, s') \<and>
        inner_receiveRaw m t' s' =
          Some (if t' then Inl (RuntimeError ''Stream is closed'') else Inr (False, []), s')"
  using recv_loop_short [OF assms(2,3), of "[]" t] assms(1)
  by (simp add: inner_receiveRaw_def inner_sendRaw_def act_simps isOpen_def stream_closed_def)

theorem stream_fails_for_good_witness:
  "\<exists>s'. inner_receiveRaw 8 True demo_receiver = Some (Inl (RuntimeError ''Stream is closed''), s') \<and>
     inner_sendRaw [1] False s' = Some (Inr False, s')"
  using stream_fails_for_good [of demo_receiver 8 True "[1]" False 1]
  by (auto simp: demo_receiver_def tcpStream_sock_def isOpen_def live_inbox_def pending_def
      split: option.splits prod.splits)

text \<open>Connecting a stream that is open dials the address 0.0.0.0:0, which \<^verbatim>\<open>close\<close> left in it.\<close>

lemma reconnect_dials_zero:
  assumes "0 < sockfd s" and "dial addr_zero = None"
  shows "\<exists>s'. stream_connect (Some fd) dial s = Some (Inl (Rd_UtilsError ''Error connecting.''), s')"
  using assms by (simp add: stream_connect_def stream_close_def act_simps)

end
