(* ===== verification/Repository.thy ===== *)
theory Repository
  imports Persister Stream
begin

text \<open>
  \<^verbatim>\<open>memory/cache/remote/repo.cc\<close>: the server that keeps the blocks of remote allocators, in memory
  up to a number of blocks and in the files of a local persister beyond, and
  \<^verbatim>\<open>RemotePersister\<close> of \<^verbatim>\<open>persist.cc\<close>, its client. The server has one worker thread, so sessions
  run one after the other; a session works on the repository and on the stream of its client.
  The map of the loaded blocks is the list of its entries in the order the map iterates them,
  which the library leaves open: no property depends on it. A buffer that is allocated and not
  initialised holds \<open>junk\<close>.
\<close>

section \<open>The server\<close>

record repository =
  rp_nbBlocks :: u32
  rp_blockSize :: u32
  rp_loaded :: "(u64 \<times> bytes) list"
  rp_persister :: local_persister
  rp_userId :: u32
  rp_junk :: bytes

type_synonym session = "repository \<times> tcp_stream"

definition STORE :: u32 where "STORE = 1"
definition EXISTS :: u32 where "EXISTS = 2"
definition LOAD :: u32 where "LOAD = 3"
definition ERASE :: u32 where "ERASE = 4"
definition REGISTER :: u32 where "REGISTER = 5"
definition CLOSE :: u32 where "CLOSE = 6"

definition repository_new :: "u32 \<Rightarrow> u32 \<Rightarrow> local_persister \<Rightarrow> bytes \<Rightarrow> repository" where
  "repository_new nbBlocks blockSize lp junk =
     \<lparr>rp_nbBlocks = nbBlocks, rp_blockSize = blockSize, rp_loaded = [], rp_persister = lp,
      rp_userId = 0, rp_junk = junk\<rparr>"

definition on_stream :: "(tcp_stream, 'a) act \<Rightarrow> (session, 'a) act" where
  "on_stream = zoom snd (\<lambda>t s. (fst s, t))"

definition on_repo :: "(repository, 'a) act \<Rightarrow> (session, 'a) act" where
  "on_repo = zoom fst (\<lambda>r s. (r, snd s))"

definition on_persister :: "(local_persister, 'a) act \<Rightarrow> (repository, 'a) act" where
  "on_persister = zoom rp_persister (\<lambda>p r. r\<lparr>rp_persister := p\<rparr>)"

text \<open>
  The transfer of a block does not look at the result of \<^verbatim>\<open>recv\<close> and \<^verbatim>\<open>send\<close>: at the end of the
  stream \<^verbatim>\<open>recv\<close> returns 0 and the loop does not end; after an error of \<^verbatim>\<open>send\<close> the index is
  decreased and the next call is out of the block.
\<close>

function (sequential) recv_block ::
  "nat \<Rightarrow> bytes \<Rightarrow> tcp_stream \<Rightarrow> (bytes res \<times> tcp_stream) option"
where
  "recv_block rest got s =
     (if rest = 0 then ret got s
      else bnd (os_recv rest) (\<lambda>b.
        if b = [] then hang else recv_block (rest - length b) (got @ b)) s)"
  by pat_completeness auto
termination
  by (relation "measure (\<lambda>(n, got, s). n)") auto

function (sequential) send_block :: "bytes \<Rightarrow> tcp_stream \<Rightarrow> (unit res \<times> tcp_stream) option" where
  "send_block mem s =
     (if mem = [] then ret () s
      else bnd (os_send mem) (\<lambda>n.
        if n < 1 then throw Undefined else send_block (drop n mem)) s)"
  by pat_completeness auto
termination
  by (relation "measure (\<lambda>(mem, s). length mem)") auto

declare recv_block.simps [simp del] send_block.simps [simp del]

text \<open>The key of a block: the id of the client and that of the block.\<close>

definition block_key :: "u32 \<Rightarrow> u32 \<Rightarrow> u64" where
  "block_key uid blid = push_bit 32 (ucast uid) OR ucast blid"

definition receive_key :: "(session, u64) act" where
  "receive_key =
     bnd (on_stream receiveU32) (\<lambda>uid.
     bnd (on_stream receiveU32) (\<lambda>blid.
     ret (block_key uid blid)))"

definition loaded_erase :: "u64 \<Rightarrow> (repository, unit) act" where
  "loaded_erase p = modify (\<lambda>r. r\<lparr>rp_loaded := filter (\<lambda>(k, m). k \<noteq> p) (rp_loaded r)\<rparr>)"

definition loaded_put :: "u64 \<Rightarrow> bytes \<Rightarrow> (repository, unit) act" where
  "loaded_put p mem =
     modify (\<lambda>r. r\<lparr>rp_loaded := map (\<lambda>(k, m). (k, if k = p then mem else m)) (rp_loaded r)\<rparr>)"

definition loaded_emplace :: "u64 \<Rightarrow> bytes \<Rightarrow> (repository, unit) act" where
  "loaded_emplace p mem = modify (\<lambda>r. r\<lparr>rp_loaded := (p, mem) # rp_loaded r\<rparr>)"

text \<open>The buffer of the evicted block, which the caller uses again.\<close>

definition evict :: "(repository, bytes option) act" where
  "evict =
     bnd (gets id) (\<lambda>r.
     case rp_loaded r of
       [] \<Rightarrow> ret None
     | (k, mem) # rest \<Rightarrow>
         bnd (on_persister (lp_save k mem (unat (rp_blockSize r)))) (\<lambda>_.
         bnd (loaded_erase k) (\<lambda>_.
         ret (Some mem))))"

text \<open>What \<^verbatim>\<open>store\<close> and \<^verbatim>\<open>load\<close> do for a block that is not in memory.\<close>

definition make_room :: "u64 \<Rightarrow> (repository, bytes) act" where
  "make_room p =
     bnd (gets id) (\<lambda>r.
     bnd (if length (rp_loaded r) = unat (rp_nbBlocks r) then evict else ret None) (\<lambda>mem.
     let mem = (case mem of None \<Rightarrow> rp_junk r | Some m \<Rightarrow> m) in
     bnd (loaded_emplace p mem) (\<lambda>_. ret mem)))"

definition repo_exists :: "(session, unit) act" where
  "repo_exists =
     bnd receive_key (\<lambda>p.
     bnd (on_repo (gets rp_loaded)) (\<lambda>loaded.
     case map_of loaded p of
       None \<Rightarrow>
         bnd (on_repo (on_persister (lp_exists p))) (\<lambda>b.
         bnd (on_stream (sendU32 (if b then 1 else 0) True)) (\<lambda>_. ret ()))
     | Some mem \<Rightarrow> bnd (on_stream (sendU32 1 True)) (\<lambda>_. ret ())))"

definition repo_store :: "(session, unit) act" where
  "repo_store =
     bnd receive_key (\<lambda>p.
     bnd (on_repo (gets id)) (\<lambda>r.
     bnd (case map_of (rp_loaded r) p of None \<Rightarrow> on_repo (make_room p) | Some mem \<Rightarrow> ret mem) (\<lambda>mem.
     bnd (on_stream (recv_block (unat (rp_blockSize r)) [])) (\<lambda>got.
     on_repo (loaded_put p got)))))"

definition repo_load :: "(session, unit) act" where
  "repo_load =
     bnd receive_key (\<lambda>p.
     bnd (on_repo (gets id)) (\<lambda>r.
     bnd (case map_of (rp_loaded r) p of
            None \<Rightarrow>
              bnd (on_repo (make_room p)) (\<lambda>mem.
              bnd (on_repo (on_persister (lp_load p mem (unat (rp_blockSize r))))) (\<lambda>mem.
              bnd (on_repo (loaded_put p mem)) (\<lambda>_. ret mem)))
          | Some mem \<Rightarrow> ret mem) (\<lambda>mem.
     bnd (on_stream (send_block (take (unat (rp_blockSize r)) mem))) (\<lambda>_.
     on_repo (loaded_erase p)))))"

definition repo_erase :: "(session, unit) act" where
  "repo_erase =
     bnd receive_key (\<lambda>p.
     bnd (on_repo (gets rp_loaded)) (\<lambda>loaded.
     case map_of loaded p of
       Some mem \<Rightarrow> on_repo (loaded_erase p)
     | None \<Rightarrow> on_repo (on_persister (lp_erase p))))"

definition repo_register :: "(session, unit) act" where
  "repo_register =
     bnd (on_repo (modify (\<lambda>r. r\<lparr>rp_userId := rp_userId r + 1\<rparr>))) (\<lambda>_.
     bnd (on_repo (gets rp_userId)) (\<lambda>uid.
     bnd (on_stream (sendU32 uid True)) (\<lambda>_. ret ())))"

definition handler :: "u32 \<Rightarrow> (session, unit) act" where
  "handler proto =
     (if proto = EXISTS then repo_exists
      else if proto = STORE then repo_store
      else if proto = LOAD then repo_load
      else if proto = ERASE then repo_erase
      else if proto = REGISTER then repo_register
      else ret ())"

definition onSession :: "(session, unit) act" where
  "onSession =
     bnd (on_stream receiveU32) (\<lambda>proto.
     bnd (handler proto) (\<lambda>_.
     on_stream stream_close))"

section \<open>Sessions\<close>

lemma session_run [act_simps]:
  "m t = Some (x, t') \<Longrightarrow> on_stream m (r, t) = Some (x, (r, t'))"
  "m' r = Some (y, r') \<Longrightarrow> on_repo m' (r, t) = Some (y, (r', t))"
  by (simp_all add: on_stream_def on_repo_def act_simps)

lemma on_persister_run [act_simps]:
  "m (rp_persister r) = Some (x, p) \<Longrightarrow> on_persister m r = Some (x, r\<lparr>rp_persister := p\<rparr>)"
  by (simp add: on_persister_def act_simps)

lemma inbox_upd [simp]:
  "isOpen (t\<lparr>inbox := ib\<rparr>) = isOpen t" "pending (t\<lparr>inbox := ib\<rparr>) = concat ib"
  "live_inbox (t\<lparr>inbox := ib\<rparr>) \<longleftrightarrow> [] \<notin> set ib"
  by (simp_all add: isOpen_def pending_def live_inbox_def)

lemma receiveU32_ok:
  "isOpen t \<Longrightarrow> live_inbox t \<Longrightarrow> pending t = le_bytes 4 w @ rest \<Longrightarrow>
   \<exists>ib. receiveU32 t = Some (Inr w, t\<lparr>inbox := ib\<rparr>) \<and> concat ib = rest \<and> [] \<notin> set ib"
  using receive_word_ok [of t 4 w rest] by (simp add: receiveU32_def)

lemma receive_key_ok:
  assumes "isOpen t" and "live_inbox t" and "pending t = le_bytes 4 uid @ le_bytes 4 blid @ rest"
  shows "\<exists>ib. receive_key (r, t) = Some (Inr (block_key uid blid), (r, t\<lparr>inbox := ib\<rparr>)) \<and>
    concat ib = rest \<and> [] \<notin> set ib"
proof -
  from receiveU32_ok [OF assms] obtain i1 where
    1: "receiveU32 t = Some (Inr uid, t\<lparr>inbox := i1\<rparr>)" "concat i1 = le_bytes 4 blid @ rest" "[] \<notin> set i1"
    by auto
  from receiveU32_ok [of "t\<lparr>inbox := i1\<rparr>" blid rest] 1(2,3) assms(1) obtain i2 where
    2: "receiveU32 (t\<lparr>inbox := i1\<rparr>) = Some (Inr blid, t\<lparr>inbox := i2\<rparr>)" "concat i2 = rest" "[] \<notin> set i2"
    by auto
  from 1 2 show ?thesis by (intro exI [of _ i2]) (simp add: receive_key_def act_simps)
qed

lemma recv_block_loop:
  "recv_loop n got True s = Some (Inr (ok, b), s') \<Longrightarrow> recv_block n got s = Some (Inr b, s')"
proof (induction n got s rule: recv_block.induct)
  case (1 n got s)
  show ?case
  proof (cases "n = 0")
    case True
    with 1(2) show ?thesis by (simp add: recv_block.simps recv_loop.simps act_simps)
  next
    case False
    obtain c s1 where c: "os_recv n s = Some (Inr c, s1)"
      by (cases "inbox s") (auto simp: os_recv_def)
    from 1(2) have "c \<noteq> []"
      by (subst (asm) recv_loop.simps) (auto simp: False c act_simps stream_closed_def split: if_splits)
    moreover from this 1(2) have "recv_loop (n - length c) (got @ c) True s1 = Some (Inr (ok, b), s')"
      by (subst (asm) recv_loop.simps) (simp add: False c act_simps)
    ultimately show ?thesis
      using "1.IH" [OF False c] by (subst recv_block.simps) (simp add: False c act_simps)
  qed
qed

lemma recv_block_ok:
  assumes "live_inbox s" and "pending s = b @ rest"
  shows "\<exists>ib. recv_block (length b) [] s = Some (Inr b, s\<lparr>inbox := ib\<rparr>) \<and> concat ib = rest \<and> [] \<notin> set ib"
  using recv_loop_ok [OF assms(1), of "length b" "[]" True] assms(2) by (auto dest: recv_block_loop)

lemma send_block_loop:
  "send_loop mem True s = Some (Inr ok, s') \<Longrightarrow> send_block mem s = Some (Inr (), s')"
proof (induction mem s rule: send_block.induct)
  case (1 mem s)
  show ?case
  proof (cases "mem = []")
    case True
    with 1(2) show ?thesis by (simp add: send_block.simps send_loop.simps act_simps)
  next
    case False
    obtain n s1 where n: "os_send mem s = Some (Inr n, s1)"
      by (cases "room s") (auto simp: os_send_def Let_def)
    from 1(2) have "\<not> n < 1"
      by (subst (asm) send_loop.simps) (auto simp: False n act_simps stream_closed_def split: if_splits)
    moreover from this 1(2) have "send_loop (drop n mem) True s1 = Some (Inr ok, s')"
      by (subst (asm) send_loop.simps) (simp add: False n act_simps)
    ultimately show ?thesis
      using "1.IH" [OF False n] by (subst send_block.simps) (simp add: False n act_simps)
  qed
qed

lemma send_block_ok:
  assumes "0 \<notin> set (room s)" and "length b \<le> length (room s)"
  shows "\<exists>rm. send_block b s = Some (Inr (), s\<lparr>outbox := outbox s @ b, room := rm\<rparr>)"
  using send_loop_ok [OF assms, of True] by (auto dest: send_block_loop)

section \<open>What the server holds\<close>

definition repo_stored :: "repository \<Rightarrow> u64 \<Rightarrow> bytes option" where
  "repo_stored r p = (case map_of (rp_loaded r) p of Some m \<Rightarrow> Some m | None \<Rightarrow> lp_stored (rp_persister r) p)"

definition rp_inv :: "repository \<Rightarrow> bool" where
  "rp_inv r \<longleftrightarrow> lp_ok (rp_persister r) \<and> distinct (map fst (rp_loaded r)) \<and>
     (\<forall>(k, m) \<in> set (rp_loaded r). length m = unat (rp_blockSize r) \<and> lp_stored (rp_persister r) k = None) \<and>
     (\<forall>k m. lp_stored (rp_persister r) k = Some m \<longrightarrow> length m = unat (rp_blockSize r)) \<and>
     length (rp_junk r) = unat (rp_blockSize r) \<and>
     0 < unat (rp_nbBlocks r) \<and> length (rp_loaded r) \<le> unat (rp_nbBlocks r)"

lemma make_room_ok:
  assumes inv: "rp_inv r" and p: "p \<notin> fst ` set (rp_loaded r)"
  shows "\<exists>mem L P. make_room p r = Some (Inr mem, r\<lparr>rp_loaded := (p, mem) # L, rp_persister := P\<rparr>) \<and>
    length mem = unat (rp_blockSize r) \<and> length L < unat (rp_nbBlocks r) \<and> p \<notin> fst ` set L \<and>
    rp_inv (r\<lparr>rp_loaded := L, rp_persister := P\<rparr>) \<and>
    repo_stored (r\<lparr>rp_loaded := L, rp_persister := P\<rparr>) = repo_stored r \<and>
    lp_stored P p = lp_stored (rp_persister r) p"
proof (cases "length (rp_loaded r) = unat (rp_nbBlocks r)")
  case False
  then have "length (rp_loaded r) < unat (rp_nbBlocks r)" using inv by (simp add: rp_inv_def)
  then show ?thesis using inv p False
    by (intro exI [of _ "rp_junk r"] exI [of _ "rp_loaded r"] exI [of _ "rp_persister r"])
      (simp add: make_room_def loaded_emplace_def act_simps rp_inv_def Let_def)
next
  case True
  then obtain k m L where L: "rp_loaded r = (k, m) # L" using inv by (cases "rp_loaded r") (auto simp: rp_inv_def)
  have m: "length m = unat (rp_blockSize r)" "lp_stored (rp_persister r) k = None" "k \<notin> fst ` set L"
    "lp_ok (rp_persister r)" using inv by (auto simp: rp_inv_def L)
  from lp.save_law [OF m(4,1), of k] obtain P where
    P: "lp_save k m (unat (rp_blockSize r)) (rp_persister r) = Some (Inr (), P)" "lp_ok P"
      "lp_stored P = (lp_stored (rp_persister r))(k \<mapsto> m)" by (auto elim: returnsE)
  have "filter (\<lambda>(k', m). k' \<noteq> k) L = L" using m(3) by (force simp: filter_id_conv)
  then have "make_room p r = Some (Inr m, r\<lparr>rp_loaded := (p, m) # L, rp_persister := P\<rparr>)"
    by (simp add: make_room_def evict_def loaded_erase_def loaded_emplace_def act_simps True [unfolded L, simplified] L P(1))
  moreover have "rp_inv (r\<lparr>rp_loaded := L, rp_persister := P\<rparr>)"
    using inv m P(2,3) by (auto simp: rp_inv_def L rev_image_eqI)
  moreover have "repo_stored (r\<lparr>rp_loaded := L, rp_persister := P\<rparr>) = repo_stored r"
    using m(2,3) by (intro ext) (auto simp: repo_stored_def L P(3) map_of_eq_None_iff [THEN iffD2] split: option.split)
  ultimately show ?thesis using m(1) p True
    by (intro exI [of _ m] exI [of _ L] exI [of _ P]) (auto simp: L P(3))
qed

text \<open>The beginning of a session: the request is read and the handler runs on what follows it.\<close>

definition request :: "tcp_stream \<Rightarrow> u32 \<Rightarrow> bytes \<Rightarrow> bool" where
  "request t proto body \<longleftrightarrow> isOpen t \<and> live_inbox t \<and> pending t = le_bytes 4 proto @ body"

definition key_body :: "u32 \<Rightarrow> u32 \<Rightarrow> bytes \<Rightarrow> bytes" where
  "key_body uid blid rest = le_bytes 4 uid @ le_bytes 4 blid @ rest"

lemma request_open:
  assumes "request t proto body"
  obtains ib where "receiveU32 t = Some (Inr proto, t\<lparr>inbox := ib\<rparr>)" "isOpen (t\<lparr>inbox := ib\<rparr>)"
    "live_inbox (t\<lparr>inbox := ib\<rparr>)" "pending (t\<lparr>inbox := ib\<rparr>) = body"
  using assms receiveU32_ok [of t proto body] by (auto simp: request_def)

lemma close_run: "\<exists>t'. stream_close t = Some (Inr (), t') \<and> outbox t' = outbox t"
  by (simp add: stream_close_def act_simps)

lemma session_close:
  assumes "request t proto body"
    and "\<And>ib. live_inbox (t\<lparr>inbox := ib\<rparr>) \<Longrightarrow> isOpen (t\<lparr>inbox := ib\<rparr>) \<Longrightarrow> pending (t\<lparr>inbox := ib\<rparr>) = body \<Longrightarrow>
      \<exists>r' t'. handler proto (r, t\<lparr>inbox := ib\<rparr>) = Some (Inr (), (r', t')) \<and> Q r' (outbox t')"
  shows "returns onSession (r, t) (\<lambda>_ (r', t'). Q r' (outbox t'))"
proof -
  from request_open [OF assms(1)] obtain ib where
    ib: "receiveU32 t = Some (Inr proto, t\<lparr>inbox := ib\<rparr>)" "isOpen (t\<lparr>inbox := ib\<rparr>)"
      "live_inbox (t\<lparr>inbox := ib\<rparr>)" "pending (t\<lparr>inbox := ib\<rparr>) = body" by metis
  from assms(2) [OF ib(3,2,4)] obtain r' t' where
    h: "handler proto (r, t\<lparr>inbox := ib\<rparr>) = Some (Inr (), (r', t'))" "Q r' (outbox t')" by auto
  from close_run obtain t'' where c: "stream_close t' = Some (Inr (), t'')" "outbox t'' = outbox t'" by auto
  have "onSession (r, t) = Some (Inr (), (r', t''))"
    by (simp add: onSession_def act_simps ib(1) h(1) c(1))
  then show ?thesis using h(2) c(2) by (simp add: returns_def)
qed

lemma handlers [act_simps]:
  "handler STORE = repo_store" "handler EXISTS = repo_exists" "handler LOAD = repo_load"
  "handler ERASE = repo_erase" "handler REGISTER = repo_register"
  by (simp_all add: handler_def STORE_def EXISTS_def LOAD_def ERASE_def REGISTER_def)

lemma store_session:
  assumes inv: "rp_inv r" and req: "request t STORE (key_body uid blid (b @ rest))"
    and b: "length b = unat (rp_blockSize r)" and new: "lp_stored (rp_persister r) (block_key uid blid) = None"
  shows "returns onSession (r, t) (\<lambda>_ (r', t'). rp_inv r' \<and> rp_blockSize r' = rp_blockSize r \<and>
    repo_stored r' = (repo_stored r)(block_key uid blid \<mapsto> b) \<and> outbox t' = outbox t)"
proof -
  let ?p = "block_key uid blid"
  let ?Q = "\<lambda>r' ob. rp_inv r' \<and> rp_blockSize r' = rp_blockSize r \<and>
    repo_stored r' = (repo_stored r)(?p \<mapsto> b) \<and> ob = outbox t"
  have "returns onSession (r, t) (\<lambda>_ (r', t'). ?Q r' (outbox t'))"
  proof (rule session_close [OF req])
    fix ib let ?t = "t\<lparr>inbox := ib\<rparr>"
    assume t: "live_inbox ?t" "isOpen ?t" "pending ?t = key_body uid blid (b @ rest)"
    from receive_key_ok [OF t(2,1) t(3) [unfolded key_body_def], of r] obtain i2 where
      k: "receive_key (r, ?t) = Some (Inr ?p, (r, t\<lparr>inbox := i2\<rparr>))" "concat i2 = b @ rest" "[] \<notin> set i2" by auto
    from recv_block_ok [of "t\<lparr>inbox := i2\<rparr>" b rest] k(2,3) obtain i3 where
      i3: "recv_block (length b) [] (t\<lparr>inbox := i2\<rparr>) = Some (Inr b, t\<lparr>inbox := i3\<rparr>)" by auto
    note run = repo_store_def act_simps k(1) i3 b [symmetric] loaded_put_def
    show "\<exists>r' t'. handler STORE (r, ?t) = Some (Inr (), (r', t')) \<and> ?Q r' (outbox t')"
    proof (cases "map_of (rp_loaded r) ?p")
      case None
      then have "?p \<notin> fst ` set (rp_loaded r)" by (simp add: map_of_eq_None_iff)
      from make_room_ok [OF inv this] obtain mem L P where
        m: "make_room ?p r = Some (Inr mem, r\<lparr>rp_loaded := (?p, mem) # L, rp_persister := P\<rparr>)"
          "length L < unat (rp_nbBlocks r)" "?p \<notin> fst ` set L"
          "rp_inv (r\<lparr>rp_loaded := L, rp_persister := P\<rparr>)"
          "repo_stored (r\<lparr>rp_loaded := L, rp_persister := P\<rparr>) = repo_stored r"
          "lp_stored P ?p = lp_stored (rp_persister r) ?p" by metis
      let ?r = "r\<lparr>rp_loaded := (?p, b) # L, rp_persister := P\<rparr>"
      have L: "map (\<lambda>(k, m). (k, if k = ?p then b else m)) L = L"
        using m(3) by (intro map_idI) force
      have "rp_inv ?r" using m(2,3,4,6) b new by (auto simp: rp_inv_def)
      moreover have "repo_stored ?r = (repo_stored r)(?p \<mapsto> b)"
        unfolding m(5) [symmetric] by (intro ext) (simp add: repo_stored_def split: option.split)
      ultimately show ?thesis
        by (intro exI [of _ ?r] exI [of _ "t\<lparr>inbox := i3\<rparr>"]) (simp add: run None m(1) L)
    next
      case (Some old)
      let ?r = "r\<lparr>rp_loaded := map (\<lambda>(k, m). (k, if k = ?p then b else m)) (rp_loaded r)\<rparr>"
      have "fst \<circ> (\<lambda>(k, m). (k, if k = ?p then b else m)) = fst" by (rule ext) (simp add: split_beta)
      then have "rp_inv ?r" using inv b unfolding rp_inv_def by auto
      moreover have "map_of (map (\<lambda>(k, m). (k, if k = ?p then b else m)) L) q =
          (if q = ?p then map_option (\<lambda>_. b) (map_of L q) else map_of L q)" for L q
        by (induction L) auto
      then have "repo_stored ?r = (repo_stored r)(?p \<mapsto> b)"
        using Some by (intro ext) (simp add: repo_stored_def split: option.split)
      ultimately show ?thesis
        by (intro exI [of _ ?r] exI [of _ "t\<lparr>inbox := i3\<rparr>"]) (simp add: run Some)
    qed
  qed
  then show ?thesis .
qed

lemma repo_stored_cases:
  assumes "repo_stored r p = Some b"
  obtains (memory) "map_of (rp_loaded r) p = Some b"
  | (disk) "map_of (rp_loaded r) p = None" "lp_stored (rp_persister r) p = Some b"
  using assms by (auto simp: repo_stored_def split: option.splits)

lemma stored_length: "rp_inv r \<Longrightarrow> repo_stored r p = Some b \<Longrightarrow> length b = unat (rp_blockSize r)"
  by (auto simp: rp_inv_def repo_stored_def split: option.splits dest!: map_of_SomeD)

lemma map_of_filter_ne:
  "map_of (filter (\<lambda>(k, m). k \<noteq> p) L) q = (if q = p then None else map_of L q)"
  by (induction L) auto

lemma inv_filter:
  "rp_inv r \<Longrightarrow> rp_inv (r\<lparr>rp_loaded := filter (\<lambda>(k, m). k \<noteq> p) (rp_loaded r)\<rparr>)"
  by (auto simp: rp_inv_def distinct_map_filter intro: order.trans [OF length_filter_le])

lemma load_session:
  assumes inv: "rp_inv r" and req: "request t LOAD (key_body uid blid rest)"
    and st: "repo_stored r (block_key uid blid) = Some b"
    and room: "0 \<notin> set (room t)" "length b \<le> length (room t)"
  shows "returns onSession (r, t) (\<lambda>_ (r', t'). rp_inv r' \<and> rp_blockSize r' = rp_blockSize r \<and>
    repo_stored r' = (repo_stored r)(block_key uid blid := None) \<and> outbox t' = outbox t @ b)"
proof -
  let ?p = "block_key uid blid"
  let ?Q = "\<lambda>r' ob. rp_inv r' \<and> rp_blockSize r' = rp_blockSize r \<and>
    repo_stored r' = (repo_stored r)(?p := None) \<and> ob = outbox t @ b"
  have "returns onSession (r, t) (\<lambda>_ (r', t'). ?Q r' (outbox t'))"
  proof (rule session_close [OF req])
    fix ib let ?t = "t\<lparr>inbox := ib\<rparr>"
    assume t: "live_inbox ?t" "isOpen ?t" "pending ?t = key_body uid blid rest"
    from receive_key_ok [OF t(2,1) t(3) [unfolded key_body_def], of r] obtain i2 where
      k: "receive_key (r, ?t) = Some (Inr ?p, (r, t\<lparr>inbox := i2\<rparr>))" by auto
    from send_block_ok [of "t\<lparr>inbox := i2\<rparr>" b] room obtain rm where
      s: "send_block b (t\<lparr>inbox := i2\<rparr>) = Some (Inr (), t\<lparr>inbox := i2, outbox := outbox t @ b, room := rm\<rparr>)"
      by auto
    let ?t' = "t\<lparr>inbox := i2, outbox := outbox t @ b, room := rm\<rparr>"
    note len = stored_length [OF inv st]
    note run = repo_load_def act_simps k s len [symmetric] loaded_put_def loaded_erase_def
    show "\<exists>r' t'. handler LOAD (r, ?t) = Some (Inr (), (r', t')) \<and> ?Q r' (outbox t')"
      using st
    proof (cases rule: repo_stored_cases)
      case memory
      let ?r = "r\<lparr>rp_loaded := filter (\<lambda>(k, m). k \<noteq> ?p) (rp_loaded r)\<rparr>"
      have "lp_stored (rp_persister r) ?p = None"
        using map_of_SomeD [OF memory] inv by (auto simp: rp_inv_def)
      then have "repo_stored ?r = (repo_stored r)(?p := None)"
        by (intro ext) (simp add: repo_stored_def map_of_filter_ne split: option.split)
      with inv_filter [OF inv] show ?thesis
        by (intro exI [of _ ?r] exI [of _ ?t']) (simp add: run memory)
    next
      case disk
      then have "?p \<notin> fst ` set (rp_loaded r)" by (simp add: map_of_eq_None_iff)
      from make_room_ok [OF inv this] obtain mem L P where
        m: "make_room ?p r = Some (Inr mem, r\<lparr>rp_loaded := (?p, mem) # L, rp_persister := P\<rparr>)"
          "length mem = unat (rp_blockSize r)" "?p \<notin> fst ` set L"
          "rp_inv (r\<lparr>rp_loaded := L, rp_persister := P\<rparr>)"
          "repo_stored (r\<lparr>rp_loaded := L, rp_persister := P\<rparr>) = repo_stored r"
          "lp_stored P ?p = lp_stored (rp_persister r) ?p" by metis
      have "lp_ok P" using m(4) by (simp add: rp_inv_def)
      from lp.load_law [OF this m(6) [unfolded disk(2)] len m(2)] obtain P' where
        P': "lp_load ?p mem (length b) P = Some (Inr b, P')" "lp_ok P'"
          "lp_stored P' = (lp_stored P)(?p := None)" by (auto elim: returnsE simp: len)
      let ?r = "r\<lparr>rp_loaded := L, rp_persister := P'\<rparr>"
      have f: "filter (\<lambda>(k, m). k \<noteq> ?p) L = L" using m(3) by (force simp: filter_id_conv)
      have L: "map (\<lambda>(k, m). (k, if k = ?p then b else m)) L = L"
        using m(3) by (intro map_idI) force
      have "rp_inv ?r" using m(4) P'(2,3) by (auto simp: rp_inv_def split: if_splits)
      moreover have "map_of L ?p = None" using m(3) by (simp add: map_of_eq_None_iff)
      then have "repo_stored ?r = (repo_stored r)(?p := None)"
        unfolding m(5) [symmetric] by (intro ext) (simp add: repo_stored_def P'(3) split: option.split)
      ultimately show ?thesis
        by (intro exI [of _ ?r] exI [of _ ?t']) (simp add: run disk m(1) P'(1) L f)
    qed
  qed
  then show ?thesis .
qed









section \<open>The client\<close>

text \<open>
  The persister of an allocator that keeps its blocks in a repository. Each operation opens a
  connection, sends its request, reads the answer and closes. \<open>rm_cut\<close> is how the network cuts what
  the client sends and \<open>rm_room\<close> what the server's calls of \<^verbatim>\<open>send\<close> accept. An exception in the
  server ends the operation here as well: nobody answers any more.
\<close>

record remote_persister =
  rm_clientId :: u32
  rm_nbLoaded :: u32
  rm_nbSaved :: u32
  rm_server :: repository
  rm_cut :: "bytes \<Rightarrow> bytes list"
  rm_room :: "nat list"

definition exchange :: "bytes \<Rightarrow> (remote_persister, bytes) act" where
  "exchange sent = (\<lambda>p.
     case onSession (rm_server p, tcpStream_sock 1 addr_zero (rm_cut p sent) (rm_room p)) of
       None \<Rightarrow> None
     | Some (Inl e, (r, t)) \<Rightarrow> Some (Inl e, p\<lparr>rm_server := r\<rparr>)
     | Some (Inr _, (r, t)) \<Rightarrow> Some (Inr (outbox t), p\<lparr>rm_server := r\<rparr>))"

definition rm_request :: "u32 \<Rightarrow> u32 \<Rightarrow> u64 \<Rightarrow> bytes" where
  "rm_request proto clientId addr = le_bytes 4 proto @ le_bytes 4 clientId @ le_bytes 8 addr"

definition answerU32 :: "bytes \<Rightarrow> ('s, u32) act" where
  "answerU32 b =
     (if length b < 4 then throw (RuntimeError ''Stream is closed'') else ret (le_word (take 4 b)))"

definition remotePersister ::
  "u32 \<Rightarrow> u32 \<Rightarrow> repository \<Rightarrow> (bytes \<Rightarrow> bytes list) \<Rightarrow> nat list \<Rightarrow> (unit res \<times> remote_persister) option"
where
  "remotePersister loads saves server pieces rm =
     bnd (exchange (le_bytes 4 REGISTER)) (\<lambda>b.
     bnd (answerU32 b) (\<lambda>cid.
     modify (\<lambda>p. p\<lparr>rm_clientId := cid\<rparr>)))
     \<lparr>rm_clientId = 0, rm_nbLoaded = loads, rm_nbSaved = saves, rm_server = server,
      rm_cut = pieces, rm_room = rm\<rparr>"

definition rm_exists :: "u64 \<Rightarrow> (remote_persister, bool) act" where
  "rm_exists addr =
     bnd (gets rm_clientId) (\<lambda>cid.
     bnd (exchange (rm_request EXISTS cid addr)) (\<lambda>b.
     bnd (answerU32 b) (\<lambda>result. ret (result = 1))))"

text \<open>The loop that reads the block never ends when the answer is too short.\<close>

definition rm_load :: "u64 \<Rightarrow> bytes \<Rightarrow> nat \<Rightarrow> (remote_persister, bytes) act" where
  "rm_load addr memory sz =
     bnd (gets rm_clientId) (\<lambda>cid.
     bnd (exchange (rm_request LOAD cid addr)) (\<lambda>b.
     if length b < sz then hang
     else if length memory < sz then throw Undefined
     else bnd (modify (\<lambda>p. p\<lparr>rm_nbLoaded := rm_nbLoaded p + 1\<rparr>)) (\<lambda>_.
       ret (take sz b @ drop sz memory))))"

definition rm_save :: "u64 \<Rightarrow> bytes \<Rightarrow> nat \<Rightarrow> (remote_persister, unit) act" where
  "rm_save addr memory sz =
     bnd (gets rm_clientId) (\<lambda>cid.
     if length memory < sz then throw Undefined
     else bnd (exchange (rm_request STORE cid addr @ take sz memory)) (\<lambda>_.
       modify (\<lambda>p. p\<lparr>rm_nbSaved := rm_nbSaved p + 1\<rparr>)))"

definition rm_erase :: "u64 \<Rightarrow> (remote_persister, unit) act" where
  "rm_erase addr =
     bnd (gets rm_clientId) (\<lambda>cid.
     bnd (exchange (rm_request ERASE cid addr)) (\<lambda>_. ret ()))"

section \<open>The client and the server do not agree on the request\<close>

definition net_ok :: "remote_persister \<Rightarrow> bool" where
  "net_ok p \<longleftrightarrow> (\<forall>b. concat (rm_cut p b) = b \<and> [] \<notin> set (rm_cut p b)) \<and>
     0 \<notin> set (rm_room p) \<and> unat (rp_blockSize (rm_server p)) + 4 \<le> length (rm_room p)"

definition low :: "u64 \<Rightarrow> u32" where
  "low addr = ucast addr"

definition high :: "u64 \<Rightarrow> u32" where
  "high addr = ucast (drop_bit 32 addr)"

lemma le_bytes_split: "le_bytes 8 addr = le_bytes 4 (low addr) @ le_bytes 4 (high addr)"
proof (rule nth_equalityI)
  fix i assume "i < length (le_bytes 8 addr)"
  then have "i < 8" by simp
  then consider "i < 4" | j where "i = j + 4" "j < 4"
    by (metis add_less_imp_less_right le_add_diff_inverse2 not_less numeral_Bit0)
  then show "le_bytes 8 addr ! i = (le_bytes 4 (low addr) @ le_bytes 4 (high addr)) ! i"
  proof cases
    case 1
    then show ?thesis
      by (intro bit_word_eqI) (auto simp: le_bytes_def nth_append low_def bit_unsigned_iff bit_drop_bit_eq)
  next
    case 2
    then show ?thesis
      by (intro bit_word_eqI)
        (auto simp: le_bytes_def nth_append high_def bit_unsigned_iff bit_drop_bit_eq add.assoc add.left_commute)
  qed
qed simp

lemma exchange_ok:
  assumes "net_ok p"
    and "returns onSession (rm_server p, tcpStream_sock 1 addr_zero (rm_cut p sent) (rm_room p))
      (\<lambda>_ (r', t'). Q r' (outbox t'))"
  shows "\<exists>r' b. exchange sent p = Some (Inr b, p\<lparr>rm_server := r'\<rparr>) \<and> Q r' b"
proof -
  from assms(2) obtain u s where
    s: "onSession (rm_server p, tcpStream_sock 1 addr_zero (rm_cut p sent) (rm_room p)) = Some (Inr u, s)"
      "(\<lambda>(r', t'). Q r' (outbox t')) s" by (rule returnsE)
  obtain r t where "s = (r, t)" by (cases s)
  with s show ?thesis by (intro exI [of _ r] exI [of _ "outbox t"]) (simp add: exchange_def)
qed

lemma exchange_request:
  assumes "net_ok p" and "sent = le_bytes 4 proto @ body"
  shows "request (tcpStream_sock 1 addr_zero (rm_cut p sent) (rm_room p)) proto body"
  using assms by (simp add: request_def tcpStream_sock_def isOpen_def live_inbox_def pending_def net_ok_def)

text \<open>
  C24. The client sends the address of a block on 8 bytes and the repository reads 4: what a block
  saved remotely gives back is not the block, but the upper half of its address followed by the
  block without its last four bytes (for the 32-bit addresses of the allocator, four zeros).
\<close>

theorem remote_block_shifted:
  assumes "rp_inv (rm_server p)" and "net_ok p" and "unat (rp_blockSize (rm_server p)) = n"
    and "4 \<le> n" and "length m = n" and "length junk = n"
    and "lp_stored (rp_persister (rm_server p)) (block_key (rm_clientId p) (low addr)) = None"
  shows "returns (bnd (rm_save addr m n) (\<lambda>_. rm_load addr junk n)) p
    (\<lambda>m' p'. m' = le_bytes 4 (high addr) @ take (n - 4) m)"
proof -
  let ?key = "block_key (rm_clientId p) (low addr)"
  let ?b = "le_bytes 4 (high addr) @ take (n - 4) m"
  have b: "length ?b = n" using assms(4,5) by simp
  have b': "length ?b = unat (rp_blockSize (rm_server p))" by (simp only: b assms(3))
  have m: "take n m = take (n - 4) m @ drop (n - 4) m" using assms(5) by simp
  let ?t1 = "tcpStream_sock 1 addr_zero (rm_cut p (rm_request STORE (rm_clientId p) addr @ take n m)) (rm_room p)"
  have "request ?t1 STORE (key_body (rm_clientId p) (low addr) (?b @ drop (n - 4) m))"
    by (rule exchange_request [OF assms(2)]) (simp add: rm_request_def le_bytes_split key_body_def m)
  from store_session [OF assms(1) this b' assms(7)]
    exchange_ok [OF assms(2), of "rm_request STORE (rm_clientId p) addr @ take n m"
      "\<lambda>r' ob. rp_inv r' \<and> rp_blockSize r' = rp_blockSize (rm_server p) \<and>
        repo_stored r' = (repo_stored (rm_server p))(?key \<mapsto> ?b) \<and> ob = outbox ?t1"]
  obtain r1 ob where 1: "exchange (rm_request STORE (rm_clientId p) addr @ take n m) p = Some (Inr ob, p\<lparr>rm_server := r1\<rparr>)"
    "rp_inv r1" "rp_blockSize r1 = rp_blockSize (rm_server p)"
    "repo_stored r1 = (repo_stored (rm_server p))(?key \<mapsto> ?b)" by blast
  let ?p1 = "p\<lparr>rm_server := r1, rm_nbSaved := rm_nbSaved p + 1\<rparr>"
  have net: "net_ok ?p1" using assms(2) 1(3) by (simp add: net_ok_def)
  let ?t2 = "tcpStream_sock 1 addr_zero (rm_cut ?p1 (rm_request LOAD (rm_clientId p) addr)) (rm_room ?p1)"
  have req: "request ?t2 LOAD (key_body (rm_clientId p) (low addr) (le_bytes 4 (high addr)))"
    by (rule exchange_request [OF net]) (simp add: rm_request_def le_bytes_split key_body_def)
  have rm: "0 \<notin> set (room ?t2)" "length ?b \<le> length (room ?t2)" "outbox ?t2 = []"
    using net b' 1(3) by (simp_all add: net_ok_def tcpStream_sock_def del: length_append)
  have st: "repo_stored r1 ?key = Some ?b" by (simp add: 1(4))
  from load_session [OF 1(2) req st rm(1,2)]
    exchange_ok [OF net, of "rm_request LOAD (rm_clientId p) addr"
      "\<lambda>r' ob. rp_inv r' \<and> rp_blockSize r' = rp_blockSize r1 \<and>
        repo_stored r' = (repo_stored r1)(?key := None) \<and> ob = outbox ?t2 @ ?b"] rm(3)
  obtain r2 where 2: "exchange (rm_request LOAD (rm_clientId p) addr) ?p1 = Some (Inr ?b, ?p1\<lparr>rm_server := r2\<rparr>)"
    by auto
  have "rm_save addr m n p = Some (Inr (), ?p1)"
    using 1(1) assms(5) by (simp add: rm_save_def act_simps)
  moreover have "returns (rm_load addr junk n) ?p1 (\<lambda>m' p'. m' = ?b)"
    using b assms(6) by (simp add: rm_load_def returns_def act_simps 2)
  ultimately show ?thesis by (simp add: returns_def act_simps)
qed

definition demo_remote :: remote_persister where
  "demo_remote = \<lparr>rm_clientId = 1, rm_nbLoaded = 0, rm_nbSaved = 0,
     rm_server = repository_new 1 6 (localPersister ''/tmp/b'' 7 0 0 (\<lambda>_. None)) (replicate 6 0),
     rm_cut = (\<lambda>b. if b = [] then [] else [b]), rm_room = replicate 10 1\<rparr>"

theorem remote_block_shifted_witness:
  "returns (bnd (rm_save 3 [1, 2, 3, 4, 5, 6] 6) (\<lambda>_. rm_load 3 [0, 0, 0, 0, 0, 0] 6)) demo_remote
    (\<lambda>m' p'. m' = [0, 0, 0, 0, 1, 2])"
proof -
  have "rp_inv (rm_server demo_remote)" "net_ok demo_remote"
    "unat (rp_blockSize (rm_server demo_remote)) = 6"
    "lp_stored (rp_persister (rm_server demo_remote)) k = None" for k
    by (simp_all add: rp_inv_def demo_remote_def repository_new_def localPersister_def lp_ok_def
        lp_stored_def show_nat.simps net_ok_def)
  moreover have "le_bytes 4 (high 3) = [0, 0, 0, 0]" by code_simp
  ultimately show ?thesis
    using remote_block_shifted [of demo_remote 6 "[1, 2, 3, 4, 5, 6]" "[0, 0, 0, 0, 0, 0]" 3] by simp
qed

section \<open>The destructor of the client\<close>

definition rm_destroy :: "sockaddr \<Rightarrow> (unit res \<times> tcp_stream) option" where
  "rm_destroy addr = bnd (sendU32 CLOSE True) (\<lambda>_. stream_close) (tcpStream_addr addr)"

text \<open>
  It sends on a stream it did not connect: an exception leaves the destructor, which ends the program.
\<close>

lemma rm_destroy_throws:
  "rm_destroy addr = Some (Inl (RuntimeError ''Stream is closed''), tcpStream_addr addr)"
  by (simp add: rm_destroy_def sendU32_def inner_sendRaw_def tcpStream_addr_def tcpStream_sock_def
      isOpen_def stream_closed_def act_simps bnd_assoc)

end
