(* ===== verification/FreeList.thy ===== *)
theory FreeList
  imports Bytes
begin

text \<open>
  \<^verbatim>\<open>memory/cache/free_list.cc\<close>: the allocator inside one block of memory. The block is the list
  of its bytes; \<^verbatim>\<open>free_list_instance\<close> lies at offset 0 (\<^verbatim>\<open>total_size\<close> at 0, \<^verbatim>\<open>head\<close> at 4) and a
  \<^verbatim>\<open>free_list_node\<close> at its own offset (\<^verbatim>\<open>size\<close>, then \<^verbatim>\<open>next\<close> four bytes further). Offsets are the
  32-bit words the code computes with; the address of a field is a number, as the pointer
  arithmetic does not wrap. An access outside the block is \<open>Undefined\<close>. The loops follow \<^verbatim>\<open>next\<close>
  pointers and would not return on a cyclic list: they are partial functions, with \<open>None\<close> for
  not returning.
\<close>

section \<open>Loads and stores in a block\<close>

definition rd :: "bytes \<Rightarrow> nat \<Rightarrow> u32" where
  "rd m i = le_word (take 4 (drop i m))"

definition wr :: "bytes \<Rightarrow> nat \<Rightarrow> u32 \<Rightarrow> bytes" where
  "wr m i v = take i m @ le_bytes 4 v @ drop (i + 4) m"

definition ld32 :: "bytes \<Rightarrow> nat \<Rightarrow> u32 res" where
  "ld32 m i = (if i + 4 \<le> length m then Inr (rd m i) else Inl Undefined)"

definition st32 :: "bytes \<Rightarrow> nat \<Rightarrow> u32 \<Rightarrow> bytes res" where
  "st32 m i v = (if i + 4 \<le> length m then Inr (wr m i v) else Inl Undefined)"

lemma length_wr [simp]: "i + 4 \<le> length m \<Longrightarrow> length (wr m i v) = length m"
  by (simp add: wr_def)

lemma rd_wr_same [simp]: "i + 4 \<le> length m \<Longrightarrow> rd (wr m i v) i = v"
  by (simp add: rd_def wr_def)

lemma slice_wr:
  assumes "i + 4 \<le> length m" and "j + n \<le> i \<or> i + 4 \<le> j"
  shows "take n (drop j (wr m i v)) = take n (drop j m)"
proof (rule nth_equalityI)
  show "length (take n (drop j (wr m i v))) = length (take n (drop j m))" using assms by simp
  fix k assume "k < length (take n (drop j (wr m i v)))"
  then have k: "k < n" "j + k < length m" using assms by auto
  with assms show "take n (drop j (wr m i v)) ! k = take n (drop j m) ! k"
    by (auto simp: wr_def nth_append add.commute)
qed

lemma rd_wr_other:
  "i + 4 \<le> length m \<Longrightarrow> j + 4 \<le> i \<or> i + 4 \<le> j \<Longrightarrow> rd (wr m i v) j = rd m j"
  by (simp add: rd_def slice_wr)

lemma ld32_in [simp]: "i + 4 \<le> length m \<Longrightarrow> ld32 m i = Inr (rd m i)"
  by (simp add: ld32_def)

lemma st32_in [simp]: "i + 4 \<le> length m \<Longrightarrow> st32 m i v = Inr (wr m i v)"
  by (simp add: st32_def)

section \<open>The code\<close>

definition free_list_create :: "bytes \<Rightarrow> u32 \<Rightarrow> bytes res" where
  "free_list_create memory total_size =
     (if length memory < unat total_size then Inl Undefined
      else let m = replicate (unat total_size) 0 @ drop (unat total_size) memory in
        ebind (st32 m 0 (total_size - 8)) (\<lambda>m.
        ebind (st32 m 4 8) (\<lambda>m.
        ebind (st32 m 8 (total_size - 8)) (\<lambda>m.
        st32 m 12 0))))"

partial_function (option) find_loop ::
  "bytes \<Rightarrow> u32 \<Rightarrow> u32 \<Rightarrow> u32 \<Rightarrow> u32 \<Rightarrow> u32 \<Rightarrow> u32 \<Rightarrow> bool \<Rightarrow> (bool \<times> u32 \<times> u32) res option"
where
  "find_loop m sz nodeOffset prev offset prevOffset min_found found =
     (if nodeOffset = 0 then Some (Inr (found, offset, prevOffset))
      else case ebind (ld32 m (unat nodeOffset)) (\<lambda>nsize.
             ebind (ld32 m (unat nodeOffset + 4)) (\<lambda>nnext. Inr (nsize, nnext))) of
          Inl e \<Rightarrow> Some (Inl e)
        | Inr (nsize, nnext) \<Rightarrow>
            if sz \<le> nsize \<and> (nsize < min_found \<or> \<not> found)
            then find_loop m sz nnext nodeOffset nodeOffset prev nsize True
            else find_loop m sz nnext nodeOffset offset prevOffset min_found found)"

definition free_list_find_best_fit :: "bytes \<Rightarrow> u32 \<Rightarrow> (bool \<times> u32 \<times> u32) res option" where
  "free_list_find_best_fit m sz =
     (case ebind (ld32 m 4) (\<lambda>head. ebind (ld32 m 0) (\<lambda>tot. Inr (head, tot))) of
        Inl e \<Rightarrow> Some (Inl e)
      | Inr (head, tot) \<Rightarrow> find_loop m sz head 0 0 0 (tot + 1) False)"

text \<open>
  \<open>link prev\<close> is the address of the pointer to the node after \<open>prev\<close>: the field \<^verbatim>\<open>next\<close> of
  \<open>prev\<close>, or \<^verbatim>\<open>inst-> head\<close> for a null \<open>prev\<close>.
\<close>

definition set_link :: "bytes \<Rightarrow> u32 \<Rightarrow> u32 \<Rightarrow> bytes res" where
  "set_link m prev v = (if prev \<noteq> 0 then st32 m (unat prev + 4) v else st32 m 4 v)"

text \<open>What follows a successful search: the memory, the size taken, the offset.\<close>

definition take_node :: "bytes \<Rightarrow> u32 \<Rightarrow> u32 \<Rightarrow> u32 \<Rightarrow> (bytes \<times> u32 \<times> u32) res" where
  "take_node m sz nodeOffset prevOffset =
     ebind (ld32 m (unat nodeOffset)) (\<lambda>nsize.
     let restSize = nsize - sz in
     if 8 < restSize then
       let newNodeOffset = nodeOffset + sz in
       ebind (st32 m (unat newNodeOffset) restSize) (\<lambda>m.
       ebind (ld32 m (unat nodeOffset + 4)) (\<lambda>nnext.
       ebind (st32 m (unat newNodeOffset + 4) nnext) (\<lambda>m.
       ebind (set_link m prevOffset newNodeOffset) (\<lambda>m. Inr (m, sz, nodeOffset)))))
     else
       ebind (ld32 m (unat nodeOffset + 4)) (\<lambda>nnext.
       ebind (set_link m prevOffset nnext) (\<lambda>m. Inr (m, nsize, nodeOffset))))"

definition free_list_allocate_inner ::
  "bytes \<Rightarrow> u32 \<Rightarrow> (bytes \<times> (u32 \<times> u32) option) res option" where
  "free_list_allocate_inner m sz =
     (case free_list_find_best_fit m sz of
        None \<Rightarrow> None
      | Some (Inl e) \<Rightarrow> Some (Inl e)
      | Some (Inr (found, nodeOffset, prevOffset)) \<Rightarrow>
          Some (if \<not> found then Inr (m, None)
                else ebind (take_node m sz nodeOffset prevOffset) (\<lambda>(m, sz, offset).
                  Inr (m, Some (sz, offset)))))"

definition free_list_real_size :: "u32 \<Rightarrow> u32" where
  "free_list_real_size sz = (let reqSize = sz + 4 in if reqSize < 8 then 8 else reqSize)"

text \<open>The offset of the allocated memory, \<open>None\<close> for \<^verbatim>\<open>false\<close>.\<close>

definition free_list_allocate :: "bytes \<Rightarrow> u32 \<Rightarrow> (bytes \<times> u32 option) res option" where
  "free_list_allocate m sz =
     (case free_list_allocate_inner m (free_list_real_size sz) of
        None \<Rightarrow> None
      | Some r \<Rightarrow> Some (ebind r (\<lambda>(m, x). case x of
            None \<Rightarrow> Inr (m, None)
          | Some (reqSize, offset) \<Rightarrow>
              ebind (st32 m (unat offset) reqSize) (\<lambda>m. Inr (m, Some (offset + 4))))))"

text \<open>The three ways \<^verbatim>\<open>free_list_free_inner\<close> puts a segment back.\<close>

definition free_after :: "bytes \<Rightarrow> u32 \<Rightarrow> u32 \<Rightarrow> bytes res" where
  "free_after m nodeOffset sz =
     ebind (ld32 m (unat nodeOffset)) (\<lambda>nsize.
     ebind (st32 m (unat nodeOffset) (nsize + sz)) (\<lambda>m.
     ebind (ld32 m (unat nodeOffset + 4)) (\<lambda>nnext.
     if nnext = nodeOffset + (nsize + sz) then
       ebind (ld32 m (unat nnext)) (\<lambda>s.
       ebind (st32 m (unat nodeOffset) (nsize + sz + s)) (\<lambda>m.
       ebind (ld32 m (unat nnext + 4)) (\<lambda>nn.
       st32 m (unat nodeOffset + 4) nn)))
     else Inr m)))"

definition free_before :: "bytes \<Rightarrow> u32 \<Rightarrow> u32 \<Rightarrow> u32 \<Rightarrow> u32 \<Rightarrow> bytes res" where
  "free_before m nodeOffset prevOffset offset sz =
     ebind (st32 m (unat offset) sz) (\<lambda>m.
     ebind (st32 m (unat offset + 4) nodeOffset) (\<lambda>m.
     ebind (set_link m prevOffset offset) (\<lambda>m.
     ebind (ld32 m (unat offset + 4)) (\<lambda>nnext.
     ebind (ld32 m (unat offset)) (\<lambda>nsize.
     ebind (if nnext \<noteq> 0 \<and> offset + nsize = nnext then
              ebind (ld32 m (unat nnext)) (\<lambda>s.
              ebind (st32 m (unat offset) (nsize + s)) (\<lambda>m.
              ebind (ld32 m (unat nnext + 4)) (\<lambda>nn.
              st32 m (unat offset + 4) nn)))
            else Inr m) (\<lambda>m.
     if prevOffset = 0 then Inr m
     else
       ebind (ld32 m (unat prevOffset)) (\<lambda>psize.
       if prevOffset + psize = offset then
         ebind (ld32 m (unat offset + 4)) (\<lambda>nnext.
         ebind (ld32 m (unat offset)) (\<lambda>nsize.
         ebind (st32 m (unat prevOffset) (psize + nsize)) (\<lambda>m.
         ebind (ld32 m (unat nnext + 4)) (\<lambda>nn.
         st32 m (unat prevOffset + 4) nn))))
       else Inr m)))))))"

definition free_last :: "bytes \<Rightarrow> u32 \<Rightarrow> u32 \<Rightarrow> u32 \<Rightarrow> bytes res" where
  "free_last m nodeOffset offset sz =
     ebind (st32 m (unat offset) sz) (\<lambda>m.
     ebind (st32 m (unat offset + 4) 0) (\<lambda>m.
     st32 m (unat nodeOffset + 4) offset))"

partial_function (option) free_loop ::
  "bytes \<Rightarrow> u32 \<Rightarrow> u32 \<Rightarrow> u32 \<Rightarrow> u32 \<Rightarrow> (bytes \<times> bool) res option"
where
  "free_loop m offset sz nodeOffset prevOffset =
     (if nodeOffset = 0 then Some (Inr (m, False))
      else case ebind (ld32 m (unat nodeOffset)) (\<lambda>nsize.
             ebind (ld32 m (unat nodeOffset + 4)) (\<lambda>nnext. Inr (nsize, nnext))) of
          Inl e \<Rightarrow> Some (Inl e)
        | Inr (nsize, nnext) \<Rightarrow>
            if nodeOffset + nsize = offset then
              Some (ebind (free_after m nodeOffset sz) (\<lambda>m. Inr (m, True)))
            else if offset < nodeOffset then
              Some (ebind (free_before m nodeOffset prevOffset offset sz) (\<lambda>m. Inr (m, True)))
            else if nnext = 0 \<and> nodeOffset + nsize < offset then
              Some (ebind (free_last m nodeOffset offset sz) (\<lambda>m. Inr (m, True)))
            else free_loop m offset sz nnext nodeOffset)"

definition free_list_free_inner :: "bytes \<Rightarrow> u32 \<Rightarrow> u32 \<Rightarrow> (bytes \<times> bool) res option" where
  "free_list_free_inner m offset sz =
     (case ld32 m 4 of
        Inl e \<Rightarrow> Some (Inl e)
      | Inr head \<Rightarrow>
          if head = 0 then
            Some (ebind (st32 m 4 offset) (\<lambda>m.
              ebind (st32 m (unat offset) sz) (\<lambda>m.
              ebind (st32 m (unat offset + 4) 0) (\<lambda>m. Inr (m, True)))))
          else free_loop m offset sz head 0)"

definition free_list_free :: "bytes \<Rightarrow> u32 \<Rightarrow> (bytes \<times> bool) res option" where
  "free_list_free m offset =
     (case ld32 m (unat (offset - 4)) of
        Inl e \<Rightarrow> Some (Inl e)
      | Inr sz \<Rightarrow> free_list_free_inner m (offset - 4) sz)"

definition free_list_empty :: "bytes \<Rightarrow> bool res" where
  "free_list_empty m =
     ebind (ld32 m 4) (\<lambda>head.
       if head = 8 then
         ebind (ld32 m (unat head)) (\<lambda>hsize. ebind (ld32 m 0) (\<lambda>tot. Inr (hsize = tot)))
       else Inr False)"

partial_function (option) max_loop :: "bytes \<Rightarrow> u32 \<Rightarrow> u32 \<Rightarrow> u32 res option" where
  "max_loop m nodeOffset mx =
     (if nodeOffset = 0 then Some (Inr mx)
      else case ebind (ld32 m (unat nodeOffset)) (\<lambda>nsize.
             ebind (ld32 m (unat nodeOffset + 4)) (\<lambda>nnext. Inr (nsize, nnext))) of
          Inl e \<Rightarrow> Some (Inl e)
        | Inr (nsize, nnext) \<Rightarrow> max_loop m nnext (if mx < nsize - 4 then nsize - 4 else mx))"

definition free_list_max_size :: "bytes \<Rightarrow> u32 res option" where
  "free_list_max_size m =
     (case ld32 m 4 of Inl e \<Rightarrow> Some (Inl e) | Inr head \<Rightarrow> max_loop m head 0)"

declare find_loop.simps [code] free_loop.simps [code] max_loop.simps [code]

end
