(* ===== verification/FreeListSpec.thy ===== *)
theory FreeListSpec
  imports FreeList
begin

text \<open>
  What the free list of a block promises. The abstract state of a block is its tiling: the sizes
  of the consecutive segments after the 8-byte header, each used or free. \<open>repr m bs\<close> says that
  the bytes \<open>m\<close> are a block with the tiling \<open>bs\<close>: the free segments are linked in order of their
  offsets, no two of them touch, every segment holds at least a node, and every used segment
  begins with its size.
\<close>

section \<open>Tilings\<close>

type_synonym tiling = "(nat \<times> bool) list"

definition tot :: "tiling \<Rightarrow> nat" where
  "tot bs = sum_list (map fst bs)"

fun frees :: "nat \<Rightarrow> tiling \<Rightarrow> (nat \<times> nat) list" where
  "frees a [] = []"
| "frees a ((s, u) # bs) = (if u then frees (a + s) bs else (a, s) # frees (a + s) bs)"

fun useds :: "nat \<Rightarrow> tiling \<Rightarrow> (nat \<times> nat) list" where
  "useds a [] = []"
| "useds a ((s, u) # bs) = (if u then (a, s) # useds (a + s) bs else useds (a + s) bs)"

fun merged :: "tiling \<Rightarrow> bool" where
  "merged ((s, u) # (t, v) # bs) \<longleftrightarrow> (u \<or> v) \<and> merged ((t, v) # bs)"
| "merged _ \<longleftrightarrow> True"

definition big :: "tiling \<Rightarrow> bool" where
  "big bs \<longleftrightarrow> (\<forall>b \<in> set bs. 8 \<le> fst b)"

lemma tot_simps [simp]: "tot [] = 0" "tot ((s, u) # bs) = s + tot bs" "tot (xs @ ys) = tot xs + tot ys"
  by (simp_all add: tot_def)

lemma big_simps [simp]:
  "big []" "big ((s, u) # bs) \<longleftrightarrow> 8 \<le> s \<and> big bs" "big (xs @ ys) \<longleftrightarrow> big xs \<and> big ys"
  by (auto simp: big_def)

lemma frees_append: "frees a (xs @ ys) = frees a xs @ frees (a + tot xs) ys"
  by (induction a xs rule: frees.induct) (auto simp: add.assoc)

lemma useds_append: "useds a (xs @ ys) = useds a xs @ useds (a + tot xs) ys"
  by (induction a xs rule: useds.induct) (auto simp: add.assoc)

lemma merged_append:
  "merged (xs @ ys) \<longleftrightarrow> merged xs \<and> merged ys \<and>
     (xs = [] \<or> ys = [] \<or> snd (last xs) \<or> snd (hd ys))"
proof (induction xs)
  case (Cons x xs)
  then show ?case by (cases x; cases xs; cases ys) auto
qed simp

lemma frees_range: "(o', s) \<in> set (frees a bs) \<Longrightarrow> a \<le> o' \<and> o' + s \<le> a + tot bs \<and> (s, False) \<in> set bs"
  by (induction a bs rule: frees.induct) (fastforce split: if_splits)+

lemma useds_range: "(o', s) \<in> set (useds a bs) \<Longrightarrow> a \<le> o' \<and> o' + s \<le> a + tot bs \<and> (s, True) \<in> set bs"
  by (induction a bs rule: useds.induct) (fastforce split: if_splits)+

lemma used_free_disjoint:
  "(o', s) \<in> set (useds a bs) \<Longrightarrow> (p, t) \<in> set (frees a bs) \<Longrightarrow> o' + s \<le> p \<or> p + t \<le> o'"
proof (induction a bs rule: useds.induct)
  case (2 a s' u bs)
  then show ?case
    using frees_range [of p t "a + s'" bs] useds_range [of o' s "a + s'" bs] by (auto split: if_splits)
qed simp

text \<open>Splitting a tiling at one of its free or used segments.\<close>

lemma frees_split:
  "frees a bs = xs @ (p, s) # ys \<Longrightarrow>
     \<exists>pre post. bs = pre @ (s, False) # post \<and> frees a pre = xs \<and> p = a + tot pre \<and>
       frees (p + s) post = ys"
proof (induction a bs arbitrary: xs rule: frees.induct)
  case (2 a s' u bs)
  show ?case
  proof (cases "u \<or> xs \<noteq> []")
    case True
    then obtain xs' where xs': "frees (a + s') bs = xs' @ (p, s) # ys" "xs = (if u then xs' else (a, s') # xs')"
      using 2(3) by (cases xs) (auto split: if_splits)
    from True 2(1,2) [OF _ xs'(1)] obtain pre post where
      "bs = pre @ (s, False) # post" "frees (a + s') pre = xs'" "p = a + s' + tot pre" "frees (p + s) post = ys"
      by (cases u) auto
    then show ?thesis using xs'(2) by (intro exI [of _ "(s', u) # pre"] exI [of _ post]) auto
  next
    case False
    with 2(3) show ?thesis by (intro exI [of _ "[]"] exI [of _ bs]) auto
  qed
qed simp

lemma useds_split:
  "(p, s) \<in> set (useds a bs) \<Longrightarrow> \<exists>pre post. bs = pre @ (s, True) # post \<and> p = a + tot pre"
proof (induction a bs rule: useds.induct)
  case (2 a s' u bs)
  show ?case
  proof (cases "u \<and> (p, s) = (a, s')")
    case True
    then show ?thesis by (intro exI [of _ "[]"] exI [of _ bs]) auto
  next
    case False
    then have "(p, s) \<in> set (useds (a + s') bs)" using 2(3) by (auto split: if_splits)
    with 2(1,2) obtain pre post where "bs = pre @ (s, True) # post" "p = a + s' + tot pre"
      by (cases u) auto
    then show ?thesis by (intro exI [of _ "(s', u) # pre"] exI [of _ post]) auto
  qed
qed simp

section \<open>The linked list\<close>

text \<open>
  \<open>lst m loc fs\<close>: the pointer at \<open>loc\<close> leads through the nodes \<open>fs\<close> (offset and size) to a null
  pointer; \<open>lsg\<close> is the same without the end.
\<close>

fun lst :: "bytes \<Rightarrow> nat \<Rightarrow> (nat \<times> nat) list \<Rightarrow> bool" where
  "lst m loc [] \<longleftrightarrow> rd m loc = 0"
| "lst m loc ((p, s) # fs) \<longleftrightarrow> unat (rd m loc) = p \<and> unat (rd m p) = s \<and> lst m (p + 4) fs"

fun lsg :: "bytes \<Rightarrow> nat \<Rightarrow> (nat \<times> nat) list \<Rightarrow> bool" where
  "lsg m loc [] \<longleftrightarrow> True"
| "lsg m loc ((p, s) # fs) \<longleftrightarrow> unat (rd m loc) = p \<and> unat (rd m p) = s \<and> lsg m (p + 4) fs"

fun lastloc :: "nat \<Rightarrow> (nat \<times> nat) list \<Rightarrow> nat" where
  "lastloc loc [] = loc"
| "lastloc loc ((p, s) # fs) = lastloc (p + 4) fs"

text \<open>Nodes in order: each begins at least four bytes after the pointer to it.\<close>

fun asc :: "nat \<Rightarrow> (nat \<times> nat) list \<Rightarrow> bool" where
  "asc loc [] \<longleftrightarrow> True"
| "asc loc ((p, s) # fs) \<longleftrightarrow> loc + 4 \<le> p \<and> asc (p + 4) fs"

lemma lst_append: "lst m loc (xs @ ys) \<longleftrightarrow> lsg m loc xs \<and> lst m (lastloc loc xs) ys"
  by (induction m loc xs rule: lsg.induct) auto

lemma lsg_append: "lsg m loc (xs @ ys) \<longleftrightarrow> lsg m loc xs \<and> lsg m (lastloc loc xs) ys"
  by (induction m loc xs rule: lsg.induct) auto

lemma lastloc_append: "lastloc loc (xs @ ys) = lastloc (lastloc loc xs) ys"
  by (induction loc xs rule: lastloc.induct) auto

lemma asc_append: "asc loc (xs @ ys) \<longleftrightarrow> asc loc xs \<and> asc (lastloc loc xs) ys"
  by (induction loc xs rule: asc.induct) auto

lemma lastloc_ge: "asc loc xs \<Longrightarrow> loc \<le> lastloc loc xs"
  by (induction loc xs rule: asc.induct) auto

lemma asc_nodes: "asc loc xs \<Longrightarrow> (p, s) \<in> set xs \<Longrightarrow> loc + 4 \<le> p \<and> p + 4 \<le> lastloc loc xs"
proof (induction loc xs rule: asc.induct)
  case (2 loc q t fs)
  then show ?case using lastloc_ge [of "q + 4" fs] by auto
qed simp

lemma asc_weaken: "asc loc xs \<Longrightarrow> loc' \<le> loc \<Longrightarrow> asc loc' xs"
  by (cases xs) auto

lemma asc_frees: "big bs \<Longrightarrow> loc + 4 \<le> a \<Longrightarrow> asc loc (frees a bs)"
  by (induction a bs arbitrary: loc rule: frees.induct) auto

lemma lastloc_frees: "big bs \<Longrightarrow> loc + 4 \<le> a \<Longrightarrow> lastloc loc (frees a bs) + 4 \<le> a + tot bs"
proof (induction a bs arbitrary: loc rule: frees.induct)
  case (2 a s u bs)
  show ?case
  proof (cases u)
    case True
    with 2(1) [OF True, of loc] 2(3,4) show ?thesis by simp
  next
    case False
    with 2(2) [OF False, of "a + 4"] 2(3,4) show ?thesis by simp
  qed
qed simp

lemma lsg_agree:
  "lsg m loc xs \<Longrightarrow> asc loc xs \<Longrightarrow> lastloc loc xs \<le> k \<Longrightarrow>
     (\<And>j. j + 4 \<le> k \<Longrightarrow> rd m' j = rd m j) \<Longrightarrow> lsg m' loc xs"
proof (induction m loc xs rule: lsg.induct)
  case (2 m loc p s fs)
  then have "p + 4 \<le> k" "loc + 4 \<le> k" using lastloc_ge [of "p + 4" fs] by auto
  then have "rd m' p = rd m p" "rd m' loc = rd m loc" using 2(5) by auto
  with 2 show ?case by auto
qed simp

lemma lst_agree:
  "lst m loc xs \<Longrightarrow> rd m' loc' = rd m loc \<Longrightarrow>
     \<forall>(p, s) \<in> set xs. k \<le> p \<and> p + 8 \<le> length m \<Longrightarrow>
     (\<And>j. k \<le> j \<Longrightarrow> j + 4 \<le> length m \<Longrightarrow> rd m' j = rd m j) \<Longrightarrow> lst m' loc' xs"
proof (induction m loc xs arbitrary: loc' rule: lst.induct)
  case (2 m loc p s fs)
  have "rd m' p = rd m p" "rd m' (p + 4) = rd m (p + 4)" using 2(4,5) by auto
  with 2 show ?case by auto
qed simp

section \<open>The representation\<close>

definition repr :: "bytes \<Rightarrow> tiling \<Rightarrow> bool" where
  "repr m bs \<longleftrightarrow>
     length m = 8 + tot bs \<and> length m < 2 ^ 32 \<and> unat (rd m 0) = tot bs \<and> big bs \<and> merged bs \<and>
     lst m 4 (frees 8 bs) \<and> (\<forall>(p, s) \<in> set (useds 8 bs). unat (rd m p) = s)"

text \<open>The used segments of a tiling hold the same bytes in both memories.\<close>

definition same_used :: "tiling \<Rightarrow> bytes \<Rightarrow> bytes \<Rightarrow> bool" where
  "same_used bs m m' \<longleftrightarrow> (\<forall>(p, s) \<in> set (useds 8 bs). take s (drop p m') = take s (drop p m))"

lemma rd_slice: "take s (drop p m') = take s (drop p m) \<Longrightarrow> 4 \<le> s \<Longrightarrow> rd m' p = rd m p"
  unfolding rd_def by (metis min.absorb1 take_take)

section \<open>Local updates\<close>

text \<open>
  \<open>framed L p n m m'\<close>: the memories differ only in the pointer at \<open>L\<close> and in the \<open>n\<close> bytes from
  \<open>p\<close>. Every operation changes a tiling \<open>pre @ mid @ post\<close> into \<open>pre @ mid' @ post\<close> that way, where
  \<open>L\<close> is the pointer to the first free segment that is not in \<open>pre\<close>.
\<close>

definition framed :: "nat \<Rightarrow> nat \<Rightarrow> nat \<Rightarrow> bytes \<Rightarrow> bytes \<Rightarrow> bool" where
  "framed L p n m m' \<longleftrightarrow>
     length m' = length m \<and>
     (\<forall>j k. (j + k \<le> L \<or> L + 4 \<le> j) \<longrightarrow> (j + k \<le> p \<or> p + n \<le> j) \<longrightarrow>
        take k (drop j m') = take k (drop j m))"

lemma framed_refl: "framed L p n m m"
  by (simp add: framed_def)

lemma framed_wr:
  "framed L p n m m' \<Longrightarrow> i + 4 \<le> length m \<Longrightarrow> i = L \<or> p \<le> i \<and> i + 4 \<le> p + n \<Longrightarrow>
     framed L p n m (wr m' i v)"
  unfolding framed_def by (auto simp: slice_wr)

lemma framed_rd:
  "framed L p n m m' \<Longrightarrow> j + 4 \<le> L \<or> L + 4 \<le> j \<Longrightarrow> j + 4 \<le> p \<or> p + n \<le> j \<Longrightarrow> rd m' j = rd m j"
  unfolding framed_def rd_def by metis

lemma lastloc_used:
  "big bs \<Longrightarrow> (q, t) \<in> set (useds a bs) \<Longrightarrow> loc + 4 \<le> a \<Longrightarrow>
     lastloc loc (frees a bs) + 4 \<le> q \<or> q + t \<le> lastloc loc (frees a bs)"
proof (induction a bs arbitrary: loc rule: frees.induct)
  case (2 a s u bs)
  show ?case
  proof (cases u)
    case True
    show ?thesis
    proof (cases "(q, t) = (a, s)")
      case True
      have "lastloc loc (frees (a + s) bs) = loc \<or> a + s \<le> lastloc loc (frees (a + s) bs)"
      proof (cases "frees (a + s) bs")
        case (Cons x xs)
        then have "a + s \<le> fst x" using frees_range [of "fst x" "snd x" "a + s" bs] by simp
        moreover have "asc (fst x + 4) xs"
          using asc_frees [of bs loc "a + s"] 2(3,5) Cons by (cases x) auto
        ultimately show ?thesis using Cons lastloc_ge [of "fst x + 4" xs] by (cases x) auto
      qed simp
      with True 2(5) \<open>u\<close> show ?thesis by auto
    next
      case False
      with 2(1) [OF True, of loc] 2(3,4,5) True show ?thesis by auto
    qed
  next
    case False
    with 2(2) [OF False, of "a + 4"] 2(3,4) show ?thesis by auto
  qed
qed simp

lemma repr_update:
  assumes r: "repr m (pre @ mid @ post)"
    and p: "p = 8 + tot pre" and L: "L = lastloc 4 (frees 8 pre)"
    and n: "tot mid = n" "tot mid' = n"
    and f: "framed L p n m m'"
    and ok: "big mid'" "merged (pre @ mid' @ post)"
    and l: "lsg m' L (frees p mid')"
      "rd m' (lastloc L (frees p mid')) = rd m (lastloc L (frees p mid))"
    and h: "\<forall>(q, t) \<in> set (useds p mid'). unat (rd m' q) = t"
  shows "repr m' (pre @ mid' @ post) \<and> same_used (pre @ (n, False) # post) m m'"
proof -
  have big: "big pre" "big post" "big mid" and len: "length m = 8 + tot pre + n + tot post"
    using r n by (auto simp: repr_def)
  have Lp: "L + 4 \<le> p" unfolding L p using big by (intro lastloc_frees) auto
  have same: "same_used (pre @ (n, False) # post) m m'"
    unfolding same_used_def
  proof (intro ballI, clarify)
    fix q t assume "(q, t) \<in> set (useds 8 (pre @ (n, False) # post))"
    then consider (pre) "(q, t) \<in> set (useds 8 pre)" | (post) "(q, t) \<in> set (useds (p + n) post)"
      by (auto simp: useds_append p add.assoc)
    then show "take t (drop q m') = take t (drop q m)"
    proof cases
      case pre
      with lastloc_used [OF big(1) pre, of 4] useds_range [OF pre] f p L show ?thesis
        by (auto simp: framed_def)
    next
      case post
      with useds_range [OF post] f Lp show ?thesis by (auto simp: framed_def)
    qed
  qed
  have fr: "frees 8 (pre @ mid @ post) = frees 8 pre @ frees p mid @ frees (p + n) post"
    "frees 8 (pre @ mid' @ post) = frees 8 pre @ frees p mid' @ frees (p + n) post"
    using n by (simp_all add: frees_append p add.assoc)
  have old: "lsg m 4 (frees 8 pre)" "lst m L (frees p mid @ frees (p + n) post)"
    using r unfolding repr_def fr lst_append L by auto
  have "lsg m' 4 (frees 8 pre)"
  proof (rule lsg_agree [OF old(1)])
    show "asc 4 (frees 8 pre)" using asc_frees [OF big(1)] by simp
    show "lastloc 4 (frees 8 pre) \<le> L" by (simp add: L)
    show "\<And>j. j + 4 \<le> L \<Longrightarrow> rd m' j = rd m j" using Lp by (intro framed_rd [OF f]) auto
  qed
  moreover have "lst m' (lastloc L (frees p mid')) (frees (p + n) post)"
  proof (rule lst_agree)
    show "lst m (lastloc L (frees p mid)) (frees (p + n) post)" using old(2) by (simp add: lst_append)
    show "rd m' (lastloc L (frees p mid')) = rd m (lastloc L (frees p mid))" by (rule l(2))
    show "\<forall>(q, s) \<in> set (frees (p + n) post). p + n \<le> q \<and> q + 8 \<le> length m"
      using frees_range [of _ _ "p + n" post] big(2) len p by (fastforce simp: big_def)
    show "\<And>j. p + n \<le> j \<Longrightarrow> j + 4 \<le> length m \<Longrightarrow> rd m' j = rd m j"
      using f Lp by (intro framed_rd [OF f]) auto
  qed
  ultimately have lst: "lst m' 4 (frees 8 (pre @ mid' @ post))"
    unfolding fr lst_append L [symmetric] using l(1) by simp
  have tot: "unat (rd m' 0) = tot (pre @ mid' @ post)"
  proof -
    have "4 \<le> L" unfolding L using asc_frees [OF big(1), of 4 8] by (intro lastloc_ge) simp
    then have "rd m' 0 = rd m 0" using p by (intro framed_rd [OF f]) auto
    with r n show ?thesis by (simp add: repr_def)
  qed
  have hdr: "unat (rd m' q) = t" if q: "(q, t) \<in> set (useds 8 (pre @ mid' @ post))" for q t
  proof (cases "(q, t) \<in> set (useds p mid')")
    case True
    with h show ?thesis by auto
  next
    case False
    with q have q2: "(q, t) \<in> set (useds 8 (pre @ (n, False) # post))"
      "(q, t) \<in> set (useds 8 (pre @ mid @ post))"
      using n by (auto simp: useds_append p add.assoc)
    have "8 \<le> t" using useds_range [OF q2(1)] big by (fastforce simp: big_def)
    with q2(1) same have "rd m' q = rd m q" by (intro rd_slice [of t]) (auto simp: same_used_def)
    with q2(2) r show ?thesis by (auto simp: repr_def)
  qed
  have "length m' = length m" using f by (simp add: framed_def)
  with r n ok lst tot hdr same show ?thesis by (auto simp: repr_def)
qed

lemma same_used_trans: "same_used bs m m' \<Longrightarrow> same_used bs m' m'' \<Longrightarrow> same_used bs m m''"
  unfolding same_used_def by fastforce

end
