(* ===== verification/FreeListAlloc.thy ===== *)
theory FreeListAlloc
  imports FreeListSpec
begin

text \<open>
  Creation of a block, the best-fit search, and allocation: the functions of \<open>FreeList\<close> on bytes
  implement the operations on tilings.
\<close>

section \<open>Creation\<close>

lemma create_repr:
  assumes "16 \<le> unat sz" and "length memory = unat sz"
  shows "\<exists>m. free_list_create memory sz = Inr m \<and> repr m [(unat sz - 8, False)]"
proof -
  have u: "unat (sz - 8) = unat sz - 8" using assms(1) by (simp add: unat_sub word_le_nat_alt)
  let ?m0 = "replicate (unat sz) (0 :: u8)"
  let ?m = "wr (wr (wr (wr ?m0 0 (sz - 8)) 4 8) 8 (sz - 8)) 12 0"
  have "free_list_create memory sz = Inr ?m"
    using assms by (simp add: free_list_create_def Let_def)
  moreover have "repr ?m [(unat sz - 8, False)]"
    using assms u unat_less_u32 [of sz] by (auto simp: repr_def big_def rd_wr_other)
  ultimately show ?thesis by blast
qed

section \<open>Best fit\<close>

text \<open>The search over the nodes: the best so far as offset, offset of the node before, size.\<close>

fun bf :: "nat \<Rightarrow> nat \<Rightarrow> (nat \<times> nat) list \<Rightarrow> (nat \<times> nat \<times> nat) option \<Rightarrow> (nat \<times> nat \<times> nat) option"
where
  "bf n prev [] best = best"
| "bf n prev ((p, s) # fs) best =
     bf n p fs (if n \<le> s \<and> (case best of None \<Rightarrow> True | Some (_, _, b) \<Rightarrow> s < b)
                then Some (p, prev, s) else best)"

fun prevof :: "nat \<Rightarrow> (nat \<times> nat) list \<Rightarrow> nat" where
  "prevof prev [] = prev"
| "prevof prev ((p, s) # fs) = prevof p fs"

lemma bf_spec:
  "case bf n prev fs best of
     None \<Rightarrow> best = None \<and> (\<forall>(q, t) \<in> set fs. t < n)
   | Some (p, pp, s) \<Rightarrow>
       (best = Some (p, pp, s) \<or> (\<exists>as cs. fs = as @ (p, s) # cs \<and> pp = prevof prev as \<and> n \<le> s)) \<and>
       (\<forall>(q, t) \<in> set fs. n \<le> t \<longrightarrow> s \<le> t) \<and> (\<forall>q qq b. best = Some (q, qq, b) \<longrightarrow> s \<le> b)"
proof (induction n prev fs best rule: bf.induct)
  case (1 n prev best)
  then show ?case by (cases best) auto
next
  case (2 n prev p s fs best)
  let ?best = "if n \<le> s \<and> (case best of None \<Rightarrow> True | Some (_, _, b) \<Rightarrow> s < b)
      then Some (p, prev, s) else best"
  show ?case
  proof (cases "bf n p fs ?best")
    case None
    with 2 show ?thesis by (auto split: if_splits)
  next
    case (Some r)
    obtain q qq t where r: "r = (q, qq, t)" by (cases r) auto
    from 2 Some r have IH: "?best = Some (q, qq, t) \<or>
        (\<exists>as cs. fs = as @ (q, t) # cs \<and> qq = prevof p as \<and> n \<le> t)"
      "\<forall>(x, y) \<in> set fs. n \<le> y \<longrightarrow> t \<le> y" "\<forall>x y b. ?best = Some (x, y, b) \<longrightarrow> t \<le> b"
      by auto
    have 1: "best = Some (q, qq, t) \<or>
        (\<exists>as cs. (p, s) # fs = as @ (q, t) # cs \<and> qq = prevof prev as \<and> n \<le> t)"
      using IH(1)
    proof
      assume "?best = Some (q, qq, t)"
      then show ?thesis by (auto split: if_splits intro: exI [of _ "[]"])
    next
      assume "\<exists>as cs. fs = as @ (q, t) # cs \<and> qq = prevof p as \<and> n \<le> t"
      then obtain as cs where "fs = as @ (q, t) # cs" "qq = prevof p as" "n \<le> t" by blast
      then show ?thesis by (intro disjI2 exI [of _ "(p, s) # as"] exI [of _ cs]) simp
    qed
    have "n \<le> s \<longrightarrow> t \<le> s" "\<forall>x y b. best = Some (x, y, b) \<longrightarrow> t \<le> b"
      using IH(3) by (auto split: if_splits option.splits)
    with 1 IH(2) Some r show ?thesis by auto
  qed
qed

lemma find_loop_bf:
  "lst m loc fs \<Longrightarrow> asc loc fs \<Longrightarrow> \<forall>(p, s) \<in> set fs. p + 8 \<le> length m \<Longrightarrow>
     found = (best \<noteq> None) \<Longrightarrow>
     \<forall>p pp s. best = Some (p, pp, s) \<longrightarrow> unat off = p \<and> unat poff = pp \<and> unat mn = s \<Longrightarrow>
     \<exists>off' poff'. find_loop m sz (rd m loc) prev off poff mn found =
       Some (Inr (bf (unat sz) (unat prev) fs best \<noteq> None, off', poff')) \<and>
       (\<forall>p pp s. bf (unat sz) (unat prev) fs best = Some (p, pp, s) \<longrightarrow> unat off' = p \<and> unat poff' = pp)"
proof (induction m loc fs arbitrary: found best off poff mn prev rule: lst.induct)
  case (1 m loc)
  then show ?case by (subst find_loop.simps) auto
next
  case (2 m loc p s fs)
  let ?node = "rd m loc"
  have node: "unat ?node = p" "?node \<noteq> 0" "unat (rd m p) = s" "p + 8 \<le> length m"
    using 2(2-4) by auto
  let ?better = "sz \<le> rd m p \<and> (rd m p < mn \<or> \<not> found)"
  let ?best = "if ?better then Some (p, unat prev, s) else best"
  have b: "?better \<longleftrightarrow> unat sz \<le> s \<and> (case best of None \<Rightarrow> True | Some (_, _, b) \<Rightarrow> s < b)"
    using 2(5,6) node(3) by (auto simp: word_le_nat_alt word_less_nat_alt split: option.splits)
  have step: "find_loop m sz ?node prev off poff mn found =
      find_loop m sz (rd m (p + 4)) ?node (if ?better then ?node else off) (if ?better then prev else poff)
        (if ?better then rd m p else mn) (found \<or> ?better)"
    using node by (subst find_loop.simps) (auto simp: add.commute)
  have "\<exists>off' poff'. find_loop m sz (rd m (p + 4)) ?node (if ?better then ?node else off)
        (if ?better then prev else poff) (if ?better then rd m p else mn) (found \<or> ?better) =
      Some (Inr (bf (unat sz) (unat ?node) fs ?best \<noteq> None, off', poff')) \<and>
      (\<forall>p pp s. bf (unat sz) (unat ?node) fs ?best = Some (p, pp, s) \<longrightarrow> unat off' = p \<and> unat poff' = pp)"
    using 2(2-6) node by (intro 2(1)) auto
  then show ?case unfolding step using b node(1) by simp
qed

lemma prevof_lastloc:
  "asc loc fs \<Longrightarrow> loc = (if prev = 0 then 4 else prev + 4) \<Longrightarrow>
     lastloc loc fs = (if prevof prev fs = 0 then 4 else prevof prev fs + 4)"
proof (induction loc fs arbitrary: prev rule: asc.induct)
  case (2 loc p s fs)
  then show ?case using 2(1) [of p] by simp
qed simp

text \<open>The bytes of a block can be addressed: no offset wraps around.\<close>

lemma repr_lst: "repr m bs \<Longrightarrow> lst m 4 (frees 8 bs) \<and> asc 4 (frees 8 bs) \<and>
    (\<forall>(p, s) \<in> set (frees 8 bs). p + 8 \<le> length m)"
  using frees_range [of _ _ 8 bs] asc_frees [of bs 4 8] by (fastforce simp: repr_def big_def)

lemma best_fit_repr:
  assumes "repr m bs"
  shows "(\<forall>(q, t) \<in> set (frees 8 bs). t < unat sz) \<and>
      (\<exists>x y. free_list_find_best_fit m sz = Some (Inr (False, x, y))) \<or>
    (\<exists>pre s post off poff. bs = pre @ (s, False) # post \<and> unat sz \<le> s \<and>
      (\<forall>(q, t) \<in> set (frees 8 bs). unat sz \<le> t \<longrightarrow> s \<le> t) \<and>
      free_list_find_best_fit m sz = Some (Inr (True, off, poff)) \<and>
      unat off = 8 + tot pre \<and> unat poff = prevof 0 (frees 8 pre))"
proof -
  have len: "8 \<le> length m" using assms by (simp add: repr_def)
  obtain off poff where fl: "find_loop m sz (rd m 4) 0 0 0 (rd m 0 + 1) False =
      Some (Inr (bf (unat sz) 0 (frees 8 bs) None \<noteq> None, off, poff))"
    "\<forall>p pp s. bf (unat sz) 0 (frees 8 bs) None = Some (p, pp, s) \<longrightarrow> unat off = p \<and> unat poff = pp"
    using find_loop_bf [of m 4 "frees 8 bs" False None 0 0 "rd m 0 + 1" sz 0] repr_lst [OF assms] by auto
  have fb: "free_list_find_best_fit m sz =
      Some (Inr (bf (unat sz) 0 (frees 8 bs) None \<noteq> None, off, poff))"
    using fl(1) len by (simp add: free_list_find_best_fit_def)
  show ?thesis
  proof (cases "bf (unat sz) 0 (frees 8 bs) None")
    case None
    with bf_spec [where n = "unat sz" and prev = 0 and fs = "frees 8 bs" and best = None] fb show ?thesis by auto
  next
    case (Some r)
    obtain p pp s where r: "r = (p, pp, s)" by (cases r) auto
    with bf_spec [where n = "unat sz" and prev = 0 and fs = "frees 8 bs" and best = None] Some obtain as cs where
      sp: "frees 8 bs = as @ (p, s) # cs" "pp = prevof 0 as" "unat sz \<le> s"
      "\<forall>(q, t) \<in> set (frees 8 bs). unat sz \<le> t \<longrightarrow> s \<le> t" by auto
    from frees_split [OF sp(1)] obtain pre post where
      "bs = pre @ (s, False) # post" "frees 8 pre = as" "p = 8 + tot pre" by blast
    with sp fl(2) fb Some r show ?thesis
      by (intro disjI2 exI [of _ pre] exI [of _ s] exI [of _ post] exI [of _ off] exI [of _ poff]) auto
  qed
qed

section \<open>Allocation\<close>

lemma set_link_wr:
  assumes "big pre" and "unat poff = prevof 0 (frees 8 pre)" and "tot pre + 8 \<le> length m"
  shows "set_link m poff v = Inr (wr m (lastloc 4 (frees 8 pre)) v)"
proof -
  have L: "lastloc 4 (frees 8 pre) = (if poff = 0 then 4 else unat poff + 4)"
    using prevof_lastloc [of 4 "frees 8 pre" 0] asc_frees [OF assms(1), of 4 8] assms(2)
    by (auto simp: unat_eq_zero)
  have "lastloc 4 (frees 8 pre) + 4 \<le> length m"
    using lastloc_frees [OF assms(1), of 4 8] assms(3) by simp
  with L show ?thesis by (auto simp: set_link_def split: if_splits)
qed

text \<open>The segment at \<open>p\<close> becomes used, with the rest kept free when it can hold a node.\<close>

definition taken :: "nat \<Rightarrow> nat \<Rightarrow> tiling" where
  "taken s n = (if 8 < s - n then [(n, True), (s - n, False)] else [(s, True)])"

lemma tot_taken: "n \<le> s \<Longrightarrow> tot (taken s n) = s"
  by (simp add: taken_def)

lemma merged_replace:
  "merged (pre @ mid @ post) \<Longrightarrow> mid \<noteq> [] \<Longrightarrow> mid' \<noteq> [] \<Longrightarrow> merged mid' \<Longrightarrow>
     snd (hd mid') \<or> \<not> snd (hd mid) \<Longrightarrow> snd (last mid') \<or> \<not> snd (last mid) \<Longrightarrow>
     merged (pre @ mid' @ post)"
  by (auto simp: merged_append)

lemma take_node_repr:
  assumes r: "repr m (pre @ (s, False) # post)" and n: "8 \<le> unat sz" "unat sz \<le> s"
    and off: "unat off = 8 + tot pre" and poff: "unat poff = prevof 0 (frees 8 pre)"
  shows "\<exists>m'. ebind (take_node m sz off poff) (\<lambda>(m, sz, offset).
        ebind (st32 m (unat offset) sz) (\<lambda>m. Inr (m, Some (offset + 4)))) = Inr (m', Some (off + 4)) \<and>
      repr m' (pre @ taken s (unat sz) @ post) \<and> same_used (pre @ (s, False) # post) m m'"
proof -
  define p where "p = 8 + tot pre"
  define L where "L = lastloc 4 (frees 8 pre)"
  have big: "big pre" "8 \<le> s" and len: "length m = p + s + tot post" "length m < 2 ^ 32"
    and lst: "lst m L ((p, s) # frees (p + s) post)" and mg: "merged (pre @ [(s, False)] @ post)"
    using r by (auto simp: repr_def p_def L_def frees_append lst_append)
  have Lp: "L + 4 \<le> p" unfolding L_def p_def using big by (intro lastloc_frees) auto
  have off': "unat off = p" using off by (simp add: p_def)
  have link: "set_link x poff v = Inr (wr x L v)" if "length x = length m" for x v
    unfolding L_def using that len by (intro set_link_wr [OF big(1) poff]) (simp add: p_def)
  have sz: "unat (rd m p) = s" using lst by simp
  have le: "sz \<le> rd m p" using n sz by (simp add: word_le_nat_alt)
  have rest: "unat (rd m p - sz) = s - unat sz" using le sz by (simp add: unat_sub)
  have upd: "repr m' (pre @ mid' @ post) \<and> same_used (pre @ (s, False) # post) m m'"
    if "tot mid' = s" "framed L p s m m'" "big mid'" "merged mid'" "mid' \<noteq> []"
      "lsg m' L (frees p mid')" "rd m' (lastloc L (frees p mid')) = rd m (p + 4)"
      "\<forall>(q, t) \<in> set (useds p mid'). unat (rd m' q) = t" for m' mid'
    by (rule repr_update [where mid = "[(s, False)]" and n = s and L = L and p = p])
      (use r that merged_replace [OF mg] in \<open>simp_all add: p_def L_def\<close>)
  show ?thesis
  proof (cases "8 < s - unat sz")
    case True
    define q where "q = p + unat sz"
    have q: "unat (off + sz) = q" "p + 8 \<le> q" "q + 8 \<le> p + s"
      using True n len off' by (auto simp: q_def unat_word_ariths)
    define m' where "m' = wr (wr (wr (wr m q (rd m p - sz)) (q + 4) (rd m (p + 4))) L (off + sz)) p sz"
    have fr: "framed L p s m m'" unfolding m'_def
      by (intro framed_wr framed_refl) (use Lp q len n True in \<open>auto simp: q_def\<close>)
    have "8 < rd m p - sz" using True rest by (simp add: word_less_nat_alt)
    then have "ebind (take_node m sz off poff) (\<lambda>(m, sz, offset).
        ebind (st32 m (unat offset) sz) (\<lambda>m. Inr (m, Some (offset + 4)))) = Inr (m', Some (off + 4))"
      using len q Lp off' link by (simp add: take_node_def Let_def m'_def rd_wr_other)
    moreover have "repr m' (pre @ taken s (unat sz) @ post) \<and> same_used (pre @ (s, False) # post) m m'"
    proof (rule upd)
      show "lsg m' L (frees p (taken s (unat sz)))"
        using True q Lp len rest by (simp add: taken_def m'_def rd_wr_other flip: q_def)
      show "rd m' (lastloc L (frees p (taken s (unat sz)))) = rd m (p + 4)"
        using True q Lp len by (simp add: taken_def m'_def rd_wr_other flip: q_def)
      show "\<forall>(q, t) \<in> set (useds p (taken s (unat sz))). unat (rd m' q) = t"
        using True q Lp len by (simp add: taken_def m'_def)
    qed (use fr n True in \<open>simp_all add: taken_def tot_taken\<close>)
    ultimately show ?thesis by blast
  next
    case False
    define m' where "m' = wr (wr m L (rd m (p + 4))) p (rd m p)"
    have fr: "framed L p s m m'" unfolding m'_def
      by (intro framed_wr framed_refl) (use Lp len n in auto)
    have "\<not> 8 < rd m p - sz" using False rest by (simp add: word_less_nat_alt)
    then have "ebind (take_node m sz off poff) (\<lambda>(m, sz, offset).
        ebind (st32 m (unat offset) sz) (\<lambda>m. Inr (m, Some (offset + 4)))) = Inr (m', Some (off + 4))"
      using len n big Lp off' link by (simp add: take_node_def Let_def m'_def)
    moreover have "repr m' (pre @ taken s (unat sz) @ post) \<and> same_used (pre @ (s, False) # post) m m'"
    proof (rule upd)
      show "rd m' (lastloc L (frees p (taken s (unat sz)))) = rd m (p + 4)"
        using False Lp len big by (simp add: taken_def m'_def rd_wr_other)
      show "\<forall>(q, t) \<in> set (useds p (taken s (unat sz))). unat (rd m' q) = t"
        using False Lp len sz big by (simp add: taken_def m'_def)
    qed (use fr n big False in \<open>simp_all add: taken_def tot_taken\<close>)
    ultimately show ?thesis by blast
  qed
qed

lemma real_size:
  "unat sz + 4 < 2 ^ 32 \<Longrightarrow> unat (free_list_real_size sz) = max 8 (unat sz + 4)"
  using unat_add_u32 [of sz 4] by (simp add: free_list_real_size_def Let_def word_less_nat_alt)

lemma real_size_ge: "8 \<le> unat (free_list_real_size sz)"
  by (auto simp: free_list_real_size_def Let_def word_less_nat_alt not_less)

text \<open>The outcome of an allocation of \<open>n\<close> bytes, header included, on a tiling.\<close>

definition allocates :: "nat \<Rightarrow> tiling \<Rightarrow> bytes \<Rightarrow> bytes \<Rightarrow> u32 option \<Rightarrow> bool" where
  "allocates n bs m m' res \<longleftrightarrow>
     (case res of
        None \<Rightarrow> m' = m \<and> (\<forall>(s, u) \<in> set bs. \<not> u \<longrightarrow> s < n)
      | Some off \<Rightarrow>
          \<exists>pre s post. bs = pre @ (s, False) # post \<and> n \<le> s \<and>
            (\<forall>(t, u) \<in> set bs. \<not> u \<longrightarrow> n \<le> t \<longrightarrow> s \<le> t) \<and> unat off = 12 + tot pre \<and>
            repr m' (pre @ taken s n @ post) \<and> same_used bs m m')"

lemma frees_sizes: "(s, False) \<in> set bs \<Longrightarrow> \<exists>p. (p, s) \<in> set (frees a bs)"
  by (induction a bs rule: frees.induct) auto

lemma allocate_repr:
  assumes "repr m bs"
  shows "\<exists>m' res. free_list_allocate m sz = Some (Inr (m', res)) \<and>
    allocates (unat (free_list_real_size sz)) bs m m' res"
proof -
  let ?n = "free_list_real_size sz"
  from best_fit_repr [OF assms, of ?n] show ?thesis
  proof (elim disjE conjE exE)
    fix x y assume a: "\<forall>(q, t) \<in> set (frees 8 bs). t < unat ?n"
      "free_list_find_best_fit m ?n = Some (Inr (False, x, y))"
    have "free_list_allocate m sz = Some (Inr (m, None))"
      using a(2) by (simp add: free_list_allocate_def free_list_allocate_inner_def)
    moreover have "allocates (unat ?n) bs m m None"
      using a(1) frees_sizes [of _ bs 8] by (fastforce simp: allocates_def)
    ultimately show ?thesis by blast
  next
    fix pre s post off poff
    assume a: "bs = pre @ (s, False) # post" "unat ?n \<le> s"
      "\<forall>(q, t) \<in> set (frees 8 bs). unat ?n \<le> t \<longrightarrow> s \<le> t"
      "free_list_find_best_fit m ?n = Some (Inr (True, off, poff))"
      "unat off = 8 + tot pre" "unat poff = prevof 0 (frees 8 pre)"
    from take_node_repr [OF assms [unfolded a(1)] real_size_ge a(2,5,6)]
    obtain m' where m': "ebind (take_node m ?n off poff) (\<lambda>(m, sz, offset).
        ebind (st32 m (unat offset) sz) (\<lambda>m. Inr (m, Some (offset + 4)))) = Inr (m', Some (off + 4))"
      "repr m' (pre @ taken s (unat ?n) @ post)" "same_used (pre @ (s, False) # post) m m'"
      by (elim exE conjE)
    have al: "free_list_allocate m sz = Some (Inr (m', Some (off + 4)))"
      using m'(1) a(4) by (cases "take_node m ?n off poff")
        (auto simp: free_list_allocate_def free_list_allocate_inner_def)
    have "unat (off + 4) = 12 + tot pre"
      using a(5) assms a(1,2) real_size_ge [of sz]
      by (subst unat_add_u32) (auto simp: repr_def)
    have "\<forall>(t, u) \<in> set bs. \<not> u \<longrightarrow> unat ?n \<le> t \<longrightarrow> s \<le> t"
      using a(3) frees_sizes [of _ bs 8] by fastforce
    have "allocates (unat ?n) bs m m' (Some (off + 4))"
      unfolding allocates_def option.case using a(1,2) m'(2,3) \<open>unat (off + 4) = 12 + tot pre\<close>
        \<open>\<forall>(t, u) \<in> set bs. \<not> u \<longrightarrow> unat ?n \<le> t \<longrightarrow> s \<le> t\<close>
      by (intro exI [of _ pre] exI [of _ s] exI [of _ post]) simp
    with al show ?thesis by blast
  qed
qed

end
