(* ===== verification/FreeListFree.thy ===== *)
theory FreeListFree
  imports FreeListAlloc
begin

text \<open>
  Freeing: the segment becomes free and is joined with the free segments that touch it. The other
  queries of the free list, and what follows for the sequence of an allocation and a free.
\<close>

section \<open>The walk to the place of the segment\<close>

definition in_range :: "bytes \<Rightarrow> (nat \<times> nat) list \<Rightarrow> bool" where
  "in_range m fs \<longleftrightarrow> (\<forall>(p, s) \<in> set fs. p + 8 \<le> length m \<and> p + s \<le> length m)"

lemma in_range_simps [simp]:
  "in_range m []" "in_range m ((p, s) # fs) \<longleftrightarrow> p + 8 \<le> length m \<and> p + s \<le> length m \<and> in_range m fs"
  "in_range m (xs @ ys) \<longleftrightarrow> in_range m xs \<and> in_range m ys"
  by (auto simp: in_range_def)

lemma free_loop_skip:
  "lst m loc (xs @ ys) \<Longrightarrow> asc loc (xs @ ys) \<Longrightarrow> in_range m (xs @ ys) \<Longrightarrow> ys \<noteq> [] \<Longrightarrow>
     length m < 2 ^ 32 \<Longrightarrow> \<forall>(p, s) \<in> set xs. p + s < unat off \<Longrightarrow>
     \<exists>prev'. unat prev' = prevof (unat prev) xs \<and>
       free_loop m off sz (rd m loc) prev = free_loop m off sz (rd m (lastloc loc xs)) prev'"
proof (induction xs arbitrary: loc prev)
  case (Cons a xs)
  obtain p s where a: "a = (p, s)" by (cases a) auto
  let ?node = "rd m loc"
  have node: "unat ?node = p" "?node \<noteq> 0" "unat (rd m p) = s" "p + 8 \<le> length m" "p + s \<le> length m"
    "p + s < unat off"
    using Cons.prems a by auto
  have sum: "unat (?node + rd m p) = p + s" using node Cons.prems(5) by (subst unat_add_u32) auto
  have "rd m (p + 4) \<noteq> 0"
  proof (cases "xs @ ys")
    case Nil
    with Cons.prems(4) show ?thesis by simp
  next
    case (Cons b zs)
    with Cons.prems(1,2) a show ?thesis by (cases b) auto
  qed
  then have "free_loop m off sz ?node prev = free_loop m off sz (rd m (p + 4)) ?node"
    using node sum by (subst free_loop.simps) (auto simp: add.commute word_less_nat_alt)
  moreover have "\<exists>prev'. unat prev' = prevof (unat ?node) xs \<and>
      free_loop m off sz (rd m (p + 4)) ?node = free_loop m off sz (rd m (lastloc (p + 4) xs)) prev'"
    using Cons.prems a by (intro Cons.IH) auto
  ultimately show ?case using a node(1) by auto
qed auto

section \<open>The tiling after a free\<close>

fun join_next :: "nat \<Rightarrow> tiling \<Rightarrow> tiling" where
  "join_next s ((b, False) # post) = (s + b, False) # post"
| "join_next s post = (s, False) # post"

definition freed :: "tiling \<Rightarrow> nat \<Rightarrow> tiling \<Rightarrow> tiling" where
  "freed pre s post =
     (if pre \<noteq> [] \<and> \<not> snd (last pre) then butlast pre @ join_next (fst (last pre) + s) post
      else pre @ join_next s post)"

lemma merged_Cons: "merged ((s, u) # bs) \<longleftrightarrow> merged bs \<and> (bs = [] \<or> u \<or> snd (hd bs))"
  by (cases bs) auto

lemma frees_first:
  assumes "frees a bs = (q, t) # cs" and "bs \<noteq> []" and "snd (hd bs)" and "big bs"
  shows "a < q"
proof -
  obtain s bs' where bs: "bs = (s, True) # bs'" using assms(2,3) by (cases bs) auto
  then have "(q, t) \<in> set (frees (a + s) bs')" using assms(1) by simp
  then have "a + s \<le> q" using frees_range by blast
  with assms(4) bs show ?thesis by simp
qed

text \<open>A used segment, its surroundings, and the facts every case of the proof uses.\<close>

lemma repr_at:
  assumes r: "repr m (pre @ mid @ post)" and p: "p = 8 + tot pre" and L: "L = lastloc 4 (frees 8 pre)"
    and n: "n = tot mid"
  shows "big pre \<and> big mid \<and> big post \<and> merged (pre @ mid @ post) \<and> length m = p + n + tot post \<and>
    length m < 2 ^ 32 \<and> L + 4 \<le> p \<and> 4 \<le> L \<and> lsg m 4 (frees 8 pre) \<and>
    lst m L (frees p mid @ frees (p + n) post) \<and>
    asc 4 (frees 8 pre) \<and> asc L (frees p mid @ frees (p + n) post) \<and>
    in_range m (frees 8 pre) \<and> in_range m (frees p mid @ frees (p + n) post)"
proof -
  have fr: "frees 8 (pre @ mid @ post) = frees 8 pre @ frees p mid @ frees (p + n) post"
    by (simp add: frees_append p n add.assoc)
  have big: "big pre" "big mid" "big post" and len: "length m = p + n + tot post"
    using r p n by (auto simp: repr_def)
  have "asc 4 (frees 8 (pre @ mid @ post))" using big by (intro asc_frees) simp_all
  then have asc: "asc 4 (frees 8 pre)" "asc L (frees p mid @ frees (p + n) post)"
    unfolding fr asc_append L by simp_all
  have "in_range m (frees 8 (pre @ mid @ post))"
    unfolding in_range_def
  proof (intro ballI, clarify)
    fix q t assume "(q, t) \<in> set (frees 8 (pre @ mid @ post))"
    from frees_range [OF this] have "q + t \<le> 8 + tot (pre @ mid @ post)" "(t, False) \<in> set (pre @ mid @ post)"
      by auto
    moreover have "8 \<le> t" if "(t, False) \<in> set (pre @ mid @ post)" using that r unfolding repr_def big_def by fastforce
    ultimately show "q + 8 \<le> length m \<and> q + t \<le> length m" using r by (auto simp: repr_def)
  qed
  then have "in_range m (frees 8 pre)" "in_range m (frees p mid @ frees (p + n) post)"
    unfolding fr by simp_all
  moreover have "L + 4 \<le> p" unfolding L p using big by (intro lastloc_frees) auto
  moreover have "4 \<le> L" unfolding L using asc(1) by (rule lastloc_ge)
  moreover have "lsg m 4 (frees 8 pre) \<and> lst m L (frees p mid @ frees (p + n) post)"
    using r unfolding repr_def fr lst_append L by auto
  ultimately show ?thesis using big len asc r by (auto simp: repr_def)
qed

section \<open>Joining with the segment before\<close>

lemma free_after_repr:
  assumes r: "repr m (pre @ (a, False) # (s, True) # post)"
    and node: "unat node = 8 + tot pre" and sz: "unat sz = s"
  shows "\<exists>m'. free_after m node sz = Inr m' \<and> repr m' (pre @ join_next (a + s) post) \<and>
    same_used (pre @ (a + s, False) # post) m m'"
proof -
  define p where "p = 8 + tot pre"
  define L where "L = lastloc 4 (frees 8 pre)"
  have r': "repr m (pre @ [(a, False), (s, True)] @ post)" using r by simp
  have mg: "merged (pre @ [(a, False), (s, True)] @ post)"
    and big: "big pre" "8 \<le> a" "8 \<le> s" "big post"
    and len: "length m = p + a + s + tot post" "length m < 2 ^ 32" and Lp: "L + 4 \<le> p"
    and lst: "lst m L ((p, a) # frees (p + (a + s)) post)"
    and rng: "in_range m (frees (p + (a + s)) post)"
    using repr_at [OF r' p_def L_def refl] by (simp_all add: add.assoc)
  have node': "unat node = p" using node by (simp add: p_def)
  have na: "unat (rd m p) = a" using lst by simp
  have sum: "unat (rd m p + sz) = a + s" "unat (node + (rd m p + sz)) = p + (a + s)"
    using na sz node' len by (subst unat_add_u32; simp)+
  let ?m1 = "wr m p (rd m p + sz)"
  have nx: "rd ?m1 (p + 4) = rd m (p + 4)" using big len by (simp add: rd_wr_other)
  show ?thesis
  proof (cases "\<exists>b post'. post = (b, False) # post'")
    case True
    then obtain b post' where post: "post = (b, False) # post'" by blast
    define q where "q = p + (a + s)"
    have l2: "unat (rd m (p + 4)) = q" "unat (rd m q) = b" "q + 8 \<le> length m" "q + b \<le> length m" "8 \<le> b"
      using lst rng post big by (simp_all add: q_def)
    have eq: "rd m (p + 4) = node + (rd m p + sz)" using l2(1) sum(2) by (simp add: word_unat_eq_iff q_def)
    define m' where "m' = wr (wr m p (rd m p + sz)) p (rd m p + sz + rd m q)"
    define m'' where "m'' = wr m' (p + 4) (rd m (q + 4))"
    have pq: "p + 16 \<le> q" using big by (simp add: q_def)
    have rq: "rd ?m1 q = rd m q" "rd m' (q + 4) = rd m (q + 4)" using pq l2(3) len by (simp_all add: m'_def rd_wr_other)
    have "free_after m node sz = Inr m''"
      using node' nx l2 len pq eq rq sum by (simp add: free_after_def m'_def m''_def)
    moreover have sum3: "unat (rd m p + sz + rd m q) = a + s + b"
      using sum(1) l2 len by (subst unat_add_u32) (auto simp: q_def)
    have "repr m'' (pre @ [(a + s + b, False)] @ post') \<and> same_used (pre @ (a + s + b, False) # post') m m''"
    proof (rule repr_update [OF _ p_def L_def])
      show "repr m (pre @ [(a, False), (s, True), (b, False)] @ post')" using r post by simp
      show "framed L p (a + s + b) m m''" unfolding m'_def m''_def
        by (intro framed_wr framed_refl) (use len big in auto)
      show "merged (pre @ [(a + s + b, False)] @ post')"
        using mg post by (auto simp: merged_append merged_Cons)
      show "lsg m'' L (frees p [(a + s + b, False)])"
        using lst sum3 len big Lp by (simp add: m'_def m''_def rd_wr_other)
      show "rd m'' (lastloc L (frees p [(a + s + b, False)])) =
          rd m (lastloc L (frees p [(a, False), (s, True), (b, False)]))"
        using len big by (simp add: m'_def m''_def q_def add.assoc)
    qed (use big post in \<open>simp_all add: add.assoc\<close>)
    ultimately show ?thesis
      unfolding post by (intro exI [of _ m'']) (simp add: same_used_def useds_append add.assoc)
  next
    case False
    then have jn: "join_next (a + s) post = (a + s, False) # post"
      by (cases "(a + s, post)" rule: join_next.cases) auto
    have "rd m (p + 4) \<noteq> node + (rd m p + sz)"
    proof (cases "frees (p + (a + s)) post")
      case Nil
      then have "rd m (p + 4) = 0" using lst by simp
      then show ?thesis using sum(2) big by (metis add_is_0 not_numeral_le_zero unat_0)
    next
      case (Cons c cs)
      obtain q t where c: "c = (q, t)" by (cases c) auto
      have "post \<noteq> []" "snd (hd post)" using Cons False by (cases post; auto)+
      then have "p + (a + s) < q" using frees_first Cons c big(4) by blast
      moreover have "unat (rd m (p + 4)) = q" using lst Cons c by simp
      ultimately show ?thesis using sum(2) by auto
    qed
    then have "free_after m node sz = Inr ?m1" using node' nx len big by (simp add: free_after_def)
    moreover have "repr ?m1 (pre @ [(a + s, False)] @ post) \<and> same_used (pre @ (a + s, False) # post) m ?m1"
    proof (rule repr_update [OF r' p_def L_def])
      show "framed L p (a + s) m ?m1" by (intro framed_wr framed_refl) (use len big in auto)
      show "merged (pre @ [(a + s, False)] @ post)"
        using mg False by (cases post) (auto simp: merged_append merged_Cons)
      show "lsg ?m1 L (frees p [(a + s, False)])"
        using lst sum(1) len big Lp by (simp add: rd_wr_other)
      show "rd ?m1 (lastloc L (frees p [(a + s, False)])) = rd m (lastloc L (frees p [(a, False), (s, True)]))"
        using nx by simp
    qed (use big in simp_all)
    ultimately show ?thesis using jn by simp
  qed
qed

section \<open>A new node\<close>

text \<open>The segment before is used, or there is none.\<close>

definition no_free_before :: "tiling \<Rightarrow> bool" where
  "no_free_before pre \<longleftrightarrow> pre = [] \<or> snd (last pre)"

lemma frees_before:
  assumes "no_free_before pre" and "big pre" and "(q, t) \<in> set (frees a pre)"
  shows "q + t < a + tot pre"
proof -
  have "pre \<noteq> []" using assms(3) by auto
  then obtain pre' s u where pre: "pre = pre' @ [(s, u)]" by (cases pre rule: rev_cases) auto
  then have u: "u" using assms(1) by (simp add: no_free_before_def)
  then have "(q, t) \<in> set (frees a pre')" using assms(3) pre by (simp add: frees_append)
  then have "q + t \<le> a + tot pre'" using frees_range by blast
  then show ?thesis using assms(2) pre by simp
qed

lemma prevof_snoc: "prevof x (xs @ [(q, t)]) = q"
  by (induction x xs rule: prevof.induct) auto

lemma lastloc_snoc: "lastloc loc (xs @ [(q, t)]) = q + 4"
  by (simp add: lastloc_append)

text \<open>The node before the new one ends before it, so it is not joined with it.\<close>

lemma no_join_prev:
  assumes "no_free_before pre" and "big pre" and "lsg m 4 (frees 8 pre)" and "in_range m (frees 8 pre)"
    and "unat poff = prevof 0 (frees 8 pre)" and "unat off = 8 + tot pre" and "poff \<noteq> 0"
    and "length m < 2 ^ 32" and "\<And>j. j + 4 \<le> lastloc 4 (frees 8 pre) \<Longrightarrow> rd m' j = rd m j"
  shows "poff + rd m' (unat poff) \<noteq> off \<and> unat poff + 4 \<le> length m"
proof -
  have "frees 8 pre \<noteq> []" using assms(5,7) by (auto simp: unat_eq_zero)
  then obtain xs q t where xs: "frees 8 pre = xs @ [(q, t)]" by (cases "frees 8 pre" rule: rev_cases) auto
  have q: "unat poff = q" "rd m' q = rd m q" "unat (rd m q) = t" "q + t \<le> length m" "q + 8 \<le> length m"
    using assms(3,4,5,9) xs by (auto simp: prevof_snoc lastloc_snoc lsg_append)
  have "q + t < 8 + tot pre" using frees_before [OF assms(1,2)] xs by auto
  moreover have "unat (poff + rd m q) = q + t" using q assms(8) by (subst unat_add_u32) auto
  ultimately show ?thesis using q assms(6) by auto
qed

lemma free_before_repr:
  assumes r: "repr m (pre @ (s, True) # post)" and nf: "no_free_before pre"
    and off: "unat off = 8 + tot pre" and sz: "unat sz = s"
    and poff: "unat poff = prevof 0 (frees 8 pre)"
    and node: "node = rd m (lastloc 4 (frees 8 pre))" "node \<noteq> 0"
  shows "\<exists>m'. free_before m node poff off sz = Inr m' \<and> repr m' (pre @ join_next s post) \<and>
    same_used (pre @ (s, False) # post) m m'"
proof -
  define p where "p = 8 + tot pre"
  define L where "L = lastloc 4 (frees 8 pre)"
  have r': "repr m (pre @ [(s, True)] @ post)" using r by simp
  have mg: "merged (pre @ [(s, True)] @ post)" and big: "big pre" "8 \<le> s" "big post"
    and len: "length m = p + s + tot post" "length m < 2 ^ 32" and Lp: "L + 4 \<le> p"
    and pl: "lsg m 4 (frees 8 pre)" "in_range m (frees 8 pre)"
    and lst: "lst m L (frees (p + s) post)" and rng: "in_range m (frees (p + s) post)"
    using repr_at [OF r' p_def L_def refl] by simp_all
  have off': "unat off = p" using off by (simp add: p_def)
  have link: "set_link x poff v = Inr (wr x L v)" if "length x = length m" for x v
    unfolding L_def using that len big by (intro set_link_wr [OF big(1) poff]) (simp add: p_def)
  have sum: "unat (off + sz) = p + s" using off' sz len by (subst unat_add_u32) auto
  define m3 where "m3 = wr (wr (wr m p sz) (p + 4) node) L off"
  have l3: "length m3 = length m" using len Lp big by (simp add: m3_def)
  have r3: "rd m3 (p + 4) = node" "rd m3 p = sz" "rd m3 L = off"
    using Lp len big by (simp_all add: m3_def rd_wr_other)
  have f3: "framed L p s m m3" unfolding m3_def
    by (intro framed_wr framed_refl) (use Lp len big in auto)
  have prev: "(if poff = 0 then Inr x else ebind (ld32 x (unat poff)) (\<lambda>psize.
      if poff + psize = off then
        ebind (ld32 x (unat off + 4)) (\<lambda>nnext.
        ebind (ld32 x (unat off)) (\<lambda>nsize.
        ebind (st32 x (unat poff) (psize + nsize)) (\<lambda>m.
        ebind (ld32 m (unat nnext + 4)) (\<lambda>nn.
        st32 m (unat poff + 4) nn))))
      else Inr x)) = Inr x"
    if "framed L p n m x" for x n
  proof (cases "poff = 0")
    case False
    have "\<And>j. j + 4 \<le> lastloc 4 (frees 8 pre) \<Longrightarrow> rd x j = rd m j"
      using Lp by (intro framed_rd [OF that]) (auto simp: L_def)
    from no_join_prev [OF nf big(1) pl poff off False len(2) this] that False
    show ?thesis by (simp add: framed_def)
  qed simp
  show ?thesis
  proof (cases "\<exists>b post'. post = (b, False) # post'")
    case True
    then obtain b post' where post: "post = (b, False) # post'" by blast
    define q where "q = p + s"
    have l2: "unat node = q" "unat (rd m q) = b" "q + 8 \<le> length m" "q + b \<le> length m" "8 \<le> b"
      using lst rng post big node(1) by (simp_all add: q_def L_def)
    have eq: "off + sz = node" using l2(1) sum by (simp add: word_unat_eq_iff q_def)
    define m4 where "m4 = wr m3 p (sz + rd m q)"
    define m5 where "m5 = wr m4 (p + 4) (rd m (q + 4))"
    have l4: "length m4 = length m" using l3 len big by (simp add: m4_def)
    have r4: "rd m3 q = rd m q" "rd m4 (q + 4) = rd m (q + 4)"
      using framed_rd [OF f3, of q] framed_rd [OF f3, of "q + 4"] Lp len l3 big
      by (simp_all add: m4_def q_def rd_wr_other)
    have f5: "framed L p (s + b) m m5" unfolding m3_def m4_def m5_def
      by (intro framed_wr framed_refl) (use Lp len big in auto)
    have "free_before m node poff off sz = Inr m5"
      using prev [OF f5] off' len big l2 r3 r4 l3 l4 link eq node(2)
      unfolding free_before_def by (simp add: m4_def [symmetric] m5_def [symmetric] m3_def [symmetric])
    moreover have s2: "unat (sz + rd m q) = s + b"
      using sz l2 len by (subst unat_add_u32) (auto simp: q_def)
    have "repr m5 (pre @ [(s + b, False)] @ post') \<and> same_used (pre @ (s + b, False) # post') m m5"
    proof (rule repr_update [OF _ p_def L_def _ _ f5])
      show "repr m (pre @ [(s, True), (b, False)] @ post')" using r post by simp
      show "merged (pre @ [(s + b, False)] @ post')"
        using mg nf post by (auto simp: merged_append merged_Cons no_free_before_def)
      show "lsg m5 L (frees p [(s + b, False)])"
        using r3 s2 l3 l4 len big Lp off' by (simp add: m5_def m4_def rd_wr_other)
      show "rd m5 (lastloc L (frees p [(s + b, False)])) =
          rd m (lastloc L (frees p [(s, True), (b, False)]))"
        using l4 len big by (simp add: m5_def q_def)
    qed (use big post in simp_all)
    ultimately show ?thesis
      unfolding post by (intro exI [of _ m5]) (simp add: same_used_def useds_append add.assoc)
  next
    case False
    then have jn: "join_next s post = (s, False) # post"
      by (cases "(s, post)" rule: join_next.cases) auto
    have "off + sz \<noteq> node"
    proof (cases "frees (p + s) post")
      case Nil
      with lst node show ?thesis by (simp add: L_def)
    next
      case (Cons c cs)
      obtain q t where c: "c = (q, t)" by (cases c) auto
      have "post \<noteq> []" "snd (hd post)" using Cons False by (cases post; auto)+
      then have "p + s < q" using frees_first Cons c big(3) by blast
      moreover have "unat node = q" using lst Cons c node(1) by (simp add: L_def)
      ultimately show ?thesis using sum by auto
    qed
    then have "free_before m node poff off sz = Inr m3"
      using prev [OF f3] off' len big r3 l3 link unfolding free_before_def by (simp add: m3_def [symmetric])
    moreover have "repr m3 (pre @ [(s, False)] @ post) \<and> same_used (pre @ (s, False) # post) m m3"
    proof (rule repr_update [OF r' p_def L_def _ _ f3])
      show "merged (pre @ [(s, False)] @ post)"
        using mg nf False by (cases post) (auto simp: merged_append merged_Cons no_free_before_def)
      show "lsg m3 L (frees p [(s, False)])" using r3 off' sz by simp
      show "rd m3 (lastloc L (frees p [(s, False)])) = rd m (lastloc L (frees p [(s, True)]))"
        using r3 node(1) by (simp add: L_def)
    qed (use big in simp_all)
    ultimately show ?thesis using jn by simp
  qed
qed

text \<open>A new node at the end of the list, or in an empty list.\<close>

lemma free_end_repr:
  assumes r: "repr m (pre @ (s, True) # post)" and nf: "no_free_before pre"
    and off: "unat off = 8 + tot pre" and sz: "unat sz = s"
    and last: "rd m (lastloc 4 (frees 8 pre)) = 0"
    and m': "m' = wr (wr (wr m (unat off) sz) (unat off + 4) 0) (lastloc 4 (frees 8 pre)) off \<or>
      m' = wr (wr (wr m (lastloc 4 (frees 8 pre)) off) (unat off) sz) (unat off + 4) 0"
  shows "repr m' (pre @ join_next s post) \<and> same_used (pre @ (s, False) # post) m m'"
proof -
  define p where "p = 8 + tot pre"
  define L where "L = lastloc 4 (frees 8 pre)"
  have r': "repr m (pre @ [(s, True)] @ post)" using r by simp
  have mg: "merged (pre @ [(s, True)] @ post)" and big: "big pre" "8 \<le> s" "big post"
    and len: "length m = p + s + tot post" "length m < 2 ^ 32" and Lp: "L + 4 \<le> p"
    and lst: "lst m L (frees (p + s) post)" and asc: "asc L (frees (p + s) post)"
    using repr_at [OF r' p_def L_def refl] by simp_all
  have off': "unat off = p" using off by (simp add: p_def)
  have nopost: "\<not> (\<exists>b post'. post = (b, False) # post')"
    using lst asc last by (auto simp: L_def)
  then have jn: "join_next s post = (s, False) # post"
    by (cases "(s, post)" rule: join_next.cases) auto
  have "repr m' (pre @ [(s, False)] @ post) \<and> same_used (pre @ (s, False) # post) m m'"
  proof (rule repr_update [OF r' p_def L_def])
    show "framed L p s m m'" using m' unfolding off' L_def [symmetric]
      by (elim disjE; simp only:) (intro framed_wr framed_refl; use Lp len big in simp)+
    show "merged (pre @ [(s, False)] @ post)"
      using mg nf nopost by (cases post) (auto simp: merged_append merged_Cons no_free_before_def)
    show "lsg m' L (frees p [(s, False)])" "rd m' (lastloc L (frees p [(s, False)])) =
        rd m (lastloc L (frees p [(s, True)]))"
      using m' last sz Lp len big unfolding off' L_def [symmetric] by (auto simp: rd_wr_other off')
  qed (use big in simp_all)
  with jn show ?thesis by simp
qed

section \<open>Free\<close>

lemma rd_link_first: "lst m loc ((q, t) # cs) \<Longrightarrow> asc loc ((q, t) # cs) \<Longrightarrow> unat (rd m loc) = q \<and> rd m loc \<noteq> 0"
  by auto

lemma free_inner_repr:
  assumes r: "repr m (pre @ (s, True) # post)" and off: "unat off = 8 + tot pre" and sz: "unat sz = s"
  shows "\<exists>m'. free_list_free_inner m off sz = Some (Inr (m', True)) \<and>
    repr m' (freed pre s post) \<and> same_used (pre @ (s, False) # post) m m'"
proof -
  define p where "p = 8 + tot pre"
  define L where "L = lastloc 4 (frees 8 pre)"
  have r': "repr m (pre @ [(s, True)] @ post)" using r by simp
  have big: "big pre" "8 \<le> s" "big post" and len: "length m = p + s + tot post" "length m < 2 ^ 32"
    and Lp: "L + 4 \<le> p" "4 \<le> L"
    and pl: "lsg m 4 (frees 8 pre)" "in_range m (frees 8 pre)" "asc 4 (frees 8 pre)"
    and lst: "lst m L (frees (p + s) post)" and asc: "asc L (frees (p + s) post)"
    and rng: "in_range m (frees (p + s) post)"
    using repr_at [OF r' p_def L_def refl] by simp_all
  let ?as = "frees 8 pre" and ?cs = "frees (p + s) post"
  have off': "unat off = p" using off by (simp add: p_def)
  have all: "lst m 4 (?as @ ?cs)" "asc 4 (?as @ ?cs)" "in_range m (?as @ ?cs)"
    using pl lst asc rng by (simp_all add: lst_append asc_append L_def)
  have h4: "4 + 4 \<le> length m" using len p_def by simp
  show ?thesis
  proof (cases "no_free_before pre")
    case False
    then obtain pre1 a where pre: "pre = pre1 @ [(a, False)]"
      by (cases pre rule: rev_cases) (auto simp: no_free_before_def)
    define p1 where "p1 = 8 + tot pre1"
    have as: "?as = frees 8 pre1 @ [(p1, a)]" by (simp add: pre frees_append p1_def)
    have p1: "p = p1 + a" "8 \<le> a" using big by (simp_all add: pre p_def p1_def)
    have skip: "\<forall>(q, t) \<in> set (frees 8 pre1). q + t < unat off"
      using frees_range [of _ _ 8 pre1] off' p1 p1_def by fastforce
    have all': "lst m 4 (frees 8 pre1 @ (p1, a) # ?cs)" "asc 4 (frees 8 pre1 @ (p1, a) # ?cs)"
      "in_range m (frees 8 pre1 @ (p1, a) # ?cs)"
      using all by (simp_all add: as)
    from free_loop_skip [OF all' _ len(2) skip, of 0 sz] obtain prev where
      l: "free_loop m off sz (rd m 4) 0 = free_loop m off sz (rd m (lastloc 4 (frees 8 pre1))) prev"
      by auto
    let ?node = "rd m (lastloc 4 (frees 8 pre1))"
    have node: "unat ?node = p1" "?node \<noteq> 0" "unat (rd m p1) = a" "p1 + 8 \<le> length m"
      using all' by (auto simp: lst_append p1_def)
    have "unat (?node + rd m p1) = p" using node p1 len by (subst unat_add_u32) auto
    then have touch: "?node + rd m p1 = off" using off' by (simp add: word_unat_eq_iff)
    have r2: "repr m (pre1 @ (a, False) # (s, True) # post)" using r pre by simp
    from free_after_repr [OF r2 _ sz, of ?node] node(1) p1_def obtain m' where
      m': "free_after m ?node sz = Inr m'" "repr m' (pre1 @ join_next (a + s) post)"
        "same_used (pre1 @ (a + s, False) # post) m m'" by auto
    have "free_loop m off sz ?node prev = Some (Inr (m', True))"
      using node touch m'(1) by (subst free_loop.simps) (simp add: add.commute)
    moreover have "rd m 4 \<noteq> 0"
    proof (cases "frees 8 pre1 @ (p1, a) # ?cs")
      case (Cons b bs)
      with all'(1,2) show ?thesis using rd_link_first [of m 4 "fst b" "snd b" bs] by simp
    qed simp
    ultimately have "free_list_free_inner m off sz = Some (Inr (m', True))"
      using h4 l by (simp add: free_list_free_inner_def)
    moreover have "freed pre s post = pre1 @ join_next (a + s) post" by (simp add: freed_def pre)
    moreover have "same_used (pre @ (s, False) # post) m m'"
      using m'(3) by (simp add: same_used_def useds_append pre add.assoc)
    ultimately show ?thesis using m'(2) by auto
  next
    case True
    have fr: "freed pre s post = pre @ join_next s post" using True by (auto simp: freed_def no_free_before_def)
    have before: "\<forall>(q, t) \<in> set ?as. q + t < unat off"
      using frees_before [OF True big(1)] off' p_def by fastforce
    show ?thesis
    proof (cases ?cs)
      case (Cons c cs)
      obtain q t where c: "c = (q, t)" by (cases c) auto
      from free_loop_skip [OF all _ len(2) before, of 0 sz] Cons obtain prev where
        l: "free_loop m off sz (rd m 4) 0 = free_loop m off sz (rd m L) prev" "unat prev = prevof 0 ?as"
        by (auto simp: L_def)
      have node: "unat (rd m L) = q" "rd m L \<noteq> 0" "unat (rd m q) = t" "q + 8 \<le> length m" "q + t \<le> length m"
        using lst asc rng Cons c by auto
      have "p + s \<le> q" using frees_range [of q t "p + s" post] Cons c by simp
      moreover have "unat (rd m L + rd m q) = q + t" using node len by (subst unat_add_u32) auto
      ultimately have cmp: "rd m L + rd m q \<noteq> off" "off < rd m L"
        using off' node big by (auto simp: word_less_nat_alt)
      from free_before_repr [OF r True off sz l(2) L_def [THEN arg_cong [of _ _ "rd m"]] node(2)] obtain m' where
        m': "free_before m (rd m L) prev off sz = Inr m'" "repr m' (pre @ join_next s post)"
          "same_used (pre @ (s, False) # post) m m'" by blast
      have "free_loop m off sz (rd m L) prev = Some (Inr (m', True))"
        using node cmp m'(1) by (subst free_loop.simps) (simp add: add.commute)
      moreover have "rd m 4 \<noteq> 0"
      proof (cases "?as @ ?cs")
        case (Cons b bs)
        with all(1,2) show ?thesis using rd_link_first [of m 4 "fst b" "snd b" bs] by simp
      qed (use Cons in simp)
      ultimately show ?thesis using h4 l m' fr by (simp add: free_list_free_inner_def)
    next
      case Nil
      then have z: "rd m L = 0" using lst by simp
      show ?thesis
      proof (cases ?as rule: rev_cases)
        case Nil2: Nil
        then have L4: "L = 4" by (simp add: L_def)
        let ?m = "wr (wr (wr m L off) (unat off) sz) (unat off + 4) 0"
        have "free_list_free_inner m off sz = Some (Inr (?m, True))"
          using h4 z L4 off' len big by (simp add: free_list_free_inner_def)
        with free_end_repr [OF r True off sz, of ?m] z fr show ?thesis by (simp add: L_def)
      next
        case (snoc xs c)
        obtain q t where c: "c = (q, t)" by (cases c) auto
        have all': "lst m 4 (xs @ [(q, t)])" "asc 4 (xs @ [(q, t)])" "in_range m (xs @ [(q, t)])"
          using all Nil snoc c by simp_all
        have before': "\<forall>(q, t) \<in> set xs. q + t < unat off" "q + t < unat off" using before snoc c by auto
        from free_loop_skip [OF all' _ len(2) before'(1), of 0 sz] obtain prev where
          l: "free_loop m off sz (rd m 4) 0 = free_loop m off sz (rd m (lastloc 4 xs)) prev" by auto
        let ?node = "rd m (lastloc 4 xs)"
        have node: "unat ?node = q" "?node \<noteq> 0" "unat (rd m q) = t" "q + 8 \<le> length m" "q + t \<le> length m"
          "rd m (q + 4) = 0" "4 \<le> lastloc 4 xs"
          using all' lastloc_ge [of 4 xs] by (auto simp: lst_append asc_append)
        have Lq: "L = q + 4" by (simp add: L_def snoc c lastloc_snoc)
        have "unat (?node + rd m q) = q + t" using node len by (subst unat_add_u32) auto
        then have cmp: "?node + rd m q \<noteq> off" "\<not> off < ?node" "?node + rd m q < off"
          using before' node by (auto simp: word_less_nat_alt)
        let ?m = "wr (wr (wr m (unat off) sz) (unat off + 4) 0) L off"
        have "free_last m ?node off sz = Inr ?m"
          using node off' len big Lq Lp by (simp add: free_last_def add.commute)
        then have "free_loop m off sz ?node prev = Some (Inr (?m, True))"
          using node cmp by (subst free_loop.simps) (simp add: add.commute)
        moreover have "rd m 4 \<noteq> 0"
        proof (cases "xs @ [(q, t)]")
          case (Cons b bs)
          with all'(1,2) show ?thesis using rd_link_first [of m 4 "fst b" "snd b" bs] by simp
        qed simp
        ultimately have "free_list_free_inner m off sz = Some (Inr (?m, True))"
          using h4 l by (simp add: free_list_free_inner_def)
        with free_end_repr [OF r True off sz, of ?m] z fr show ?thesis by (simp add: L_def)
      qed
    qed
  qed
qed

lemma free_repr:
  assumes "repr m (pre @ (s, True) # post)" and "unat off = 12 + tot pre"
  shows "\<exists>m'. free_list_free m off = Some (Inr (m', True)) \<and> repr m' (freed pre s post) \<and>
    same_used (pre @ (s, False) # post) m m'"
proof -
  have u: "unat (off - 4) = 8 + tot pre"
    using assms(2) by (subst unat_sub) (simp_all add: word_le_nat_alt)
  have "(8 + tot pre, s) \<in> set (useds 8 (pre @ (s, True) # post))" by (simp add: useds_append)
  then have "unat (rd m (8 + tot pre)) = s" using assms(1) by (fastforce simp: repr_def)
  with free_inner_repr [OF assms(1) u this] u assms(1) show ?thesis
    by (simp add: free_list_free_def repr_def)
qed

end
