(* ===== verification/FreeListReach.thy ===== *)
theory FreeListReach
  imports FreeListFree
begin

text \<open>
  The properties of the free list: what each operation does to the tiling of a block, the round
  trip of an allocation and a free, the largest allocatable size, and the invariant of every
  sequence of operations in which the clients write in the memory they were given.
\<close>

section \<open>Operations\<close>

text \<open>
  A new block of at least 16 bytes is one free segment, whatever the memory held.
\<close>

theorem free_list_create_repr:
  assumes "16 \<le> unat sz" and "length memory = unat sz"
  shows "case free_list_create memory sz of
      Inl _ \<Rightarrow> False | Inr m \<Rightarrow> repr m [(unat sz - 8, False)]"
  using create_repr [OF assms] by auto

theorem free_list_create_repr_witness:
  "case free_list_create (replicate 64 7) 64 of Inl _ \<Rightarrow> False | Inr m \<Rightarrow> repr m [(56, False)]"
  using free_list_create_repr [of 64 "replicate 64 7"] by (simp split: sum.splits)

text \<open>
  C4. Allocation returns, and is best fit: it fails, leaving the memory as it was, only when no free
  segment can hold the bytes and their 4-byte header; otherwise it takes a smallest free segment
  that can, at its beginning, keeps the rest free when more than a node fits in it, and leaves
  every byte of the used segments as it was.
\<close>

theorem free_list_allocate_best_fit:
  assumes "repr m bs" and "unat sz + 4 < 2 ^ 32"
  shows "case free_list_allocate m sz of
      Some (Inr (m', None)) \<Rightarrow> m' = m \<and> (\<forall>(s, u) \<in> set bs. \<not> u \<longrightarrow> s < max 8 (unat sz + 4))
    | Some (Inr (m', Some off)) \<Rightarrow>
        \<exists>pre s post. bs = pre @ (s, False) # post \<and> max 8 (unat sz + 4) \<le> s \<and>
          (\<forall>(t, u) \<in> set bs. \<not> u \<longrightarrow> max 8 (unat sz + 4) \<le> t \<longrightarrow> s \<le> t) \<and>
          unat off = 12 + tot pre \<and> repr m' (pre @ taken s (max 8 (unat sz + 4)) @ post) \<and>
          same_used bs m m'
    | _ \<Rightarrow> False"
proof -
  from allocate_repr [OF assms(1), of sz] obtain m' res where
    "free_list_allocate m sz = Some (Inr (m', res))" "allocates (max 8 (unat sz + 4)) bs m m' res"
    unfolding real_size [OF assms(2)] by blast
  then show ?thesis by (simp add: allocates_def split: option.splits)
qed

theorem free_list_allocate_best_fit_witness:
  "\<exists>m. repr m [(56, False)] \<and>
     (case free_list_allocate m 10 of Some (Inr (_, Some off)) \<Rightarrow> unat off = 12 | _ \<Rightarrow> False)"
proof -
  obtain m where m: "repr m [(56, False)]" using create_repr [of 64 "replicate 64 0"] by auto
  have "case free_list_allocate m 10 of Some (Inr (_, Some off)) \<Rightarrow> unat off = 12 | _ \<Rightarrow> False"
    using free_list_allocate_best_fit [OF m, of 10]
    by (auto split: option.splits sum.splits simp: Cons_eq_append_conv)
  with m show ?thesis by blast
qed

text \<open>
  C5. Freeing a used segment returns \<^verbatim>\<open>true\<close>; the segment and the free segments that touch it become
  one free segment, and every byte of the other used segments is left as it was.
\<close>

theorem free_list_free_joins:
  assumes "repr m (pre @ (s, True) # post)" and "unat off = 12 + tot pre"
  shows "case free_list_free m off of
      Some (Inr (m', ok)) \<Rightarrow> ok \<and> repr m' (freed pre s post) \<and> same_used (pre @ (s, False) # post) m m'
    | _ \<Rightarrow> False"
  using free_repr [OF assms] by auto

lemma allocated:
  assumes "repr m bs" and "free_list_allocate m sz = Some (Inr (m', Some off))"
  obtains pre s post where "bs = pre @ (s, False) # post" "unat (free_list_real_size sz) \<le> s"
    "unat off = 12 + tot pre" "repr m' (pre @ taken s (unat (free_list_real_size sz)) @ post)"
    "same_used bs m m'"
  using allocate_repr [OF assms(1), of sz] assms(2) by (auto simp: allocates_def)

lemma taken_Cons: "\<exists>n' rest. taken s n = (n', True) # rest"
  by (simp add: taken_def)

theorem free_list_free_joins_witness:
  "\<exists>m bs off. repr m bs \<and> (case free_list_free m off of Some (Inr (_, ok)) \<Rightarrow> ok | _ \<Rightarrow> False)"
proof -
  obtain m where m: "repr m [(56, False)]" using create_repr [of 64 "replicate 64 0"] by auto
  from allocate_repr [OF m, of 10] real_size [of 10] obtain m' off where
    "free_list_allocate m 10 = Some (Inr (m', Some off))"
    by (cases "\<exists>m' off. free_list_allocate m 10 = Some (Inr (m', Some off))")
      (auto simp: allocates_def split: option.splits)
  from allocated [OF m this] obtain pre s post where
    a: "unat off = 12 + tot pre" "repr m' (pre @ taken s (unat (free_list_real_size 10)) @ post)" by metis
  obtain n' rest where "taken s (unat (free_list_real_size 10)) = (n', True) # rest"
    using taken_Cons by blast
  with a have r: "repr m' (pre @ (n', True) # (rest @ post))" by simp
  then have "case free_list_free m' off of Some (Inr (_, ok)) \<Rightarrow> ok | _ \<Rightarrow> False"
    using free_list_free_joins [OF r a(1)] by (auto split: option.splits sum.splits)
  with r show ?thesis by blast
qed

text \<open>
  The memory an allocation returns lies in the block, holds the requested bytes, and overlaps no
  segment in use.
\<close>

theorem free_list_allocate_disjoint:
  assumes "repr m bs" and "unat sz + 4 < 2 ^ 32"
    and "free_list_allocate m sz = Some (Inr (m', Some off))"
  shows "12 \<le> unat off \<and> unat off + unat sz \<le> length m \<and> length m' = length m \<and>
    (\<forall>(q, t) \<in> set (useds 8 bs). q + t \<le> unat off - 4 \<or> unat off + unat sz \<le> q)"
proof -
  from allocated [OF assms(1,3)] obtain pre s post where
    a: "bs = pre @ (s, False) # post" "max 8 (unat sz + 4) \<le> s" "unat off = 12 + tot pre"
      "repr m' (pre @ taken s (max 8 (unat sz + 4)) @ post)"
    unfolding real_size [OF assms(2)] by metis
  have "(8 + tot pre, s) \<in> set (frees 8 bs)" using a(1) by (simp add: frees_append)
  then have "q + t \<le> 8 + tot pre \<or> 8 + tot pre + s \<le> q" if "(q, t) \<in> set (useds 8 bs)" for q t
    using used_free_disjoint that by blast
  moreover have "length m = 8 + tot pre + s + tot post" "length m' = length m"
    using assms(1) a tot_taken [of "max 8 (unat sz + 4)" s] by (auto simp: repr_def)
  ultimately show ?thesis using a(2,3) by fastforce
qed

theorem free_list_allocate_disjoint_witness:
  "\<exists>m m' off. free_list_allocate m 10 = Some (Inr (m', Some off)) \<and> unat off + 10 \<le> length m"
proof -
  obtain m where m: "repr m [(56, False)]" using create_repr [of 64 "replicate 64 0"] by auto
  from allocate_repr [OF m, of 10] real_size [of 10] obtain m' off where
    o: "free_list_allocate m 10 = Some (Inr (m', Some off))"
    by (cases "\<exists>m' off. free_list_allocate m 10 = Some (Inr (m', Some off))")
      (auto simp: allocates_def split: option.splits)
  from free_list_allocate_disjoint [OF m _ o] o show ?thesis by auto
qed

section \<open>Allocating and freeing\<close>

lemma freed_taken:
  assumes "merged (pre @ (s, False) # post)" and "n \<le> s" and "taken s n = (n', True) # rest"
  shows "freed pre n' (rest @ post) = pre @ (s, False) # post"
proof -
  have pre: "pre = [] \<or> snd (last pre)" using assms(1) by (auto simp: merged_append)
  have "join_next s post = (s, False) # post"
    using assms(1) by (cases "(s, post)" rule: join_next.cases) (auto simp: merged_append)
  moreover have "join_next n' (rest @ post) = (if rest = [] then join_next s post else (s, False) # post)"
    using assms(2,3) by (auto simp: taken_def split: if_splits)
  ultimately show ?thesis using pre by (auto simp: freed_def)
qed

text \<open>
  C6. Freeing what was just allocated undoes the allocation: the block has the same tiling again, and
  the same bytes in its used segments.
\<close>

theorem allocate_free_roundtrip:
  assumes "repr m bs" and "free_list_allocate m sz = Some (Inr (m', Some off))"
  shows "case free_list_free m' off of
      Some (Inr (m'', ok)) \<Rightarrow> ok \<and> repr m'' bs \<and> same_used bs m m''
    | _ \<Rightarrow> False"
proof -
  from allocated [OF assms] obtain pre s post where
    a: "bs = pre @ (s, False) # post" "unat (free_list_real_size sz) \<le> s" "unat off = 12 + tot pre"
      "repr m' (pre @ taken s (unat (free_list_real_size sz)) @ post)" "same_used bs m m'" by metis
  obtain n' rest where t: "taken s (unat (free_list_real_size sz)) = (n', True) # rest"
    using taken_Cons by blast
  with a(4) have r: "repr m' (pre @ (n', True) # (rest @ post))" by simp
  from free_repr [OF r a(3)] obtain m'' where
    f: "free_list_free m' off = Some (Inr (m'', True))" "repr m'' (freed pre n' (rest @ post))"
      "same_used (pre @ (n', False) # rest @ post) m' m''" by blast
  have "freed pre n' (rest @ post) = bs"
    using freed_taken [OF _ a(2) t] assms(1) a(1) by (auto simp: repr_def)
  moreover have "n' + tot rest = s" using t a(2) tot_taken [OF a(2)] by simp
  then have "useds 8 (pre @ (n', False) # rest @ post) = useds 8 bs"
    using t by (cases rest) (auto simp: a(1) useds_append taken_def add.assoc split: if_splits)
  with f(3) have "same_used bs m' m''" by (simp add: same_used_def)
  with a(5) have "same_used bs m m''" by (rule same_used_trans)
  ultimately show ?thesis using f(1,2) by simp
qed

theorem allocate_free_roundtrip_witness:
  "\<exists>m m' off. free_list_allocate m 10 = Some (Inr (m', Some off)) \<and> repr m [(56, False)] \<and>
     (case free_list_free m' off of Some (Inr (m'', _)) \<Rightarrow> repr m'' [(56, False)] | _ \<Rightarrow> False)"
proof -
  obtain m where m: "repr m [(56, False)]" using create_repr [of 64 "replicate 64 0"] by auto
  from allocate_repr [OF m, of 10] real_size [of 10] obtain m' off where
    o: "free_list_allocate m 10 = Some (Inr (m', Some off))"
    by (cases "\<exists>m' off. free_list_allocate m 10 = Some (Inr (m', Some off))")
      (auto simp: allocates_def split: option.splits)
  from allocate_free_roundtrip [OF m o] m o show ?thesis by (fastforce split: option.splits sum.splits)
qed

section \<open>The largest size\<close>

lemma max_loop_lst:
  "lst m loc fs \<Longrightarrow> asc loc fs \<Longrightarrow> in_range m fs \<Longrightarrow> \<forall>(p, s) \<in> set fs. 8 \<le> s \<Longrightarrow>
     \<exists>mx'. max_loop m (rd m loc) mx = Some (Inr mx') \<and> unat mx \<le> unat mx' \<and>
       (\<forall>n. n \<le> unat mx' \<longleftrightarrow> n \<le> unat mx \<or> (\<exists>(p, s) \<in> set fs. n + 4 \<le> s))"
proof (induction m loc fs arbitrary: mx rule: lst.induct)
  case (1 m loc)
  then show ?case by (subst max_loop.simps) simp
next
  case (2 m loc p s fs)
  let ?mx = "if mx < rd m p - 4 then rd m p - 4 else mx"
  have node: "unat (rd m loc) = p" "rd m loc \<noteq> 0" "unat (rd m p) = s" "p + 8 \<le> length m" "8 \<le> s"
    using 2(2-5) by auto
  have "unat (rd m p - 4) = s - 4" using node by (subst unat_sub) (simp_all add: word_le_nat_alt)
  then have mx: "unat ?mx = max (unat mx) (s - 4)" by (auto simp: word_less_nat_alt)
  have "max_loop m (rd m loc) mx = max_loop m (rd m (p + 4)) ?mx"
    using node by (subst max_loop.simps) (simp add: add.commute)
  moreover from 2(2-5) obtain mx' where "max_loop m (rd m (p + 4)) ?mx = Some (Inr mx')"
    "unat ?mx \<le> unat mx'" "\<And>n. n \<le> unat mx' \<longleftrightarrow> n \<le> unat ?mx \<or> (\<exists>(p, s) \<in> set fs. n + 4 \<le> s)"
    using 2(1) [of ?mx] by auto
  moreover have "n \<le> unat ?mx \<longleftrightarrow> n \<le> unat mx \<or> n + 4 \<le> s" for n using mx node(5) by auto
  ultimately show ?case using mx by auto
qed

lemma in_range_frees: "repr m bs \<Longrightarrow> in_range m (frees 8 bs) \<and> (\<forall>(p, s) \<in> set (frees 8 bs). 8 \<le> s)"
proof -
  assume r: "repr m bs"
  have "q + 8 \<le> length m \<and> q + t \<le> length m \<and> 8 \<le> t" if "(q, t) \<in> set (frees 8 bs)" for q t
  proof -
    have "q + t \<le> 8 + tot bs" "(t, False) \<in> set bs" using frees_range [OF that] by auto
    moreover from this(2) have "8 \<le> t" using r unfolding repr_def big_def by fastforce
    ultimately show ?thesis using r by (auto simp: repr_def)
  qed
  then show ?thesis by (auto simp: in_range_def)
qed

lemma max_size_repr:
  assumes "repr m bs"
  shows "\<exists>mx. free_list_max_size m = Some (Inr mx) \<and>
    (\<forall>n > 0. n \<le> unat mx \<longleftrightarrow> (\<exists>(s, u) \<in> set bs. \<not> u \<and> n + 4 \<le> s))"
proof -
  have "8 \<le> length m" using assms by (simp add: repr_def)
  moreover obtain mx where "max_loop m (rd m 4) 0 = Some (Inr mx)"
    "\<And>n. n \<le> unat mx \<longleftrightarrow> n \<le> unat (0 :: u32) \<or> (\<exists>(p, s) \<in> set (frees 8 bs). n + 4 \<le> s)"
    using max_loop_lst [of m 4 "frees 8 bs" 0] repr_lst [OF assms] in_range_frees [OF assms] by blast
  moreover have "(\<exists>(p, s) \<in> set (frees 8 bs). n + 4 \<le> s) \<longleftrightarrow> (\<exists>(s, u) \<in> set bs. \<not> u \<and> n + 4 \<le> s)" for n
  proof
    assume "\<exists>(p, s) \<in> set (frees 8 bs). n + 4 \<le> s"
    then obtain p s where "(p, s) \<in> set (frees 8 bs)" "n + 4 \<le> s" by auto
    with frees_range [of p s 8 bs] show "\<exists>(s, u) \<in> set bs. \<not> u \<and> n + 4 \<le> s" by blast
  next
    assume "\<exists>(s, u) \<in> set bs. \<not> u \<and> n + 4 \<le> s"
    then obtain s where "(s, False) \<in> set bs" "n + 4 \<le> s" by auto
    with frees_sizes [of s bs 8] show "\<exists>(p, s) \<in> set (frees 8 bs). n + 4 \<le> s" by blast
  qed
  ultimately show ?thesis by (auto simp: free_list_max_size_def)
qed

text \<open>
  \<open>free_list_max_size\<close> tells exactly what can be allocated: an allocation of at least 4 bytes
  succeeds if and only if it is not larger.
\<close>

theorem free_list_max_size_exact:
  assumes "repr m bs" and "4 \<le> unat sz" and "unat sz + 4 < 2 ^ 32"
  shows "case (free_list_max_size m, free_list_allocate m sz) of
      (Some (Inr mx), Some (Inr (_, res))) \<Rightarrow> res \<noteq> None \<longleftrightarrow> sz \<le> mx
    | _ \<Rightarrow> False"
proof -
  have n: "max 8 (unat sz + 4) = unat sz + 4" using assms(2) by simp
  from allocate_repr [OF assms(1), of sz] obtain m' res where
    a: "free_list_allocate m sz = Some (Inr (m', res))" "allocates (unat sz + 4) bs m m' res"
    unfolding real_size [OF assms(3)] n by blast
  from max_size_repr [OF assms(1)] obtain mx where
    mx: "free_list_max_size m = Some (Inr mx)"
      "\<forall>n > 0. n \<le> unat mx \<longleftrightarrow> (\<exists>(s, u) \<in> set bs. \<not> u \<and> n + 4 \<le> s)" by blast
  have "res \<noteq> None \<longleftrightarrow> (\<exists>(s, u) \<in> set bs. \<not> u \<and> unat sz + 4 \<le> s)"
    using a(2) by (fastforce simp: allocates_def split: option.splits)
  with mx assms(2) a(1) show ?thesis by (auto simp: word_le_nat_alt)
qed

theorem free_list_max_size_exact_witness:
  "\<exists>m. repr m [(56, False)] \<and>
     (case (free_list_max_size m, free_list_allocate m 10) of
        (Some (Inr mx), Some (Inr (_, res))) \<Rightarrow> res \<noteq> None \<longleftrightarrow> 10 \<le> mx | _ \<Rightarrow> False)"
proof -
  obtain m where m: "repr m [(56, False)]" using create_repr [of 64 "replicate 64 0"] by auto
  with free_list_max_size_exact [OF m, of 10] show ?thesis by auto
qed

section \<open>Every sequence of operations\<close>

text \<open>
  The states a block can be in, with the offsets handed out and not yet freed. Between operations
  the clients write whatever they like in the segments they hold: the bytes from the offset to the
  end of the segment, whose size lies in the four bytes before the offset.
\<close>

inductive reach :: "u32 \<Rightarrow> bytes \<Rightarrow> u32 set \<Rightarrow> bool" for total_size :: u32 where
  create: "16 \<le> unat total_size \<Longrightarrow> length memory = unat total_size \<Longrightarrow>
    free_list_create memory total_size = Inr m \<Longrightarrow> reach total_size m {}"
| allocate: "reach total_size m live \<Longrightarrow> unat sz + 4 < 2 ^ 32 \<Longrightarrow>
    free_list_allocate m sz = Some (Inr (m', Some off)) \<Longrightarrow> reach total_size m' (insert off live)"
| refuse: "reach total_size m live \<Longrightarrow> unat sz + 4 < 2 ^ 32 \<Longrightarrow>
    free_list_allocate m sz = Some (Inr (m', None)) \<Longrightarrow> reach total_size m' live"
| free: "reach total_size m live \<Longrightarrow> off \<in> live \<Longrightarrow>
    free_list_free m off = Some (Inr (m', ok)) \<Longrightarrow> reach total_size m' (live - {off})"
| client_write: "reach total_size m live \<Longrightarrow> off \<in> live \<Longrightarrow> unat off \<le> i \<Longrightarrow>
    i + length xs \<le> unat off - 4 + unat (rd m (unat off - 4)) \<Longrightarrow>
    reach total_size (take i m @ xs @ drop (i + length xs) m) live"

definition live_of :: "tiling \<Rightarrow> u32 set" where
  "live_of bs = {off. \<exists>(p, s) \<in> set (useds 8 bs). unat off = p + 4}"

definition block_inv :: "u32 \<Rightarrow> bytes \<Rightarrow> u32 set \<Rightarrow> bool" where
  "block_inv total_size m live \<longleftrightarrow>
     (\<exists>bs. repr m bs \<and> 8 + tot bs = unat total_size \<and> live = live_of bs)"

lemma slice_splice:
  assumes "i + length xs \<le> length m" and "j + k \<le> i \<or> i + length xs \<le> j"
  shows "take k (drop j (take i m @ xs @ drop (i + length xs) m)) = take k (drop j m)"
proof (rule nth_equalityI)
  fix l assume "l < length (take k (drop j (take i m @ xs @ drop (i + length xs) m)))"
  then have "l < k" "j + l < length m" using assms by auto
  with assms show "take k (drop j (take i m @ xs @ drop (i + length xs) m)) ! l = take k (drop j m) ! l"
    by (auto simp: nth_append add.commute)
qed (use assms in auto)

lemma repr_write:
  assumes r: "repr m bs" and u: "(p, s) \<in> set (useds 8 bs)" and "p + 4 \<le> i" and "i + length xs \<le> p + s"
  shows "repr (take i m @ xs @ drop (i + length xs) m) bs"
proof -
  let ?m = "take i m @ xs @ drop (i + length xs) m"
  from useds_split [OF u] obtain pre post where bs: "bs = pre @ [(s, True)] @ post" and p: "p = 8 + tot pre"
    by auto
  define L where "L = lastloc 4 (frees 8 pre)"
  have f: "length m = p + s + tot post" "L + 4 \<le> p" "8 \<le> s" "merged (pre @ [(s, True)] @ post)"
    using repr_at [OF r [unfolded bs] p L_def refl] by simp_all
  have sl: "take k (drop j ?m) = take k (drop j m)" if "j + k \<le> i \<or> i + length xs \<le> j" for j k
    using assms(3,4) f(1) that by (intro slice_splice) auto
  have "repr ?m (pre @ [(s, True)] @ post) \<and> same_used (pre @ (s, False) # post) m ?m"
  proof (rule repr_update [OF r [unfolded bs] p L_def])
    show "framed L p s m ?m" unfolding framed_def
    proof (intro conjI allI impI)
      show "length ?m = length m" using assms(3,4) f(1) by simp
      fix j k assume "j + k \<le> p \<or> p + s \<le> j"
      then show "take k (drop j ?m) = take k (drop j m)" using assms(3,4) by (intro sl) auto
    qed
    show "rd ?m (lastloc L (frees p [(s, True)])) = rd m (lastloc L (frees p [(s, True)]))"
      unfolding rd_def using f(2) assms(3) by (subst sl) auto
    have "rd ?m p = rd m p" unfolding rd_def using assms(3) by (subst sl) auto
    then show "\<forall>(q, t) \<in> set (useds p [(s, True)]). unat (rd ?m q) = t"
      using r u by (fastforce simp: repr_def)
  qed (use f in simp_all)
  then show ?thesis using bs by simp
qed

lemma repr_sizes: "repr m bs \<Longrightarrow> (p, s) \<in> set (useds 8 bs) \<Longrightarrow> 8 \<le> s"
  using useds_range [of p s 8 bs] unfolding repr_def big_def by fastforce

lemma useds_freed: "useds 8 (freed pre s post) = useds 8 pre @ useds (8 + tot pre + s) post"
proof -
  have jn: "useds a (join_next t post) = useds (a + t) post" for a t
    by (cases "(t, post)" rule: join_next.cases) (auto simp: add.assoc)
  show ?thesis
  proof (cases pre rule: rev_cases)
    case (snoc pre' b)
    then show ?thesis by (cases b) (auto simp: freed_def jn useds_append add.assoc)
  qed (simp add: freed_def jn)
qed

lemma tot_freed: "tot (freed pre s post) = tot pre + s + tot post"
proof -
  have jn: "tot (join_next t post) = t + tot post" for t
    by (cases "(t, post)" rule: join_next.cases) auto
  show ?thesis
  proof (cases pre rule: rev_cases)
    case (snoc pre' b)
    then show ?thesis by (cases b) (auto simp: freed_def jn)
  qed (simp add: freed_def jn)
qed

lemma reach_inv: "reach total_size m live \<Longrightarrow> block_inv total_size m live"
proof (induction rule: reach.induct)
  case (create memory m)
  then show ?case using create_repr [OF create(1,2)]
    by (auto simp: block_inv_def live_of_def intro!: exI [of _ "[(unat total_size - 8, False)]"])
next
  case (allocate m live sz m' off)
  then obtain bs where bs: "repr m bs" "8 + tot bs = unat total_size" "live = live_of bs"
    by (auto simp: block_inv_def)
  let ?n = "unat (free_list_real_size sz)"
  from allocated [OF bs(1) allocate(3)] obtain pre s post where
    a: "bs = pre @ (s, False) # post" "?n \<le> s" "unat off = 12 + tot pre" "repr m' (pre @ taken s ?n @ post)"
    by metis
  have "live_of (pre @ taken s ?n @ post) = insert off (live_of bs)"
  proof -
    have "set (useds 8 (pre @ taken s ?n @ post)) = insert (8 + tot pre, fst (hd (taken s ?n))) (set (useds 8 bs))"
      using a(2) by (auto simp: a(1) useds_append taken_def add.assoc)
    then show ?thesis using a(3) by (auto simp: live_of_def word_unat_eq_iff)
  qed
  moreover have "8 + tot (pre @ taken s ?n @ post) = unat total_size"
    using bs(2) a(1) tot_taken [OF a(2)] by simp
  ultimately show ?case unfolding block_inv_def using a(4) bs(3) by metis
next
  case (refuse m live sz m')
  then obtain bs where bs: "repr m bs" "8 + tot bs = unat total_size" "live = live_of bs"
    by (auto simp: block_inv_def)
  from allocate_repr [OF bs(1), of sz] refuse(3) have "m' = m" by (auto simp: allocates_def)
  with refuse show ?case by simp
next
  case (free m live off m' ok)
  then obtain bs where bs: "repr m bs" "8 + tot bs = unat total_size" "live = live_of bs"
    by (auto simp: block_inv_def)
  then obtain p s where p: "(p, s) \<in> set (useds 8 bs)" "unat off = p + 4" using free(2) by (auto simp: live_of_def)
  from useds_split [OF p(1)] obtain pre post where b: "bs = pre @ (s, True) # post" "p = 8 + tot pre" by blast
  have off: "unat off = 12 + tot pre" using p(2) b(2) by simp
  from free_repr [OF bs(1) [unfolded b(1)] off] free(3) have r: "repr m' (freed pre s post)" by auto
  have "8 \<le> s" using bs(1) b(1) by (simp add: repr_def)
  have "live_of (freed pre s post) = live_of bs - {off}"
  proof -
    have 1: "(p, t) \<notin> set (useds 8 pre) \<union> set (useds (8 + tot pre + s) post)" for t
      using useds_range [of p t 8 pre] useds_range [of p t "8 + tot pre + s" post] \<open>8 \<le> s\<close> b(2)
        repr_sizes [OF bs(1), of p t] b(1) by (auto simp: useds_append)
    have 2: "set (useds 8 bs) = insert (p, s) (set (useds 8 pre) \<union> set (useds (8 + tot pre + s) post))"
      unfolding b by (simp add: useds_append)
    show ?thesis unfolding live_of_def 2 useds_freed set_append
      using 1 p(2) by (auto simp: word_unat_eq_iff)
  qed
  then show ?case unfolding block_inv_def using r bs b(1) tot_freed by auto
next
  case (client_write m live off i xs)
  then obtain bs where bs: "repr m bs" "8 + tot bs = unat total_size" "live = live_of bs"
    by (auto simp: block_inv_def)
  then obtain p s where p: "(p, s) \<in> set (useds 8 bs)" "unat off = p + 4" using client_write(2) by (auto simp: live_of_def)
  then have "unat (rd m p) = s" using bs(1) by (fastforce simp: repr_def)
  with client_write(3,4) p have "repr (take i m @ xs @ drop (i + length xs) m) bs"
    by (intro repr_write [OF bs(1) p(1)]) auto
  with bs show ?case by (auto simp: block_inv_def)
qed

text \<open>
  C2. In every state a block can reach, whatever the clients wrote in their memory, the block is tiled
  by its segments from the header to its last byte, the free segments are linked and never touch
  each other, and the offsets handed out and not freed are those of the used segments.
\<close>

theorem reachable_block_tiled:
  assumes "reach total_size m live"
  shows "\<exists>bs. repr m bs \<and> 8 + tot bs = unat total_size \<and> live = live_of bs"
  using reach_inv [OF assms] by (simp add: block_inv_def)

lemma reach_create_64: "\<exists>m. free_list_create (replicate 64 0) 64 = Inr m \<and> reach 64 m {}"
  using create_repr [of 64 "replicate 64 0"] reach.create [of 64 "replicate 64 0"] by auto

lemma reach_allocated_64: "\<exists>m off. reach 64 m {off}"
proof -
  obtain m where m: "reach 64 m {}" using reach_create_64 by blast
  then obtain bs where bs: "repr m bs" "tot bs = 56" "live_of bs = {}"
    using reach_inv [OF m] by (auto simp: block_inv_def)
  from allocate_repr [OF bs(1), of 4] obtain m' res where
    "free_list_allocate m 4 = Some (Inr (m', res))" "allocates 8 bs m m' res"
    using real_size [of 4] by auto
  moreover have "res \<noteq> None"
  proof
    assume "res = None"
    with calculation have all: "\<forall>(s, u) \<in> set bs. \<not> u \<longrightarrow> s < 8" by (simp add: allocates_def)
    have "bs \<noteq> []" using bs(2) by auto
    then obtain s u bs' where b: "bs = (s, u) # bs'" by (cases bs) auto
    then have "8 \<le> s" using bs(1) by (simp add: repr_def)
    with all b have u by auto
    then have "(12 :: u32) \<in> live_of bs" using b by (simp add: live_of_def)
    with bs(3) show False by simp
  qed
  ultimately show ?thesis using reach.allocate [OF m, of 4] by auto
qed

theorem reachable_block_tiled_witness: "\<exists>m off bs. repr m bs \<and> tot bs = 56 \<and> live_of bs = {off}"
proof -
  obtain m off where "reach 64 m {off}" using reach_allocated_64 by blast
  from reachable_block_tiled [OF this] show ?thesis by auto
qed

text \<open>
  C1. No operation of a client that frees only what it was given, and once, goes wrong: in every
  reachable state allocation, freeing an offset in use, and the queries return, without touching
  memory outside the block, and the free reports success.
\<close>

theorem reachable_block_progress:
  assumes "reach total_size m live"
  shows "(\<exists>m' res. free_list_allocate m sz = Some (Inr (m', res))) \<and>
    (off \<in> live \<longrightarrow> (\<exists>m'. free_list_free m off = Some (Inr (m', True)))) \<and>
    (\<exists>mx. free_list_max_size m = Some (Inr mx)) \<and> (\<exists>b. free_list_empty m = Inr b)"
proof -
  obtain bs where bs: "repr m bs" "live = live_of bs" "8 + tot bs = unat total_size"
    using reach_inv [OF assms] by (auto simp: block_inv_def)
  have "\<exists>m'. free_list_free m off = Some (Inr (m', True))" if "off \<in> live"
  proof -
    from that bs(2) obtain p s where "(p, s) \<in> set (useds 8 bs)" "unat off = p + 4"
      by (auto simp: live_of_def)
    moreover from useds_split [OF this(1)] obtain pre post where
      "bs = pre @ (s, True) # post" "p = 8 + tot pre" by blast
    ultimately show ?thesis using free_repr [of m pre s post off] bs(1) by auto
  qed
  moreover have "\<exists>b. free_list_empty m = Inr b"
  proof (cases "rd m 4 = 8")
    case True
    have "8 + 4 \<le> length m"
    proof (cases "frees 8 bs")
      case Nil
      with repr_lst [OF bs(1)] True show ?thesis by simp
    next
      case (Cons a fs)
      with repr_lst [OF bs(1)] True show ?thesis by (cases a) auto
    qed
    with True show ?thesis by (simp add: free_list_empty_def)
  next
    case False
    then have "free_list_empty m = Inr False" using bs(1) by (simp add: free_list_empty_def repr_def)
    then show ?thesis ..
  qed
  ultimately show ?thesis
    using allocate_repr [OF bs(1), of sz] max_size_repr [OF bs(1)] by auto
qed

theorem reachable_block_progress_witness:
  "\<exists>m off m'. reach 64 m {off} \<and> free_list_free m off = Some (Inr (m', True))"
proof -
  obtain m off where r: "reach 64 m {off}" using reach_allocated_64 by blast
  from reachable_block_progress [OF r, of 0 off] r show ?thesis by auto
qed

lemma reach_size: "reach total_size m live \<Longrightarrow> 16 \<le> unat total_size"
  by (induction rule: reach.induct) auto

lemma live_of_empty:
  assumes "repr m bs" and "live_of bs = {}"
  shows "\<forall>(s, u) \<in> set bs. \<not> u"
proof (intro ballI, clarify)
  fix s u assume "(s, u) \<in> set bs" and u
  then have "(s, True) \<in> set bs" by simp
  then obtain pre post where bs: "bs = pre @ (s, True) # post" by (meson split_list)
  then have u: "(8 + tot pre, s) \<in> set (useds 8 bs)" by (simp add: useds_append)
  have "8 \<le> s" "8 + tot pre + s < 2 ^ 32" using assms(1) bs by (auto simp: repr_def)
  define n where "n = 8 + tot pre + 4"
  have "n < 2 ^ 32" using \<open>8 \<le> s\<close> \<open>8 + tot pre + s < 2 ^ 32\<close> by (simp add: n_def)
  then have "unat (of_nat n :: u32) = n" by (simp add: unat_of_nat)
  with u have "of_nat n \<in> live_of bs" unfolding live_of_def n_def by blast
  with assms(2) show False by simp
qed

text \<open>
  C3. Nothing is lost: when every allocation has been freed, in whatever order, the block is one free
  segment again; it is reported empty, and everything but the headers can be allocated.
\<close>

theorem reachable_block_all_freed:
  assumes "reach total_size m {}"
  shows "repr m [(unat total_size - 8, False)] \<and> free_list_empty m = Inr True \<and>
    free_list_max_size m = Some (Inr (total_size - 12))"
proof -
  obtain bs where bs: "repr m bs" "live_of bs = {}" "8 + tot bs = unat total_size"
    using reach_inv [OF assms] by (auto simp: block_inv_def)
  have free: "\<forall>(s, u) \<in> set bs. \<not> u" using live_of_empty [OF bs(1,2)] .
  have "8 < unat total_size" using reach_size [OF assms] by simp
  then have "bs \<noteq> []" using bs(3) by auto
  then obtain s rest where b: "bs = (s, False) # rest" using free by (cases bs) auto
  have "rest = []"
  proof (rule ccontr)
    assume "rest \<noteq> []"
    then obtain t v rest' where "rest = (t, v) # rest'" by (cases rest) auto
    with free b bs(1) show False by (auto simp: repr_def)
  qed
  with b bs(3) have bs': "bs = [(unat total_size - 8, False)]" by simp
  have r: "length m = unat total_size" "8 \<le> unat total_size - 8" "rd m 4 = 8"
    "unat (rd m 0) = unat total_size - 8" "unat (rd m 8) = unat total_size - 8"
    using bs(1,3) by (auto simp: bs' repr_def word_unat_eq_iff)
  then have "free_list_empty m = Inr True" by (simp add: free_list_empty_def word_unat_eq_iff)
  moreover have "free_list_max_size m = Some (Inr (total_size - 12))"
  proof -
    obtain mx where mx: "free_list_max_size m = Some (Inr mx)"
      "\<forall>n > 0. n \<le> unat mx \<longleftrightarrow> n + 4 \<le> unat total_size - 8"
      using max_size_repr [OF bs(1)] by (auto simp: bs')
    have "unat mx = unat total_size - 12"
    proof (rule antisym)
      show "unat mx \<le> unat total_size - 12" using mx(2) [rule_format, of "unat mx"] by (cases "unat mx = 0") auto
      show "unat total_size - 12 \<le> unat mx"
        using mx(2) [rule_format, of "unat total_size - 12"] r(2) by simp
    qed
    moreover have "unat (total_size - 12) = unat total_size - 12"
      using r(2) by (subst unat_sub) (simp_all add: word_le_nat_alt)
    ultimately show ?thesis using mx(1) by (simp add: word_unat_eq_iff)
  qed
  ultimately show ?thesis using bs(1) bs' by simp
qed

theorem reachable_block_all_freed_witness: "\<exists>m. free_list_max_size m = Some (Inr 52)"
proof -
  obtain m where "reach 64 m {}" using reach_create_64 by blast
  from reachable_block_all_freed [OF this] show ?thesis by auto
qed

end
