(* ===== verification/Allocator.thy ===== *)
theory Allocator
  imports Repository FreeListReach
begin

text \<open>
  \<^verbatim>\<open>memory/cache/allocator.cc\<close>: the allocator of memory in blocks that are swapped out by a
  persister. A block is a free list (\<^verbatim>\<open>free_list.cc\<close>); a block that is loaded lies at an address
  of the heap, which \<^verbatim>\<open>new\<close> hands out in increasing order and \<^verbatim>\<open>delete\<close> gives back: an access
  through a pointer that was deleted is \<open>Undefined\<close>. The mutex is the flag \<open>al_locked\<close>; it is not
  recursive, so locking it while it is held never returns (one thread is modelled). The clock of
  \<^verbatim>\<open>time\<close> and \<^verbatim>\<open>sleep\<close> counts tenths of seconds and advances when the allocator sleeps.
  \<open>al_loaded\<close> is the list of the entries of the unordered map, in the order it iterates them.
\<close>

section \<open>The persister\<close>

datatype persister = Local local_persister | Remote remote_persister

definition on_local :: "(local_persister, 'a) act \<Rightarrow> (remote_persister, 'a) act \<Rightarrow> (persister, 'a) act" where
  "on_local m n = (\<lambda>p. case p of
       Local l \<Rightarrow> (case m l of None \<Rightarrow> None | Some (r, l') \<Rightarrow> Some (r, Local l'))
     | Remote l \<Rightarrow> (case n l of None \<Rightarrow> None | Some (r, l') \<Rightarrow> Some (r, Remote l')))"

definition p_save :: "u64 \<Rightarrow> bytes \<Rightarrow> nat \<Rightarrow> (persister, unit) act" where
  "p_save a m n = on_local (lp_save a m n) (rm_save a m n)"

definition p_load :: "u64 \<Rightarrow> bytes \<Rightarrow> nat \<Rightarrow> (persister, bytes) act" where
  "p_load a m n = on_local (lp_load a m n) (rm_load a m n)"

definition p_erase :: "u64 \<Rightarrow> (persister, unit) act" where
  "p_erase a = on_local (lp_erase a) (rm_erase a)"

section \<open>The state\<close>

record segment =
  blockAddr :: u32
  offset :: u32

record block_info =
  bi_mem :: nat
  bi_lru :: u32
  bi_maxSize :: u32

record allocator =
  al_max_blocks :: u32
  al_block_size :: u32
  al_max_allocable :: u32
  al_loaded :: "(u32 \<times> nat) list"
  al_blocks :: "block_info list"
  al_persister :: "persister option"
  al_lastLRU :: u32
  al_lruStamp :: u32
  al_uniqLoads :: u32
  al_heap :: "nat \<Rightarrow> bytes option"
  al_fresh :: nat
  al_locked :: bool
  al_clock :: nat
  al_junk :: u8

definition with_lock :: "(allocator, 'a) act \<Rightarrow> (allocator, 'a) act" where
  "with_lock m = (\<lambda>s. if al_locked s then None
     else case m (s\<lparr>al_locked := True\<rparr>) of
         None \<Rightarrow> None
       | Some (r, s') \<Rightarrow> Some (r, s'\<lparr>al_locked := False\<rparr>))"

definition lock_mutex :: "(allocator, unit) act" where
  "lock_mutex = (\<lambda>s. if al_locked s then None else Some (Inr (), s\<lparr>al_locked := True\<rparr>))"

definition unlock_mutex :: "(allocator, unit) act" where
  "unlock_mutex = modify (\<lambda>s. s\<lparr>al_locked := False\<rparr>)"

text \<open>Access to a vector of blocks by address, to the memory, to the persister.\<close>

definition block :: "u32 \<Rightarrow> (allocator, block_info) act" where
  "block addr = (\<lambda>s. let i = unat (addr - 1) in
     if i < length (al_blocks s) then Some (Inr (al_blocks s ! i), s) else Some (Inl Undefined, s))"

definition set_block :: "u32 \<Rightarrow> (block_info \<Rightarrow> block_info) \<Rightarrow> (allocator, unit) act" where
  "set_block addr f = (\<lambda>s. let i = unat (addr - 1) in
     if i < length (al_blocks s)
     then Some (Inr (), s\<lparr>al_blocks := (al_blocks s)[i := f (al_blocks s ! i)]\<rparr>)
     else Some (Inl Undefined, s))"

definition heap_get :: "nat \<Rightarrow> (allocator, bytes) act" where
  "heap_get p = (\<lambda>s. case al_heap s p of None \<Rightarrow> Some (Inl Undefined, s) | Some m \<Rightarrow> Some (Inr m, s))"

definition heap_set :: "nat \<Rightarrow> bytes \<Rightarrow> (allocator, unit) act" where
  "heap_set p m = (\<lambda>s. case al_heap s p of
       None \<Rightarrow> Some (Inl Undefined, s)
     | Some _ \<Rightarrow> Some (Inr (), s\<lparr>al_heap := (al_heap s)(p := Some m)\<rparr>))"

definition heap_new :: "bytes \<Rightarrow> (allocator, nat) act" where
  "heap_new m = (\<lambda>s. Some (Inr (al_fresh s),
     s\<lparr>al_heap := (al_heap s)(al_fresh s := Some m), al_fresh := al_fresh s + 1\<rparr>))"

definition heap_delete :: "nat \<Rightarrow> (allocator, unit) act" where
  "heap_delete p = (\<lambda>s. case al_heap s p of
       None \<Rightarrow> Some (Inl Undefined, s)
     | Some _ \<Rightarrow> Some (Inr (), s\<lparr>al_heap := (al_heap s)(p := None)\<rparr>))"

definition with_persister :: "(persister, 'a) act \<Rightarrow> (allocator, 'a) act" where
  "with_persister m = (\<lambda>s. case al_persister s of
       None \<Rightarrow> Some (Inl Undefined, s)
     | Some p \<Rightarrow> (case m p of None \<Rightarrow> None | Some (r, p') \<Rightarrow> Some (r, s\<lparr>al_persister := Some p'\<rparr>)))"

text \<open>An operation of the free list on the block at \<open>p\<close>.\<close>

definition in_block :: "nat \<Rightarrow> (bytes \<Rightarrow> (bytes \<times> 'a) res option) \<Rightarrow> (allocator, 'a) act" where
  "in_block p f =
     bnd (heap_get p) (\<lambda>m.
     bnd (lift_opt (f m)) (\<lambda>(m', x).
     bnd (heap_set p m') (\<lambda>_. ret x)))"

definition block_max_size :: "nat \<Rightarrow> (allocator, u32) act" where
  "block_max_size p = bnd (heap_get p) (\<lambda>m. lift_opt (free_list_max_size m))"

definition next_lru :: "(allocator, u32) act" where
  "next_lru = (\<lambda>s. Some (Inr (al_lastLRU s), s\<lparr>al_lastLRU := al_lastLRU s + 1\<rparr>))"

section \<open>Loading and eviction\<close>

fun pick_loop :: "(u32 \<times> nat) list \<Rightarrow> nat \<Rightarrow> u32 \<Rightarrow> (allocator, u32) act" where
  "pick_loop [] mn addr = ret addr"
| "pick_loop ((it, ld_mem) # rest) mn addr =
     bnd (block it) (\<lambda>bl.
     if unat (bi_lru bl) < mn then pick_loop rest (unat (bi_lru bl)) it
     else pick_loop rest mn addr)"

definition pick_lru :: "(allocator, u32) act" where
  "pick_lru =
     bnd (gets (\<lambda>s. al_clock s div 10 + 10)) (\<lambda>mn.
     bnd (gets al_loaded) (\<lambda>loaded.
     pick_loop loaded mn 0))"

definition loaded_remove :: "u32 \<Rightarrow> (allocator, unit) act" where
  "loaded_remove addr = modify (\<lambda>s. s\<lparr>al_loaded := filter (\<lambda>(a, p). a \<noteq> addr) (al_loaded s)\<rparr>)"

definition loaded_add :: "u32 \<Rightarrow> nat \<Rightarrow> (allocator, unit) act" where
  "loaded_add addr p = modify (\<lambda>s.
     if addr \<in> fst ` set (al_loaded s) then s else s\<lparr>al_loaded := (addr, p) # al_loaded s\<rparr>)"

definition evict_block :: "u32 \<Rightarrow> (allocator, unit) act" where
  "evict_block addr =
     bnd (gets al_loaded) (\<lambda>loaded.
     case map_of loaded addr of
       None \<Rightarrow> throw Undefined
     | Some p \<Rightarrow>
         bnd (heap_get p) (\<lambda>mem.
         bnd (gets al_block_size) (\<lambda>bs.
         bnd (with_persister (p_save (ucast addr) mem (unat bs))) (\<lambda>_.
         bnd (loaded_remove addr) (\<lambda>_.
         bnd (set_block addr (\<lambda>bl. bl\<lparr>bi_mem := 0\<rparr>)) (\<lambda>_.
         heap_delete p))))))"

definition timer_sleep :: "(allocator, unit) act" where
  "timer_sleep = modify (\<lambda>s. s\<lparr>al_clock := al_clock s + 1\<rparr>)"

partial_function (option) evict_loop :: "nat \<Rightarrow> nat \<Rightarrow> allocator \<Rightarrow> (unit res \<times> allocator) option"
where
  "evict_loop nb i s =
     (if nb \<le> i then ret () s
      else bnd pick_lru (\<lambda>addr s.
        if addr \<noteq> 0 then bnd (evict_block addr) (\<lambda>_ s. evict_loop nb (i + 1) s) s
        else bnd timer_sleep (\<lambda>_ s.
          bnd (\<lambda>s. evict_loop (nb - i) 0 s) (\<lambda>_ s. evict_loop nb (i + 1) s) s) s) s)"

definition evictSome :: "nat \<Rightarrow> (allocator, unit) act" where
  "evictSome nb = (\<lambda>s. evict_loop nb 0 s)"

text \<open>\<^verbatim>\<open>std::min (1, std::max (1, NB_BLOCKS - 1))\<close>\<close>

definition evict_nb :: nat where
  "evict_nb = min 1 (max 1 (1024 - 1))"

definition evict_if_full :: "(allocator, unit) act" where
  "evict_if_full =
     bnd (gets (\<lambda>s. length (al_loaded s) = unat (al_max_blocks s))) (\<lambda>full.
     if full then evictSome evict_nb else ret ())"

definition allocateNewBlock :: "(allocator, u32 \<times> nat) act" where
  "allocateNewBlock =
     bnd evict_if_full (\<lambda>_.
     bnd (gets al_block_size) (\<lambda>bs.
     bnd (heap_new (replicate (unat bs) 0)) (\<lambda>mem.
     bnd (in_block mem (\<lambda>m. Some (ebind (free_list_create m bs) (\<lambda>m. Inr (m, ()))))) (\<lambda>_.
     bnd (gets (\<lambda>s. of_nat (length (al_blocks s)) + 1)) (\<lambda>addr.
     bnd next_lru (\<lambda>lru.
     bnd (modify (\<lambda>s. s\<lparr>al_blocks := al_blocks s @
            [\<lparr>bi_mem = mem, bi_lru = lru, bi_maxSize = al_max_allocable s\<rparr>]\<rparr>)) (\<lambda>_.
     bnd (loaded_add addr mem) (\<lambda>_.
     bnd (modify (\<lambda>s. s\<lparr>al_uniqLoads := al_uniqLoads s + 1\<rparr>)) (\<lambda>_.
     ret (addr, mem))))))))))"

definition count_uniq :: "u32 \<Rightarrow> (allocator, unit) act" where
  "count_uniq lru = modify (\<lambda>s.
     if lru < al_lruStamp s then s\<lparr>al_uniqLoads := al_uniqLoads s + 1\<rparr> else s)"

definition load :: "u32 \<Rightarrow> (allocator, nat) act" where
  "load addr =
     bnd (block addr) (\<lambda>memory.
     bnd next_lru (\<lambda>lru.
     if bi_mem memory = 0 then
       bnd evict_if_full (\<lambda>_.
       bnd (gets al_block_size) (\<lambda>bs.
       bnd (gets (\<lambda>s. replicate (unat bs) (al_junk s))) (\<lambda>junk.
       bnd (heap_new junk) (\<lambda>out.
       bnd (with_persister (p_load (ucast addr) junk (unat bs))) (\<lambda>content.
       bnd (heap_set out content) (\<lambda>_.
       bnd (loaded_add addr out) (\<lambda>_.
       bnd (count_uniq (bi_lru memory)) (\<lambda>_.
       bnd (set_block addr (\<lambda>bl. bl\<lparr>bi_lru := lru, bi_mem := out\<rparr>)) (\<lambda>_.
       ret out)))))))))
     else
       bnd (count_uniq (bi_lru memory)) (\<lambda>_.
       bnd (set_block addr (\<lambda>bl. bl\<lparr>bi_lru := lru\<rparr>)) (\<lambda>_.
       ret (bi_mem memory)))))"

section \<open>Allocating\<close>

definition segment_in :: "nat \<Rightarrow> u32 \<Rightarrow> (allocator, u32 option) act" where
  "segment_in mem sz = in_block mem (\<lambda>m. free_list_allocate m sz)"

text \<open>The loop over the loaded blocks.\<close>

fun alloc_loaded :: "(u32 \<times> nat) list \<Rightarrow> u32 \<Rightarrow> u32 \<Rightarrow> (allocator, segment option) act" where
  "alloc_loaded [] sz realSize = ret None"
| "alloc_loaded ((addr, mem) # rest) sz realSize =
     bnd (block addr) (\<lambda>bl.
     if realSize \<le> bi_maxSize bl then
       bnd (segment_in mem sz) (\<lambda>r. case r of
         Some off \<Rightarrow>
           bnd (block_max_size mem) (\<lambda>mx.
           bnd (set_block addr (\<lambda>bl. bl\<lparr>bi_maxSize := mx\<rparr>)) (\<lambda>_.
           bnd next_lru (\<lambda>lru.
           bnd (set_block addr (\<lambda>bl. bl\<lparr>bi_lru := lru\<rparr>)) (\<lambda>_.
           ret (Some \<lparr>blockAddr = addr, offset = off\<rparr>)))))
       | None \<Rightarrow> alloc_loaded rest sz realSize)
     else alloc_loaded rest sz realSize)"

text \<open>The loop over all the blocks, loading those that look big enough.\<close>

fun alloc_any :: "nat list \<Rightarrow> u32 \<Rightarrow> u32 \<Rightarrow> (allocator, segment option) act" where
  "alloc_any [] sz realSize = ret None"
| "alloc_any (k # rest) sz realSize =
     (let addr = of_nat k in
      bnd (block addr) (\<lambda>bl.
      if realSize \<le> bi_maxSize bl then
        bnd (load addr) (\<lambda>mem.
        bnd (segment_in mem sz) (\<lambda>r. case r of
          Some off \<Rightarrow>
            bnd (block_max_size mem) (\<lambda>mx.
            bnd (set_block addr (\<lambda>bl. bl\<lparr>bi_maxSize := mx\<rparr>)) (\<lambda>_.
            ret (Some \<lparr>blockAddr = addr, offset = off\<rparr>)))
        | None \<Rightarrow> alloc_any rest sz realSize))
      else alloc_any rest sz realSize))"

definition alloc_old :: "u32 \<Rightarrow> u32 \<Rightarrow> (allocator, segment option) act" where
  "alloc_old sz realSize =
     bnd (gets al_loaded) (\<lambda>loaded.
     bnd (alloc_loaded loaded sz realSize) (\<lambda>r. case r of
       Some seg \<Rightarrow> ret (Some seg)
     | None \<Rightarrow>
         bnd (gets (\<lambda>s. [1..<Suc (length (al_blocks s))])) (\<lambda>ks.
         alloc_any ks sz realSize)))"

definition alloc_new :: "u32 \<Rightarrow> bool \<Rightarrow> (allocator, segment option) act" where
  "alloc_new sz lock =
     bnd (if lock then lock_mutex else ret ()) (\<lambda>_.
     bnd allocateNewBlock (\<lambda>(addr, mem).
     bnd (segment_in mem sz) (\<lambda>r. case r of
       Some off \<Rightarrow>
         bnd (block_max_size mem) (\<lambda>mx.
         bnd (set_block addr (\<lambda>bl. bl\<lparr>bi_maxSize := mx\<rparr>)) (\<lambda>_.
         bnd next_lru (\<lambda>lru.
         bnd (set_block addr (\<lambda>bl. bl\<lparr>bi_lru := lru\<rparr>)) (\<lambda>_.
         bnd (if lock then unlock_mutex else ret ()) (\<lambda>_.
         ret (Some \<lparr>blockAddr = addr, offset = off\<rparr>))))))
     | None \<Rightarrow>
         bnd (if lock then unlock_mutex else ret ()) (\<lambda>_. ret None))))"

text \<open>The segment, \<open>None\<close> for \<^verbatim>\<open>false\<close>.\<close>

definition allocate :: "u32 \<Rightarrow> bool \<Rightarrow> bool \<Rightarrow> (allocator, segment option) act" where
  "allocate sz newBlock lock =
     (let realSize = free_list_real_size sz in
      bnd (gets al_max_allocable) (\<lambda>mx.
      if mx < realSize then ret None
      else if newBlock then alloc_new sz lock
      else
        bnd (if lock then lock_mutex else ret ()) (\<lambda>_.
        bnd (alloc_old sz realSize) (\<lambda>r. case r of
          Some seg \<Rightarrow> bnd (if lock then unlock_mutex else ret ()) (\<lambda>_. ret (Some seg))
        | None \<Rightarrow> alloc_new sz lock))))"

record segments =
  sg_rest :: segment
  sg_fstBlock :: u32
  sg_nbBlocks :: u32
  sg_blockSize :: u32

definition multiple :: "u64 \<Rightarrow> u32 \<Rightarrow> (allocator, u64) act" where
  "multiple allocable elemSize =
     (if elemSize = 0 then throw Undefined else ret (allocable - allocable mod ucast elemSize))"

partial_function (option) segments_blocks ::
  "u32 \<Rightarrow> u64 \<Rightarrow> bool \<Rightarrow> segments \<Rightarrow> allocator \<Rightarrow> ((u64 \<times> segments) res \<times> allocator) option"
where
  "segments_blocks elemSize sz first g s =
     (if sz < ucast (al_max_allocable s) then ret (sz, g) s
      else bnd (multiple (ucast (al_max_allocable s) - 4) elemSize) (\<lambda>toAlloc s.
        bnd (allocate (ucast toAlloc) True False) (\<lambda>seg s. case seg of
          None \<Rightarrow> throw Undefined s
        | Some seg \<Rightarrow>
            segments_blocks elemSize (sz - toAlloc) False
              (g\<lparr>sg_blockSize := ucast toAlloc,
                 sg_fstBlock := (if first then blockAddr seg else sg_fstBlock g),
                 sg_nbBlocks := sg_nbBlocks g + 1\<rparr>) s) s) s)"

partial_function (option) segments_rest ::
  "u32 \<Rightarrow> u64 \<Rightarrow> segments \<Rightarrow> allocator \<Rightarrow> (segments res \<times> allocator) option"
where
  "segments_rest elemSize sz g s =
     (if sz = 0 then ret g s
      else bnd (multiple sz elemSize) (\<lambda>toAlloc s.
        bnd (allocate (ucast sz) False False) (\<lambda>seg s.
          segments_rest elemSize (sz - toAlloc)
            (case seg of None \<Rightarrow> g | Some seg \<Rightarrow> g\<lparr>sg_rest := seg\<rparr>) s) s) s)"

text \<open>The arguments it returns by reference, given with the values they hold before.\<close>

definition allocateSegments :: "u32 \<Rightarrow> u64 \<Rightarrow> segments \<Rightarrow> (allocator, segments) act" where
  "allocateSegments elemSize sz g = with_lock (\<lambda>s.
     bnd (\<lambda>s. segments_blocks elemSize sz True (g\<lparr>sg_nbBlocks := 0\<rparr>) s) (\<lambda>(sz, g) s.
       segments_rest elemSize sz g s) s)"

section \<open>Freeing\<close>

text \<open>The blocks at the end that are empty are dropped.\<close>

fun pop_list :: "block_info list \<Rightarrow> (allocator, unit) act" where
  "pop_list [] = ret ()"
| "pop_list (bl # rev_blocks) =
     bnd (gets al_max_allocable) (\<lambda>mx.
     if bi_maxSize bl = mx then
       bnd (if bi_mem bl \<noteq> 0 then heap_delete (bi_mem bl) else ret ()) (\<lambda>_.
       bnd (modify (\<lambda>s. s\<lparr>al_blocks := butlast (al_blocks s)\<rparr>)) (\<lambda>_.
       pop_list rev_blocks))
     else ret ())"

definition pop_blocks :: "(allocator, unit) act" where
  "pop_blocks = bnd (gets (\<lambda>s. rev (al_blocks s))) pop_list"

definition freeBlock :: "u32 \<Rightarrow> (allocator, unit) act" where
  "freeBlock addr =
     bnd (block addr) (\<lambda>bl.
     bnd (if bi_mem bl \<noteq> 0
          then bnd (heap_delete (bi_mem bl)) (\<lambda>_. set_block addr (\<lambda>bl. bl\<lparr>bi_mem := 0\<rparr>))
          else ret ()) (\<lambda>_.
     bnd (with_persister (p_erase (ucast addr))) (\<lambda>_.
     bnd (loaded_remove addr) (\<lambda>_.
     pop_blocks))))"

definition free :: "segment \<Rightarrow> (allocator, unit) act" where
  "free alloc = with_lock (
     bnd (load (blockAddr alloc)) (\<lambda>mem.
     bnd (in_block mem (\<lambda>m. free_list_free m (offset alloc))) (\<lambda>_.
     bnd (block_max_size mem) (\<lambda>mx.
     bnd (set_block (blockAddr alloc) (\<lambda>bl. bl\<lparr>bi_maxSize := mx\<rparr>)) (\<lambda>_.
     bnd (heap_get mem) (\<lambda>m.
     bnd (lift_res (free_list_empty m)) (\<lambda>empty.
     if empty then freeBlock (blockAddr alloc) else ret ())))))))"

definition freeFast :: "u32 \<Rightarrow> (allocator, unit) act" where
  "freeFast addr =
     bnd (gets al_max_allocable) (\<lambda>mx.
     bnd (set_block addr (\<lambda>bl. bl\<lparr>bi_maxSize := mx\<rparr>)) (\<lambda>_.
     freeBlock addr))"

text \<open>The segments of loaded blocks are freed in the first pass; what is left is the result.\<close>

fun free_loaded :: "segment list \<Rightarrow> segment list \<Rightarrow> nat \<Rightarrow> (allocator, segment list) act" where
  "free_loaded [] copy i = ret copy"
| "free_loaded (it # segs) copy i =
     bnd lock_mutex (\<lambda>_.
     bnd (gets (\<lambda>s. blockAddr it \<in> fst ` set (al_loaded s))) (\<lambda>found.
     bnd unlock_mutex (\<lambda>_.
     if found then
       bnd (free it) (\<lambda>_. free_loaded segs (take i copy @ drop (Suc i) copy) i)
     else free_loaded segs copy (i + 1))))"

fun free_all :: "segment list \<Rightarrow> (allocator, unit) act" where
  "free_all [] = ret ()"
| "free_all (it # segs) = bnd (free it) (\<lambda>_. free_all segs)"

definition free_segments :: "segment list \<Rightarrow> (allocator, unit) act" where
  "free_segments segs = bnd (free_loaded segs segs 0) free_all"

section \<open>Input and output\<close>

definition alloc_read :: "segment \<Rightarrow> u32 \<Rightarrow> u32 \<Rightarrow> (allocator, bytes) act" where
  "alloc_read alloc off sz = with_lock (
     bnd (load (blockAddr alloc)) (\<lambda>mem.
     bnd (heap_get mem) (\<lambda>m.
     let i = unat (offset alloc) + unat off in
     if i + unat sz \<le> length m then ret (take (unat sz) (drop i m)) else throw Undefined)))"

definition alloc_write :: "segment \<Rightarrow> bytes \<Rightarrow> u32 \<Rightarrow> u32 \<Rightarrow> (allocator, unit) act" where
  "alloc_write alloc data off sz = with_lock (
     bnd (load (blockAddr alloc)) (\<lambda>mem.
     bnd (heap_get mem) (\<lambda>m.
     let i = unat (offset alloc) + unat off in
     if i + unat sz \<le> length m \<and> unat sz \<le> length data
     then heap_set mem (take i m @ take (unat sz) data @ drop (i + unat sz) m)
     else throw Undefined)))"

text \<open>\<^verbatim>\<open>memcpy\<close> does not copy between ranges that overlap.\<close>

definition alloc_copy :: "segment \<Rightarrow> segment \<Rightarrow> u32 \<Rightarrow> (allocator, unit) act" where
  "alloc_copy left right sz = with_lock (
     bnd (load (blockAddr left)) (\<lambda>lMem.
     bnd (load (blockAddr right)) (\<lambda>rMem.
     bnd (heap_get lMem) (\<lambda>l.
     bnd (heap_get rMem) (\<lambda>r.
     let i = unat (offset left); j = unat (offset right) in
     if i + unat sz \<le> length l \<and> j + unat sz \<le> length r \<and>
        (lMem \<noteq> rMem \<or> i + unat sz \<le> j \<or> j + unat sz \<le> i)
     then heap_set rMem (take j r @ take (unat sz) (drop i l) @ drop (j + unat sz) r)
     else throw Undefined)))))"

definition isLoaded :: "u32 \<Rightarrow> (allocator, bool) act" where
  "isLoaded addr = with_lock (bnd (block addr) (\<lambda>bl. ret (bi_mem bl \<noteq> 0)))"

section \<open>Configuration\<close>

partial_function (option) shrink_loop :: "allocator \<Rightarrow> (unit res \<times> allocator) option" where
  "shrink_loop s =
     (if unat (al_max_blocks s) < length (al_loaded s)
      then bnd (evictSome (length (al_loaded s) - unat (al_max_blocks s))) (\<lambda>_ s. shrink_loop s) s
      else ret () s)"

definition resize :: "u32 \<Rightarrow> (allocator, unit) act" where
  "resize nbBlocks = with_lock (
     bnd (modify (\<lambda>s. s\<lparr>al_max_blocks := (if nbBlocks < 2 then 2 else nbBlocks)\<rparr>)) (\<lambda>_ s.
       shrink_loop s))"

definition resetUniqCounter :: "(allocator, unit) act" where
  "resetUniqCounter = with_lock (modify (\<lambda>s. s\<lparr>al_lruStamp := al_lastLRU s, al_uniqLoads := 0\<rparr>))"

text \<open>The new persister is built by its constructor, which may throw (\<open>RemotePersister\<close>).\<close>

definition configure :: "u32 \<Rightarrow> u32 \<Rightarrow> persister res \<Rightarrow> (allocator, unit) act" where
  "configure nbBlocks blockSize new_persister = with_lock (
     bnd (gets al_blocks) (\<lambda>blocks.
     if length blocks \<noteq> 0 then
       throw (RuntimeError ''Cannot change size when there are already allocations'')
     else
       bnd (modify (\<lambda>s. s\<lparr>al_max_blocks := nbBlocks, al_block_size := blockSize,
              al_max_allocable := blockSize - 12, al_persister := None\<rparr>)) (\<lambda>_.
       bnd (lift_res new_persister) (\<lambda>p.
       modify (\<lambda>s. s\<lparr>al_persister := Some p\<rparr>)))))"

definition configure_local :: "u32 \<Rightarrow> u32 \<Rightarrow> nat \<Rightarrow> (string \<Rightarrow> bytes option) \<Rightarrow> (allocator, unit) act" where
  "configure_local nbBlocks blockSize pid files =
     configure nbBlocks blockSize (Inr (Local (localPersister ''./'' pid 0 0 files)))"

definition dispose :: "(allocator, unit) act" where
  "dispose = modify (\<lambda>s. s\<lparr>al_persister := None\<rparr>)"

text \<open>What a constructor finds before \<open>configure\<close>.\<close>

definition allocator_zero :: allocator where
  "allocator_zero =
     \<lparr>al_max_blocks = 0, al_block_size = 0, al_max_allocable = 0, al_loaded = [], al_blocks = [],
      al_persister = None, al_lastLRU = 1, al_lruStamp = 0, al_uniqLoads = 0,
      al_heap = (\<lambda>_. None), al_fresh = 1, al_locked = False, al_clock = 0, al_junk = 0\<rparr>"

definition getNbStored :: "allocator \<Rightarrow> u32" where
  "getNbStored s =
     (if length (al_loaded s) < length (al_blocks s)
      then of_nat (length (al_blocks s) - length (al_loaded s)) else 0)"

definition getMinNbStorable :: "allocator \<Rightarrow> u32" where
  "getMinNbStorable s =
     (if unat (al_max_blocks s) < length (al_blocks s)
      then of_nat (length (al_blocks s) - unat (al_max_blocks s)) else 0)"

definition getNbAllocated :: "allocator \<Rightarrow> u32" where
  "getNbAllocated s = of_nat (length (al_blocks s))"

definition getNbLoaded :: "allocator \<Rightarrow> u32" where
  "getNbLoaded s = of_nat (length (al_loaded s))"

declare evict_loop.simps [code] segments_blocks.simps [code] segments_rest.simps [code] shrink_loop.simps [code]

end
