(* ===== verification/Paging.thy ===== *)
theory Paging
  imports Allocator
begin

text \<open>
  Swapping blocks in and out does not show: the blocks of an allocator are a map from addresses to
  bytes, and loading, evicting, reading and writing act on that map as if everything were in memory.
  The persister is the local one, through the laws of its interface.
\<close>

section \<open>The blocks of an allocator\<close>

definition idx :: "u32 \<Rightarrow> nat" where
  "idx a = unat (a - 1)"

definition valid :: "allocator \<Rightarrow> u32 \<Rightarrow> bool" where
  "valid s a \<longleftrightarrow> idx a < length (al_blocks s)"

definition blk :: "allocator \<Rightarrow> u32 \<Rightarrow> block_info" where
  "blk s a = al_blocks s ! idx a"

definition persisted :: "allocator \<Rightarrow> u32 \<Rightarrow> bytes option" where
  "persisted s a = (case al_persister s of Some (Local l) \<Rightarrow> lp_stored l (ucast a) | _ \<Rightarrow> None)"

definition block_at :: "allocator \<Rightarrow> u32 \<Rightarrow> bytes option" where
  "block_at s a =
     (if \<not> valid s a then None
      else if bi_mem (blk s a) \<noteq> 0 then al_heap s (bi_mem (blk s a))
      else persisted s a)"

definition keys :: "allocator \<Rightarrow> u32 set" where
  "keys s = fst ` set (al_loaded s)"

definition al_inv :: "allocator \<Rightarrow> bool" where
  "al_inv s \<longleftrightarrow>
     (\<exists>l. al_persister s = Some (Local l) \<and> lp_ok l) \<and>
     distinct (map fst (al_loaded s)) \<and>
     (\<forall>a p. (a, p) \<in> set (al_loaded s) \<longleftrightarrow> valid s a \<and> bi_mem (blk s a) = p \<and> p \<noteq> 0) \<and>
     (\<forall>a. valid s a \<longrightarrow> bi_mem (blk s a) \<noteq> 0 \<longrightarrow>
        (\<exists>m. al_heap s (bi_mem (blk s a)) = Some m \<and> length m = unat (al_block_size s))) \<and>
     (\<forall>a b. valid s a \<longrightarrow> valid s b \<longrightarrow> bi_mem (blk s a) = bi_mem (blk s b) \<longrightarrow>
        bi_mem (blk s a) \<noteq> 0 \<longrightarrow> a = b) \<and>
     (\<forall>p. al_heap s p \<noteq> None \<longrightarrow> p < al_fresh s) \<and> 0 < al_fresh s \<and>
     (\<forall>a m. persisted s a = Some m \<longrightarrow> length m = unat (al_block_size s)) \<and>
     length (al_blocks s) < 2 ^ 32 - 1 \<and>
     0 < unat (al_max_blocks s) \<and> length (al_loaded s) \<le> unat (al_max_blocks s)"

lemma idx_inj: "idx a = idx b \<longleftrightarrow> a = b"
  by (simp add: idx_def word_unat_eq_iff [symmetric])

lemma valid_nonzero: "al_inv s \<Longrightarrow> valid s a \<Longrightarrow> a \<noteq> 0"
proof
  assume i: "al_inv s" and v: "valid s a" and "a = 0"
  moreover have "unat (- 1 :: u32) = 2 ^ 32 - 1" by (simp add: unsigned_minus_1_eq_mask mask_eq_exp_minus_1)
  ultimately show False by (simp add: al_inv_def valid_def idx_def)
qed

text \<open>What al_inv says, by name.\<close>

lemma al_invD:
  assumes "al_inv s"
  shows inv_distinct: "distinct (map fst (al_loaded s))"
    and inv_loaded: "(a, p) \<in> set (al_loaded s) \<longleftrightarrow> valid s a \<and> bi_mem (blk s a) = p \<and> p \<noteq> 0"
    and inv_heap: "valid s a \<Longrightarrow> bi_mem (blk s a) \<noteq> 0 \<Longrightarrow>
      \<exists>m. al_heap s (bi_mem (blk s a)) = Some m \<and> length m = unat (al_block_size s)"
    and inv_unique: "valid s a \<Longrightarrow> valid s b \<Longrightarrow> bi_mem (blk s a) = bi_mem (blk s b) \<Longrightarrow>
      bi_mem (blk s a) \<noteq> 0 \<Longrightarrow> a = b"
    and inv_fresh: "al_heap s p \<noteq> None \<Longrightarrow> p < al_fresh s" "0 < al_fresh s"
    and inv_persisted: "persisted s a = Some m \<Longrightarrow> length m = unat (al_block_size s)"
    and inv_max: "0 < unat (al_max_blocks s)" "length (al_loaded s) \<le> unat (al_max_blocks s)"
  using assms unfolding al_inv_def by blast+

lemma keys_iff: "al_inv s \<Longrightarrow> a \<in> keys s \<longleftrightarrow> valid s a \<and> bi_mem (blk s a) \<noteq> 0"
  by (auto simp: keys_def image_iff Bex_def inv_loaded)

lemma block_at_length: "al_inv s \<Longrightarrow> block_at s a = Some m \<Longrightarrow> length m = unat (al_block_size s)"
  using inv_heap [of s a] inv_persisted [of s a m] by (auto simp: block_at_def split: if_splits)

lemma block_at_valid: "block_at s a = Some m \<Longrightarrow> valid s a"
  by (simp add: block_at_def split: if_splits)

section \<open>Running the accessors\<close>

lemma accessor_run [act_simps]:
  "valid s a \<Longrightarrow> block a s = Some (Inr (blk s a), s)"
  "valid s a \<Longrightarrow> set_block a f s = Some (Inr (), s\<lparr>al_blocks := (al_blocks s)[idx a := f (blk s a)]\<rparr>)"
  "al_heap s p = Some m \<Longrightarrow> heap_get p s = Some (Inr m, s)"
  "al_heap s p = Some m \<Longrightarrow> heap_set p m' s = Some (Inr (), s\<lparr>al_heap := (al_heap s)(p := Some m')\<rparr>)"
  "al_heap s p = Some m \<Longrightarrow> heap_delete p s = Some (Inr (), s\<lparr>al_heap := (al_heap s)(p := None)\<rparr>)"
  "heap_new m s = Some (Inr (al_fresh s), s\<lparr>al_heap := (al_heap s)(al_fresh s := Some m), al_fresh := al_fresh s + 1\<rparr>)"
  "next_lru s = Some (Inr (al_lastLRU s), s\<lparr>al_lastLRU := al_lastLRU s + 1\<rparr>)"
  by (simp_all add: block_def set_block_def heap_get_def heap_set_def heap_delete_def heap_new_def
      next_lru_def valid_def idx_def blk_def Let_def)

lemma valid_upd [simp]:
  "valid (s\<lparr>al_blocks := (al_blocks s)[i := x]\<rparr>) = valid s"
  "valid (s\<lparr>al_heap := h\<rparr>) = valid s" "valid (s\<lparr>al_fresh := n\<rparr>) = valid s"
  "valid (s\<lparr>al_lastLRU := w\<rparr>) = valid s" "valid (s\<lparr>al_uniqLoads := w\<rparr>) = valid s"
  "valid (s\<lparr>al_loaded := L\<rparr>) = valid s" "valid (s\<lparr>al_persister := P\<rparr>) = valid s"
  "valid (s\<lparr>al_clock := n\<rparr>) = valid s" "valid (s\<lparr>al_locked := b\<rparr>) = valid s"
  by (auto simp: valid_def)

lemma blk_upd [simp]:
  "blk (s\<lparr>al_heap := h\<rparr>) = blk s" "blk (s\<lparr>al_fresh := n\<rparr>) = blk s"
  "blk (s\<lparr>al_lastLRU := w\<rparr>) = blk s" "blk (s\<lparr>al_uniqLoads := w\<rparr>) = blk s"
  "blk (s\<lparr>al_loaded := L\<rparr>) = blk s" "blk (s\<lparr>al_persister := P\<rparr>) = blk s"
  "blk (s\<lparr>al_clock := n\<rparr>) = blk s" "blk (s\<lparr>al_locked := b\<rparr>) = blk s"
  by (auto simp: blk_def)

lemma blk_set: "valid s a \<Longrightarrow>
  blk (s\<lparr>al_blocks := (al_blocks s)[idx a := x]\<rparr>) b = (if b = a then x else blk s b)"
  by (auto simp: blk_def valid_def nth_list_update idx_inj)

lemma with_local [act_simps]:
  assumes "al_persister s = Some (Local l)"
  shows "lp_save a m n l = Some (r, l') \<Longrightarrow>
      with_persister (p_save a m n) s = Some (r, s\<lparr>al_persister := Some (Local l')\<rparr>)"
    and "lp_load a m n l = Some (r', l') \<Longrightarrow>
      with_persister (p_load a m n) s = Some (r', s\<lparr>al_persister := Some (Local l')\<rparr>)"
    and "lp_erase a l = Some (r, l') \<Longrightarrow>
      with_persister (p_erase a) s = Some (r, s\<lparr>al_persister := Some (Local l')\<rparr>)"
  using assms by (simp_all add: with_persister_def p_save_def p_load_def p_erase_def on_local_def)

lemma ucast_addr_inj: "(ucast (a :: u32) :: u64) = ucast b \<longleftrightarrow> a = b"
proof -
  have "unat (ucast w :: u64) = unat w" for w :: u32
    using unat_less_u32 [of w] by (simp add: unsigned_ucast_eq take_bit_nat_eq_self_iff)
  then show ?thesis by (metis word_unat_eq_iff)
qed

section \<open>What evicting and loading leave unchanged\<close>

definition same_config :: "allocator \<Rightarrow> allocator \<Rightarrow> bool" where
  "same_config s s' \<longleftrightarrow> al_max_blocks s' = al_max_blocks s \<and> al_block_size s' = al_block_size s \<and>
     al_max_allocable s' = al_max_allocable s \<and> al_locked s' = al_locked s \<and>
     length (al_blocks s') = length (al_blocks s) \<and>
     (\<forall>a. valid s a \<longrightarrow> bi_maxSize (blk s' a) = bi_maxSize (blk s a))"

definition paged :: "allocator \<Rightarrow> allocator \<Rightarrow> bool" where
  "paged s s' \<longleftrightarrow> al_inv s' \<and> block_at s' = block_at s \<and> same_config s s'"

lemma same_config_refl [simp]: "same_config s s"
  by (simp add: same_config_def)

lemma same_config_valid: "same_config s s' \<Longrightarrow> valid s' = valid s"
  by (auto simp: same_config_def valid_def)

lemma same_config_trans: "same_config s s' \<Longrightarrow> same_config s' s'' \<Longrightarrow> same_config s s''"
  using same_config_valid [of s s'] by (simp add: same_config_def)

lemma paged_trans: "paged s s' \<Longrightarrow> paged s' s'' \<Longrightarrow> paged s s''"
  by (auto simp: paged_def intro: same_config_trans)

section \<open>Eviction\<close>

text \<open>The least recently used of the loaded blocks, provided its stamp is below the bound.\<close>

definition lru :: "allocator \<Rightarrow> u32 \<Rightarrow> nat" where
  "lru s a = unat (bi_lru (blk s a))"

lemma pick_loop_run:
  "\<forall>x \<in> set L. valid s (fst x) \<Longrightarrow>
   \<exists>a. pick_loop L mn addr s = Some (Inr a, s) \<and>
     (a = addr \<and> (\<forall>b \<in> fst ` set L. mn \<le> lru s b) \<or>
      a \<in> fst ` set L \<and> lru s a < mn \<and> (\<forall>b \<in> fst ` set L. lru s a \<le> lru s b))"
proof (induction L arbitrary: mn addr)
  case (Cons x L)
  obtain it q where x: "x = (it, q)" by (cases x)
  have v: "valid s it" using Cons.prems x by auto
  show ?case
  proof (cases "lru s it < mn")
    case True
    with Cons.IH [of "lru s it" it] Cons.prems obtain a where
      "pick_loop L (lru s it) it s = Some (Inr a, s)"
      "a = it \<and> (\<forall>b \<in> fst ` set L. lru s it \<le> lru s b) \<or>
       a \<in> fst ` set L \<and> lru s a < lru s it \<and> (\<forall>b \<in> fst ` set L. lru s a \<le> lru s b)" by force
    with True show ?thesis
      by (intro exI [of _ a]) (auto simp: x act_simps v lru_def intro: order.trans less_imp_le)
  next
    case False
    with Cons.IH [of mn addr] Cons.prems obtain a where
      "pick_loop L mn addr s = Some (Inr a, s)"
      "a = addr \<and> (\<forall>b \<in> fst ` set L. mn \<le> lru s b) \<or>
       a \<in> fst ` set L \<and> lru s a < mn \<and> (\<forall>b \<in> fst ` set L. lru s a \<le> lru s b)" by force
    with False show ?thesis
      by (intro exI [of _ a]) (auto simp: x act_simps v lru_def)
  qed
qed (simp add: act_simps)

lemma pick_lru_run:
  assumes "al_inv s"
  shows "\<exists>a. pick_lru s = Some (Inr a, s) \<and>
    (a = 0 \<and> (\<forall>b \<in> keys s. al_clock s div 10 + 10 \<le> lru s b) \<or>
     a \<in> keys s \<and> a \<noteq> 0 \<and> (\<forall>b \<in> keys s. lru s a \<le> lru s b))"
proof -
  have "\<forall>x \<in> set (al_loaded s). valid s (fst x)" using inv_loaded [OF assms] by auto
  from pick_loop_run [OF this, of "al_clock s div 10 + 10" 0] obtain a where
    a: "pick_loop (al_loaded s) (al_clock s div 10 + 10) 0 s = Some (Inr a, s)"
    "a = 0 \<and> (\<forall>b \<in> keys s. al_clock s div 10 + 10 \<le> lru s b) \<or>
      a \<in> keys s \<and> (\<forall>b \<in> keys s. lru s a \<le> lru s b)" by (auto simp: keys_def)
  moreover have "a \<noteq> 0" if "a \<in> keys s" using that keys_iff [OF assms] valid_nonzero [OF assms] by blast
  ultimately show ?thesis by (intro exI [of _ a]) (auto simp: pick_lru_def act_simps)
qed

definition evicted :: "allocator \<Rightarrow> u32 \<Rightarrow> local_persister \<Rightarrow> allocator" where
  "evicted s a l = s\<lparr>al_persister := Some (Local l),
     al_loaded := filter (\<lambda>(b, p). b \<noteq> a) (al_loaded s),
     al_blocks := (al_blocks s)[idx a := (blk s a)\<lparr>bi_mem := 0\<rparr>],
     al_heap := (al_heap s)(bi_mem (blk s a) := None)\<rparr>"

lemma evicted_simps [simp]:
  "valid (evicted s a l) = valid s" "al_clock (evicted s a l) = al_clock s"
  "al_lastLRU (evicted s a l) = al_lastLRU s" "al_fresh (evicted s a l) = al_fresh s"
  "al_block_size (evicted s a l) = al_block_size s" "al_max_blocks (evicted s a l) = al_max_blocks s"
  "al_heap (evicted s a l) = (al_heap s)(bi_mem (blk s a) := None)"
  "al_persister (evicted s a l) = Some (Local l)" "al_junk (evicted s a l) = al_junk s"
  "al_loaded (evicted s a l) = filter (\<lambda>(b, p). b \<noteq> a) (al_loaded s)"
  by (auto simp: evicted_def valid_def)

lemma blk_evicted:
  "valid s a \<Longrightarrow> blk (evicted s a l) b = (if b = a then (blk s a)\<lparr>bi_mem := 0\<rparr> else blk s b)"
  by (auto simp: evicted_def blk_def valid_def nth_list_update idx_inj)

lemma keys_evicted [simp]: "keys (evicted s a l) = keys s - {a}"
  by (force simp: keys_def)

lemma evict_block_run:
  assumes inv: "al_inv s" and a: "a \<in> keys s"
  shows "\<exists>l. evict_block a s = Some (Inr (), evicted s a l) \<and> paged s (evicted s a l) \<and>
    persisted (evicted s a l) = (persisted s)(a := block_at s a)"
proof -
  let ?p = "bi_mem (blk s a)"
  from a keys_iff [OF inv] have v: "valid s a" and p: "?p \<noteq> 0" by auto
  from inv_heap [OF inv v p] obtain m where
    m: "al_heap s ?p = Some m" "length m = unat (al_block_size s)" by auto
  from inv obtain l where l: "al_persister s = Some (Local l)" "lp_ok l" by (auto simp: al_inv_def)
  from lp.save_law [OF l(2) m(2), of "ucast a"] obtain l' where
    l': "lp_save (ucast a) m (unat (al_block_size s)) l = Some (Inr (), l')" "lp_ok l'"
      "lp_stored l' = (lp_stored l)(ucast a \<mapsto> m)" by (auto elim: returnsE)
  have mo: "map_of (al_loaded s) a = Some ?p"
    using inv_loaded [OF inv, of a ?p] v p inv_distinct [OF inv] by simp
  have run: "evict_block a s = Some (Inr (), evicted s a l')"
    using v m mo l l' by (simp add: evict_block_def act_simps loaded_remove_def evicted_def)
  have at: "block_at s a = Some m" using v p m by (simp add: block_at_def)
  have per: "persisted (evicted s a l') = (persisted s)(a := block_at s a)"
    by (rule ext) (auto simp: persisted_def l l'(3) ucast_addr_inj at)
  have other: "bi_mem (blk s b) \<noteq> ?p" if "valid s b" "b \<noteq> a" for b
    using inv_unique [OF inv v that(1)] p that(2) by auto
  have content: "block_at (evicted s a l') = block_at s"
  proof
    fix b
    show "block_at (evicted s a l') b = block_at s b"
      using v other [of b] by (auto simp: block_at_def blk_evicted [OF v] per at [unfolded block_at_def])
  qed
  have cfg: "same_config s (evicted s a l')"
    using v by (simp add: same_config_def blk_evicted) (simp add: evicted_def)
  have "al_inv (evicted s a l')"
    unfolding al_inv_def
  proof (intro conjI allI impI)
    show "\<exists>k. al_persister (evicted s a l') = Some (Local k) \<and> lp_ok k" using l'(2) by simp
    show "distinct (map fst (al_loaded (evicted s a l')))"
      using inv_distinct [OF inv] by (simp add: distinct_map_filter)
    show "(b, q) \<in> set (al_loaded (evicted s a l')) \<longleftrightarrow>
        valid (evicted s a l') b \<and> bi_mem (blk (evicted s a l') b) = q \<and> q \<noteq> 0" for b q
      by (auto simp: blk_evicted [OF v] inv_loaded [OF inv])
    show "\<exists>k. al_heap (evicted s a l') (bi_mem (blk (evicted s a l') b)) = Some k \<and>
        length k = unat (al_block_size (evicted s a l'))"
      if "valid (evicted s a l') b" "bi_mem (blk (evicted s a l') b) \<noteq> 0" for b
      using that inv_heap [OF inv, of b] other [of b] by (auto simp: blk_evicted [OF v] split: if_splits)
    show "b = c" if "valid (evicted s a l') b" "valid (evicted s a l') c"
      "bi_mem (blk (evicted s a l') b) = bi_mem (blk (evicted s a l') c)"
      "bi_mem (blk (evicted s a l') b) \<noteq> 0" for b c
      using that inv_unique [OF inv, of b c] by (auto simp: blk_evicted [OF v] split: if_splits)
    show "q < al_fresh (evicted s a l')" if "al_heap (evicted s a l') q \<noteq> None" for q
      using that inv_fresh(1) [OF inv, of q] by (auto split: if_splits)
    show "length k = unat (al_block_size (evicted s a l'))" if "persisted (evicted s a l') b = Some k" for b k
      using that inv_persisted [OF inv, of b k] m(2) by (auto simp: per at split: if_splits)
    show "length (al_loaded (evicted s a l')) \<le> unat (al_max_blocks (evicted s a l'))"
      using inv_max(2) [OF inv] by (auto intro: order.trans [OF length_filter_le])
  qed (use inv in \<open>auto simp: al_inv_def evicted_def\<close>)
  with run content cfg per show ?thesis by (auto simp: paged_def)
qed

lemma clock_upd [simp]:
  "block_at (s\<lparr>al_clock := c\<rparr>) = block_at s" "persisted (s\<lparr>al_clock := c\<rparr>) = persisted s"
  "keys (s\<lparr>al_clock := c\<rparr>) = keys s" "lru (s\<lparr>al_clock := c\<rparr>) = lru s"
  "al_inv (s\<lparr>al_clock := c\<rparr>) = al_inv s" "same_config (s\<lparr>al_clock := c\<rparr>) = same_config s"
  "paged (s\<lparr>al_clock := c\<rparr>) = paged s"
  by (auto simp: block_at_def persisted_def keys_def lru_def al_inv_def same_config_def paged_def fun_eq_iff)

text \<open>
  Evicting one block returns: while no stamp is below the clock the allocator sleeps, and the clock
  passes any stamp in the end.
\<close>

lemma evict_one:
  assumes "al_inv s" and "keys s \<noteq> {}"
  shows "\<exists>a l c. evict_loop 1 0 s = Some (Inr (), evicted (s\<lparr>al_clock := c\<rparr>) a l) \<and>
    a \<in> keys s \<and> (\<forall>b \<in> keys s. lru s a \<le> lru s b) \<and> paged s (evicted (s\<lparr>al_clock := c\<rparr>) a l) \<and>
    persisted (evicted (s\<lparr>al_clock := c\<rparr>) a l) = (persisted s)(a := block_at s a)"
  using assms
proof (induction "10 * 2 ^ 32 - al_clock s" arbitrary: s rule: less_induct)
  case less
  from pick_lru_run [OF less.prems(1)] obtain a where a: "pick_lru s = Some (Inr a, s)"
    "a = 0 \<and> (\<forall>b \<in> keys s. al_clock s div 10 + 10 \<le> lru s b) \<or>
     a \<in> keys s \<and> a \<noteq> 0 \<and> (\<forall>b \<in> keys s. lru s a \<le> lru s b)" by auto
  have last: "evict_loop 1 1 t = Some (Inr (), t)" for t by (subst evict_loop.simps) (simp add: act_simps)
  from a(2) show ?case
  proof
    assume a': "a \<in> keys s \<and> a \<noteq> 0 \<and> (\<forall>b \<in> keys s. lru s a \<le> lru s b)"
    with evict_block_run [OF less.prems(1)] obtain l where
      l: "evict_block a s = Some (Inr (), evicted s a l)" "paged s (evicted s a l)"
        "persisted (evicted s a l) = (persisted s)(a := block_at s a)" by auto
    have "evict_loop 1 0 s = Some (Inr (), evicted s a l)"
      using a' by (subst evict_loop.simps) (simp add: act_simps a(1) l(1) last [simplified])
    then show ?thesis using l a' by (intro exI [of _ a] exI [of _ l] exI [of _ "al_clock s"]) simp
  next
    assume a': "a = 0 \<and> (\<forall>b \<in> keys s. al_clock s div 10 + 10 \<le> lru s b)"
    from less.prems(2) obtain b where "b \<in> keys s" by auto
    with a' have "al_clock s div 10 + 10 \<le> lru s b" by auto
    moreover have "lru s b < 2 ^ 32" using unat_less_u32 by (simp add: lru_def)
    ultimately have "10 * 2 ^ 32 - (al_clock s + 1) < 10 * 2 ^ 32 - al_clock s" by linarith
    with less.hyps [of "s\<lparr>al_clock := al_clock s + 1\<rparr>"] less.prems obtain e l c where
      e: "evict_loop 1 0 (s\<lparr>al_clock := al_clock s + 1\<rparr>) = Some (Inr (), evicted (s\<lparr>al_clock := c\<rparr>) e l)"
        "e \<in> keys s" "\<forall>b \<in> keys s. lru s e \<le> lru s b" "paged s (evicted (s\<lparr>al_clock := c\<rparr>) e l)"
        "persisted (evicted (s\<lparr>al_clock := c\<rparr>) e l) = (persisted s)(e := block_at s e)" by auto
    have "evict_loop 1 0 s = Some (Inr (), evicted (s\<lparr>al_clock := c\<rparr>) e l)"
      using a' e(1) by (subst evict_loop.simps)
        (simp add: act_simps a(1) timer_sleep_def last [simplified])
    then show ?thesis using e by blast
  qed
qed

text \<open>What making room for one block does.\<close>

definition roomy :: "allocator \<Rightarrow> allocator \<Rightarrow> bool" where
  "roomy s s' \<longleftrightarrow> paged s s' \<and> length (al_loaded s') < unat (al_max_blocks s) \<and>
     keys s' \<subseteq> keys s \<and> (length (al_loaded s) \<noteq> unat (al_max_blocks s) \<longrightarrow> keys s' = keys s) \<and>
     al_lastLRU s' = al_lastLRU s \<and> al_junk s' = al_junk s \<and>
     (\<forall>b. valid s b \<longrightarrow> bi_lru (blk s' b) = bi_lru (blk s b)) \<and>
     (\<forall>b. b \<in> keys s' \<longrightarrow> blk s' b = blk s b) \<and>
     (\<forall>b. b \<notin> keys s \<longrightarrow> valid s b \<longrightarrow> blk s' b = blk s b \<and> persisted s' b = persisted s b) \<and>
     (\<forall>b \<in> keys s - keys s'. \<forall>c \<in> keys s. lru s b \<le> lru s c)"

lemma length_removed: "a \<in> fst ` set L \<Longrightarrow> length (filter (\<lambda>(b, p). b \<noteq> a) L) < length L"
  by (auto intro: length_filter_less)

lemma evict_if_full_run:
  assumes inv: "al_inv s"
  shows "\<exists>s'. evict_if_full s = Some (Inr (), s') \<and> roomy s s'"
proof (cases "length (al_loaded s) = unat (al_max_blocks s)")
  case False
  then show ?thesis using inv inv_max [OF inv]
    by (intro exI [of _ s]) (auto simp: evict_if_full_def act_simps roomy_def paged_def)
next
  case True
  then have ne: "keys s \<noteq> {}" using inv_max [OF inv] by (auto simp: keys_def)
  from evict_one [OF inv ne] obtain a l c where
    e: "evict_loop 1 0 s = Some (Inr (), evicted (s\<lparr>al_clock := c\<rparr>) a l)" "a \<in> keys s"
      "\<forall>b \<in> keys s. lru s a \<le> lru s b" "paged s (evicted (s\<lparr>al_clock := c\<rparr>) a l)"
      "persisted (evicted (s\<lparr>al_clock := c\<rparr>) a l) = (persisted s)(a := block_at s a)" by auto
  let ?s' = "evicted (s\<lparr>al_clock := c\<rparr>) a l"
  have v: "valid (s\<lparr>al_clock := c\<rparr>) a" using e(2) keys_iff [OF inv] by simp
  have "length (al_loaded ?s') < unat (al_max_blocks s)"
    using length_removed [OF e(2) [unfolded keys_def]] True by simp
  then have "roomy s ?s'"
    using e(2-5) v True by (auto simp: roomy_def blk_evicted)
  moreover have "evict_if_full s = Some (Inr (), ?s')"
    using True e(1) by (simp add: evict_if_full_def act_simps evictSome_def evict_nb_def)
  ultimately show ?thesis by blast
qed

section \<open>Loading\<close>

definition installed :: "allocator \<Rightarrow> u32 \<Rightarrow> local_persister \<Rightarrow> bytes \<Rightarrow> u32 \<Rightarrow> u32 \<Rightarrow> allocator" where
  "installed s a l m u w = s\<lparr>al_persister := Some (Local l),
     al_heap := (al_heap s)(al_fresh s := Some m), al_fresh := al_fresh s + 1,
     al_loaded := (a, al_fresh s) # al_loaded s, al_uniqLoads := u,
     al_blocks := (al_blocks s)[idx a := (blk s a)\<lparr>bi_lru := w, bi_mem := al_fresh s\<rparr>]\<rparr>"

lemma installed_simps [simp]:
  "valid (installed s a l m u w) = valid s"
  "al_lastLRU (installed s a l m u w) = al_lastLRU s" "al_fresh (installed s a l m u w) = al_fresh s + 1"
  "al_block_size (installed s a l m u w) = al_block_size s"
  "al_max_blocks (installed s a l m u w) = al_max_blocks s"
  "al_heap (installed s a l m u w) = (al_heap s)(al_fresh s := Some m)"
  "al_persister (installed s a l m u w) = Some (Local l)" "al_junk (installed s a l m u w) = al_junk s"
  "al_loaded (installed s a l m u w) = (a, al_fresh s) # al_loaded s"
  by (auto simp: installed_def valid_def)

lemma keys_installed [simp]: "keys (installed s a l m u w) = insert a (keys s)"
  by (simp add: keys_def)

lemma blk_installed: "valid s a \<Longrightarrow>
  blk (installed s a l m u w) b =
    (if b = a then (blk s a)\<lparr>bi_lru := w, bi_mem := al_fresh s\<rparr> else blk s b)"
  by (auto simp: installed_def blk_def valid_def nth_list_update idx_inj)

lemma installed_paged:
  assumes inv: "al_inv s" and v: "valid s a" and mem: "bi_mem (blk s a) = 0"
    and at: "block_at s a = Some m" and room: "length (al_loaded s) < unat (al_max_blocks s)"
    and l: "al_persister s = Some (Local l)" "lp_ok l'" "lp_stored l' = (lp_stored l)(ucast a := None)"
  shows "paged s (installed s a l' m u w)"
proof -
  let ?s = "installed s a l' m u w"
  have heap: "al_heap s (al_fresh s) = None" using inv_fresh(1) [OF inv, of "al_fresh s"] by blast
  have other: "bi_mem (blk s b) \<noteq> al_fresh s" if "valid s b" for b
    using inv_heap [OF inv that] inv_fresh(2) [OF inv] heap by fastforce
  have per: "persisted ?s = (persisted s)(a := None)"
    by (rule ext) (auto simp: persisted_def l ucast_addr_inj)
  have content: "block_at ?s = block_at s"
  proof
    fix b show "block_at ?s b = block_at s b"
      using v at other [of b] inv_fresh(2) [OF inv] by (auto simp: block_at_def blk_installed [OF v] per)
  qed
  have cfg: "same_config s ?s" using v by (simp add: same_config_def blk_installed) (simp add: installed_def)
  have m: "length m = unat (al_block_size s)" by (rule block_at_length [OF inv at])
  have "al_inv ?s"
    unfolding al_inv_def
  proof (intro conjI allI impI)
    show "\<exists>k. al_persister ?s = Some (Local k) \<and> lp_ok k" using l by simp
    have "a \<notin> keys s" using mem keys_iff [OF inv] by simp
    then show "distinct (map fst (al_loaded ?s))" using inv_distinct [OF inv] by (auto simp: keys_def)
    show "(b, q) \<in> set (al_loaded ?s) \<longleftrightarrow> valid ?s b \<and> bi_mem (blk ?s b) = q \<and> q \<noteq> 0" for b q
      using v mem inv_fresh(2) [OF inv] by (auto simp: blk_installed [OF v] inv_loaded [OF inv])
    show "\<exists>k. al_heap ?s (bi_mem (blk ?s b)) = Some k \<and> length k = unat (al_block_size ?s)"
      if "valid ?s b" "bi_mem (blk ?s b) \<noteq> 0" for b
      using that inv_heap [OF inv, of b] other [of b] m by (auto simp: blk_installed [OF v] split: if_splits)
    show "b = c" if "valid ?s b" "valid ?s c" "bi_mem (blk ?s b) = bi_mem (blk ?s c)" "bi_mem (blk ?s b) \<noteq> 0" for b c
      using that inv_unique [OF inv, of b c] other [of b] other [of c]
      by (auto simp: blk_installed [OF v] split: if_splits)
    show "q < al_fresh ?s" if "al_heap ?s q \<noteq> None" for q
      using that inv_fresh(1) [OF inv, of q] by (auto split: if_splits)
    show "length k = unat (al_block_size ?s)" if "persisted ?s b = Some k" for b k
      using that inv_persisted [OF inv, of b k] by (auto simp: per split: if_splits)
    show "length (al_loaded ?s) \<le> unat (al_max_blocks ?s)" using room by simp
  qed (use inv in \<open>auto simp: al_inv_def installed_def\<close>)
  with content cfg show ?thesis by (simp add: paged_def)
qed

text \<open>What holds when a block was loaded.\<close>

definition has_loaded :: "allocator \<Rightarrow> u32 \<Rightarrow> bytes \<Rightarrow> nat \<Rightarrow> allocator \<Rightarrow> bool" where
  "has_loaded s a m p s' \<longleftrightarrow> paged s s' \<and> valid s a \<and> p \<noteq> 0 \<and> bi_mem (blk s' a) = p \<and> al_heap s' p = Some m \<and>
     (bi_mem (blk s a) \<noteq> 0 \<longrightarrow> p = bi_mem (blk s a)) \<and> lru s' a = unat (al_lastLRU s) \<and> al_lastLRU s' = al_lastLRU s + 1 \<and> a \<in> keys s' \<and>
     keys s' \<subseteq> insert a (keys s) \<and> (length (al_loaded s) \<noteq> unat (al_max_blocks s) \<longrightarrow> keys s \<subseteq> keys s') \<and>
     (\<forall>b. b \<noteq> a \<longrightarrow> valid s b \<longrightarrow> lru s' b = lru s b) \<and>
     (\<forall>b \<in> keys s'. b \<noteq> a \<longrightarrow> bi_mem (blk s' b) = bi_mem (blk s b)) \<and>
     (\<forall>b \<in> keys s - keys s'. \<forall>c \<in> keys s. lru s b \<le> lru s c)"

lemma counters_upd [simp]:
  "block_at (s\<lparr>al_lastLRU := w\<rparr>) = block_at s" "persisted (s\<lparr>al_lastLRU := w\<rparr>) = persisted s"
  "keys (s\<lparr>al_lastLRU := w\<rparr>) = keys s" "lru (s\<lparr>al_lastLRU := w\<rparr>) = lru s"
  "al_inv (s\<lparr>al_lastLRU := w\<rparr>) = al_inv s" "same_config (s\<lparr>al_lastLRU := w\<rparr>) = same_config s"
  "paged (s\<lparr>al_lastLRU := w\<rparr>) = paged s"
  "block_at (s\<lparr>al_uniqLoads := w\<rparr>) = block_at s" "persisted (s\<lparr>al_uniqLoads := w\<rparr>) = persisted s"
  "keys (s\<lparr>al_uniqLoads := w\<rparr>) = keys s" "lru (s\<lparr>al_uniqLoads := w\<rparr>) = lru s"
  "al_inv (s\<lparr>al_uniqLoads := w\<rparr>) = al_inv s" "same_config (s\<lparr>al_uniqLoads := w\<rparr>) = same_config s"
  by (auto simp: block_at_def persisted_def keys_def lru_def al_inv_def same_config_def paged_def fun_eq_iff)

definition uniq :: "u32 \<Rightarrow> allocator \<Rightarrow> u32" where
  "uniq w s = (if w < al_lruStamp s then al_uniqLoads s + 1 else al_uniqLoads s)"

lemma count_uniq_run [act_simps]: "count_uniq w s = Some (Inr (), s\<lparr>al_uniqLoads := uniq w s\<rparr>)"
  by (simp add: count_uniq_def uniq_def act_simps)

lemma load_absent:
  assumes inv: "al_inv s" and at: "block_at s a = Some m" and mem: "bi_mem (blk s a) = 0"
  shows "\<exists>p s'. load a s = Some (Inr p, s') \<and> has_loaded s a m p s'"
proof -
  let ?s1 = "s\<lparr>al_lastLRU := al_lastLRU s + 1\<rparr>"
  have v: "valid s a" using at by (auto simp: block_at_def split: if_splits)
  from evict_if_full_run [of ?s1] inv obtain s2 where
    e: "evict_if_full ?s1 = Some (Inr (), s2)" and rm: "roomy ?s1 s2" by auto
  have a: "a \<notin> keys s" using mem keys_iff [OF inv] by simp
  have p2: "paged s s2" "al_inv s2" "valid s2 a" "bi_mem (blk s2 a) = 0" "block_at s2 a = Some m"
    "length (al_loaded s2) < unat (al_max_blocks s2)" "al_block_size s2 = al_block_size s"
    using rm v a mem at by (auto simp: roomy_def paged_def dest: same_config_valid) (auto simp: same_config_def)
  from p2(2) obtain l where l: "al_persister s2 = Some (Local l)" "lp_ok l" by (auto simp: al_inv_def)
  have len: "length m = unat (al_block_size s)" by (rule block_at_length [OF inv at])
  have "lp_stored l (ucast a) = Some m"
    using p2(3,4,5) l(1) by (simp add: block_at_def persisted_def)
  from lp.load_law [OF l(2) this len, of "replicate (unat (al_block_size s)) (al_junk s2)"] obtain l' where
    l': "lp_load (ucast a) (replicate (unat (al_block_size s)) (al_junk s2)) (unat (al_block_size s)) l = Some (Inr m, l')"
      "lp_ok l'" "lp_stored l' = (lp_stored l)(ucast a := None)" by (auto elim: returnsE)
  have a2: "a \<notin> fst ` set (al_loaded s2)" using rm a by (auto simp: roomy_def keys_def)
  let ?s3 = "s2\<lparr>al_heap := (al_heap s2)(al_fresh s2 := Some m), al_fresh := al_fresh s2 + 1,
    al_persister := Some (Local l'), al_loaded := (a, al_fresh s2) # al_loaded s2\<rparr>"
  let ?u = "uniq (bi_lru (blk s a)) ?s3"
  let ?s' = "installed s2 a l' m ?u (al_lastLRU s)"
  have "load a s = Some (Inr (al_fresh s2), ?s')"
    using v mem e p2(3) l(1) l'(1) a2
    by (simp add: load_def act_simps p2(7) loaded_add_def)
      (rule allocator.equality; simp add: installed_def uniq_def blk_def)
  moreover have "has_loaded s a m (al_fresh s2) ?s'"
  proof -
    note bi = blk_installed [OF p2(3)]
    note r = rm [unfolded roomy_def]
    have "paged s ?s'" by (rule paged_trans [OF p2(1) installed_paged [OF p2(2-6) l(1) l'(2,3)]])
    moreover have "lru ?s' b = lru s b" if "b \<noteq> a" "valid s b" for b using r that by (simp add: lru_def bi)
    moreover have "lru ?s' a = unat (al_lastLRU s)" "bi_mem (blk ?s' a) = al_fresh s2" by (simp_all add: lru_def bi)
    moreover have "bi_mem (blk ?s' b) = bi_mem (blk s b)" if "b \<in> keys ?s'" "b \<noteq> a" for b
      using r that by (simp add: bi)
    moreover have "lru s b \<le> lru s c" if "b \<in> keys s - keys ?s'" "c \<in> keys s" for b c
      using r that by simp
    moreover have "keys ?s' \<subseteq> insert a (keys s)"
      "length (al_loaded s) \<noteq> unat (al_max_blocks s) \<longrightarrow> keys s \<subseteq> keys ?s'" using r by auto
    ultimately show ?thesis
      using v mem r inv_fresh(2) [OF p2(2)] unfolding has_loaded_def by simp
  qed
  ultimately show ?thesis by blast
qed

lemma load_present:
  assumes inv: "al_inv s" and at: "block_at s a = Some m" and mem: "bi_mem (blk s a) \<noteq> 0"
  shows "\<exists>p s'. load a s = Some (Inr p, s') \<and> has_loaded s a m p s'"
proof -
  let ?p = "bi_mem (blk s a)"
  have v: "valid s a" using at by (auto simp: block_at_def split: if_splits)
  have h: "al_heap s ?p = Some m" using at mem v by (simp add: block_at_def)
  let ?u = "uniq (bi_lru (blk s a)) s"
  let ?s' = "s\<lparr>al_lastLRU := al_lastLRU s + 1, al_uniqLoads := ?u,
    al_blocks := (al_blocks s)[idx a := (blk s a)\<lparr>bi_lru := al_lastLRU s\<rparr>]\<rparr>"
  have run: "load a s = Some (Inr ?p, ?s')"
    using v mem by (simp add: load_def act_simps uniq_def)
  have b: "blk ?s' b = (if b = a then (blk s a)\<lparr>bi_lru := al_lastLRU s\<rparr> else blk s b)" for b
    using v by (auto simp: blk_def valid_def nth_list_update idx_inj)
  have val: "valid ?s' = valid s" by (auto simp: valid_def)
  have per: "persisted ?s' = persisted s" by (rule ext) (simp add: persisted_def)
  have m: "bi_mem (blk ?s' b) = bi_mem (blk s b)" for b by (simp add: b)
  have "block_at ?s' = block_at s" by (rule ext) (simp add: block_at_def val per m)
  moreover have "same_config s ?s'" by (simp add: same_config_def b)
  moreover have "al_inv ?s'"
    using inv unfolding al_inv_def val m per by simp
  ultimately have "paged s ?s'" by (simp add: paged_def)
  moreover have "keys ?s' = keys s" by (simp add: keys_def)
  moreover have "lru ?s' c = (if c = a then unat (al_lastLRU s) else lru s c)" for c
    by (simp add: lru_def b)
  moreover have "a \<in> keys s" using keys_iff [OF inv] v mem by simp
  ultimately have "has_loaded s a m ?p ?s'"
    using v mem h unfolding has_loaded_def by (simp add: m subset_insertI)
  with run show ?thesis by blast
qed

lemma load_run:
  "al_inv s \<Longrightarrow> block_at s a = Some m \<Longrightarrow> \<exists>p s'. load a s = Some (Inr p, s') \<and> has_loaded s a m p s'"
  using load_present load_absent by (cases "bi_mem (blk s a) = 0") blast+

text \<open>Loading a block that was freed and is not at the end throws.\<close>

lemma lock_upd [simp]:
  "block_at (s\<lparr>al_locked := b\<rparr>) = block_at s" "persisted (s\<lparr>al_locked := b\<rparr>) = persisted s"
  "keys (s\<lparr>al_locked := b\<rparr>) = keys s" "lru (s\<lparr>al_locked := b\<rparr>) = lru s"
  "al_inv (s\<lparr>al_locked := b\<rparr>) = al_inv s"
  by (auto simp: block_at_def persisted_def keys_def lru_def al_inv_def fun_eq_iff)

lemma with_lock_run:
  assumes "\<not> al_locked s" and "m (s\<lparr>al_locked := True\<rparr>) = Some (r, s')"
  shows "with_lock m s = Some (r, s'\<lparr>al_locked := False\<rparr>)"
  using assms by (simp add: with_lock_def)

lemma heap_write:
  assumes inv: "al_inv s" and v: "valid s a" and p: "bi_mem (blk s a) = p" "p \<noteq> 0"
    and m: "length m = unat (al_block_size s)"
  shows "al_inv (s\<lparr>al_heap := (al_heap s)(p := Some m)\<rparr>)"
    and "block_at (s\<lparr>al_heap := (al_heap s)(p := Some m)\<rparr>) = (block_at s)(a \<mapsto> m)"
proof -
  let ?s = "s\<lparr>al_heap := (al_heap s)(p := Some m)\<rparr>"
  have per: "persisted ?s = persisted s" by (rule ext) (simp add: persisted_def)
  have "q < al_fresh s" if "((al_heap s)(p := Some m)) q \<noteq> None" for q
    using that inv_fresh(1) [OF inv, of q] inv_heap [OF inv v] p by (auto split: if_splits)
  then show "al_inv ?s"
    using inv m unfolding al_inv_def per by (auto split: if_splits)
  have "bi_mem (blk s b) \<noteq> p" if "valid s b" "b \<noteq> a" for b
    using inv_unique [OF inv v that(1)] p that(2) by auto
  then show "block_at ?s = (block_at s)(a \<mapsto> m)"
    using v p by (intro ext) (auto simp: block_at_def per)
qed

lemma has_loaded_fields:
  assumes "has_loaded s a m p s'"
  shows "al_inv s'" "valid s' a" "bi_mem (blk s' a) = p" "p \<noteq> 0" "al_heap s' p = Some m"
    "block_at s' = block_at s" "al_block_size s' = al_block_size s" "al_locked s' = al_locked s"
    "al_max_blocks s' = al_max_blocks s" "a \<in> keys s'" "valid s' = valid s"
proof -
  from assms have p: "paged s s'" and v: "valid s a" and
    r: "bi_mem (blk s' a) = p" "p \<noteq> 0" "al_heap s' p = Some m" "a \<in> keys s'"
    unfolding has_loaded_def by simp_all
  from p have c: "al_inv s'" "block_at s' = block_at s" "same_config s s'" unfolding paged_def by simp_all
  show "al_inv s'" "block_at s' = block_at s" "bi_mem (blk s' a) = p" "p \<noteq> 0" "al_heap s' p = Some m"
    "a \<in> keys s'" by fact+
  show "valid s' = valid s" "valid s' a" using same_config_valid [OF c(3)] v by simp_all
  show "al_block_size s' = al_block_size s" "al_locked s' = al_locked s" "al_max_blocks s' = al_max_blocks s"
    using c(3) unfolding same_config_def by simp_all
qed

section \<open>Reading and writing\<close>

definition splice :: "nat \<Rightarrow> bytes \<Rightarrow> bytes \<Rightarrow> bytes" where
  "splice i d m = take i m @ d @ drop (i + length d) m"

lemma length_splice: "i + length d \<le> length m \<Longrightarrow> length (splice i d m) = length m"
  by (simp add: splice_def)

lemma alloc_read_run:
  assumes inv: "al_inv s" "\<not> al_locked s" and at: "block_at s (blockAddr g) = Some m"
    and i: "i = unat (offset g) + unat off" "i + unat n \<le> length m"
  shows "\<exists>s'. alloc_read g off n s = Some (Inr (take (unat n) (drop i m)), s') \<and>
    al_inv s' \<and> \<not> al_locked s' \<and> block_at s' = block_at s \<and> al_block_size s' = al_block_size s"
proof -
  let ?s = "s\<lparr>al_locked := True\<rparr>"
  from load_run [of ?s "blockAddr g" m] inv at obtain p s' where
    l: "load (blockAddr g) ?s = Some (Inr p, s')" "has_loaded ?s (blockAddr g) m p s'" by auto
  have "alloc_read g off n s = Some (Inr (take (unat n) (drop i m)), s'\<lparr>al_locked := False\<rparr>)"
    unfolding alloc_read_def using l i inv(2)
    by (intro with_lock_run) (simp_all add: act_simps has_loaded_def Let_def)
  with l(2) show ?thesis by (auto simp: has_loaded_def paged_def same_config_def)
qed

lemma alloc_write_run:
  assumes inv: "al_inv s" "\<not> al_locked s" and at: "block_at s (blockAddr g) = Some m"
    and i: "i = unat (offset g) + unat off" "i + length d \<le> length m" and d: "length d = unat n"
  shows "\<exists>s'. alloc_write g d off n s = Some (Inr (), s') \<and> al_inv s' \<and> \<not> al_locked s' \<and>
    block_at s' = (block_at s)(blockAddr g \<mapsto> splice i d m) \<and> al_block_size s' = al_block_size s"
proof -
  let ?s = "s\<lparr>al_locked := True\<rparr>"
  from load_run [of ?s "blockAddr g" m] inv at obtain p s' where
    l: "load (blockAddr g) ?s = Some (Inr p, s')" "has_loaded ?s (blockAddr g) m p s'" by auto
  note l' = has_loaded_fields [OF l(2)]
  have len: "length (splice i d m) = unat (al_block_size s')"
    using length_splice [OF i(2)] block_at_length [OF inv(1) at] l'(7) by simp
  let ?s' = "s'\<lparr>al_heap := (al_heap s')(p := Some (splice i d m))\<rparr>"
  have "alloc_write g d off n s = Some (Inr (), ?s'\<lparr>al_locked := False\<rparr>)"
    unfolding alloc_write_def using l(1) l'(5) i d inv(2)
    by (intro with_lock_run) (simp_all add: act_simps Let_def splice_def)
  with heap_write [OF l'(1-4) len] l'(6,7) show ?thesis by auto
qed

text \<open>The stamps are below the counter as long as it has not wrapped around.\<close>

definition lru_below :: "allocator \<Rightarrow> bool" where
  "lru_below s \<longleftrightarrow> (\<forall>a. valid s a \<longrightarrow> lru s a < unat (al_lastLRU s))"

text \<open>With two blocks in memory at least, loading a second block leaves the first where it is.\<close>

lemma load_load:
  assumes inv: "al_inv s" "lru_below s" "2 \<le> unat (al_max_blocks s)"
    and at: "block_at s a = Some m" "block_at s b = Some n"
  shows "\<exists>p q s1 s2. load a s = Some (Inr p, s1) \<and> load b s1 = Some (Inr q, s2) \<and>
    has_loaded s1 b n q s2 \<and> bi_mem (blk s2 a) = p \<and> p \<noteq> 0 \<and> al_heap s2 p = Some m \<and>
    block_at s2 = block_at s \<and> al_block_size s2 = al_block_size s \<and> al_locked s2 = al_locked s"
proof -
  from load_run [OF inv(1) at(1)] obtain p s1 where
    1: "load a s = Some (Inr p, s1)" "has_loaded s a m p s1" by auto
  note f1 = has_loaded_fields [OF 1(2)]
  from load_run [OF f1(1), of b n] f1(6) at(2) obtain q s2 where
    2: "load b s1 = Some (Inr q, s2)" "has_loaded s1 b n q s2" by auto
  note f2 = has_loaded_fields [OF 2(2)]
  have "a \<in> keys s2"
  proof (rule ccontr)
    assume no: "a \<notin> keys s2"
    with f1(10) 2(2) have full: "length (al_loaded s1) = unat (al_max_blocks s1)"
      and least: "\<And>c. c \<in> keys s1 \<Longrightarrow> lru s1 a \<le> lru s1 c" by (auto simp: has_loaded_def)
    have "c = a" if c: "c \<in> keys s1" for c
    proof (rule ccontr)
      assume ca: "c \<noteq> a"
      have "valid s c" using c keys_iff [OF f1(1)] f1(11) by simp
      with inv(2) 1(2) ca have "lru s1 c < lru s1 a" by (simp add: lru_below_def has_loaded_def)
      with least [OF c] show False by simp
    qed
    then have "set (map fst (al_loaded s1)) \<subseteq> {a}" by (auto simp: keys_def)
    moreover have "card (set (map fst (al_loaded s1))) = length (al_loaded s1)"
      using inv_distinct [OF f1(1)] by (metis distinct_card length_map)
    ultimately have "length (al_loaded s1) \<le> 1"
      using card_mono [of "{a}" "set (map fst (al_loaded s1))"] by simp
    with full inv(3) f1(9) show False by simp
  qed
  with 2(2) f1(3,4) f2(3) have p2: "bi_mem (blk s2 a) = p"
    by (cases "a = b") (simp_all add: has_loaded_def)
  have "block_at s2 a = Some m" "valid s2 a" using f2(6,11) f1(2,6) at(1) by simp_all
  with p2 f1(4) have "al_heap s2 p = Some m" by (simp add: block_at_def)
  moreover have "block_at s2 = block_at s" "al_block_size s2 = al_block_size s" "al_locked s2 = al_locked s"
    using f1(6-8) f2(6-8) by simp_all
  ultimately show ?thesis using 1(1) 2 p2 f1(4) by blast
qed

end
