(* ===== verification/CacheArray.thy ===== *)
theory CacheArray
  imports Paging
begin

text \<open>
  \<^verbatim>\<open>memory/cache/collection/array.hh\<close> and \<^verbatim>\<open>array.cc\<close>: arrays of a trivially copied type, laid out
  in the blocks of the allocator: whole blocks first, then a segment for the rest. An array is the
  record of its members; its operations work on the state of the allocator (the instance is a
  global of the program). The type parameter \<^verbatim>\<open>T\<close> is given by its size and by the bytes of its
  values; a buffer \<^verbatim>\<open>T *\<close> is the list of its elements.
\<close>

section \<open>Elements and arrays\<close>

record 'a trivial =
  tsize :: u32
  enc :: "'a \<Rightarrow> bytes"
  dec :: "bytes \<Rightarrow> 'a"

definition trivial_ok :: "'a trivial \<Rightarrow> bool" where
  "trivial_ok T \<longleftrightarrow> 0 < unat (tsize T) \<and> (\<forall>x. length (enc T x) = unat (tsize T) \<and> dec T (enc T x) = x)"

definition store_elems :: "'a trivial \<Rightarrow> 'a list \<Rightarrow> bytes" where
  "store_elems T xs = concat (map (enc T) xs)"

fun load_elems :: "'a trivial \<Rightarrow> nat \<Rightarrow> bytes \<Rightarrow> 'a list" where
  "load_elems T 0 bs = []"
| "load_elems T (Suc n) bs = dec T (take (unat (tsize T)) bs) # load_elems T n (drop (unat (tsize T)) bs)"

record cache_array =
  ca_rest :: segment
  ca_fstBlockAddr :: u32
  ca_size :: u32
  ca_innerSize :: u32
  ca_nbBlocks :: u32
  ca_sizePerBlock :: u32
  ca_sizeDividePerBlock :: u32

definition ALLOC_HEAD_SIZE :: u32 where
  "ALLOC_HEAD_SIZE = 12"

definition ca_empty :: cache_array where
  "ca_empty = \<lparr>ca_rest = \<lparr>blockAddr = 0, offset = 0\<rparr>, ca_fstBlockAddr = 0, ca_size = 0, ca_innerSize = 0,
     ca_nbBlocks = 0, ca_sizePerBlock = 0, ca_sizeDividePerBlock = 0\<rparr>"

text \<open>\<open>junk\<close> is what the members hold before, which the constructor with a size leaves as they are.\<close>

definition ca_allocate :: "u32 \<Rightarrow> u32 \<Rightarrow> cache_array \<Rightarrow> (allocator, cache_array) act" where
  "ca_allocate sz innerSize junk =
     bnd (allocateSegments innerSize (ucast sz * ucast innerSize)
       \<lparr>sg_rest = ca_rest junk, sg_fstBlock = ca_fstBlockAddr junk, sg_nbBlocks = 0,
        sg_blockSize = ca_sizePerBlock junk\<rparr>) (\<lambda>g.
     let a = junk\<lparr>ca_rest := sg_rest g, ca_fstBlockAddr := sg_fstBlock g, ca_size := sz, ca_innerSize := innerSize\<rparr> in
     if sg_nbBlocks g = 0
     then ret (a\<lparr>ca_nbBlocks := 0, ca_sizeDividePerBlock := 1, ca_sizePerBlock := 0\<rparr>)
     else if innerSize = 0 then throw Undefined
     else ret (a\<lparr>ca_nbBlocks := sg_nbBlocks g, ca_sizePerBlock := sg_blockSize g,
                 ca_sizeDividePerBlock := sg_blockSize g div innerSize\<rparr>))"

fun free_blocks :: "nat \<Rightarrow> u32 \<Rightarrow> (allocator, unit) act" where
  "free_blocks 0 addr = ret ()"
| "free_blocks (Suc n) addr = bnd (freeFast addr) (\<lambda>_. free_blocks n (addr + 1))"

definition ca_dispose :: "cache_array \<Rightarrow> (allocator, cache_array) act" where
  "ca_dispose a =
     (if blockAddr (ca_rest a) \<noteq> 0 then
        bnd (free_blocks (unat (ca_nbBlocks a)) (ca_fstBlockAddr a)) (\<lambda>_.
        bnd (free (ca_rest a)) (\<lambda>_.
        ret (a\<lparr>ca_rest := \<lparr>blockAddr = 0, offset = 0\<rparr>, ca_fstBlockAddr := 0, ca_nbBlocks := 0,
               ca_size := 0, ca_sizeDividePerBlock := 0, ca_sizePerBlock := 0\<rparr>)))
      else ret a)"

text \<open>The two arrays after the move: the destination and the source.\<close>

definition ca_move :: "cache_array \<Rightarrow> cache_array \<Rightarrow> (allocator, cache_array \<times> cache_array) act" where
  "ca_move a other =
     bnd (ca_dispose a) (\<lambda>_.
     ret (other, other\<lparr>ca_rest := \<lparr>blockAddr = 0, offset = 0\<rparr>, ca_fstBlockAddr := 0, ca_nbBlocks := 0,
                       ca_size := 0, ca_sizeDividePerBlock := 0, ca_sizePerBlock := 0\<rparr>))"

definition ca_len :: "cache_array \<Rightarrow> u32" where
  "ca_len a = ca_size a"

definition ca_countBlocks :: "cache_array \<Rightarrow> u32" where
  "ca_countBlocks a = (if ca_size a \<noteq> 0 then ca_nbBlocks a + 1 else 0)"

section \<open>Access\<close>

text \<open>The segment and the position in it where an access at index \<open>i\<close> begins.\<close>

definition block_segment :: "cache_array \<Rightarrow> u32 \<Rightarrow> segment" where
  "block_segment a index = \<lparr>blockAddr = index + ca_fstBlockAddr a, offset = ALLOC_HEAD_SIZE\<rparr>"

definition ca_index :: "cache_array \<Rightarrow> u32 \<Rightarrow> u32" where
  "ca_index a i = i div ca_sizeDividePerBlock a"

definition ca_offset :: "cache_array \<Rightarrow> u32 \<Rightarrow> u32" where
  "ca_offset a i = i - ca_index a i * ca_sizeDividePerBlock a"

definition rest_offset :: "cache_array \<Rightarrow> u32 \<Rightarrow> u32" where
  "rest_offset a i = (if ca_sizeDividePerBlock a = 1 then ca_index a i else ca_offset a i)"

definition ca_set :: "'a trivial \<Rightarrow> cache_array \<Rightarrow> u32 \<Rightarrow> 'a \<Rightarrow> (allocator, unit) act" where
  "ca_set T a i val =
     (if ca_sizeDividePerBlock a = 0 then throw Undefined
      else if ca_index a i < ca_nbBlocks a
      then alloc_write (block_segment a (ca_index a i)) (enc T val) (ca_offset a i * tsize T) (tsize T)
      else alloc_write (ca_rest a) (enc T val) (rest_offset a i * tsize T) (tsize T))"

definition ca_get :: "'a trivial \<Rightarrow> cache_array \<Rightarrow> u32 \<Rightarrow> (allocator, 'a) act" where
  "ca_get T a i =
     (if ca_sizeDividePerBlock a = 0 then throw Undefined
      else bnd
        (if ca_index a i < ca_nbBlocks a
         then alloc_read (block_segment a (ca_index a i)) (ca_offset a i * tsize T) (tsize T)
         else alloc_read (ca_rest a) (rest_offset a i * tsize T) (tsize T))
        (\<lambda>buffer. ret (dec T buffer)))"

text \<open>Several elements: an access that leaves its block goes on with the next one.\<close>

partial_function (option) ca_setNb ::
  "'a trivial \<Rightarrow> cache_array \<Rightarrow> u32 \<Rightarrow> 'a list \<Rightarrow> u32 \<Rightarrow> allocator \<Rightarrow> (unit res \<times> allocator) option"
where
  "ca_setNb T a i buffer nb s =
     (if ca_sizeDividePerBlock a = 0 then throw Undefined s
      else if ca_index a i < ca_nbBlocks a then
        (if ca_sizeDividePerBlock a < nb + ca_offset a i then
           bnd (alloc_write (block_segment a (ca_index a i)) (store_elems T buffer) (ca_offset a i * tsize T)
                 (tsize T * (nb - (nb + ca_offset a i - ca_sizeDividePerBlock a)))) (\<lambda>_ s.
             ca_setNb T a (i + (nb - (nb + ca_offset a i - ca_sizeDividePerBlock a)))
               (drop (unat (nb - (nb + ca_offset a i - ca_sizeDividePerBlock a))) buffer)
               (nb + ca_offset a i - ca_sizeDividePerBlock a) s) s
         else alloc_write (block_segment a (ca_index a i)) (store_elems T buffer) (ca_offset a i * tsize T)
                (tsize T * nb) s)
      else alloc_write (ca_rest a) (store_elems T buffer) (rest_offset a i * tsize T) (tsize T * nb) s)"

partial_function (option) ca_getNb ::
  "'a trivial \<Rightarrow> cache_array \<Rightarrow> u32 \<Rightarrow> u32 \<Rightarrow> allocator \<Rightarrow> ('a list res \<times> allocator) option"
where
  "ca_getNb T a i nb s =
     (if ca_sizeDividePerBlock a = 0 then throw Undefined s
      else if ca_index a i < ca_nbBlocks a then
        (if ca_sizeDividePerBlock a < nb + ca_offset a i then
           bnd (\<lambda>s. ca_getNb T a (i + (nb - (nb + ca_offset a i - ca_sizeDividePerBlock a)))
                 (nb + ca_offset a i - ca_sizeDividePerBlock a) s) (\<lambda>rest s.
             bnd (alloc_read (block_segment a (ca_index a i)) (ca_offset a i * tsize T)
                   (tsize T * (nb - (nb + ca_offset a i - ca_sizeDividePerBlock a)))) (\<lambda>bs.
             ret (load_elems T (unat (nb - (nb + ca_offset a i - ca_sizeDividePerBlock a))) bs @ rest)) s) s
         else
           bnd (alloc_read (block_segment a (ca_index a i)) (ca_offset a i * tsize T) (tsize T * nb))
             (\<lambda>bs. ret (load_elems T (unat nb) bs)) s)
      else
        bnd (alloc_read (ca_rest a) (rest_offset a i * tsize T) (tsize T * nb))
          (\<lambda>bs. ret (load_elems T (unat nb) bs)) s)"

declare ca_setNb.simps [code] ca_getNb.simps [code]

section \<open>Operations on the whole array\<close>

text \<open>
  One pass over a segment, a buffer at a time; the buffer has \<open>bufferSize\<close> elements. The three
  loops end when the counter passes the number of elements, which it may jump over.
\<close>

definition nb_read :: "u32 \<Rightarrow> u32 \<Rightarrow> u32 \<Rightarrow> u32" where
  "nb_read nbElements i bufferSize = (if bufferSize < nbElements - i then bufferSize else nbElements - i)"

partial_function (option) mapBlock ::
  "'a trivial \<Rightarrow> segment \<Rightarrow> u32 \<Rightarrow> u32 \<Rightarrow> ('a \<Rightarrow> 'a) \<Rightarrow> u32 \<Rightarrow> allocator \<Rightarrow> (unit res \<times> allocator) option"
where
  "mapBlock T seg nbElements bufferSize func i s =
     (if i < nbElements then
        bnd (alloc_read seg (i * tsize T) (tsize T * nb_read nbElements i bufferSize)) (\<lambda>bs s.
        bnd (alloc_write seg
               (store_elems T (map func (load_elems T (unat (nb_read nbElements i bufferSize)) bs)))
               (i * tsize T) (tsize T * nb_read nbElements i bufferSize)) (\<lambda>_ s.
        mapBlock T seg nbElements bufferSize func (i + bufferSize) s) s) s
      else ret () s)"

partial_function (option) generateBlock ::
  "'a trivial \<Rightarrow> segment \<Rightarrow> u64 \<Rightarrow> u32 \<Rightarrow> u32 \<Rightarrow> (u64 \<Rightarrow> 'a) \<Rightarrow> u32 \<Rightarrow> allocator \<Rightarrow> (unit res \<times> allocator) option"
where
  "generateBlock T seg globIndex nbElements bufferSize func i s =
     (if i < nbElements then
        bnd (alloc_write seg
               (store_elems T (map (\<lambda>j. func (globIndex + ucast i + of_nat j))
                  [0..<unat (nb_read nbElements i bufferSize)]))
               (i * tsize T) (tsize T * nb_read nbElements i bufferSize)) (\<lambda>_ s.
        generateBlock T seg globIndex nbElements bufferSize func (i + bufferSize) s) s
      else ret () s)"

partial_function (option) reduceBlock ::
  "'a trivial \<Rightarrow> segment \<Rightarrow> u32 \<Rightarrow> u32 \<Rightarrow> ('z \<Rightarrow> 'a \<Rightarrow> 'z) \<Rightarrow> 'z \<Rightarrow> u32 \<Rightarrow> allocator \<Rightarrow> ('z res \<times> allocator) option"
where
  "reduceBlock T seg nbElements bufferSize func result i s =
     (if i < nbElements then
        bnd (alloc_read seg (i * tsize T) (tsize T * nb_read nbElements i bufferSize)) (\<lambda>bs s.
        reduceBlock T seg nbElements bufferSize func
          (foldl func result (load_elems T (unat (nb_read nbElements i bufferSize)) bs)) (i + bufferSize) s) s
      else ret result s)"

declare mapBlock.simps [code] generateBlock.simps [code] reduceBlock.simps [code]

text \<open>
  The blocks of the array that are in memory first, then (after the rest) the others: the first
  pass gives the list of those it has put off.
\<close>

fun loaded_pass ::
  "(u32 \<Rightarrow> 'z \<Rightarrow> (allocator, 'z) act) \<Rightarrow> (u32 \<Rightarrow> (allocator, bool) act) \<Rightarrow> u32 list \<Rightarrow> 'z \<Rightarrow> u32 list \<Rightarrow>
   (allocator, 'z \<times> u32 list) act" where
  "loaded_pass body ready [] z toLoad = ret (z, toLoad)"
| "loaded_pass body ready (i # blocks) z toLoad =
     bnd (ready i) (\<lambda>l.
     if l then bnd (body i z) (\<lambda>z. loaded_pass body ready blocks z toLoad)
     else loaded_pass body ready blocks z (toLoad @ [i]))"

fun load_pass :: "(u32 \<Rightarrow> 'z \<Rightarrow> (allocator, 'z) act) \<Rightarrow> u32 list \<Rightarrow> 'z \<Rightarrow> (allocator, 'z) act" where
  "load_pass body [] z = ret z"
| "load_pass body (i # toLoad) z = bnd (body i z) (\<lambda>z. load_pass body toLoad z)"

definition block_indices :: "cache_array \<Rightarrow> u32 list" where
  "block_indices a = map of_nat [0..<unat (ca_nbBlocks a)]"

definition in_memory :: "cache_array \<Rightarrow> u32 \<Rightarrow> (allocator, bool) act" where
  "in_memory a i = isLoaded (ca_fstBlockAddr a + i)"

definition ca_map :: "'a trivial \<Rightarrow> cache_array \<Rightarrow> u32 \<Rightarrow> ('a \<Rightarrow> 'a) \<Rightarrow> (allocator, unit) act" where
  "ca_map T a bufferSize func =
     (let body = (\<lambda>i _. \<lambda>s. mapBlock T (block_segment a i) (ca_sizeDividePerBlock a) bufferSize func 0 s) in
      bnd (loaded_pass body (in_memory a) (block_indices a) () []) (\<lambda>(_, toLoad).
      bnd (\<lambda>s. mapBlock T (ca_rest a) (ca_size a - ca_nbBlocks a * ca_sizeDividePerBlock a) bufferSize func 0 s) (\<lambda>_.
      load_pass body toLoad ())))"

definition ca_generate :: "'a trivial \<Rightarrow> cache_array \<Rightarrow> u32 \<Rightarrow> (u64 \<Rightarrow> 'a) \<Rightarrow> (allocator, unit) act" where
  "ca_generate T a bufferSize func =
     (let D = ca_sizeDividePerBlock a;
          body = (\<lambda>i _. \<lambda>s. generateBlock T (block_segment a i) (ucast (i * D)) D bufferSize func 0 s) in
      bnd (loaded_pass body (in_memory a) (block_indices a) () []) (\<lambda>(_, toLoad).
      bnd (\<lambda>s. generateBlock T (ca_rest a) (ucast (ca_nbBlocks a * D)) (ca_size a - ca_nbBlocks a * D)
                bufferSize func 0 s) (\<lambda>_.
      load_pass body toLoad ())))"

definition ca_reduce :: "'a trivial \<Rightarrow> cache_array \<Rightarrow> u32 \<Rightarrow> ('z \<Rightarrow> 'a \<Rightarrow> 'z) \<Rightarrow> 'z \<Rightarrow> (allocator, 'z) act" where
  "ca_reduce T a bufferSize func first =
     (if tsize T = 0 then throw Undefined else
      let D = ca_sizePerBlock a div tsize T;
          body = (\<lambda>i z. \<lambda>s. reduceBlock T (block_segment a i) D bufferSize func z 0 s) in
      bnd (loaded_pass body (in_memory a) (block_indices a) first []) (\<lambda>(z, toLoad).
      bnd (\<lambda>s. reduceBlock T (ca_rest a) (ca_size a - ca_nbBlocks a * D) bufferSize func z 0 s) (\<lambda>z.
      load_pass body toLoad z)))"

text \<open>The blocks of two arrays of the same layout, copied from \<open>aux\<close> to \<open>a\<close>.\<close>

definition ca_copyRaw :: "'a trivial \<Rightarrow> cache_array \<Rightarrow> cache_array \<Rightarrow> (allocator, unit) act" where
  "ca_copyRaw T a aux =
     (let body = (\<lambda>i _. alloc_copy (block_segment aux i) (block_segment a i) (ca_sizePerBlock a));
          ready = (\<lambda>i. bnd (in_memory a i) (\<lambda>l. if l then ret True else in_memory aux i)) in
      bnd (loaded_pass body ready (block_indices a) () []) (\<lambda>(_, toLoad).
      bnd (alloc_copy (ca_rest aux) (ca_rest a) (ca_size a * tsize T - ca_nbBlocks a * ca_sizePerBlock a)) (\<lambda>_.
      load_pass body toLoad ())))"

section \<open>Copies between arrays\<close>

partial_function (option) copy_each ::
  "'a trivial \<Rightarrow> cache_array \<Rightarrow> u32 \<Rightarrow> cache_array \<Rightarrow> u32 \<Rightarrow> u32 \<Rightarrow> u32 \<Rightarrow> allocator \<Rightarrow> (unit res \<times> allocator) option"
where
  "copy_each T a i aux j nb k s =
     (if k < nb then
        bnd (ca_get T aux (k + j)) (\<lambda>x s.
        bnd (ca_set T a (k + i) x) (\<lambda>_ s. copy_each T a i aux j nb (k + 1) s) s) s
      else ret () s)"

partial_function (option) copy_chunks ::
  "'a trivial \<Rightarrow> cache_array \<Rightarrow> u32 \<Rightarrow> cache_array \<Rightarrow> u32 \<Rightarrow> u32 \<Rightarrow> u32 \<Rightarrow> u32 \<Rightarrow> allocator \<Rightarrow> (unit res \<times> allocator) option"
where
  "copy_chunks T a i aux j aligned bufferSize k s =
     (if k < aligned then
        bnd (\<lambda>s. ca_getNb T aux (k + j) bufferSize s) (\<lambda>buffer s.
        bnd (\<lambda>s. ca_setNb T a (k + i) buffer bufferSize s) (\<lambda>_ s.
        copy_chunks T a i aux j aligned bufferSize (k + bufferSize) s) s) s
      else ret () s)"

declare copy_each.simps [code] copy_chunks.simps [code]

text \<open>With a buffer of no or one element, the copy goes one by one, and then again with the buffer.\<close>

definition ca_copy :: "'a trivial \<Rightarrow> cache_array \<Rightarrow> u32 \<Rightarrow> cache_array \<Rightarrow> u32 \<Rightarrow> u32 \<Rightarrow> u32 \<Rightarrow> (allocator, unit) act" where
  "ca_copy T a i aux j nb bufferSize =
     bnd (if bufferSize = 0 \<or> bufferSize = 1 then \<lambda>s. copy_each T a i aux j nb 0 s else ret ()) (\<lambda>_.
     if bufferSize = 0 then throw Undefined
     else
       let aligned = nb div bufferSize * bufferSize; rest = nb - aligned in
       bnd (\<lambda>s. copy_chunks T a i aux j aligned bufferSize 0 s) (\<lambda>_.
       if rest \<noteq> 0 then
         bnd (\<lambda>s. ca_getNb T aux (aligned + j) rest s) (\<lambda>buffer s. ca_setNb T a (aligned + i) buffer rest s)
       else ret ()))"

text \<open>A slice: an array with a beginning and a length.\<close>

record ca_slice =
  sl_context :: cache_array
  sl_beg :: u32
  sl_len :: u32

definition ca_slice_of :: "cache_array \<Rightarrow> u32 \<Rightarrow> u32 \<Rightarrow> ca_slice" where
  "ca_slice_of a start end = \<lparr>sl_context = a, sl_beg = start, sl_len = end - start\<rparr>"

definition ca_copy_slice :: "'a trivial \<Rightarrow> cache_array \<Rightarrow> u32 \<Rightarrow> ca_slice \<Rightarrow> u32 \<Rightarrow> (allocator, unit) act" where
  "ca_copy_slice T a i aux bufferSize =
     ca_copy T a i (sl_context aux) (sl_beg aux) (min (sl_len aux) (ca_size a - i)) bufferSize"

definition slice_get :: "'a trivial \<Rightarrow> ca_slice \<Rightarrow> u32 \<Rightarrow> (allocator, 'a) act" where
  "slice_get T sl i = ca_get T (sl_context sl) (i + sl_beg sl)"

definition slice_set :: "'a trivial \<Rightarrow> ca_slice \<Rightarrow> u32 \<Rightarrow> 'a \<Rightarrow> (allocator, unit) act" where
  "slice_set T sl i val = ca_set T (sl_context sl) (i + sl_beg sl) val"

definition slice_getNb :: "'a trivial \<Rightarrow> ca_slice \<Rightarrow> u32 \<Rightarrow> u32 \<Rightarrow> (allocator, 'a list) act" where
  "slice_getNb T sl i nb = (\<lambda>s. ca_getNb T (sl_context sl) (i + sl_beg sl) nb s)"

definition slice_setNb :: "'a trivial \<Rightarrow> ca_slice \<Rightarrow> u32 \<Rightarrow> 'a list \<Rightarrow> u32 \<Rightarrow> (allocator, unit) act" where
  "slice_setNb T sl i buffer nb = (\<lambda>s. ca_setNb T (sl_context sl) (i + sl_beg sl) buffer nb s)"

definition slice_copy :: "'a trivial \<Rightarrow> ca_slice \<Rightarrow> ca_slice \<Rightarrow> u32 \<Rightarrow> (allocator, unit) act" where
  "slice_copy T sl aux bufferSize =
     ca_copy T (sl_context sl) (sl_beg sl) (sl_context aux) (sl_beg aux) (min (sl_len sl) (sl_len aux)) bufferSize"

end
