(* ===== verification/ArrayView.thy ===== *)
theory ArrayView
  imports CacheArray
begin

text \<open>
  The abstract view of an array in the cache: the list of its elements, whatever blocks they lie in
  and wherever these are. \<open>place\<close> gives the block and the byte where an element lies; \<open>arr_ok\<close> is
  what an allocated array keeps: its elements lie in blocks of the allocator and do not overlap.
\<close>

section \<open>The bytes of the elements\<close>

lemma length_store [simp]:
  "trivial_ok T \<Longrightarrow> length (store_elems T xs) = length xs * unat (tsize T)"
  by (induction xs) (simp_all add: store_elems_def trivial_ok_def)

lemma store_append [simp]: "store_elems T (xs @ ys) = store_elems T xs @ store_elems T ys"
  by (simp add: store_elems_def)

lemma store_take:
  assumes "trivial_ok T" and "n \<le> length xs"
  shows "take (n * unat (tsize T)) (store_elems T xs) = store_elems T (take n xs)"
  using assms length_store [OF assms(1), of "take n xs"]
  by (subst append_take_drop_id [of n xs, symmetric], subst store_append) simp

lemma load_store: "trivial_ok T \<Longrightarrow> load_elems T (length xs) (store_elems T xs @ rest) = xs"
  by (induction xs) (simp_all add: store_elems_def trivial_ok_def)

lemma length_load [simp]: "length (load_elems T n bs) = n"
  by (induction n arbitrary: bs) simp_all

lemma nth_load:
  "k < n \<Longrightarrow> load_elems T n bs ! k = dec T (take (unat (tsize T)) (drop (k * unat (tsize T)) bs))"
proof (induction n arbitrary: bs k)
  case (Suc n)
  then show ?case by (cases k) (simp_all add: add.commute)
qed simp

lemma nth_store:
  assumes "trivial_ok T" and "k < length xs"
  shows "take (unat (tsize T)) (drop (k * unat (tsize T)) (store_elems T xs)) = enc T (xs ! k)"
proof -
  have "store_elems T xs = store_elems T (take k xs) @ enc T (xs ! k) @ store_elems T (drop (Suc k) xs)"
    using id_take_nth_drop [OF assms(2)] by (metis append_Cons append_Nil concat.simps list.simps(9) map_append store_append store_elems_def append_assoc)
  moreover have "length (store_elems T (take k xs)) = k * unat (tsize T)" using assms by simp
  moreover have "length (enc T (xs ! k)) = unat (tsize T)" using assms by (simp add: trivial_ok_def)
  ultimately show ?thesis by simp
qed

section \<open>The place of an element\<close>

definition nblocks :: "cache_array \<Rightarrow> nat" where "nblocks a = unat (ca_nbBlocks a)"
definition perblock :: "cache_array \<Rightarrow> nat" where "perblock a = unat (ca_sizeDividePerBlock a)"
definition esize :: "cache_array \<Rightarrow> nat" where "esize a = unat (ca_innerSize a)"
definition alen :: "cache_array \<Rightarrow> nat" where "alen a = unat (ca_size a)"

definition place :: "cache_array \<Rightarrow> nat \<Rightarrow> u32 \<times> nat" where
  "place a p =
     (if p < nblocks a * perblock a
      then (of_nat (p div perblock a) + ca_fstBlockAddr a, 12 + p mod perblock a * esize a)
      else (blockAddr (ca_rest a), unat (offset (ca_rest a)) + (p - nblocks a * perblock a) * esize a))"

text \<open>\<open>n\<close> bytes at \<open>(b, o)\<close>, and that they are apart from an element.\<close>

definition win :: "allocator \<Rightarrow> u32 \<Rightarrow> nat \<Rightarrow> nat \<Rightarrow> bytes" where
  "win s b i n = take n (drop i (the (block_at s b)))"

definition apart :: "nat \<Rightarrow> u32 \<times> nat \<Rightarrow> u32 \<Rightarrow> nat \<Rightarrow> nat \<Rightarrow> bool" where
  "apart z p b i n \<longleftrightarrow> fst p \<noteq> b \<or> snd p + z \<le> i \<or> i + n \<le> snd p"

definition shape :: "cache_array \<Rightarrow> bool" where
  "shape a \<longleftrightarrow> 0 < perblock a \<and> nblocks a * perblock a \<le> alen a \<and>
     (nblocks a = 0 \<longrightarrow> perblock a = 1) \<and>
     (0 < nblocks a \<longrightarrow> alen a \<le> nblocks a * perblock a + perblock a \<and> (perblock a = 1 \<longrightarrow> alen a = nblocks a))"

definition placed :: "cache_array \<Rightarrow> allocator \<Rightarrow> bool" where
  "placed a s \<longleftrightarrow>
     (\<forall>p < alen a. \<exists>m. block_at s (fst (place a p)) = Some m \<and> snd (place a p) + esize a \<le> length m) \<and>
     (\<forall>p < alen a. \<forall>q < alen a. p \<noteq> q \<longrightarrow>
        apart (esize a) (place a p) (fst (place a q)) (snd (place a q)) (esize a))"

definition arr_ok :: "'a trivial \<Rightarrow> cache_array \<Rightarrow> allocator \<Rightarrow> bool" where
  "arr_ok T a s \<longleftrightarrow> al_inv s \<and> \<not> al_locked s \<and> trivial_ok T \<and> ca_innerSize a = tsize T \<and> shape a \<and> placed a s"

definition elem :: "'a trivial \<Rightarrow> allocator \<Rightarrow> u32 \<times> nat \<Rightarrow> 'a" where
  "elem T s p = dec T (win s (fst p) (snd p) (unat (tsize T)))"

definition alist :: "'a trivial \<Rightarrow> cache_array \<Rightarrow> allocator \<Rightarrow> 'a list" where
  "alist T a s = map (\<lambda>p. elem T s (place a p)) [0..<alen a]"

lemma length_alist [simp]: "length (alist T a s) = alen a"
  by (simp add: alist_def)

text \<open>What an operation on an array leaves as it was.\<close>

definition outside :: "cache_array \<Rightarrow> allocator \<Rightarrow> allocator \<Rightarrow> bool" where
  "outside a s s' \<longleftrightarrow> al_inv s' \<and> \<not> al_locked s' \<and>
     (\<forall>b. map_option length (block_at s' b) = map_option length (block_at s b)) \<and>
     (\<forall>b i n. (\<forall>p < alen a. apart (esize a) (place a p) b i n) \<longrightarrow> win s' b i n = win s b i n)"

lemma outside_same: "al_inv s' \<Longrightarrow> \<not> al_locked s' \<Longrightarrow> block_at s' = block_at s \<Longrightarrow> outside a s s'"
  by (simp add: outside_def win_def)

lemma outside_trans: "outside a s s' \<Longrightarrow> outside a s' s'' \<Longrightarrow> outside a s s''"
  by (auto simp: outside_def)

lemma placed_outside:
  assumes "outside b s s'" and "placed a s"
  shows "placed a s'"
proof -
  have "\<exists>m'. block_at s' c = Some m' \<and> k \<le> length m'" if "block_at s c = Some m" "k \<le> length m" for c m k
  proof -
    have "map_option length (block_at s' c) = Some (length m)" using assms(1) that(1) by (simp add: outside_def)
    with that(2) show ?thesis by (cases "block_at s' c") auto
  qed
  with assms(2) show ?thesis unfolding placed_def by blast
qed

lemma arr_ok_outside: "arr_ok T a s \<Longrightarrow> outside b s s' \<Longrightarrow> arr_ok T a s'"
  using placed_outside by (auto simp: arr_ok_def outside_def)

text \<open>Two arrays that do not overlap.\<close>

definition disjoint_arrays :: "cache_array \<Rightarrow> cache_array \<Rightarrow> bool" where
  "disjoint_arrays a b \<longleftrightarrow> (\<forall>p < alen a. \<forall>q < alen b.
     apart (esize a) (place a p) (fst (place b q)) (snd (place b q)) (esize b))"

lemma alist_outside:
  assumes "outside a s s'" and "disjoint_arrays a b" and "ca_innerSize b = tsize T"
  shows "alist T b s' = alist T b s"
  using assms by (auto simp: alist_def elem_def outside_def disjoint_arrays_def esize_def)

section \<open>One access to the allocator\<close>

text \<open>Elements that follow each other in a block.\<close>

definition contig :: "cache_array \<Rightarrow> nat \<Rightarrow> nat \<Rightarrow> bool" where
  "contig a p c \<longleftrightarrow> (\<forall>k < c. place a (p + k) = (fst (place a p), snd (place a p) + k * esize a))"

definition set_list :: "nat \<Rightarrow> 'a list \<Rightarrow> 'a list \<Rightarrow> 'a list" where
  "set_list p xs l = take p l @ xs @ drop (p + length xs) l"

lemma length_set_list [simp]: "p + length xs \<le> length l \<Longrightarrow> length (set_list p xs l) = length l"
  by (simp add: set_list_def)

lemma nth_set_list:
  "p + length xs \<le> length l \<Longrightarrow> q < length l \<Longrightarrow>
   set_list p xs l ! q = (if p \<le> q \<and> q < p + length xs then xs ! (q - p) else l ! q)"
  by (auto simp: set_list_def nth_append)

lemma set_list_append:
  "p + length xs + length ys \<le> length l \<Longrightarrow>
   set_list (p + length xs) ys (set_list p xs l) = set_list p (xs @ ys) l"
  by (rule nth_equalityI) (auto simp: nth_set_list nth_append)

definition written :: "'a trivial \<Rightarrow> cache_array \<Rightarrow> nat \<Rightarrow> 'a list \<Rightarrow> allocator \<Rightarrow> allocator \<Rightarrow> bool" where
  "written T a p xs s s' \<longleftrightarrow> arr_ok T a s' \<and> alist T a s' = set_list p xs (alist T a s) \<and> outside a s s'"

lemma win_write_out:
  assumes "block_at s' = (block_at s)(b \<mapsto> splice i d m)" and "block_at s b = Some m"
    and "i + length d \<le> length m" and "c \<noteq> b \<or> j + n \<le> i \<or> i + length d \<le> j"
  shows "win s' c j n = win s c j n"
  using assms by (auto simp: win_def splice_def drop_take min_def)

lemma win_write_in:
  assumes "block_at s' = (block_at s)(b \<mapsto> splice i d m)" and "i + length d \<le> length m" and "k + n \<le> length d"
  shows "win s' b (i + k) n = take n (drop k d)"
  using assms by (simp add: win_def splice_def)

lemma apart_run:
  assumes "\<And>k. k < c \<Longrightarrow> apart z (b, j + k * z) b' i n" and "0 < z" and "0 < c"
  shows "n = 0 \<or> b' \<noteq> b \<or> i + n \<le> j \<or> j + c * z \<le> i"
proof (rule ccontr)
  assume no: "\<not> ?thesis"
  define x k where "x = max j i" and "k = (x - j) div z"
  have "0 < c * z" using assms(2,3) by simp
  with no have x: "j \<le> x" "i \<le> x" "x < i + n" "x < j + c * z" by (auto simp: x_def max_def)
  have k: "k * z \<le> x - j" "x - j < k * z + z"
    using assms(2) div_times_less_eq_dividend [of "x - j" z] dividend_less_div_times [of z "x - j"]
    by (simp_all add: k_def)
  have "k < c"
  proof (rule ccontr)
    assume "\<not> k < c"
    then have "c * z \<le> k * z" by simp
    with k(1) x show False by linarith
  qed
  with assms(1) [of k] no k x show False by (auto simp: apart_def)
qed

lemma alloc_write_take:
  "unat n \<le> length d \<Longrightarrow> alloc_write g d i n = alloc_write g (take (unat n) d) i n"
  by (simp add: alloc_write_def Let_def cong: if_cong)

lemma contig_bound:
  assumes ok: "arr_ok T a s" and "contig a p c" and "p + c \<le> alen a" and "0 < c"
  obtains m where "block_at s (fst (place a p)) = Some m" "snd (place a p) + c * esize a \<le> length m"
    "length m = unat (al_block_size s)"
proof -
  obtain c' where c': "c = Suc c'" using assms(4) by (cases c) auto
  have last: "place a (p + c') = (fst (place a p), snd (place a p) + c' * esize a)"
    using assms(2) by (simp add: contig_def c')
  have "p + c' < alen a" using assms(3) by (simp add: c')
  with ok last obtain m where m: "block_at s (fst (place a p)) = Some m"
    "snd (place a p) + c' * esize a + esize a \<le> length m" by (force simp: arr_ok_def placed_def)
  moreover have "length m = unat (al_block_size s)"
    using block_at_length [OF _ m(1)] ok by (simp add: arr_ok_def)
  ultimately show ?thesis using that by (simp add: c' algebra_simps)
qed

lemma seg_write:
  assumes ok: "arr_ok T a s" and c: "contig a p (length xs)" and n: "p + length xs \<le> alen a" "xs \<noteq> []"
    and seg: "blockAddr g = fst (place a p)" "unat (offset g) + unat i = snd (place a p)"
    and nb: "unat nb = length xs * unat (tsize T)"
  shows "\<exists>s'. alloc_write g (store_elems T (xs @ ys)) i nb s = Some (Inr (), s') \<and> written T a p xs s s'"
proof -
  define b j z where "b = fst (place a p)" and "j = snd (place a p)" and "z = unat (tsize T)"
  define d where "d = store_elems T xs"
  have T: "trivial_ok T" "esize a = z" "0 < z"
    using ok by (simp_all add: arr_ok_def esize_def z_def trivial_ok_def)
  have ld: "length d = length xs * z" using T(1) by (simp add: d_def z_def)
  obtain m where m: "block_at s b = Some m" "j + length d \<le> length m"
  proof -
    have "0 < length xs" using n(2) by simp
    from contig_bound [OF ok c n(1) this] obtain m where
      "block_at s b = Some m" "j + length xs * esize a \<le> length m" unfolding b_def j_def .
    with that show ?thesis unfolding ld T(2) by blast
  qed
  have inv: "al_inv s" "\<not> al_locked s" using ok by (simp_all add: arr_ok_def)
  obtain s' where s': "alloc_write g d i nb s = Some (Inr (), s')" "al_inv s'" "\<not> al_locked s'"
    "block_at s' = (block_at s)(b \<mapsto> splice j d m)"
  proof -
    have "block_at s (blockAddr g) = Some m" "j = unat (offset g) + unat i" "length d = unat nb"
      using m(1) seg nb by (simp_all only: b_def j_def ld z_def)
    from alloc_write_run [OF inv this(1,2) m(2) this(3)] that show ?thesis
      by (auto simp: b_def seg(1))
  qed
  have w: "alloc_write g (store_elems T (xs @ ys)) i nb s = Some (Inr (), s')"
    using s'(1) alloc_write_take [of nb "store_elems T (xs @ ys)" g i] T(1) nb
    by (simp add: d_def)
  have pl: "place a (p + k) = (b, j + k * z)" if "k < length xs" for k
    using c that by (simp add: contig_def b_def j_def T(2))
  have away: "win s' c' j' n' = win s c' j' n'"
    if "\<And>k. k < length xs \<Longrightarrow> apart z (b, j + k * z) c' j' n'" for c' j' n'
    using apart_run [of "length xs" z b j c' j' n'] that T(3) win_write_out [OF s'(4) m] n(2)
    by (auto simp: ld win_def)
  have out: "outside a s s'"
    unfolding outside_def
  proof (intro conjI allI impI s'(2,3))
    show "map_option length (block_at s' c') = map_option length (block_at s c')" for c'
      using m by (auto simp: s'(4) splice_def)
    fix c' j' n' assume "\<forall>q < alen a. apart (esize a) (place a q) c' j' n'"
    then show "win s' c' j' n' = win s c' j' n'"
      using n(1) by (intro away) (metis T(2) add_less_cancel_left order.strict_trans2 pl)
  qed
  moreover have "arr_ok T a s'" by (rule arr_ok_outside [OF ok out])
  moreover have "alist T a s' = set_list p xs (alist T a s)"
  proof (rule nth_equalityI)
    show "length (alist T a s') = length (set_list p xs (alist T a s))" using n by simp
    fix q assume "q < length (alist T a s')"
    then have q: "q < alen a" by simp
    have "elem T s' (place a q) = (if p \<le> q \<and> q < p + length xs then xs ! (q - p) else elem T s (place a q))"
    proof (cases "p \<le> q \<and> q < p + length xs")
      case True
      define k where "k = q - p"
      have k: "k < length xs" "q = p + k" using True by (auto simp: k_def)
      then have "k * z + z \<le> length d"
        using mult_le_mono1 [of "Suc k" "length xs" z] by (simp add: ld add.commute)
      then have "win s' b (j + k * z) z = enc T (xs ! k)"
        using win_write_in [OF s'(4) m(2)] nth_store [OF T(1) k(1)] by (simp add: d_def z_def)
      then show ?thesis
        using True T(1) pl [OF k(1)] k by (simp add: elem_def z_def trivial_ok_def)
    next
      case False
      have "win s' (fst (place a q)) (snd (place a q)) z = win s (fst (place a q)) (snd (place a q)) z"
      proof (rule away)
        fix k assume k: "k < length xs"
        then have "p + k < alen a" "p + k \<noteq> q" using n(1) False by auto
        with ok q have "apart (esize a) (place a (p + k)) (fst (place a q)) (snd (place a q)) (esize a)"
          by (simp add: arr_ok_def placed_def)
        then show "apart z (b, j + k * z) (fst (place a q)) (snd (place a q)) z" by (simp add: pl [OF k] T(2))
      qed
      with False show ?thesis by (auto simp: elem_def z_def)
    qed
    then show "alist T a s' ! q = set_list p xs (alist T a s) ! q"
      using q n by (simp add: nth_set_list) (simp add: alist_def)
  qed
  ultimately show ?thesis using w by (auto simp: written_def)
qed

text \<open>A state in which an operation only read.\<close>

definition unchanged :: "'a trivial \<Rightarrow> cache_array \<Rightarrow> allocator \<Rightarrow> allocator \<Rightarrow> bool" where
  "unchanged T a s s' \<longleftrightarrow> arr_ok T a s' \<and> block_at s' = block_at s"

lemma unchanged_alist: "unchanged T a s s' \<Longrightarrow> alist U b s' = alist U b s"
  by (simp add: unchanged_def alist_def elem_def win_def)

lemma unchanged_outside: "unchanged T a s s' \<Longrightarrow> outside b s s'"
  by (auto simp: unchanged_def arr_ok_def intro: outside_same)

lemma unchanged_trans: "unchanged T a s s' \<Longrightarrow> unchanged T a s' s'' \<Longrightarrow> unchanged T a s s''"
  by (simp add: unchanged_def)

lemma unchanged_refl: "arr_ok T a s \<Longrightarrow> unchanged T a s s"
  by (simp add: unchanged_def)

lemma seg_read:
  assumes ok: "arr_ok T a s" and c: "contig a p n" and n: "p + n \<le> alen a" "0 < n"
    and seg: "blockAddr g = fst (place a p)" "unat (offset g) + unat i = snd (place a p)"
    and nb: "unat nb = n * unat (tsize T)"
  shows "\<exists>s' bs. alloc_read g i nb s = Some (Inr bs, s') \<and> unchanged T a s s' \<and>
    length bs = unat nb \<and> load_elems T n bs = take n (drop p (alist T a s))"
proof -
  define b j z where "b = fst (place a p)" and "j = snd (place a p)" and "z = unat (tsize T)"
  have T: "trivial_ok T" "esize a = z"
    using ok by (simp_all add: arr_ok_def esize_def z_def)
  obtain m where m: "block_at s b = Some m" "j + n * z \<le> length m"
    using contig_bound [OF ok c n] unfolding b_def j_def T(2) by metis
  have inv: "al_inv s" "\<not> al_locked s" using ok by (simp_all add: arr_ok_def)
  have "block_at s (blockAddr g) = Some m" "j = unat (offset g) + unat i" "j + unat nb \<le> length m"
    using m seg nb by (simp_all only: b_def j_def z_def)
  from alloc_read_run [OF inv this] obtain s' where s': "alloc_read g i nb s = Some (Inr (take (n * z) (drop j m)), s')"
    "al_inv s'" "\<not> al_locked s'" "block_at s' = block_at s" by (auto simp: nb z_def)
  have "arr_ok T a s'" by (rule arr_ok_outside [OF ok outside_same [OF s'(2,3,4)]])
  moreover have "load_elems T n (take (n * z) (drop j m)) = take n (drop p (alist T a s))"
  proof (rule nth_equalityI)
    show "length (load_elems T n (take (n * z) (drop j m))) = length (take n (drop p (alist T a s)))"
      using n by simp
    fix k assume "k < length (load_elems T n (take (n * z) (drop j m)))"
    then have k: "k < n" by simp
    then have "place a (p + k) = (b, j + k * z)"
      using c by (simp add: contig_def b_def j_def T(2))
    moreover have "Suc k * z \<le> n * z" using k by (intro mult_le_mono1) simp
    then have "take z (drop (k * z) (take (n * z) (drop j m))) = take z (drop (j + k * z) m)"
      by (simp add: drop_take add.commute min_def)
    ultimately show "load_elems T n (take (n * z) (drop j m)) ! k = take n (drop p (alist T a s)) ! k"
      using k n m by (simp add: nth_load alist_def elem_def win_def flip: z_def)
  qed
  moreover have "length (take (n * z) (drop j m)) = unat nb" using m(2) nb by (simp add: z_def)
  ultimately show ?thesis using s' by (auto simp: unchanged_def)
qed

section \<open>Reading and writing elements\<close>

lemma index_facts:
  assumes "shape a"
  shows "unat (ca_index a i) = unat i div perblock a" "unat (ca_offset a i) = unat i mod perblock a"
    "ca_index a i < ca_nbBlocks a \<longleftrightarrow> unat i < nblocks a * perblock a"
    "ca_sizeDividePerBlock a \<noteq> 0"
proof -
  have D: "0 < perblock a" using assms by (simp add: shape_def)
  show 1: "unat (ca_index a i) = unat i div perblock a" by (simp add: ca_index_def unat_div perblock_def)
  have "ca_offset a i = i mod ca_sizeDividePerBlock a"
    by (simp add: ca_offset_def ca_index_def minus_div_mult_eq_mod)
  then show "unat (ca_offset a i) = unat i mod perblock a" by (simp add: unat_mod perblock_def)
  show "ca_index a i < ca_nbBlocks a \<longleftrightarrow> unat i < nblocks a * perblock a"
    using D by (simp add: word_less_nat_alt 1 nblocks_def div_less_iff_less_mult)
  show "ca_sizeDividePerBlock a \<noteq> 0" using D by (auto simp: perblock_def)
qed

lemma rest_facts:
  assumes "shape a" and "unat i < alen a" and "nblocks a * perblock a \<le> unat i"
  shows "unat (rest_offset a i) = unat i - nblocks a * perblock a"
proof (cases "nblocks a = 0")
  case True
  then show ?thesis using assms index_facts(1) [OF assms(1), of i]
    by (simp add: rest_offset_def shape_def perblock_def word_unat_eq_iff)
next
  case False
  then have n: "unat i < nblocks a * perblock a + perblock a" "perblock a \<noteq> 1"
    using assms by (auto simp: shape_def)
  then have "unat i mod perblock a = unat i - nblocks a * perblock a"
    using assms(3) by (metis add_diff_inverse_nat add_less_cancel_left le_add_diff_inverse mod_less mod_mult_self3 not_le)
  then show ?thesis using n index_facts(2) [OF assms(1), of i]
    by (auto simp: rest_offset_def perblock_def)
qed

lemma contig_block:
  assumes "p < nblocks a * perblock a" and "p mod perblock a + c \<le> perblock a"
  shows "contig a p c"
proof -
  have "(p + k) div perblock a = p div perblock a \<and> (p + k) mod perblock a = p mod perblock a + k \<and>
      p + k < nblocks a * perblock a" if "k < c" for k
  proof -
    have k: "p mod perblock a + k < perblock a" using that assms(2) by simp
    have "p + k = p div perblock a * perblock a + (p mod perblock a + k)"
      by simp
    then have "(p + k) div perblock a = p div perblock a" "(p + k) mod perblock a = p mod perblock a + k"
      using k by (metis add.commute add.right_neutral div_less div_mult_self1 less_nat_zero_code mult.commute neq0_conv,
        metis k mod_less mod_mult_self3)
    moreover have "p div perblock a < nblocks a" using assms(1) by (simp add: less_mult_imp_div_less)
    ultimately show ?thesis using k
      by (metis div_less_iff_less_mult less_nat_zero_code neq0_conv)
  qed
  then show ?thesis using assms(1) by (simp add: contig_def place_def distrib_right)
qed

lemma contig_rest: "nblocks a * perblock a \<le> p \<Longrightarrow> contig a p c"
proof -
  assume p: "nblocks a * perblock a \<le> p"
  show "contig a p c"
    unfolding contig_def
  proof (intro allI impI)
    fix k
    have "place a (p + k) = (blockAddr (ca_rest a),
        unat (offset (ca_rest a)) + (p + k - nblocks a * perblock a) * esize a)"
      using p by (simp add: place_def)
    also have "(p + k - nblocks a * perblock a) * esize a = (p - nblocks a * perblock a) * esize a + k * esize a"
      using p by (metis Nat.diff_add_assoc2 distrib_right)
    finally show "place a (p + k) = (fst (place a p), snd (place a p) + k * esize a)"
      using p by (simp add: place_def)
  qed
qed

text \<open>Where the code goes for index \<open>i\<close> is the place of the element.\<close>

lemma block_place:
  assumes "shape a" and "ca_innerSize a = tsize T" and "unat i < nblocks a * perblock a"
    and "snd (place a (unat i)) < 2 ^ 32"
  shows "blockAddr (block_segment a (ca_index a i)) = fst (place a (unat i))"
    and "unat (offset (block_segment a (ca_index a i))) + unat (ca_offset a i * tsize T) = snd (place a (unat i))"
proof -
  have "of_nat (unat i div perblock a) = ca_index a i"
    by (simp flip: index_facts(1) [OF assms(1), of i])
  then show "blockAddr (block_segment a (ca_index a i)) = fst (place a (unat i))"
    using assms(3) by (simp add: block_segment_def place_def)
  have o: "unat (ca_offset a i) = unat i mod perblock a" by (rule index_facts(2) [OF assms(1)])
  have "unat (ca_offset a i) * unat (tsize T) < 2 ^ 32"
    using assms(2-4) by (simp add: place_def o esize_def)
  then show "unat (offset (block_segment a (ca_index a i))) + unat (ca_offset a i * tsize T) = snd (place a (unat i))"
    using assms(2,3) by (simp add: block_segment_def place_def ALLOC_HEAD_SIZE_def unat_mult_lem [THEN iffD1] o esize_def)
qed

lemma rest_place:
  assumes "shape a" and "ca_innerSize a = tsize T" and "unat i < alen a" and "\<not> unat i < nblocks a * perblock a"
    and "snd (place a (unat i)) < 2 ^ 32"
  shows "blockAddr (ca_rest a) = fst (place a (unat i))"
    and "unat (offset (ca_rest a)) + unat (rest_offset a i * tsize T) = snd (place a (unat i))"
proof -
  show "blockAddr (ca_rest a) = fst (place a (unat i))" using assms(4) by (simp add: place_def)
  have o: "unat (rest_offset a i) = unat i - nblocks a * perblock a"
    using rest_facts [OF assms(1,3)] assms(4) by simp
  have "unat (rest_offset a i) * unat (tsize T) < 2 ^ 32"
    using assms(2,4,5) by (simp add: place_def o esize_def)
  then show "unat (offset (ca_rest a)) + unat (rest_offset a i * tsize T) = snd (place a (unat i))"
    using assms(2,4) by (simp add: place_def unat_mult_lem [THEN iffD1] o esize_def)
qed

lemma count_bytes:
  assumes ok: "arr_ok T a s" and "contig a p (unat nb)" and "p + unat nb \<le> alen a" and "0 < unat nb"
  shows "unat (tsize T * nb) = unat nb * unat (tsize T)" and "snd (place a p) < 2 ^ 32"
proof -
  obtain m where m: "block_at s (fst (place a p)) = Some m" "snd (place a p) + unat nb * esize a \<le> length m"
    "length m = unat (al_block_size s)" by (rule contig_bound [OF assms])
  then have le: "snd (place a p) + unat nb * esize a \<le> unat (al_block_size s)" by simp
  have z: "esize a = unat (tsize T)" "0 < unat (tsize T)"
    using ok by (simp_all add: arr_ok_def esize_def trivial_ok_def)
  have "unat (tsize T) * unat nb < 2 ^ 32" "snd (place a p) < 2 ^ 32"
    using le unat_less_u32 [of "al_block_size s"] unfolding z(1) by (simp_all add: mult.commute)
  then show "unat (tsize T * nb) = unat nb * unat (tsize T)" "snd (place a p) < 2 ^ 32"
    by (simp_all add: unat_mult_lem [THEN iffD1] mult.commute)
qed

text \<open>Writing the elements of one chunk.\<close>

lemma chunk_access:
  assumes ok: "arr_ok T a s" and n: "unat i + unat nb \<le> alen a" "0 < unat nb"
    and c: "unat i < nblocks a * perblock a \<Longrightarrow> unat i mod perblock a + unat nb \<le> perblock a"
  defines "g \<equiv> if ca_index a i < ca_nbBlocks a then block_segment a (ca_index a i) else ca_rest a"
    and "o' \<equiv> if ca_index a i < ca_nbBlocks a then ca_offset a i * tsize T else rest_offset a i * tsize T"
  shows "unat nb \<le> length buffer \<Longrightarrow> \<exists>s'. alloc_write g (store_elems T buffer) o' (tsize T * nb) s = Some (Inr (), s') \<and>
      written T a (unat i) (take (unat nb) buffer) s s'"
    and "\<exists>s' bs. alloc_read g o' (tsize T * nb) s = Some (Inr bs, s') \<and> unchanged T a s s' \<and>
      length bs = unat (tsize T * nb) \<and> load_elems T (unat nb) bs = take (unat nb) (drop (unat i) (alist T a s))"
proof -
  have sh: "shape a" "ca_innerSize a = tsize T" using ok by (simp_all add: arr_ok_def)
  have contig: "contig a (unat i) (unat nb)"
    using c contig_block contig_rest by (metis not_le)
  note b = count_bytes [OF ok contig n]
  have g: "blockAddr g = fst (place a (unat i))" "unat (offset g) + unat o' = snd (place a (unat i))"
    using block_place [OF sh _ b(2)] rest_place [OF sh _ _ b(2)] n index_facts(3) [OF sh(1), of i]
    by (auto simp: g_def o'_def)
  show "\<exists>s' bs. alloc_read g o' (tsize T * nb) s = Some (Inr bs, s') \<and> unchanged T a s s' \<and>
      length bs = unat (tsize T * nb) \<and> load_elems T (unat nb) bs = take (unat nb) (drop (unat i) (alist T a s))"
    by (rule seg_read [OF ok contig n g b(1)])
  assume l: "unat nb \<le> length buffer"
  define xs where "xs = take (unat nb) buffer"
  have xs: "length xs = unat nb" "xs \<noteq> []" "xs @ drop (unat nb) buffer = buffer"
    using l n(2) by (auto simp: xs_def)
  have "contig a (unat i) (length xs)" "unat i + length xs \<le> alen a" "unat (tsize T * nb) = length xs * unat (tsize T)"
    using contig n(1) b(1) by (simp_all only: xs(1))
  from seg_write [OF ok this(1,2) xs(2) g this(3), of "drop (unat nb) buffer"]
  show "\<exists>s'. alloc_write g (store_elems T buffer) o' (tsize T * nb) s = Some (Inr (), s') \<and>
      written T a (unat i) (take (unat nb) buffer) s s'"
    unfolding xs(3) unfolding xs_def .
qed

text \<open>An access that leaves its block is cut in two: \<open>c\<close> elements, then \<open>rest\<close>.\<close>

lemma end_facts:
  assumes "shape a" and "unat i + unat nb \<le> alen a"
  shows "unat (nb + ca_offset a i) = unat nb + unat i mod perblock a"
    and "ca_sizeDividePerBlock a < nb + ca_offset a i \<longleftrightarrow> perblock a < unat i mod perblock a + unat nb"
proof -
  have "unat i mod perblock a \<le> unat i" by simp
  then have "unat nb + unat i mod perblock a < 4294967296"
    using assms(2) unat_less_u32 [of "ca_size a"] unfolding alen_def by linarith
  then show "unat (nb + ca_offset a i) = unat nb + unat i mod perblock a"
    using unat_add_u32 [of nb "ca_offset a i"] by (simp add: index_facts(2) [OF assms(1)])
  then show "ca_sizeDividePerBlock a < nb + ca_offset a i \<longleftrightarrow> perblock a < unat i mod perblock a + unat nb"
    by (simp add: word_less_nat_alt perblock_def add.commute)
qed

lemma split_facts:
  assumes sh: "shape a" and n: "unat i + unat nb \<le> alen a" and more: "perblock a < unat i mod perblock a + unat nb"
  defines "rest \<equiv> nb + ca_offset a i - ca_sizeDividePerBlock a"
  defines "c \<equiv> nb - rest"
  shows "unat nb = unat c + unat rest" "0 < unat c" "0 < unat rest" "unat i mod perblock a + unat c \<le> perblock a"
    "unat (i + c) = unat i + unat c"
proof -
  have md: "unat i mod perblock a < perblock a" using sh by (simp add: shape_def)
  have r: "unat rest = unat nb + unat i mod perblock a - perblock a"
    using more end_facts [OF sh n] by (simp add: rest_def unat_sub word_le_nat_alt perblock_def)
  have c: "unat c = perblock a - unat i mod perblock a"
    using more md r by (simp add: c_def unat_sub word_le_nat_alt)
  show s: "unat nb = unat c + unat rest" and "0 < unat c" and "0 < unat rest"
    and "unat i mod perblock a + unat c \<le> perblock a" using more md r c by linarith+
  have "unat i + unat c < 4294967296" using s n unat_less_u32 [of "ca_size a"] by (simp add: alen_def)
  then show "unat (i + c) = unat i + unat c" by (rule unat_add_u32)
qed

lemma setNb_run:
  assumes "arr_ok T a s" and "unat i + unat nb \<le> alen a" and "0 < unat nb" and "unat nb \<le> length buffer"
  shows "\<exists>s'. ca_setNb T a i buffer nb s = Some (Inr (), s') \<and>
    written T a (unat i) (take (unat nb) buffer) s s'"
  using assms
proof (induction "unat nb" arbitrary: i nb buffer s rule: less_induct)
  case less
  let ?D = "perblock a" and ?N = "nblocks a * perblock a"
  have sh: "shape a" using less.prems(1) by (simp add: arr_ok_def)
  note f = index_facts [OF sh] and e = end_facts [OF sh less.prems(2)]
  show ?case
  proof (cases "unat i < ?N \<and> ?D < unat i mod ?D + unat nb")
    case False
    then have c: "unat i < ?N \<Longrightarrow> unat i mod ?D + unat nb \<le> ?D" by linarith
    from False show ?thesis
      using chunk_access(1) [OF less.prems(1-3) c less.prems(4)] f e
      by (subst ca_setNb.simps) (auto split: if_splits)
  next
    case True
    define rest c where "rest = nb + ca_offset a i - ca_sizeDividePerBlock a" and "c = nb - rest"
    have more: "?D < unat i mod ?D + unat nb" using True by simp
    note sp = split_facts [OF sh less.prems(2) more, folded rest_def, folded c_def]
    have ic: "unat i + unat c \<le> alen a" "unat c \<le> length buffer" using sp(1) less.prems(2,4) by linarith+
    obtain s1 where s1: "alloc_write (block_segment a (ca_index a i)) (store_elems T buffer) (ca_offset a i * tsize T)
        (tsize T * c) s = Some (Inr (), s1)" "written T a (unat i) (take (unat c) buffer) s s1"
      using chunk_access(1) [OF less.prems(1) ic(1) sp(2,4) ic(2)] True f(3) [of i] by auto
    obtain s2 where s2: "ca_setNb T a (i + c) (drop (unat c) buffer) rest s1 = Some (Inr (), s2)"
        "written T a (unat (i + c)) (take (unat rest) (drop (unat c) buffer)) s1 s2"
    proof -
      have "unat rest \<le> length (drop (unat c) buffer)" "unat rest < unat nb"
        using less.prems(4) sp(1,2) by simp_all
      then show ?thesis
        using less.hyps [of rest s1 "i + c" "drop (unat c) buffer"] s1(2) less.prems(2) sp that
        by (auto simp: written_def)
    qed
    have "take (unat c) buffer @ take (unat rest) (drop (unat c) buffer) = take (unat nb) buffer"
      by (simp add: sp(1) take_add)
    moreover have "length (take (unat c) buffer) = unat c" using ic(2) by simp
    moreover have "unat i + length (take (unat c) buffer) + length (take (unat rest) (drop (unat c) buffer)) \<le> length (alist T a s)"
      using less.prems(2) sp(1) ic(2) by simp
    ultimately have "written T a (unat i) (take (unat nb) buffer) s s2"
      using s1(2) s2(2) set_list_append [of "unat i" "take (unat c) buffer" _ "alist T a s"] outside_trans
      by (auto simp: written_def sp(5))
    then show ?thesis
      using s1(1) s2(1) True e f(3,4)
      by (subst ca_setNb.simps) (simp add: act_simps flip: rest_def c_def)
  qed
qed

lemma getNb_run:
  assumes "arr_ok T a s" and "unat i + unat nb \<le> alen a" and "0 < unat nb"
  shows "\<exists>s'. ca_getNb T a i nb s = Some (Inr (take (unat nb) (drop (unat i) (alist T a s))), s') \<and>
    unchanged T a s s'"
  using assms
proof (induction "unat nb" arbitrary: i nb s rule: less_induct)
  case less
  let ?D = "perblock a" and ?N = "nblocks a * perblock a"
  have sh: "shape a" using less.prems(1) by (simp add: arr_ok_def)
  note f = index_facts [OF sh] and e = end_facts [OF sh less.prems(2)]
  show ?case
  proof (cases "unat i < ?N \<and> ?D < unat i mod ?D + unat nb")
    case False
    then have c: "unat i < ?N \<Longrightarrow> unat i mod ?D + unat nb \<le> ?D" by linarith
    from chunk_access(2) [OF less.prems c] e False f show ?thesis
      by (subst ca_getNb.simps) (auto simp: act_simps split: if_splits)
  next
    case True
    define rest c where "rest = nb + ca_offset a i - ca_sizeDividePerBlock a" and "c = nb - rest"
    have more: "?D < unat i mod ?D + unat nb" using True by simp
    note sp = split_facts [OF sh less.prems(2) more, folded rest_def, folded c_def]
    have ic: "unat i + unat c \<le> alen a" using sp(1) less.prems(2) by linarith
    obtain s1 where s1: "ca_getNb T a (i + c) rest s = Some (Inr (take (unat rest) (drop (unat (i + c)) (alist T a s))), s1)"
        "unchanged T a s s1"
      using less.hyps [of rest s "i + c"] less.prems sp by auto
    then have "arr_ok T a s1" by (simp add: unchanged_def)
    from chunk_access(2) [OF this ic sp(2,4)] True f(3) [of i]
    obtain s2 bs where s2: "alloc_read (block_segment a (ca_index a i)) (ca_offset a i * tsize T) (tsize T * c) s1 =
        Some (Inr bs, s2)" "unchanged T a s1 s2" "load_elems T (unat c) bs = take (unat c) (drop (unat i) (alist T a s1))"
      by auto
    have "take (unat c) (drop (unat i) (alist T a s1)) @ take (unat rest) (drop (unat (i + c)) (alist T a s)) =
        take (unat nb) (drop (unat i) (alist T a s))"
      by (simp add: take_add sp(1,5) unchanged_alist [OF s1(2)] add.commute [of "unat c" "unat i"])
    then show ?thesis
      using s1 s2 True e f(3,4) unchanged_trans [OF s1(2) s2(2)]
      by (subst ca_getNb.simps) (simp add: act_simps flip: rest_def c_def)
  qed
qed

lemma set_run:
  assumes "arr_ok T a s" and "unat i < alen a"
  shows "\<exists>s'. ca_set T a i x s = Some (Inr (), s') \<and> written T a (unat i) [x] s s'"
proof -
  have sh: "shape a" using assms(1) by (simp add: arr_ok_def)
  have D: "0 < perblock a" using sh by (simp add: shape_def)
  then have m: "unat i mod perblock a + unat (1 :: u32) \<le> perblock a" by (simp add: Suc_leI)
  have "unat i + unat (1 :: u32) \<le> alen a" using assms(2) by simp
  from chunk_access(1) [OF assms(1) this _ m, of "[x]"] index_facts(3,4) [OF sh] show ?thesis
    by (auto simp: ca_set_def store_elems_def)
qed

lemma get_run:
  assumes "arr_ok T a s" and "unat i < alen a"
  shows "\<exists>s'. ca_get T a i s = Some (Inr (alist T a s ! unat i), s') \<and> unchanged T a s s'"
proof -
  have sh: "shape a" using assms(1) by (simp add: arr_ok_def)
  have D: "0 < perblock a" using sh by (simp add: shape_def)
  then have m: "unat i mod perblock a + unat (1 :: u32) \<le> perblock a" by (simp add: Suc_leI)
  have n: "unat i + unat (1 :: u32) \<le> alen a" using assms(2) by simp
  obtain s' bs where s': "alloc_read (if ca_index a i < ca_nbBlocks a then block_segment a (ca_index a i) else ca_rest a)
      (if ca_index a i < ca_nbBlocks a then ca_offset a i * tsize T else rest_offset a i * tsize T) (tsize T * 1) s =
      Some (Inr bs, s')" "unchanged T a s s'" "length bs = unat (tsize T * 1)"
      "load_elems T 1 bs = take 1 (drop (unat i) (alist T a s))"
    using chunk_access(2) [OF assms(1) n _ m] by auto
  have "alloc_read (if ca_index a i < ca_nbBlocks a then block_segment a (ca_index a i) else ca_rest a)
      (if ca_index a i < ca_nbBlocks a then ca_offset a i * tsize T else rest_offset a i * tsize T) (tsize T) s =
      Some (Inr bs, s')" using s'(1) by simp
  moreover have "dec T bs = alist T a s ! unat i"
    using s'(3,4) assms(2) by (simp add: take_Suc hd_drop_conv_nth)
  ultimately show ?thesis using s'(2) index_facts(4) [OF sh]
    by (auto simp: ca_get_def act_simps split: if_splits)
qed

end
