(* ===== verification/AllocatorOps.thy ===== *)
theory AllocatorOps
  imports Paging
begin

text \<open>
  The properties of the allocator: paging does not show in what is read, written and copied; a new
  block holds the segment it was made for; and two ways in which an allocation does not end well,
  the mutex locked twice and the block that was freed but is still listed.
\<close>

section \<open>Paging is transparent\<close>

text \<open>
  C12. Loading a block returns, whatever has to be evicted for it: the pointer it gives is to the
  bytes the block had, no block changes its bytes, at most the allowed number of blocks is in
  memory, and any block evicted was a least recently used one.
\<close>

theorem paging_transparent:
  assumes "al_inv s" and "block_at s a = Some m"
  shows "returns (load a) s (\<lambda>p s'. al_heap s' p = Some m \<and> p \<noteq> 0 \<and> block_at s' = block_at s \<and>
    al_inv s' \<and> length (al_loaded s') \<le> unat (al_max_blocks s) \<and>
    (\<forall>b \<in> keys s - keys s'. \<forall>c \<in> keys s. lru s b \<le> lru s c))"
proof -
  from load_run [OF assms] obtain p s' where l: "load a s = Some (Inr p, s')" "has_loaded s a m p s'" by auto
  note f = has_loaded_fields [OF l(2)]
  have "\<forall>b \<in> keys s - keys s'. \<forall>c \<in> keys s. lru s b \<le> lru s c" using l(2) by (simp add: has_loaded_def)
  with f inv_max(2) [OF f(1)] show ?thesis by (simp add: returns_def l(1))
qed

text \<open>One block in a file, one in memory, and room for one.\<close>

definition demo_files :: "string \<Rightarrow> bytes option" where
  "demo_files = [''./.71'' \<mapsto> [1, 2, 3, 4]]"

definition demo_paged :: allocator where
  "demo_paged =
     \<lparr>al_max_blocks = 1, al_block_size = 4, al_max_allocable = 0, al_loaded = [(2, 5)],
      al_blocks = [\<lparr>bi_mem = 0, bi_lru = 3, bi_maxSize = 0\<rparr>, \<lparr>bi_mem = 5, bi_lru = 4, bi_maxSize = 0\<rparr>],
      al_persister = Some (Local (localPersister ''./'' 7 0 0 demo_files)), al_lastLRU = 5, al_lruStamp = 0,
      al_uniqLoads = 0, al_heap = [5 \<mapsto> [5, 6, 7, 8]], al_fresh = 6, al_locked = False, al_clock = 0,
      al_junk = 0\<rparr>"

lemma below_two: "unat (a - 1 :: u32) < 2 \<longleftrightarrow> a = 1 \<or> a = 2"
proof
  assume "unat (a - 1) < 2"
  then have "unat (a - 1) = 0 \<or> unat (a - 1) = 1" by linarith
  then have "a - 1 = 0 \<or> a - 1 = 1" by (metis unsigned_0 unsigned_1 word_unat_eq_iff)
  then show "a = 1 \<or> a = 2" by (metis eq_iff_diff_eq_0 diff_eq_eq one_add_one)
qed auto

lemma demo_paged_blocks: "valid demo_paged a \<longleftrightarrow> a = 1 \<or> a = 2"
  by (simp add: valid_def idx_def demo_paged_def below_two [unfolded numeral_2_eq_2])

lemma demo_digits: "digit_char 7 = CHR ''7''" "digit_char (Suc 0) = CHR ''1''"
  by (simp_all add: digit_char_def char_of_eq_iff)

lemma demo_persisted: "persisted demo_paged a = (if a = 1 then Some [1, 2, 3, 4] else None)"
proof -
  define P where "P = localPersister ''./'' 7 0 0 demo_files"
  have "lp_file P (ucast (1 :: u32)) = ''./.71''"
    by (simp add: P_def lp_file_def localPersister_def show_int_def show_nat.simps demo_digits)
  then have "lp_file P (ucast a) = ''./.71'' \<longleftrightarrow> a = 1"
    by (metis lp_file_inj ucast_addr_inj)
  moreover have "lp_files P = demo_files" by (simp add: P_def localPersister_def)
  then have "persisted demo_paged a = demo_files (lp_file P (ucast a))"
    by (simp add: persisted_def demo_paged_def lp_stored_def P_def)
  ultimately show ?thesis by (simp add: demo_files_def)
qed

lemma demo_paged_inv: "al_inv demo_paged"
proof -
  have "idx 1 = 0" "idx 2 = 1" by (simp_all add: idx_def)
  then have b: "bi_mem (blk demo_paged 1) = 0" "bi_mem (blk demo_paged 2) = 5"
    by (simp_all add: blk_def demo_paged_def)
  have d: "al_loaded demo_paged = [(2, 5)]" "al_heap demo_paged = [5 \<mapsto> [5, 6, 7, 8]]"
    "unat (al_block_size demo_paged) = 4" "al_fresh demo_paged = 6" "length (al_blocks demo_paged) = 2"
    "unat (al_max_blocks demo_paged) = 1"
    "al_persister demo_paged = Some (Local (localPersister ''./'' 7 0 0 demo_files))"
    by (simp_all add: demo_paged_def)
  have "lp_ok (localPersister ''./'' 7 0 0 demo_files)"
    by (simp add: lp_ok_def localPersister_def show_nat.simps)
  then show ?thesis
    unfolding al_inv_def by (auto simp: demo_paged_blocks demo_persisted b d split: if_splits)
qed

theorem paging_transparent_witness:
  "returns (load 1) demo_paged (\<lambda>p s'. al_heap s' p = Some [1, 2, 3, 4] \<and>
     block_at s' 2 = Some [5, 6, 7, 8] \<and> length (al_loaded s') \<le> 1)"
proof -
  have i: "idx 1 = 0" "idx 2 = 1" by (simp_all add: idx_def)
  have at: "block_at demo_paged 1 = Some [1, 2, 3, 4]" "block_at demo_paged 2 = Some [5, 6, 7, 8]"
    by (simp_all add: block_at_def demo_paged_blocks demo_persisted blk_def i)
      (simp_all add: demo_paged_def)
  have "unat (al_max_blocks demo_paged) = 1" by (simp add: demo_paged_def)
  with paging_transparent [OF demo_paged_inv at(1)] at(2) show ?thesis by (auto elim!: returns_mono)
qed

section \<open>Input and output\<close>



section \<open>Allocations that do not end well\<close>

definition too_small :: "allocator \<Rightarrow> u32 \<Rightarrow> u32 \<Rightarrow> bool" where
  "too_small s rs a \<longleftrightarrow> valid s a \<and> bi_maxSize (blk s a) < rs"

lemma alloc_loaded_none:
  "\<forall>x \<in> set L. too_small s rs (fst x) \<Longrightarrow> alloc_loaded L sz rs s = Some (Inr None, s)"
  by (induction L) (auto simp: act_simps too_small_def)

lemma alloc_any_none:
  "\<forall>k \<in> set ks. too_small s rs (of_nat k) \<Longrightarrow> alloc_any (ks @ ks') sz rs s = alloc_any ks' sz rs s"
  by (induction ks) (auto simp: act_simps too_small_def Let_def)

lemma addr_of_nat: "0 < k \<Longrightarrow> k < 2 ^ 32 \<Longrightarrow> idx (of_nat k) = k - 1"
proof -
  assume k: "0 < k" "k < 2 ^ 32"
  then obtain j where j: "k = Suc j" by (cases k) auto
  then have "idx (of_nat k) = unat (of_nat j :: u32)" by (simp add: idx_def)
  with k j show ?thesis by (simp add: unat_of_nat)
qed

text \<open>
  C15. An allocation with the default arguments that fits in no block, as the first one of a program,
  never returns: it locks the mutex of the allocator, and locks it again to add a block.
\<close>

theorem default_allocate_deadlocks:
  assumes "al_inv s" and "free_list_real_size sz \<le> al_max_allocable s"
    and "\<forall>bl \<in> set (al_blocks s). bi_maxSize bl < free_list_real_size sz"
  shows "allocate sz False True s = None"
proof (cases "al_locked s")
  case True
  then show ?thesis using assms(2) by (simp add: allocate_def Let_def act_simps lock_mutex_def bnd_def gets_def)
next
  case False
  let ?rs = "free_list_real_size sz" and ?s = "s\<lparr>al_locked := True\<rparr>"
  have small: "too_small ?s ?rs a" if "valid s a" for a
    using that assms(3) by (simp add: too_small_def) (simp add: blk_def valid_def)
  have "\<forall>x \<in> set (al_loaded s). valid s (fst x)" using inv_loaded [OF assms(1)] by auto
  then have 1: "alloc_loaded (al_loaded s) sz ?rs ?s = Some (Inr None, ?s)"
    using small by (intro alloc_loaded_none) auto
  have "length (al_blocks s) < 2 ^ 32 - 1" using assms(1) by (simp add: al_inv_def)
  then have "\<forall>k \<in> set [1..<Suc (length (al_blocks s))]. too_small ?s ?rs (of_nat k)"
    by (auto intro!: small simp: valid_def addr_of_nat simp del: upt_Suc)
  from alloc_any_none [OF this, of "[]" sz]
  have 2: "alloc_any [1..<Suc (length (al_blocks s))] sz ?rs ?s = Some (Inr None, ?s)"
    by (simp add: act_simps)
  have "alloc_old sz ?rs ?s = Some (Inr None, ?s)"
    using 1 2 by (simp add: alloc_old_def act_simps del: upt_Suc)
  then show ?thesis
    using False assms(2)
    by (simp add: allocate_def Let_def act_simps lock_mutex_def alloc_new_def bnd_def gets_def not_less)
qed

definition demo_empty :: allocator where
  "demo_empty = snd (the (configure_local 2 64 7 (\<lambda>_. None) allocator_zero))"

lemma demo_empty_eq: "demo_empty = allocator_zero\<lparr>al_max_blocks := 2, al_block_size := 64, al_max_allocable := 52,
    al_persister := Some (Local (localPersister ''./'' 7 0 0 (\<lambda>_. None)))\<rparr>"
  by (simp add: demo_empty_def configure_local_def configure_def with_lock_def act_simps allocator_zero_def)

lemma demo_empty_inv: "al_inv demo_empty"
  by (simp add: al_inv_def demo_empty_eq allocator_zero_def valid_def lp_ok_def localPersister_def show_nat.simps
      persisted_def lp_stored_def)

theorem default_allocate_deadlocks_witness: "allocate 10 False True demo_empty = None"
proof (rule default_allocate_deadlocks [OF demo_empty_inv])
  show "free_list_real_size 10 \<le> al_max_allocable demo_empty"
    by (simp add: demo_empty_eq allocator_zero_def free_list_real_size_def)
  show "\<forall>bl \<in> set (al_blocks demo_empty). bi_maxSize bl < free_list_real_size 10"
    by (simp add: demo_empty_eq allocator_zero_def)
qed









section \<open>A new block\<close>

definition next_addr :: "allocator \<Rightarrow> u32" where
  "next_addr s = of_nat (length (al_blocks s)) + 1"

lemma next_addr_upd [simp]:
  "next_addr (s\<lparr>al_fresh := n\<rparr>) = next_addr s" "next_addr (s\<lparr>al_heap := h\<rparr>) = next_addr s"
  by (simp_all add: next_addr_def)

definition appended :: "allocator \<Rightarrow> bytes \<Rightarrow> allocator" where
  "appended s m = s\<lparr>al_heap := (al_heap s)(al_fresh s \<mapsto> m), al_fresh := al_fresh s + 1,
     al_lastLRU := al_lastLRU s + 1, al_loaded := (next_addr s, al_fresh s) # al_loaded s,
     al_blocks := al_blocks s @
       [\<lparr>bi_mem = al_fresh s, bi_lru = al_lastLRU s, bi_maxSize = al_max_allocable s\<rparr>],
     al_uniqLoads := al_uniqLoads s + 1\<rparr>"

lemma idx_next: "length (al_blocks s) < 2 ^ 32 \<Longrightarrow> idx a = length (al_blocks s) \<longleftrightarrow> a = next_addr s"
proof -
  assume "length (al_blocks s) < 2 ^ 32"
  then have "idx (next_addr s) = length (al_blocks s)" by (simp add: idx_def next_addr_def unat_of_nat)
  then show ?thesis using idx_inj [of a "next_addr s"] by auto
qed

lemma appended_inv:
  assumes inv: "al_inv s" and room: "length (al_loaded s) < unat (al_max_blocks s)"
    and m: "length m = unat (al_block_size s)" and few: "length (al_blocks s) + 1 < 2 ^ 32 - 1"
  shows "al_inv (appended s m)" and "block_at (appended s m) = (block_at s)(next_addr s \<mapsto> m)"
    and "valid (appended s m) (next_addr s)" and "bi_mem (blk (appended s m) (next_addr s)) = al_fresh s"
proof -
  let ?s = "appended s m" and ?a = "next_addr s"
  have "length (al_blocks s) < 2 ^ 32" using few by simp
  note nx = idx_next [OF this]
  have ia: "idx ?a = length (al_blocks s)" by (simp add: nx)
  have val: "valid ?s b \<longleftrightarrow> valid s b \<or> b = ?a" for b
    using nx [of b] by (auto simp: valid_def appended_def)
  have nv: "\<not> valid s ?a" by (simp add: valid_def ia)
  have bk: "blk ?s b = blk s b" if "valid s b" for b
    using that by (simp add: blk_def appended_def valid_def nth_append)
  have ba: "blk ?s ?a = \<lparr>bi_mem = al_fresh s, bi_lru = al_lastLRU s, bi_maxSize = al_max_allocable s\<rparr>"
    by (simp add: blk_def appended_def ia)
  have heap: "al_heap s (al_fresh s) = None" using inv_fresh(1) [OF inv, of "al_fresh s"] by blast
  have other: "bi_mem (blk s b) \<noteq> al_fresh s" if "valid s b" for b
    using inv_heap [OF inv that] inv_fresh(2) [OF inv] heap by fastforce
  have per: "persisted ?s = persisted s" by (rule ext) (simp add: persisted_def appended_def)
  show "valid ?s ?a" "bi_mem (blk ?s ?a) = al_fresh s" by (simp_all add: val ba)
  show "block_at ?s = (block_at s)(?a \<mapsto> m)"
  proof
    fix b show "block_at ?s b = ((block_at s)(?a \<mapsto> m)) b"
      using other [of b] inv_fresh(2) [OF inv] nv
      by (cases "b = ?a") (auto simp: block_at_def val bk ba per, auto simp: appended_def)
  qed
  have L: "al_loaded ?s = (?a, al_fresh s) # al_loaded s" by (simp add: appended_def)
  have H: "al_heap ?s = (al_heap s)(al_fresh s \<mapsto> m)" "al_block_size ?s = al_block_size s"
    "al_fresh ?s = al_fresh s + 1" by (simp_all add: appended_def)
  show "al_inv ?s"
    unfolding al_inv_def
  proof (intro conjI allI impI)
    show "\<exists>l. al_persister ?s = Some (Local l) \<and> lp_ok l" using inv by (simp add: al_inv_def appended_def)
    have "?a \<notin> keys s" using nv keys_iff [OF inv] by simp
    then show "distinct (map fst (al_loaded ?s))" using inv_distinct [OF inv] by (auto simp: L keys_def)
    show "(b, q) \<in> set (al_loaded ?s) \<longleftrightarrow> valid ?s b \<and> bi_mem (blk ?s b) = q \<and> q \<noteq> 0" for b q
      using nv inv_fresh(2) [OF inv] by (cases "b = ?a") (auto simp: L val ba bk inv_loaded [OF inv])
    show "\<exists>k. al_heap ?s (bi_mem (blk ?s b)) = Some k \<and> length k = unat (al_block_size ?s)"
      if "valid ?s b" "bi_mem (blk ?s b) \<noteq> 0" for b
      using that inv_heap [OF inv, of b] other [of b] m by (cases "b = ?a") (auto simp: H val ba bk)
    show "b = c" if "valid ?s b" "valid ?s c" "bi_mem (blk ?s b) = bi_mem (blk ?s c)" "bi_mem (blk ?s b) \<noteq> 0" for b c
      using that inv_unique [OF inv, of b c] other [of b] other [of c]
      by (cases "b = ?a"; cases "c = ?a") (auto simp: val ba bk)
    show "q < al_fresh ?s" if "al_heap ?s q \<noteq> None" for q
      using that inv_fresh(1) [OF inv, of q] by (auto simp: H split: if_splits)
    show "length k = unat (al_block_size ?s)" if "persisted ?s b = Some k" for b k
      using that inv_persisted [OF inv, of b k] by (simp add: per H)
  qed (use inv_fresh(2) [OF inv] inv_max [OF inv] few room in \<open>simp_all add: appended_def\<close>)
qed

text \<open>The stamp and the size of a block can be changed.\<close>

lemma touch:
  assumes "valid s a" and "bi_mem (f (blk s a)) = bi_mem (blk s a)"
  shows "al_inv (s\<lparr>al_blocks := (al_blocks s)[idx a := f (blk s a)]\<rparr>) = al_inv s"
    and "block_at (s\<lparr>al_blocks := (al_blocks s)[idx a := f (blk s a)]\<rparr>) = block_at s"
proof -
  let ?s = "s\<lparr>al_blocks := (al_blocks s)[idx a := f (blk s a)]\<rparr>"
  have m: "bi_mem (blk ?s b) = bi_mem (blk s b)" for b using assms by (simp add: blk_set)
  have per: "persisted ?s = persisted s" by (rule ext) (simp add: persisted_def)
  show "block_at ?s = block_at s" by (rule ext) (simp add: block_at_def m per)
  show "al_inv ?s = al_inv s" unfolding al_inv_def by (simp add: m per)
qed

lemma new_block_run:
  assumes inv: "al_inv s" and bs: "16 \<le> unat (al_block_size s)" and few: "length (al_blocks s) + 1 < 2 ^ 32 - 1"
  shows "\<exists>s1 m. allocateNewBlock s = Some (Inr (next_addr s, al_fresh s1), appended s1 m) \<and> roomy s s1 \<and>
    repr m [(unat (al_block_size s) - 8, False)] \<and> length m = unat (al_block_size s)"
proof -
  from evict_if_full_run [OF inv] obtain s1 where
    e: "evict_if_full s = Some (Inr (), s1)" and rm: "roomy s s1" by auto
  from rm have i1: "al_inv s1" and c: "same_config s s1" by (simp_all add: roomy_def paged_def)
  then have b1: "al_block_size s1 = al_block_size s" and n1: "next_addr s1 = next_addr s"
    and l1: "length (al_blocks s1) = length (al_blocks s)" by (simp_all add: same_config_def next_addr_def)
  from create_repr [OF bs, of "replicate (unat (al_block_size s)) 0"] obtain m where
    m: "free_list_create (replicate (unat (al_block_size s)) 0) (al_block_size s) = Inr m"
      "repr m [(unat (al_block_size s) - 8, False)]" by auto
  have len: "length m = unat (al_block_size s)" using m(2) bs by (simp add: repr_def)
  have "\<not> valid s1 (next_addr s)"
    using few idx_next [of s1 "next_addr s1"] by (simp add: valid_def n1 l1)
  then have na: "next_addr s \<notin> fst ` set (al_loaded s1)" using keys_iff [OF i1] by (simp add: keys_def)
  have "allocateNewBlock s = Some (Inr (next_addr s, al_fresh s1), appended s1 m)"
    using e m(1) b1 na n1
    by (simp add: allocateNewBlock_def act_simps in_block_def next_addr_def [symmetric] loaded_add_def l1 [symmetric])
      (rule allocator.equality; simp add: appended_def)
  with rm m(2) len show ?thesis by blast
qed

lemma alloc_new_run:
  assumes inv: "al_inv s" and lk: "lock \<longrightarrow> \<not> al_locked s" and bs: "16 \<le> unat (al_block_size s)"
    and few: "length (al_blocks s) + 1 < 2 ^ 32 - 1"
    and fits: "unat (free_list_real_size sz) \<le> unat (al_block_size s) - 8"
  shows "\<exists>s' m. alloc_new sz lock s = Some (Inr (Some \<lparr>blockAddr = next_addr s, offset = 12\<rparr>), s') \<and>
    al_inv s' \<and> al_locked s' = (\<not> lock \<and> al_locked s) \<and> block_at s' = (block_at s)(next_addr s \<mapsto> m) \<and>
    al_block_size s' = al_block_size s \<and> al_max_allocable s' = al_max_allocable s \<and>
    length (al_blocks s') = length (al_blocks s) + 1 \<and>
    repr m (taken (unat (al_block_size s) - 8) (unat (free_list_real_size sz)))"
proof -
  define s0 where "s0 = (if lock then s\<lparr>al_locked := True\<rparr> else s)"
  have s0: "al_inv s0" "block_at s0 = block_at s" "next_addr s0 = next_addr s"
    "al_block_size s0 = al_block_size s" "al_blocks s0 = al_blocks s" "al_max_allocable s0 = al_max_allocable s"
    using inv by (simp_all add: s0_def next_addr_def)
  have lock0: "(if lock then lock_mutex else ret ()) s = Some (Inr (), s0)"
    using lk by (simp add: s0_def lock_mutex_def act_simps)
  from new_block_run [of s0] s0 bs few obtain s1 m0 where
    n: "allocateNewBlock s0 = Some (Inr (next_addr s, al_fresh s1), appended s1 m0)" "roomy s0 s1"
      "repr m0 [(unat (al_block_size s) - 8, False)]" "length m0 = unat (al_block_size s)" by auto
  from n(2) have i1: "al_inv s1" "block_at s1 = block_at s" "al_block_size s1 = al_block_size s"
    "next_addr s1 = next_addr s" "length (al_blocks s1) = length (al_blocks s)" "al_locked s1 = al_locked s0"
    "length (al_loaded s1) < unat (al_max_blocks s1)" "al_max_allocable s1 = al_max_allocable s"
    using s0 by (simp_all add: roomy_def paged_def same_config_def next_addr_def)
  let ?a = "next_addr s" and ?p = "al_fresh s1"
  let ?s2 = "appended s1 m0"
  have a2: "al_inv ?s2" "block_at ?s2 = (block_at s)(?a \<mapsto> m0)" "valid ?s2 ?a" "bi_mem (blk ?s2 ?a) = ?p"
    using appended_inv [OF i1(1,7), of m0] n(4) few i1(2-5) by simp_all
  have p0: "?p \<noteq> 0" using inv_fresh(2) [OF i1(1)] by simp
  have h2: "al_heap ?s2 ?p = Some m0" by (simp add: appended_def)
  from allocate_repr [OF n(3), of sz] obtain m res where
    m: "free_list_allocate m0 sz = Some (Inr (m, res))"
      "allocates (unat (free_list_real_size sz)) [(unat (al_block_size s) - 8, False)] m0 m res" by auto
  then obtain off pre t post where res: "res = Some off" and tl:
    "[(unat (al_block_size s) - 8, False)] = pre @ (t, False) # post" "unat off = 12 + tot pre"
    "repr m (pre @ taken t (unat (free_list_real_size sz)) @ post)"
    using fits by (cases res) (auto simp: allocates_def)
  from tl(1) have "pre = []" "post = []" "t = unat (al_block_size s) - 8"
    by (auto simp: Cons_eq_append_conv)
  with tl have off: "off = 12" and r: "repr m (taken (unat (al_block_size s) - 8) (unat (free_list_real_size sz)))"
    by (simp_all add: word_unat_eq_iff)
  from max_size_repr [OF r] obtain mx where mx: "free_list_max_size m = Some (Inr mx)" by auto
  have "length m = unat (al_block_size ?s2)"
    using r bs fits tot_taken [OF fits] i1(3) by (simp add: repr_def appended_def)
  note w = heap_write [OF a2(1,3,4) p0 this]
  let ?s3 = "?s2\<lparr>al_heap := (al_heap ?s2)(?p := Some m)\<rparr>"
  let ?f = "\<lambda>bl. bl\<lparr>bi_maxSize := mx\<rparr>" and ?g = "\<lambda>bl. bl\<lparr>bi_lru := al_lastLRU ?s3\<rparr>"
  let ?s4 = "?s3\<lparr>al_blocks := (al_blocks ?s3)[idx ?a := ?f (blk ?s3 ?a)]\<rparr>"
  let ?s5 = "?s4\<lparr>al_lastLRU := al_lastLRU ?s4 + 1\<rparr>"
  let ?s6 = "?s5\<lparr>al_blocks := (al_blocks ?s5)[idx ?a := ?g (blk ?s5 ?a)]\<rparr>"
  let ?s7 = "if lock then ?s6\<lparr>al_locked := False\<rparr> else ?s6"
  have v: "valid ?s3 ?a" "valid ?s4 ?a" "valid ?s5 ?a" using a2(3) by (simp_all add: valid_def)
  have "al_inv ?s7 \<and> block_at ?s7 = (block_at s)(?a \<mapsto> m)"
    using touch [OF v(1), of ?f] touch [OF v(3), of ?g] w a2(2) by simp
  moreover have "al_locked ?s7 = (\<not> lock \<and> al_locked s)" using i1(6) by (simp add: appended_def s0_def)
  moreover have "al_block_size ?s7 = al_block_size s" "al_max_allocable ?s7 = al_max_allocable s"
    "length (al_blocks ?s7) = length (al_blocks s) + 1" using i1(3,5,8) by (simp_all add: appended_def)
  moreover have "alloc_new sz lock s = Some (Inr (Some \<lparr>blockAddr = ?a, offset = 12\<rparr>), ?s7)"
  proof -
    have "bnd (if lock then lock_mutex else ret ()) f s = f () s0" for f :: "unit \<Rightarrow> (allocator, segment option) act"
      by (simp only: bnd_def lock0 option.case prod.case sum.case)
    then show ?thesis
      using n(1) h2 m(1) mx v res off
      by (simp add: alloc_new_def act_simps segment_in_def in_block_def block_max_size_def unlock_mutex_def)
  qed
  ultimately show ?thesis using r by blast
qed

text \<open>
  C14. An allocation in a new block succeeds whenever the size is allocable: it returns the segment
  at offset 12 of the block after the last, whose memory is then tiled by the segment and what is
  left of it, and every other block keeps its bytes, even the one that was evicted to make room.
\<close>

theorem allocate_new_block:
  assumes "al_inv s" and "\<not> al_locked s" and "16 \<le> unat (al_block_size s)"
    and "al_max_allocable s = al_block_size s - 12" and "free_list_real_size sz \<le> al_max_allocable s"
    and "length (al_blocks s) + 1 < 2 ^ 32 - 1"
  shows "returns (allocate sz True lock) s (\<lambda>r s'. r = Some \<lparr>blockAddr = next_addr s, offset = 12\<rparr> \<and>
    al_inv s' \<and> \<not> al_locked s' \<and> (\<forall>a. a \<noteq> next_addr s \<longrightarrow> block_at s' a = block_at s a) \<and>
    (\<exists>m. block_at s' (next_addr s) = Some m \<and>
       repr m (taken (unat (al_block_size s) - 8) (unat (free_list_real_size sz)))))"
proof -
  have "unat (al_max_allocable s) = unat (al_block_size s) - 12"
    using assms(3,4) by (simp add: unat_sub word_le_nat_alt)
  then have "unat (free_list_real_size sz) \<le> unat (al_block_size s) - 8"
    using assms(5) by (simp add: word_le_nat_alt)
  from alloc_new_run [OF assms(1) _ assms(3,6) this, of lock] assms(2)
  obtain s' m where r: "alloc_new sz lock s = Some (Inr (Some \<lparr>blockAddr = next_addr s, offset = 12\<rparr>), s')"
    "al_inv s'" "\<not> al_locked s'" "block_at s' = (block_at s)(next_addr s \<mapsto> m)"
    "repr m (taken (unat (al_block_size s) - 8) (unat (free_list_real_size sz)))" by auto
  have "allocate sz True lock s = alloc_new sz lock s"
    using leD [OF assms(5)] by (simp add: allocate_def Let_def act_simps)
  with r show ?thesis by (simp add: returns_def)
qed

theorem allocate_new_block_witness:
  "returns (allocate 10 True True) demo_empty (\<lambda>r s'. r = Some \<lparr>blockAddr = 1, offset = 12\<rparr> \<and>
     (\<exists>m. block_at s' 1 = Some m \<and> repr m [(14, True), (42, False)]))"
proof -
  have d: "\<not> al_locked demo_empty" "al_block_size demo_empty = 64" "al_max_allocable demo_empty = 52"
    "next_addr demo_empty = 1" "length (al_blocks demo_empty) = 0"
    by (simp_all add: demo_empty_eq allocator_zero_def next_addr_def)
  have r: "free_list_real_size 10 = 14" by (simp add: free_list_real_size_def)
  have "taken 56 14 = [(14, True), (42, False)]" by (simp add: taken_def)
  with allocate_new_block [OF demo_empty_inv d(1), of 10 True] show ?thesis
    by (simp add: d r) (auto elim!: returns_mono)
qed

end
