(* ===== verification/ArrayOps.thy ===== *)
theory ArrayOps
  imports ArrayView AllocatorOps "HOL-Library.Multiset"
begin

text \<open>
  What the operations on an array do to the list of its elements: access, \<^verbatim>\<open>map\<close>, \<^verbatim>\<open>generate\<close> and
  \<^verbatim>\<open>reduce\<close> of \<^verbatim>\<open>array.hh\<close>, whatever blocks the array lies in and whichever of them are in memory.
\<close>

section \<open>Operations that make a list\<close>

text \<open>
  The operation returns, the array stays well-formed, nothing outside it changes, its list becomes
  the given one.
\<close>

definition makes :: "'a trivial \<Rightarrow> cache_array \<Rightarrow> (allocator, unit) act \<Rightarrow> allocator \<Rightarrow> 'a list \<Rightarrow> bool" where
  "makes T a m s xs \<longleftrightarrow> (\<exists>s'. m s = Some (Inr (), s') \<and> arr_ok T a s' \<and> outside a s s' \<and> alist T a s' = xs)"

lemma makesI: "m s = Some (Inr (), s') \<Longrightarrow> arr_ok T a s' \<Longrightarrow> outside a s s' \<Longrightarrow> alist T a s' = xs \<Longrightarrow> makes T a m s xs"
  by (auto simp: makes_def)

lemma makesE:
  assumes "makes T a m s xs"
  obtains s' where "m s = Some (Inr (), s')" "arr_ok T a s'" "outside a s s'" "alist T a s' = xs"
  using assms by (auto simp: makes_def)

lemma makes_bnd:
  assumes "makes T a m s xs" and "\<And>s'. arr_ok T a s' \<Longrightarrow> alist T a s' = xs \<Longrightarrow> makes T a (f ()) s' ys"
  shows "makes T a (bnd m f) s ys"
proof -
  obtain s1 where s1: "m s = Some (Inr (), s1)" "arr_ok T a s1" "outside a s s1" "alist T a s1 = xs"
    by (rule makesE [OF assms(1)])
  obtain s2 where "f () s1 = Some (Inr (), s2)" "arr_ok T a s2" "outside a s1 s2" "alist T a s2 = ys"
    by (rule makesE [OF assms(2) [OF s1(2,4)]])
  with s1 outside_trans [OF s1(3)] show ?thesis by (auto simp: makes_def act_simps)
qed

lemma makes_ret: "arr_ok T a s \<Longrightarrow> makes T a (ret ()) s (alist T a s)"
  by (auto simp: makes_def act_simps arr_ok_def intro: outside_same)

lemma makes_cong: "m s = m' s \<Longrightarrow> makes T a m s xs \<longleftrightarrow> makes T a m' s xs"
  by (simp add: makes_def)

lemma makes_setNb:
  assumes "arr_ok T a s" and "unat i + unat nb \<le> alen a" and "0 < unat nb" and "length buffer = unat nb"
  shows "makes T a (\<lambda>s. ca_setNb T a i buffer nb s) s (set_list (unat i) buffer (alist T a s))"
  using setNb_run [OF assms(1-3), of buffer] assms(4) by (auto simp: makes_def written_def)

lemma makes_put:
  assumes "arr_ok T a s" and "alist T a s = xs" and "unat i + unat nb \<le> alen a" and "0 < unat nb"
    and "length buffer = unat nb"
    and "\<And>s'. arr_ok T a s' \<Longrightarrow> alist T a s' = set_list (unat i) buffer xs \<Longrightarrow> makes T a (f ()) s' ys"
  shows "makes T a (bnd (\<lambda>s. ca_setNb T a i buffer nb s) f) s ys"
  using makes_bnd [OF makes_setNb [OF assms(1,3,4,5)]] assms(2,6) by blast

lemma makes_take:
  assumes "arr_ok T a s" and "alist T a s = xs" and "unat i + unat nb \<le> alen a" and "0 < unat nb"
    and "\<And>s'. arr_ok T a s' \<Longrightarrow> alist T a s' = xs \<Longrightarrow> makes T a (f (take (unat nb) (drop (unat i) xs))) s' ys"
  shows "makes T a (bnd (\<lambda>s. ca_getNb T a i nb s) f) s ys"
proof -
  from getNb_run [OF assms(1,3,4)] obtain s1 where
    s1: "ca_getNb T a i nb s = Some (Inr (take (unat nb) (drop (unat i) (alist T a s))), s1)" "unchanged T a s s1"
    by auto
  then have "arr_ok T a s1" "alist T a s1 = xs" using assms(2) unchanged_alist [OF s1(2), of T a]
    by (simp_all add: unchanged_def)
  from makesE [OF assms(5) [OF this]] obtain s2 where
    "f (take (unat nb) (drop (unat i) xs)) s1 = Some (Inr (), s2)" "arr_ok T a s2"
    "outside a s1 s2" "alist T a s2 = ys" by metis
  with s1 outside_trans [OF unchanged_outside [OF s1(2)]] assms(2) show ?thesis
    by (auto simp: makes_def act_simps)
qed

section \<open>A state with two blocks\<close>

text \<open>Block 1 is on the disk, block 2 is in memory; only one of them can be.\<close>

definition two_files :: "bytes \<Rightarrow> string \<Rightarrow> bytes option" where
  "two_files m = [''./.71'' \<mapsto> m]"

definition two_blocks :: "u32 \<Rightarrow> bytes \<Rightarrow> bytes \<Rightarrow> allocator" where
  "two_blocks n m1 m2 = demo_paged\<lparr>al_block_size := n, al_heap := [5 \<mapsto> m2],
     al_persister := Some (Local (localPersister ''./'' 7 0 0 (two_files m1)))\<rparr>"

lemma two_blocks_valid: "valid (two_blocks n m1 m2) a \<longleftrightarrow> a = 1 \<or> a = 2"
  using demo_paged_blocks by (simp add: valid_def two_blocks_def)

lemma two_blocks_persisted: "persisted (two_blocks n m1 m2) a = (if a = 1 then Some m1 else None)"
proof -
  define P where "P = localPersister ''./'' 7 0 0 (two_files m1)"
  have "lp_file P (ucast (1 :: u32)) = ''./.71''"
    by (simp add: P_def lp_file_def localPersister_def show_int_def show_nat.simps demo_digits)
  then have "lp_file P (ucast a) = ''./.71'' \<longleftrightarrow> a = 1"
    by (metis lp_file_inj ucast_addr_inj)
  moreover have "lp_files P = two_files m1" by (simp add: P_def localPersister_def)
  then have "persisted (two_blocks n m1 m2) a = two_files m1 (lp_file P (ucast a))"
    by (simp add: persisted_def two_blocks_def lp_stored_def P_def)
  ultimately show ?thesis by (simp add: two_files_def)
qed

lemma two_blocks_mem: "bi_mem (blk (two_blocks n m1 m2) 1) = 0" "bi_mem (blk (two_blocks n m1 m2) 2) = 5"
proof -
  have "idx 1 = 0" "idx 2 = 1" by (simp_all add: idx_def)
  then show "bi_mem (blk (two_blocks n m1 m2) 1) = 0" "bi_mem (blk (two_blocks n m1 m2) 2) = 5"
    by (simp_all add: blk_def two_blocks_def demo_paged_def)
qed

lemma two_blocks_at: "block_at (two_blocks n m1 m2) a = (if a = 1 then Some m1 else if a = 2 then Some m2 else None)"
  using two_blocks_mem [of n m1 m2]
  by (auto simp: block_at_def two_blocks_valid two_blocks_persisted) (simp_all add: two_blocks_def)

lemma two_blocks_inv:
  assumes "length m1 = unat n" and "length m2 = unat n"
  shows "al_inv (two_blocks n m1 m2)" "\<not> al_locked (two_blocks n m1 m2)"
proof -
  note b = two_blocks_mem [of n m1 m2]
  have d: "al_loaded (two_blocks n m1 m2) = [(2, 5)]" "al_heap (two_blocks n m1 m2) = [5 \<mapsto> m2]"
    "al_block_size (two_blocks n m1 m2) = n" "al_fresh (two_blocks n m1 m2) = 6"
    "length (al_blocks (two_blocks n m1 m2)) = 2" "unat (al_max_blocks (two_blocks n m1 m2)) = 1"
    "al_persister (two_blocks n m1 m2) = Some (Local (localPersister ''./'' 7 0 0 (two_files m1)))"
    by (simp_all add: two_blocks_def demo_paged_def)
  have "lp_ok (localPersister ''./'' 7 0 0 (two_files m1))"
    by (simp add: lp_ok_def localPersister_def show_nat.simps)
  then show "al_inv (two_blocks n m1 m2)"
    using assms unfolding al_inv_def by (auto simp: two_blocks_valid two_blocks_persisted b d split: if_splits)
  show "\<not> al_locked (two_blocks n m1 m2)" by (simp add: two_blocks_def demo_paged_def)
qed

text \<open>Two arrays of bytes there: one with a block and a rest, one with a rest only.\<close>

definition byte_elem :: "u8 trivial" where
  "byte_elem = \<lparr>tsize = 1, enc = (\<lambda>x. [x]), dec = hd\<rparr>"

definition demo_array :: cache_array where
  "demo_array = \<lparr>ca_rest = \<lparr>blockAddr = 2, offset = 12\<rparr>, ca_fstBlockAddr = 1, ca_size = 6, ca_innerSize = 1,
     ca_nbBlocks = 1, ca_sizePerBlock = 4, ca_sizeDividePerBlock = 4\<rparr>"

definition demo_aux :: cache_array where
  "demo_aux = \<lparr>ca_rest = \<lparr>blockAddr = 2, offset = 2\<rparr>, ca_fstBlockAddr = 0, ca_size = 6, ca_innerSize = 1,
     ca_nbBlocks = 0, ca_sizePerBlock = 0, ca_sizeDividePerBlock = 1\<rparr>"

definition demo_state :: allocator where
  "demo_state = two_blocks 16 [0, 0, 0, 0, 0, 0, 0, 0, 0, 0, 0, 0, 9, 2, 7, 4]
     [0, 0, 0, 0, 0, 0, 0, 0, 0, 0, 0, 0, 8, 3, 0, 0]"

lemma demo_lengths:
  "alen demo_array = 6" "nblocks demo_array = 1" "perblock demo_array = 4" "esize demo_array = 1"
  "alen demo_aux = 6" "nblocks demo_aux = 0" "perblock demo_aux = 1" "esize demo_aux = 1"
  by (simp_all add: demo_array_def demo_aux_def alen_def nblocks_def perblock_def esize_def)

lemma demo_places:
  "place demo_array p = (if p < 4 then (1, 12 + p) else (2, 12 + (p - 4)))"
  "place demo_aux p = (2, 2 + p)"
  by (simp_all add: place_def demo_lengths) (simp_all add: demo_array_def demo_aux_def)

lemma demo_arrays: "arr_ok byte_elem demo_array demo_state" "arr_ok byte_elem demo_aux demo_state"
  "disjoint_arrays demo_array demo_aux" "disjoint_arrays demo_aux demo_array"
proof -
  have s: "al_inv demo_state" "\<not> al_locked demo_state"
    unfolding demo_state_def by (intro two_blocks_inv; simp)+
  have T: "trivial_ok byte_elem" by (simp add: trivial_ok_def byte_elem_def)
  have sz: "ca_innerSize demo_array = tsize byte_elem" "ca_innerSize demo_aux = tsize byte_elem"
    by (simp_all add: demo_array_def demo_aux_def byte_elem_def)
  have at: "block_at demo_state 1 = Some [0, 0, 0, 0, 0, 0, 0, 0, 0, 0, 0, 0, 9, 2, 7, 4]"
    "block_at demo_state 2 = Some [0, 0, 0, 0, 0, 0, 0, 0, 0, 0, 0, 0, 8, 3, 0, 0]"
    by (simp_all add: demo_state_def two_blocks_at)
  have p: "placed demo_array demo_state" "placed demo_aux demo_state"
    unfolding placed_def demo_places demo_lengths by (auto simp: at apart_def)
  show "arr_ok byte_elem demo_array demo_state" "arr_ok byte_elem demo_aux demo_state"
    using s T sz p by (simp_all add: arr_ok_def shape_def demo_lengths)
  show "disjoint_arrays demo_array demo_aux" "disjoint_arrays demo_aux demo_array"
    by (auto simp: disjoint_arrays_def demo_lengths demo_places apart_def)
qed

lemma demo_list: "alist byte_elem demo_array demo_state = [9, 2, 7, 4, 8, 3]"
proof -
  have "block_at demo_state 1 = Some [0, 0, 0, 0, 0, 0, 0, 0, 0, 0, 0, 0, 9, 2, 7, 4]"
    "block_at demo_state 2 = Some [0, 0, 0, 0, 0, 0, 0, 0, 0, 0, 0, 0, 8, 3, 0, 0]"
    by (simp_all add: demo_state_def two_blocks_at)
  then show ?thesis
    by (simp add: alist_def demo_lengths upt_rec elem_def demo_places win_def byte_elem_def)
qed

section \<open>Access\<close>

text \<open>
  C17. An array in the cache is a list, even when its blocks are paged: reading elements, one or
  several across the borders of its blocks, gives those of the list and changes no block; writing
  replaces exactly them, keeps the array well-formed, and touches no byte outside the array.
\<close>

theorem array_as_list:
  assumes "arr_ok T a s" and "unat i + unat nb \<le> alen a" and "0 < unat nb" and "length buffer = unat nb"
  shows "returns (ca_get T a i) s (\<lambda>x s'. x = alist T a s ! unat i \<and> arr_ok T a s' \<and> block_at s' = block_at s) \<and>
    returns (\<lambda>s. ca_getNb T a i nb s) s (\<lambda>ys s'. ys = take (unat nb) (drop (unat i) (alist T a s)) \<and>
      arr_ok T a s' \<and> block_at s' = block_at s) \<and>
    returns (ca_set T a i x) s (\<lambda>_ s'. alist T a s' = (alist T a s)[unat i := x] \<and> arr_ok T a s' \<and> outside a s s') \<and>
    returns (\<lambda>s. ca_setNb T a i buffer nb s) s (\<lambda>_ s'.
      alist T a s' = take (unat i) (alist T a s) @ buffer @ drop (unat i + unat nb) (alist T a s) \<and>
      arr_ok T a s' \<and> outside a s s')"
proof -
  have i: "unat i < alen a" using assms(2,3) by linarith
  from get_run [OF assms(1) i] getNb_run [OF assms(1-3)] set_run [OF assms(1) i, of x]
    setNb_run [OF assms(1-3), of buffer] assms(4) i
  show ?thesis by (auto simp: returns_def unchanged_def written_def set_list_def upd_conv_take_nth_drop)
qed

theorem array_as_list_witness:
  "returns (\<lambda>s. ca_getNb byte_elem demo_array 3 2 s) demo_state (\<lambda>ys _. ys = [4, 8]) \<and>
   returns (\<lambda>s. ca_setNb byte_elem demo_array 3 [1, 5] 2 s) demo_state
     (\<lambda>_ s'. alist byte_elem demo_array s' = [9, 2, 7, 1, 5, 3])"
  using array_as_list [OF demo_arrays(1), of 3 2 "[1, 5]" 0]
  by (auto simp: demo_list demo_lengths elim!: returns_mono)

section \<open>Passes over the blocks\<close>

text \<open>\<open>upd g P xs\<close> is the list with the elements at the positions in \<open>P\<close> given by \<open>g\<close>.\<close>

definition upd :: "(nat \<Rightarrow> 'a \<Rightarrow> 'a) \<Rightarrow> nat set \<Rightarrow> 'a list \<Rightarrow> 'a list" where
  "upd g P xs = map (\<lambda>p. if p \<in> P then g p (xs ! p) else xs ! p) [0..<length xs]"

lemma length_upd [simp]: "length (upd g P xs) = length xs"
  by (simp add: upd_def)

lemma nth_upd: "p < length xs \<Longrightarrow> upd g P xs ! p = (if p \<in> P then g p (xs ! p) else xs ! p)"
  by (simp add: upd_def)

lemma upd_upd: "P \<inter> Q = {} \<Longrightarrow> upd g Q (upd g P xs) = upd g (P \<union> Q) xs"
  by (rule nth_equalityI) (auto simp: nth_upd)

lemma upd_empty [simp]: "upd g {} xs = xs"
  by (rule nth_equalityI) (auto simp: nth_upd)

lemma upd_set_list:
  assumes "p + length ys \<le> length xs" and "\<And>k. k < length ys \<Longrightarrow> ys ! k = g (p + k) (xs ! (p + k))"
  shows "set_list p ys xs = upd g {p..<p + length ys} xs"
  by (rule nth_equalityI) (use assms in \<open>auto simp: nth_set_list nth_upd\<close>)

text \<open>A segment of the array: \<open>n\<close> elements from \<open>p\<close> on, at the segment \<open>g\<close>.\<close>

definition run_at :: "cache_array \<Rightarrow> segment \<Rightarrow> nat \<Rightarrow> u32 \<Rightarrow> bool" where
  "run_at a g p n \<longleftrightarrow> contig a p (unat n) \<and> p + unat n \<le> alen a \<and> blockAddr g = fst (place a p) \<and>
     unat (offset g) = snd (place a p)"

lemma chunk_facts:
  assumes "arr_ok T a s" and r: "run_at a g p n" and "i < n" and "0 < unat buf" and "unat n + unat buf \<le> 2 ^ 32"
  defines "c \<equiv> nb_read n i buf"
  shows "contig a (p + unat i) (unat c)" "p + unat i + unat c \<le> alen a" "0 < unat c"
    "blockAddr g = fst (place a (p + unat i))" "unat (offset g) + unat (i * tsize T) = snd (place a (p + unat i))"
    "unat (tsize T * c) = unat c * unat (tsize T)" "unat (i + buf) = unat i + unat buf"
    "unat c = min (unat n - unat i) (unat buf)"
proof -
  have i: "unat i < unat n" using assms(3) by (simp add: word_less_nat_alt)
  show c: "unat c = min (unat n - unat i) (unat buf)"
    using i by (auto simp: c_def nb_read_def word_less_nat_alt unat_sub word_le_nat_alt)
  show c0: "0 < unat c" using i assms(4) by (simp add: c)
  have ic: "unat i + unat c \<le> unat n" using i c by linarith
  with r show pc: "p + unat i + unat c \<le> alen a" by (simp add: run_at_def)
  have pl: "place a (p + k) = (fst (place a p), snd (place a p) + k * esize a)" if "k < unat n" for k
    using r that by (simp add: run_at_def contig_def)
  show co: "contig a (p + unat i) (unat c)"
    unfolding contig_def using ic i pl [OF i] pl [of "unat i + k" for k] by (auto simp: add.assoc distrib_right)
  show "blockAddr g = fst (place a (p + unat i))" using r pl [OF i] by (simp add: run_at_def)
  show "unat (tsize T * c) = unat c * unat (tsize T)" by (rule count_bytes(1) [OF assms(1) co pc c0])
  have "snd (place a (p + unat i)) < 2 ^ 32" by (rule count_bytes(2) [OF assms(1) co pc c0])
  then have "unat i * unat (tsize T) < 2 ^ 32" "esize a = unat (tsize T)"
    using pl [OF i] assms(1) by (simp_all add: esize_def arr_ok_def)
  then show "unat (offset g) + unat (i * tsize T) = snd (place a (p + unat i))"
    using r pl [OF i] by (simp add: run_at_def unat_mult_lem [THEN iffD1])
  show "unat (i + buf) = unat i + unat buf" using i assms(5) by (intro unat_add_u32) simp
qed


lemma mapBlock_run:
  assumes "arr_ok T a s" and r: "run_at a g p n" and b: "0 < unat buf" "unat n + unat buf \<le> 2 ^ 32"
  shows "makes T a (\<lambda>s. mapBlock T g n buf f i s) s (upd (\<lambda>_. f) {p + unat i..<p + unat n} (alist T a s))"
  using assms(1)
proof (induction "unat n - unat i" arbitrary: i s rule: less_induct)
  case less
  show ?case
  proof (cases "i < n")
    case False
    then have "{p + unat i..<p + unat n} = {}" by (simp add: word_less_nat_alt)
    then show ?thesis using makes_ret [OF less.prems] False
      by (subst makes_cong [of _ _ "ret ()"]) (simp_all only: upd_empty, simp add: mapBlock.simps)
  next
    case True
    define c xs where "c = nb_read n i buf" and "xs = alist T a s"
    note cf = chunk_facts [OF less.prems r True b, folded c_def]
    define ys where "ys = map f (take (unat c) (drop (p + unat i) xs))"
    have ys: "length ys = unat c" "ys \<noteq> []" using cf(2,3) by (auto simp: ys_def xs_def)
    obtain s1 bs where s1: "alloc_read g (i * tsize T) (tsize T * c) s = Some (Inr bs, s1)" "unchanged T a s s1"
      "load_elems T (unat c) bs = take (unat c) (drop (p + unat i) xs)"
      using seg_read [OF less.prems cf(1,2,3,4,5,6)] by (auto simp: xs_def)
    then have ok1: "arr_ok T a s1" "alist T a s1 = xs" using unchanged_alist [OF s1(2), of T a] by (simp_all add: unchanged_def xs_def)
    obtain s2 where s2: "alloc_write g (store_elems T ys) (i * tsize T) (tsize T * c) s1 = Some (Inr (), s2)"
      "arr_ok T a s2" "alist T a s2 = set_list (p + unat i) ys xs" "outside a s1 s2"
      using seg_write [OF ok1(1) _ _ ys(2) cf(4,5), of "tsize T * c" "[]"] cf(1,2,6) by (auto simp: ys(1) written_def ok1(2))
    have "makes T a (\<lambda>s. mapBlock T g n buf f (i + buf) s) s2
        (upd (\<lambda>_. f) {p + unat (i + buf)..<p + unat n} (alist T a s2))"
      using True b cf(7) by (intro less.hyps s2(2)) (simp add: word_less_nat_alt)
    moreover have "alist T a s2 = upd (\<lambda>_. f) {p + unat i..<p + unat i + unat c} xs"
      unfolding s2(3) ys(1) [symmetric] by (rule upd_set_list) (use cf(2) in \<open>auto simp: ys(1), auto simp: ys_def xs_def\<close>)
    moreover have "{p + unat i..<p + unat i + unat c} \<union> {p + unat (i + buf)..<p + unat n} = {p + unat i..<p + unat n}"
      using cf(7,8) by auto
    moreover have "{p + unat i..<p + unat i + unat c} \<inter> {p + unat (i + buf)..<p + unat n} = {}" using cf(7,8) by auto
    ultimately have "makes T a (\<lambda>s. mapBlock T g n buf f (i + buf) s) s2 (upd (\<lambda>_. f) {p + unat i..<p + unat n} xs)"
      by (simp add: upd_upd)
    then show ?thesis
      using True s1(1,3) s2(1) outside_trans [OF unchanged_outside [OF s1(2)] s2(4)]
      by (auto simp: makes_def mapBlock.simps [of _ _ _ _ _ i] act_simps ys_def xs_def c_def dest: outside_trans)
  qed
qed


lemma generateBlock_run:
  assumes "arr_ok T a s" and r: "run_at a g p n" and b: "0 < unat buf" "unat n + unat buf \<le> 2 ^ 32"
    and w: "w = of_nat p"
  shows "makes T a (\<lambda>s. generateBlock T g w n buf f i s) s
    (upd (\<lambda>q _. f (of_nat q)) {p + unat i..<p + unat n} (alist T a s))"
  using assms(1)
proof (induction "unat n - unat i" arbitrary: i s rule: less_induct)
  case less
  let ?g = "\<lambda>q _. f (of_nat q)"
  show ?case
  proof (cases "i < n")
    case False
    then have "{p + unat i..<p + unat n} = {}" by (simp add: word_less_nat_alt)
    then show ?thesis using makes_ret [OF less.prems] False
      by (subst makes_cong [of _ _ "ret ()"]) (simp_all only: upd_empty, simp add: generateBlock.simps)
  next
    case True
    define c xs where "c = nb_read n i buf" and "xs = alist T a s"
    note cf = chunk_facts [OF less.prems r True b, folded c_def]
    define ys where "ys = map (\<lambda>j. f (w + ucast i + of_nat j)) [0..<unat c]"
    have ys: "length ys = unat c" "ys \<noteq> []" using cf(3) by (auto simp: ys_def)
    have "ys ! k = ?g (p + unat i + k) x" if "k < unat c" for k x
    proof -
      have "(ucast i :: u64) = of_nat (unat i)" by (simp only: of_nat_unat)
      with that show ?thesis by (simp only: ys_def w nth_map_upt minus_nat.diff_0 add_0 of_nat_add)
    qed
    moreover obtain s2 where s2: "alloc_write g (store_elems T ys) (i * tsize T) (tsize T * c) s = Some (Inr (), s2)"
      "arr_ok T a s2" "alist T a s2 = set_list (p + unat i) ys xs" "outside a s s2"
      using seg_write [OF less.prems _ _ ys(2) cf(4,5), of "tsize T * c" "[]"] cf(1,2,6)
      by (auto simp: ys(1) written_def xs_def)
    ultimately have "alist T a s2 = upd ?g {p + unat i..<p + unat i + unat c} xs"
      unfolding s2(3) ys(1) [symmetric] by (intro upd_set_list) (use cf(2) in \<open>auto simp: ys(1) xs_def\<close>)
    moreover have "makes T a (\<lambda>s. generateBlock T g w n buf f (i + buf) s) s2
        (upd ?g {p + unat (i + buf)..<p + unat n} (alist T a s2))"
      using True b cf(7) by (intro less.hyps s2(2)) (simp add: word_less_nat_alt)
    moreover have "{p + unat i..<p + unat i + unat c} \<union> {p + unat (i + buf)..<p + unat n} = {p + unat i..<p + unat n}"
      using cf(7,8) by auto
    moreover have "{p + unat i..<p + unat i + unat c} \<inter> {p + unat (i + buf)..<p + unat n} = {}" using cf(7,8) by auto
    ultimately have "makes T a (\<lambda>s. generateBlock T g w n buf f (i + buf) s) s2 (upd ?g {p + unat i..<p + unat n} xs)"
      by (simp add: upd_upd)
    then show ?thesis
      using True s2(1,4)
      by (auto simp: makes_def generateBlock.simps [of _ _ _ _ _ _ i] act_simps ys_def xs_def c_def dest: outside_trans)
  qed
qed

lemma reduceBlock_run:
  assumes "arr_ok T a s" and r: "run_at a g p n" and b: "0 < unat buf" "unat n + unat buf \<le> 2 ^ 32"
  shows "\<exists>s'. reduceBlock T g n buf f z i s =
      Some (Inr (foldl f z (take (unat n - unat i) (drop (p + unat i) (alist T a s)))), s') \<and> unchanged T a s s'"
  using assms(1)
proof (induction "unat n - unat i" arbitrary: i s z rule: less_induct)
  case less
  show ?case
  proof (cases "i < n")
    case False
    then have "unat n - unat i = 0" by (simp add: word_less_nat_alt)
    then show ?thesis using unchanged_refl [OF less.prems] False by (simp add: reduceBlock.simps act_simps)
  next
    case True
    define c xs where "c = nb_read n i buf" and "xs = alist T a s"
    note cf = chunk_facts [OF less.prems r True b, folded c_def]
    obtain s1 bs where s1: "alloc_read g (i * tsize T) (tsize T * c) s = Some (Inr bs, s1)" "unchanged T a s s1"
      "load_elems T (unat c) bs = take (unat c) (drop (p + unat i) xs)"
      using seg_read [OF less.prems cf(1,2,3,4,5,6)] by (auto simp: xs_def)
    have ok1: "arr_ok T a s1" "alist T a s1 = xs" using s1(2) unchanged_alist [OF s1(2), of T a] by (simp_all add: unchanged_def xs_def)
    define z' where "z' = foldl f z (take (unat c) (drop (p + unat i) xs))"
    obtain s2 where s2: "reduceBlock T g n buf f z' (i + buf) s1 =
        Some (Inr (foldl f z' (take (unat n - unat (i + buf)) (drop (p + unat (i + buf)) xs))), s2)" "unchanged T a s1 s2"
    proof -
      have "unat n - unat (i + buf) < unat n - unat i" using True b cf(7) by (simp add: word_less_nat_alt)
      from less.hyps [OF this ok1(1), of z'] that show ?thesis by (auto simp only: ok1(2))
    qed
    have "take (unat n - unat i) (drop (p + unat i) xs) =
        take (unat c) (drop (p + unat i) xs) @ take (unat n - unat (i + buf)) (drop (p + unat (i + buf)) xs)"
    proof (cases "unat buf \<le> unat n - unat i")
      case True
      then have "unat n - unat i = unat c + (unat n - unat (i + buf))" "p + unat (i + buf) = unat c + (p + unat i)"
        using cf(7,8) by simp_all
      then show ?thesis by (simp only: take_add drop_drop)
    next
      case False
      then have "unat n - unat i = unat c" "unat n - unat (i + buf) = 0" using cf(7,8) by simp_all
      then show ?thesis by simp
    qed
    then have "foldl f z (take (unat n - unat i) (drop (p + unat i) xs)) =
        foldl f z' (take (unat n - unat (i + buf)) (drop (p + unat (i + buf)) xs))" by (simp add: z'_def)
    then show ?thesis
      using True s1 s2 unchanged_trans [OF s1(2) s2(2)]
      by (simp add: reduceBlock.simps [of _ _ _ _ _ _ i] act_simps z'_def xs_def c_def)
  qed
qed


text \<open>
  The passes over the blocks and the rest, in whatever order: \<open>Inv ps\<close> is what holds once the parts
  \<open>ps\<close> are handled, the rest being part number \<open>nblocks a\<close>.
\<close>

lemma loaded_pass_run:
  assumes "Inv ps z s" and "distinct (ps @ map unat bs)"
    and ready: "\<And>ps z s i. Inv ps z s \<Longrightarrow> i \<in> set bs \<Longrightarrow> \<exists>l s'. ready i s = Some (Inr l, s') \<and> Inv ps z s'"
    and body: "\<And>ps z s i. Inv ps z s \<Longrightarrow> i \<in> set bs \<Longrightarrow> distinct (ps @ [unat i]) \<Longrightarrow>
      \<exists>z' s'. body i z s = Some (Inr z', s') \<and> Inv (ps @ [unat i]) z' s'"
  shows "\<exists>z' later' qs s'. loaded_pass body ready bs z later s = Some (Inr (z', later @ later'), s') \<and> Inv (ps @ qs) z' s' \<and>
    mset (qs @ map unat later') = mset (map unat bs)"
  using assms
proof (induction bs arbitrary: ps z s later)
  case Nil
  then show ?case by (intro exI [of _ z] exI [of _ "[]"] exI [of _ s]) (simp add: act_simps)
next
  case (Cons i bs)
  have ready: "\<exists>l s'. ready j s = Some (Inr l, s') \<and> Inv ps z s'" if "Inv ps z s" "j \<in> set bs" for ps z s j
    using Cons.prems(3) [OF that(1)] that(2) by simp
  have body: "\<exists>z' s'. body j z s = Some (Inr z', s') \<and> Inv (ps @ [unat j]) z' s'"
    if "Inv ps z s" "j \<in> set bs" "distinct (ps @ [unat j])" for ps z s j
    using Cons.prems(4) [OF that(1) _ that(3)] that(2) by simp
  have IH: "\<exists>z' later'' qs s'. loaded_pass body ready bs z later' s = Some (Inr (z', later' @ later''), s') \<and> Inv (ps @ qs) z' s' \<and>
    mset (qs @ map unat later'') = mset (map unat bs)"
    if "Inv ps z s" "distinct (ps @ map unat bs)" for ps z s later'
    using Cons.IH [OF that] ready body by blast
  obtain l s1 where s1: "ready i s = Some (Inr l, s1)" "Inv ps z s1" using Cons.prems(3) [OF Cons.prems(1), of i] by auto
  show ?case
  proof (cases l)
    case True
    obtain z2 s2 where s2: "body i z s1 = Some (Inr z2, s2)" "Inv (ps @ [unat i]) z2 s2"
      using Cons.prems(4) [OF s1(2), of i] Cons.prems(2) by auto
    from IH [OF s2(2), of later] Cons.prems(2) obtain z' later' qs s' where
      "loaded_pass body ready bs z2 later s2 = Some (Inr (z', later @ later'), s')" "Inv (ps @ unat i # qs) z' s'"
      "mset (qs @ map unat later') = mset (map unat bs)" by auto
    with s1(1) s2(1) True show ?thesis
      by (intro exI [of _ z'] exI [of _ later'] exI [of _ "unat i # qs"] exI [of _ s']) (simp add: act_simps)
  next
    case False
    from IH [OF s1(2), of "later @ [i]"] Cons.prems(2) obtain z' later' qs s' where
      "loaded_pass body ready bs z (later @ [i]) s1 = Some (Inr (z', (later @ [i]) @ later'), s')" "Inv (ps @ qs) z' s'"
      "mset (qs @ map unat later') = mset (map unat bs)" by auto
    with s1(1) False show ?thesis
      by (intro exI [of _ z'] exI [of _ "i # later'"] exI [of _ qs] exI [of _ s']) (simp add: act_simps)
  qed
qed

lemma load_pass_run:
  assumes "Inv ps z s" and "distinct (ps @ map unat bs)"
    and body: "\<And>ps z s i. Inv ps z s \<Longrightarrow> i \<in> set bs \<Longrightarrow> distinct (ps @ [unat i]) \<Longrightarrow>
      \<exists>z' s'. body i z s = Some (Inr z', s') \<and> Inv (ps @ [unat i]) z' s'"
  shows "\<exists>z' s'. load_pass body bs z s = Some (Inr z', s') \<and> Inv (ps @ map unat bs) z' s'"
  using assms
proof (induction bs arbitrary: ps z s)
  case (Cons i bs)
  obtain z2 s2 where s2: "body i z s = Some (Inr z2, s2)" "Inv (ps @ [unat i]) z2 s2"
    using Cons.prems(3) [OF Cons.prems(1), of i] Cons.prems(2) by auto
  have "\<exists>z' s'. load_pass body bs z2 s2 = Some (Inr z', s') \<and> Inv ((ps @ [unat i]) @ map unat bs) z' s'"
  proof (rule Cons.IH [OF s2(2)])
    show "\<exists>z' s'. body j z s = Some (Inr z', s') \<and> Inv (ps @ [unat j]) z' s'"
      if "Inv ps z s" "j \<in> set bs" "distinct (ps @ [unat j])" for ps z s j
      using Cons.prems(3) [OF that(1) _ that(3)] that(2) by simp
  qed (use Cons.prems(2) in auto)
  with s2(1) show ?case by (auto simp: act_simps)
qed (auto simp: act_simps)

lemma unat_block_indices: "map unat (block_indices a) = [0..<nblocks a]"
proof (rule nth_equalityI)
  fix k assume "k < length (map unat (block_indices a))"
  then have "k < nblocks a" by (simp add: block_indices_def nblocks_def)
  moreover have "nblocks a < 2 ^ 32" using unat_less_u32 [of "ca_nbBlocks a"] by (simp add: nblocks_def)
  ultimately show "map unat (block_indices a) ! k = [0..<nblocks a] ! k"
    by (simp add: block_indices_def nblocks_def unat_of_nat)
qed (simp add: block_indices_def nblocks_def)

lemma passes_run:
  assumes "Inv [] z s"
    and ready: "\<And>ps z s i. Inv ps z s \<Longrightarrow> unat i < nblocks a \<Longrightarrow> \<exists>l s'. ready i s = Some (Inr l, s') \<and> Inv ps z s'"
    and body: "\<And>ps z s i. Inv ps z s \<Longrightarrow> unat i < nblocks a \<Longrightarrow> distinct (ps @ [unat i]) \<Longrightarrow>
      \<exists>z' s'. body i z s = Some (Inr z', s') \<and> Inv (ps @ [unat i]) z' s'"
    and rest: "\<And>ps z s. Inv ps z s \<Longrightarrow> distinct (ps @ [nblocks a]) \<Longrightarrow>
      \<exists>z' s'. restf z s = Some (Inr z', s') \<and> Inv (ps @ [nblocks a]) z' s'"
  shows "\<exists>ps z' s'. bnd (loaded_pass body ready (block_indices a) z []) (\<lambda>(z, toLoad).
      bnd (restf z) (\<lambda>z. load_pass body toLoad z)) s = Some (Inr z', s') \<and> Inv ps z' s' \<and>
    mset ps = mset [0..<Suc (nblocks a)]"
proof -
  have bs: "unat i < nblocks a" if "i \<in> set (block_indices a)" for i
  proof -
    have "unat i \<in> set (map unat (block_indices a))" using that by simp
    then show ?thesis by (simp add: unat_block_indices)
  qed
  have "\<exists>z' later' qs s'. loaded_pass body ready (block_indices a) z [] s = Some (Inr (z', [] @ later'), s') \<and>
      Inv ([] @ qs) z' s' \<and> mset (qs @ map unat later') = mset (map unat (block_indices a))"
    by (rule loaded_pass_run [where Inv = Inv, OF assms(1)]) (use ready body bs in \<open>auto simp: unat_block_indices\<close>)
  then obtain z1 toLoad qs s1 where 1: "loaded_pass body ready (block_indices a) z [] s = Some (Inr (z1, toLoad), s1)"
    "Inv qs z1 s1" "mset (qs @ map unat toLoad) = mset [0..<nblocks a]"
    by (auto simp: unat_block_indices)
  have d: "distinct (qs @ map unat toLoad)" using 1(3) by (metis distinct_upt mset_eq_imp_distinct_iff)
  have sub: "set (qs @ map unat toLoad) = {0..<nblocks a}" using 1(3) by (metis set_mset_mset set_upt)
  then have "nblocks a \<notin> set qs" by auto
  with rest [OF 1(2)] d obtain z2 s2 where 2: "restf z1 s1 = Some (Inr z2, s2)" "Inv (qs @ [nblocks a]) z2 s2" by auto
  have "\<exists>z' s'. load_pass body toLoad z2 s2 = Some (Inr z', s') \<and> Inv ((qs @ [nblocks a]) @ map unat toLoad) z' s'"
  proof (rule load_pass_run [where Inv = Inv, OF 2(2)])
    show "distinct ((qs @ [nblocks a]) @ map unat toLoad)" using d sub by auto
    show "\<exists>z' s'. body i z s = Some (Inr z', s') \<and> Inv (ps @ [unat i]) z' s'"
      if "Inv ps z s" "i \<in> set toLoad" "distinct (ps @ [unat i])" for ps z s i
    proof -
      have "unat i \<in> {0..<nblocks a}" using that(2) by (simp flip: sub)
      then show ?thesis using body [OF that(1) _ that(3)] by simp
    qed
  qed
  then obtain z3 s3 where 3: "load_pass body toLoad z2 s2 = Some (Inr z3, s3)"
    "Inv (qs @ [nblocks a] @ map unat toLoad) z3 s3" by auto
  have "mset (qs @ [nblocks a] @ map unat toLoad) = mset [0..<Suc (nblocks a)]" using 1(3) by simp
  with 1(1) 2(1) 3 show ?thesis
    by (intro exI [of _ "qs @ [nblocks a] @ map unat toLoad"] exI [of _ z3] exI [of _ s3]) (simp add: act_simps)
qed


section \<open>The parts of an array\<close>

definition part_beg :: "cache_array \<Rightarrow> nat \<Rightarrow> nat" where
  "part_beg a k = k * perblock a"

definition part_size :: "cache_array \<Rightarrow> nat \<Rightarrow> nat" where
  "part_size a k = (if k < nblocks a then perblock a else alen a - nblocks a * perblock a)"

definition part :: "cache_array \<Rightarrow> nat \<Rightarrow> nat set" where
  "part a k = {part_beg a k..<part_beg a k + part_size a k}"

lemma parts_disjoint: "k < l \<Longrightarrow> l \<le> nblocks a \<Longrightarrow> part a k \<inter> part a l = {}"
proof -
  assume "k < l" "l \<le> nblocks a"
  then have "part_beg a k + part_size a k \<le> part_beg a l"
    using mult_le_mono1 [of "Suc k" l "perblock a"] by (simp add: part_beg_def part_size_def)
  then show ?thesis by (auto simp: part_def)
qed

lemma parts_disjoint': "k \<noteq> l \<Longrightarrow> k \<le> nblocks a \<Longrightarrow> l \<le> nblocks a \<Longrightarrow> part a k \<inter> part a l = {}"
  using parts_disjoint [of k l a] parts_disjoint [of l k a] by (metis inf_commute linorder_neqE_nat)

lemma parts_all:
  assumes "shape a"
  shows "(\<Union>k \<in> {0..<Suc (nblocks a)}. part a k) = {0..<alen a}"
proof
  have D: "0 < perblock a" "nblocks a * perblock a \<le> alen a" using assms by (simp_all add: shape_def)
  have b: "part_beg a k + part_size a k \<le> alen a" if "k < Suc (nblocks a)" for k
  proof (cases "k < nblocks a")
    case True
    then show ?thesis using D mult_le_mono1 [of "Suc k" "nblocks a" "perblock a"] by (simp add: part_beg_def part_size_def)
  next
    case False
    then have "k = nblocks a" using that by simp
    then show ?thesis using D by (simp add: part_beg_def part_size_def)
  qed
  show "(\<Union>k \<in> {0..<Suc (nblocks a)}. part a k) \<subseteq> {0..<alen a}"
  proof
    fix p assume "p \<in> (\<Union>k \<in> {0..<Suc (nblocks a)}. part a k)"
    then obtain k where "k < Suc (nblocks a)" "p < part_beg a k + part_size a k" by (auto simp: part_def)
    with b show "p \<in> {0..<alen a}" by fastforce
  qed
  show "{0..<alen a} \<subseteq> (\<Union>k \<in> {0..<Suc (nblocks a)}. part a k)"
  proof
    fix p assume "p \<in> {0..<alen a}"
    then have p: "p < alen a" by simp
    show "p \<in> (\<Union>k \<in> {0..<Suc (nblocks a)}. part a k)"
    proof (cases "p < nblocks a * perblock a")
      case True
      then have k: "p div perblock a < nblocks a" by (simp add: less_mult_imp_div_less)
      have "p \<in> part a (p div perblock a)"
        using k D(1) dividend_less_div_times [OF D(1), of p]
        by (simp add: part_def part_beg_def part_size_def add.commute)
      with k show ?thesis by (intro UN_I [of "p div perblock a"]) auto
    next
      case False
      then have "p \<in> part a (nblocks a)" using p by (simp add: part_def part_beg_def part_size_def)
      then show ?thesis by auto
    qed
  qed
qed

lemma block_run_at:
  assumes "shape a" and "unat i < nblocks a"
  shows "run_at a (block_segment a i) (part_beg a (unat i)) (ca_sizeDividePerBlock a)"
    and "unat (ca_sizeDividePerBlock a) = part_size a (unat i)"
proof -
  have D: "0 < perblock a" "nblocks a * perblock a \<le> alen a" using assms(1) by (simp_all add: shape_def)
  have lt: "unat i * perblock a < nblocks a * perblock a" using assms(2) D(1) by simp
  have le: "unat i * perblock a + perblock a \<le> nblocks a * perblock a"
    using mult_le_mono1 [of "Suc (unat i)" "nblocks a" "perblock a"] assms(2) by simp
  have "contig a (unat i * perblock a) (perblock a)" by (rule contig_block [OF lt]) simp
  then show "run_at a (block_segment a i) (part_beg a (unat i)) (ca_sizeDividePerBlock a)"
    using lt le D by (simp add: run_at_def part_beg_def place_def block_segment_def ALLOC_HEAD_SIZE_def perblock_def [symmetric])
  show "unat (ca_sizeDividePerBlock a) = part_size a (unat i)" using assms(2) by (simp add: part_size_def perblock_def)
qed

lemma rest_words:
  assumes "shape a"
  shows "unat (ca_nbBlocks a * ca_sizeDividePerBlock a) = nblocks a * perblock a"
    and "unat (ca_size a - ca_nbBlocks a * ca_sizeDividePerBlock a) = part_size a (nblocks a)"
proof -
  have le: "nblocks a * perblock a \<le> alen a" using assms by (simp add: shape_def)
  then have "unat (ca_nbBlocks a) * unat (ca_sizeDividePerBlock a) < 2 ^ 32"
    using unat_less_u32 [of "ca_size a"] by (simp add: nblocks_def perblock_def alen_def)
  then show u: "unat (ca_nbBlocks a * ca_sizeDividePerBlock a) = nblocks a * perblock a"
    by (simp add: unat_mult_lem [THEN iffD1] nblocks_def perblock_def)
  show "unat (ca_size a - ca_nbBlocks a * ca_sizeDividePerBlock a) = part_size a (nblocks a)"
    using le u by (simp add: unat_sub word_le_nat_alt part_size_def alen_def)
qed

lemma rest_run_at:
  assumes "shape a"
  shows "run_at a (ca_rest a) (part_beg a (nblocks a)) (ca_size a - ca_nbBlocks a * ca_sizeDividePerBlock a)"
proof -
  have "nblocks a * perblock a \<le> alen a" using assms by (simp add: shape_def)
  then show ?thesis
    using contig_rest [of a "nblocks a * perblock a"] rest_words [OF assms]
    by (simp add: run_at_def part_beg_def place_def part_size_def)
qed

text \<open>Looking whether a block is in memory changes nothing.\<close>

lemma in_memory_run:
  assumes "arr_ok T a s" and "unat i < nblocks a"
  shows "\<exists>l s'. in_memory a i s = Some (Inr l, s') \<and> unchanged T a s s'"
proof -
  have sh: "shape a" using assms(1) by (simp add: arr_ok_def)
  have D: "0 < perblock a" "nblocks a * perblock a \<le> alen a" using sh by (simp_all add: shape_def)
  have lt: "unat i * perblock a < nblocks a * perblock a" using assms(2) D(1) by simp
  then have "unat i * perblock a < alen a" by (rule less_le_trans [OF _ D(2)])
  moreover have "fst (place a (unat i * perblock a)) = i + ca_fstBlockAddr a"
    using lt D(1) by (simp add: place_def)
  ultimately have "block_at s (i + ca_fstBlockAddr a) \<noteq> None"
    using assms(1) unfolding arr_ok_def placed_def by (metis option.distinct(1))
  then have v: "unat (i + ca_fstBlockAddr a - 1) < length (al_blocks s)"
    by (auto simp: block_at_def valid_def idx_def split: if_splits)
  have "\<not> al_locked s" using assms(1) by (simp add: arr_ok_def)
  then have "in_memory a i s = Some (Inr (bi_mem (blk s (i + ca_fstBlockAddr a)) \<noteq> 0), s)"
    using v by (simp add: in_memory_def isLoaded_def with_lock_def block_def act_simps Let_def add.commute blk_def idx_def)
  then show ?thesis using unchanged_refl [OF assms(1)] by blast
qed

text \<open>Passes that put every element once.\<close>

lemma upd_passes:
  assumes ok: "arr_ok T a s0"
    and body: "\<And>s i. arr_ok T a s \<Longrightarrow> unat i < nblocks a \<Longrightarrow> makes T a (body i ()) s (upd g (part a (unat i)) (alist T a s))"
    and rest: "\<And>s. arr_ok T a s \<Longrightarrow> makes T a restf s (upd g (part a (nblocks a)) (alist T a s))"
  shows "makes T a (bnd (loaded_pass body (in_memory a) (block_indices a) () []) (\<lambda>(_, toLoad).
      bnd restf (\<lambda>_. load_pass body toLoad ()))) s0 (upd g {0..<alen a} (alist T a s0))"
proof -
  define Inv where "Inv ps (z :: unit) s \<longleftrightarrow> set ps \<subseteq> {0..nblocks a} \<and> arr_ok T a s \<and> outside a s0 s \<and>
    alist T a s = upd g (\<Union>k \<in> set ps. part a k) (alist T a s0)" for ps z s
  have sh: "shape a" and free: "al_inv s0" "\<not> al_locked s0" using ok by (simp_all add: arr_ok_def)
  have step: "\<exists>z' s'. m s = Some (Inr z', s') \<and> Inv (ps @ [k]) z' s'"
    if I: "Inv ps z s" and d: "distinct (ps @ [k])" "k \<le> nblocks a"
      and m: "makes T a m s (upd g (part a k) (alist T a s))" for ps z s k m
  proof -
    have "(\<Union>j \<in> set ps. part a j) \<inter> part a k = {}"
      using I d parts_disjoint' [of _ k a] by (fastforce simp: Inv_def)
    then have "upd g (part a k) (alist T a s) = upd g (\<Union>j \<in> set (ps @ [k]). part a j) (alist T a s0)"
      using I by (simp add: Inv_def upd_upd Un_commute)
    with m obtain s' where "m s = Some (Inr (), s')" "arr_ok T a s'" "outside a s s'"
      "alist T a s' = upd g (\<Union>j \<in> set (ps @ [k]). part a j) (alist T a s0)" by (auto simp: makes_def)
    with I d show ?thesis by (auto simp: Inv_def intro: outside_trans)
  qed
  have "\<exists>ps z' s'. bnd (loaded_pass body (in_memory a) (block_indices a) () []) (\<lambda>(z, toLoad).
      bnd ((\<lambda>_. restf) z) (\<lambda>z. load_pass body toLoad z)) s0 = Some (Inr z', s') \<and> Inv ps z' s' \<and>
    mset ps = mset [0..<Suc (nblocks a)]"
  proof (rule passes_run)
    show "Inv [] () s0" using ok outside_same [OF free] by (simp add: Inv_def)
    show "\<exists>l s'. in_memory a i s = Some (Inr l, s') \<and> Inv ps z s'" if "Inv ps z s" "unat i < nblocks a" for ps z s i
    proof -
      from that(1) have "arr_ok T a s" by (simp add: Inv_def)
      from in_memory_run [OF this that(2)] obtain l s' where
        l: "in_memory a i s = Some (Inr l, s')" "unchanged T a s s'" by auto
      have "Inv ps z s'"
        using that(1) l(2) unchanged_alist [OF l(2), of T a] outside_trans [OF _ unchanged_outside [OF l(2)]]
        by (simp add: Inv_def unchanged_def)
      with l(1) show ?thesis by blast
    qed
  next
    fix ps z s and i :: u32 assume I: "Inv ps z s" and i: "unat i < nblocks a" and d: "distinct (ps @ [unat i])"
    then have "arr_ok T a s" by (simp add: Inv_def)
    from step [OF I d less_imp_le [OF i] body [OF this i]]
    show "\<exists>z' s'. body i z s = Some (Inr z', s') \<and> Inv (ps @ [unat i]) z' s'" by simp
  next
    fix ps z s assume I: "Inv ps z s" and d: "distinct (ps @ [nblocks a])"
    then have "arr_ok T a s" by (simp add: Inv_def)
    from step [OF I d order_refl rest [OF this]]
    show "\<exists>z' s'. restf s = Some (Inr z', s') \<and> Inv (ps @ [nblocks a]) z' s'" .
  qed
  then obtain ps s' where r: "bnd (loaded_pass body (in_memory a) (block_indices a) () []) (\<lambda>(_, toLoad).
      bnd restf (\<lambda>_. load_pass body toLoad ())) s0 = Some (Inr (), s')" "Inv ps () s'" "mset ps = mset [0..<Suc (nblocks a)]"
    by auto
  have "set ps = {0..<Suc (nblocks a)}" using r(3) by (metis set_mset_mset set_upt)
  with r(2) parts_all [OF sh] have "alist T a s' = upd g {0..<alen a} (alist T a s0)" by (simp add: Inv_def)
  with r show ?thesis by (auto simp: makes_def Inv_def)
qed


text \<open>The words of a call of \<open>mapBlock\<close> or \<open>generateBlock\<close> do not wrap, for a buffer that fits.\<close>

lemma map_words:
  assumes "shape a" and "alen a + unat buf \<le> 2 ^ 32"
  shows "0 < nblocks a \<Longrightarrow> unat (ca_sizeDividePerBlock a) + unat (buf :: u32) \<le> 2 ^ 32"
    and "unat (ca_size a - ca_nbBlocks a * ca_sizeDividePerBlock a) + unat buf \<le> 2 ^ 32"
proof -
  assume "0 < nblocks a"
  then have "perblock a \<le> nblocks a * perblock a" by simp
  moreover have "nblocks a * perblock a \<le> alen a" using assms(1) by (simp add: shape_def)
  ultimately have "perblock a + unat buf \<le> 2 ^ 32" using assms(2) by linarith
  then show "unat (ca_sizeDividePerBlock a) + unat buf \<le> 2 ^ 32" by (simp add: perblock_def)
next
  show "unat (ca_size a - ca_nbBlocks a * ca_sizeDividePerBlock a) + unat buf \<le> 2 ^ 32"
    using assms(2) by (simp add: rest_words [OF assms(1)] part_size_def)
qed

lemma part_words:
  assumes "shape a"
  shows "unat i < nblocks a \<Longrightarrow> (ucast (i * ca_sizeDividePerBlock a) :: u64) = of_nat (part_beg a (unat i))"
    and "(ucast (ca_nbBlocks a * ca_sizeDividePerBlock a) :: u64) = of_nat (part_beg a (nblocks a))"
proof -
  assume "unat i < nblocks a"
  then have "unat i * perblock a \<le> nblocks a * perblock a" by simp
  moreover have "nblocks a * perblock a \<le> alen a" using assms by (simp add: shape_def)
  ultimately have "unat i * perblock a < 4294967296"
    using unat_less_u32 [of "ca_size a"] unfolding alen_def by linarith
  then have "unat i * unat (ca_sizeDividePerBlock a) < 2 ^ 32" by (simp add: perblock_def)
  then have "unat (i * ca_sizeDividePerBlock a) = part_beg a (unat i)"
    by (simp add: unat_mult_lem [THEN iffD1] part_beg_def perblock_def)
  then show "(ucast (i * ca_sizeDividePerBlock a) :: u64) = of_nat (part_beg a (unat i))" by (metis of_nat_unat)
next
  show "(ucast (ca_nbBlocks a * ca_sizeDividePerBlock a) :: u64) = of_nat (part_beg a (nblocks a))"
    by (metis of_nat_unat rest_words(1) [OF assms] part_beg_def)
qed

lemma ca_map_run:
  assumes "arr_ok T a s" and "0 < unat buf" and "alen a + unat buf \<le> 2 ^ 32"
  shows "makes T a (ca_map T a buf f) s (upd (\<lambda>_. f) {0..<alen a} (alist T a s))"
  unfolding ca_map_def Let_def
proof (rule upd_passes [OF assms(1)])
  have sh: "shape a" using assms(1) by (simp add: arr_ok_def)
  note words = map_words [OF sh assms(3)]
  show "makes T a (\<lambda>s. mapBlock T (block_segment a i) (ca_sizeDividePerBlock a) buf f 0 s) s'
      (upd (\<lambda>_. f) (part a (unat i)) (alist T a s'))" if "arr_ok T a s'" "unat i < nblocks a" for s' i
    using mapBlock_run [OF that(1) block_run_at(1) [OF sh that(2)] assms(2) words(1), of f 0] that(2)
    by (simp add: part_def block_run_at(2) [OF sh])
  show "makes T a (\<lambda>s. mapBlock T (ca_rest a) (ca_size a - ca_nbBlocks a * ca_sizeDividePerBlock a) buf f 0 s) s'
      (upd (\<lambda>_. f) (part a (nblocks a)) (alist T a s'))" if "arr_ok T a s'" for s'
    using mapBlock_run [OF that rest_run_at [OF sh] assms(2) words(2), of f 0] by (simp add: part_def rest_words [OF sh])
qed

lemma ca_generate_run:
  assumes "arr_ok T a s" and "0 < unat buf" and "alen a + unat buf \<le> 2 ^ 32"
  shows "makes T a (ca_generate T a buf h) s (upd (\<lambda>q _. h (of_nat q)) {0..<alen a} (alist T a s))"
  unfolding ca_generate_def Let_def
proof (rule upd_passes [OF assms(1)])
  have sh: "shape a" using assms(1) by (simp add: arr_ok_def)
  note words = map_words [OF sh assms(3)]
  show "makes T a (\<lambda>s. generateBlock T (block_segment a i) (ucast (i * ca_sizeDividePerBlock a)) (ca_sizeDividePerBlock a) buf h 0 s) s'
      (upd (\<lambda>q _. h (of_nat q)) (part a (unat i)) (alist T a s'))" if "arr_ok T a s'" "unat i < nblocks a" for s' i
    using generateBlock_run [OF that(1) block_run_at(1) [OF sh that(2)] assms(2) words(1) part_words(1) [OF sh that(2)], of h 0] that(2)
    by (simp add: part_def block_run_at(2) [OF sh])
  show "makes T a (\<lambda>s. generateBlock T (ca_rest a) (ucast (ca_nbBlocks a * ca_sizeDividePerBlock a))
        (ca_size a - ca_nbBlocks a * ca_sizeDividePerBlock a) buf h 0 s) s'
      (upd (\<lambda>q _. h (of_nat q)) (part a (nblocks a)) (alist T a s'))" if "arr_ok T a s'" for s'
    using generateBlock_run [OF that rest_run_at [OF sh] assms(2) words(2) part_words(2) [OF sh], of h 0]
    by (simp add: part_def rest_words [OF sh])
qed

text \<open>
  C20. Mapping a function over an array replaces every element by its image, exactly once, and
  generating puts at every index the value of the function there: in the blocks that are in memory
  first, in the rest, in the blocks that have to be loaded, and whatever the size of the buffer, which
  need not divide the size of a block.
\<close>

theorem array_map_generate:
  assumes "arr_ok T a s" and "0 < unat buf" and "alen a + unat buf \<le> 2 ^ 32"
  shows "returns (ca_map T a buf f) s (\<lambda>_ s'. alist T a s' = map f (alist T a s) \<and> arr_ok T a s' \<and> outside a s s') \<and>
    returns (ca_generate T a buf h) s (\<lambda>_ s'. alist T a s' = map (\<lambda>p. h (of_nat p)) [0..<alen a] \<and>
      arr_ok T a s' \<and> outside a s s')"
proof -
  have all: "upd g {0..<alen a} (alist T a s) = map (\<lambda>p. g p (alist T a s ! p)) [0..<alen a]" for g
    by (rule nth_equalityI) (auto simp: nth_upd)
  have "map (\<lambda>p. f (alist T a s ! p)) [0..<alen a] = map f (alist T a s)" by (rule nth_equalityI) simp_all
  then show ?thesis using ca_map_run [OF assms, of f] ca_generate_run [OF assms, of h]
    by (auto simp: makes_def returns_def all)
qed

theorem array_map_generate_witness:
  "returns (ca_map byte_elem demo_array 3 (\<lambda>x. x + 1)) demo_state
     (\<lambda>_ s'. alist byte_elem demo_array s' = [10, 3, 8, 5, 9, 4]) \<and>
   returns (ca_generate byte_elem demo_array 3 (\<lambda>i. ucast i * 2)) demo_state
     (\<lambda>_ s'. alist byte_elem demo_array s' = [0, 2, 4, 6, 8, 10])"
  using array_map_generate [OF demo_arrays(1), of 3 "\<lambda>x. x + 1" "\<lambda>i. ucast i * 2"]
  by (auto simp: demo_list demo_lengths upt_rec elim!: returns_mono)

definition part_list :: "'a trivial \<Rightarrow> cache_array \<Rightarrow> allocator \<Rightarrow> nat \<Rightarrow> 'a list" where
  "part_list T a s k = take (part_size a k) (drop (part_beg a k) (alist T a s))"

lemma concat_parts:
  assumes "shape a"
  shows "concat (map (part_list T a s) [0..<Suc (nblocks a)]) = alist T a s"
proof -
  have "concat (map (part_list T a s) [0..<k]) = take (part_beg a k) (alist T a s)" if "k \<le> nblocks a" for k
    using that
  proof (induction k)
    case (Suc k)
    then show ?case using take_add [of "k * perblock a" "perblock a" "alist T a s"]
      by (simp add: part_beg_def part_list_def part_size_def add.commute)
  qed (simp add: part_beg_def)
  from this [OF order_refl] show ?thesis by (simp add: part_list_def part_size_def part_beg_def)
qed

lemma mset_concat_perm:
  assumes "mset ps = mset qs"
  shows "mset (concat (map g ps)) = mset (concat (map g qs))"
proof -
  have "mset (concat (map g ps)) = \<Sum>\<^sub># (image_mset (\<lambda>p. mset (g p)) (mset ps))" for ps
    by (induction ps) simp_all
  then show ?thesis by (simp only: assms)
qed

lemma foldl_any_order:
  assumes "mset xs = mset ys" and "\<And>x y z. f (f z x) y = f (f z y) x"
  shows "foldl f z xs = foldl f z ys"
proof -
  have "fold (\<lambda>x z. f z x) xs = fold (\<lambda>x z. f z x) ys"
    using assms by (intro fold_multiset_equiv) (auto simp: fun_eq_iff)
  then show ?thesis by (simp add: foldl_conv_fold)
qed

text \<open>
  Reducing an array folds every element exactly once: within a block in the order of the list, the
  blocks that are in memory first, then the rest, then the others. So the result is the fold over the
  list when the order does not matter; no block changes.
\<close>

lemma array_reduce:
  assumes "arr_ok T a s" and "0 < unat buf" and "alen a + unat buf \<le> 2 ^ 32"
    and "0 < nblocks a \<longrightarrow> unat (ca_sizePerBlock a) = perblock a * esize a"
  shows "returns (ca_reduce T a buf f z) s (\<lambda>r s'. block_at s' = block_at s \<and>
    (\<exists>ps. mset ps = mset [0..<Suc (nblocks a)] \<and> r = foldl f z (concat (map (part_list T a s) ps))) \<and>
    ((\<forall>x y z. f (f z x) y = f (f z y) x) \<longrightarrow> r = foldl f z (alist T a s)))"
proof -
  have sh: "shape a" and T: "tsize T \<noteq> 0" "unat (tsize T) = esize a" "0 < esize a"
    using assms(1) by (auto simp: arr_ok_def trivial_ok_def esize_def)
  have ds: "nblocks a * perblock a \<le> alen a" using sh by (simp add: shape_def)
  define D where "D = ca_sizePerBlock a div tsize T"
  have D: "D = ca_sizeDividePerBlock a" if "0 < nblocks a"
    using that assms(4) T by (simp add: D_def word_unat_eq_iff unat_div perblock_def)
  have nD: "ca_nbBlocks a * D = ca_nbBlocks a * ca_sizeDividePerBlock a"
  proof (cases "nblocks a = 0")
    case True
    then have "ca_nbBlocks a = 0" by (simp add: nblocks_def word_unat_eq_iff)
    then show ?thesis by simp
  next
    case False
    then show ?thesis using D by simp
  qed
  have nb: "unat (ca_sizeDividePerBlock a) + unat buf \<le> 2 ^ 32" if "0 < nblocks a"
  proof -
    have "perblock a \<le> nblocks a * perblock a" using that by simp
    then have "perblock a + unat buf \<le> 2 ^ 32" using ds assms(3) by linarith
    then show ?thesis by (simp add: perblock_def)
  qed
  have nr: "unat (ca_size a - ca_nbBlocks a * D) + unat buf \<le> 2 ^ 32"
    using assms(3) by (simp add: nD rest_words [OF sh] part_size_def)
  define Inv where "Inv ps y s' \<longleftrightarrow> unchanged T a s s' \<and> y = foldl f z (concat (map (part_list T a s) ps))" for ps y s'
  have step: "\<exists>y' s''. m y s' = Some (Inr y', s'') \<and> Inv (ps @ [k]) y' s''"
    if I: "Inv ps y s'" and m: "\<exists>s''. m y s' = Some (Inr (foldl f y (part_list T a s' k)), s'') \<and> unchanged T a s' s''"
    for ps y s' k m
  proof -
    have "part_list T a s' k = part_list T a s k"
      using I unchanged_alist [of T a s s' T a] by (simp add: Inv_def part_list_def)
    with I m show ?thesis using unchanged_trans by (fastforce simp: Inv_def)
  qed
  have "\<exists>ps y s'. bnd (loaded_pass (\<lambda>i y s. reduceBlock T (block_segment a i) D buf f y 0 s) (in_memory a) (block_indices a) z [])
      (\<lambda>(y, toLoad). bnd ((\<lambda>y s. reduceBlock T (ca_rest a) (ca_size a - ca_nbBlocks a * D) buf f y 0 s) y)
      (\<lambda>y. load_pass (\<lambda>i y s. reduceBlock T (block_segment a i) D buf f y 0 s) toLoad y)) s = Some (Inr y, s') \<and>
    Inv ps y s' \<and> mset ps = mset [0..<Suc (nblocks a)]"
  proof (rule passes_run)
    show "Inv [] z s" using assms(1) by (simp add: Inv_def unchanged_refl)
    show "\<exists>l s''. in_memory a i s' = Some (Inr l, s'') \<and> Inv ps y s''" if "Inv ps y s'" "unat i < nblocks a" for ps y s' i
      using in_memory_run [of T a s' i] that unchanged_trans [of T a s s'] by (auto simp: Inv_def unchanged_def)
  next
    fix ps y s' and i :: u32 assume I: "Inv ps y s'" and i: "unat i < nblocks a"
    then have "arr_ok T a s'" "0 < nblocks a" by (auto simp: Inv_def unchanged_def)
    from reduceBlock_run [OF this(1) block_run_at(1) [OF sh i] assms(2) nb [OF this(2)], of f y 0] D [OF this(2)]
    show "\<exists>y' s''. reduceBlock T (block_segment a i) D buf f y 0 s' = Some (Inr y', s'') \<and> Inv (ps @ [unat i]) y' s''"
      by (intro step [OF I]) (simp add: part_list_def block_run_at(2) [OF sh i])
  next
    fix ps y s' assume I: "Inv ps y s'"
    then have "arr_ok T a s'" by (simp add: Inv_def unchanged_def)
    from reduceBlock_run [OF this rest_run_at [OF sh, folded nD] assms(2) nr, of f y 0]
    show "\<exists>y' s''. reduceBlock T (ca_rest a) (ca_size a - ca_nbBlocks a * D) buf f y 0 s' = Some (Inr y', s'') \<and>
        Inv (ps @ [nblocks a]) y' s''"
      by (intro step [OF I]) (simp add: part_list_def nD rest_words [OF sh])
  qed
  then obtain ps y s' where r: "ca_reduce T a buf f z s = Some (Inr y, s')" "Inv ps y s'" "mset ps = mset [0..<Suc (nblocks a)]"
    using T(1) by (auto simp: ca_reduce_def Let_def D_def)
  have "mset (concat (map (part_list T a s) ps)) = mset (alist T a s)"
    unfolding concat_parts [OF sh, of T s, symmetric] by (rule mset_concat_perm [OF r(3)])
  then have "foldl f z (concat (map (part_list T a s) ps)) = foldl f z (alist T a s)" if "\<forall>x y z. f (f z x) y = f (f z y) x"
    using that by (intro foldl_any_order) simp_all
  moreover have "y = foldl f z (concat (map (part_list T a s) ps))" "block_at s' = block_at s"
    using r(2) by (simp_all add: Inv_def unchanged_def)
  ultimately show ?thesis using r(3) unfolding returns_def r(1) by auto
qed

lemma array_reduce_witness:
  "returns (ca_reduce byte_elem demo_array 3 (\<lambda>n x. n + unat x) 0) demo_state (\<lambda>r _. r = 33)"
proof -
  have "0 < nblocks demo_array \<longrightarrow> unat (ca_sizePerBlock demo_array) = perblock demo_array * esize demo_array"
    by (simp add: demo_lengths) (simp add: demo_array_def)
  from array_reduce [OF demo_arrays(1) _ _ this, of 3 "\<lambda>n x. n + unat x" 0] show ?thesis
    by (auto simp: demo_list demo_lengths elim!: returns_mono)
qed

end
