(* ===== verification/MergeSort.thy ===== *)
theory MergeSort
  imports Act "HOL-Library.Multiset"
begin

text \<open>
  The sorts of arrays in memory of \<^verbatim>\<open>memory/cache/algorithm/mergesort.hh\<close> and
  \<^verbatim>\<open>insertsort.hh\<close>. An array \<^verbatim>\<open>T *\<close> is the list of its elements, of a type with a linear order
  (\<^verbatim>\<open>T\<close> is compared with \<^verbatim>\<open><=\<close> and \<^verbatim>\<open>>\<close>); indices are numbers, cut to 32 bits where the code
  keeps them in an \<^verbatim>\<open>int\<close>, and an access outside the array is \<open>Undefined\<close>.
\<close>

section \<open>Arrays\<close>

definition elem_at :: "'a list \<Rightarrow> int \<Rightarrow> 'a res" where
  "elem_at a i = (if 0 \<le> i \<and> nat i < length a then Inr (a ! nat i) else Inl Undefined)"

definition set_at :: "'a list \<Rightarrow> int \<Rightarrow> 'a \<Rightarrow> 'a list res" where
  "set_at a i x = (if 0 \<le> i \<and> nat i < length a then Inr (a[nat i := x]) else Inl Undefined)"

text \<open>The conversion to \<^verbatim>\<open>int\<close>.\<close>

definition as_int :: "int \<Rightarrow> int" where
  "as_int x = sint (word_of_int x :: u32)"

lemma as_int_id [simp]:
  assumes "- (2 ^ 31) \<le> x" and "x < 2 ^ 31"
  shows "as_int x = x"
  using assms by (simp add: as_int_def signed_of_int signed_take_bit_int_eq_self)

lemma elem_at_nat [simp]: "elem_at a (int i) = (if i < length a then Inr (a ! i) else Inl Undefined)"
  by (simp add: elem_at_def)

lemma set_at_nat [simp]: "set_at a (int i) x = (if i < length a then Inr (a[i := x]) else Inl Undefined)"
  by (simp add: set_at_def)

section \<open>Merge sort\<close>

text \<open>\<^verbatim>\<open>for (auto i = 0; i < n; i++) dst[i] = array[from + i];\<close> where \<open>dst\<close> is the buffer from \<open>off\<close> on.\<close>

function copy_loop :: "'a list \<Rightarrow> int \<Rightarrow> 'a list \<Rightarrow> int \<Rightarrow> int \<Rightarrow> int \<Rightarrow> 'a list res" where
  "copy_loop array from buffer off i n =
     (if i < n then
        ebind (elem_at array (from + i)) (\<lambda>x.
        ebind (set_at buffer (off + i) x) (\<lambda>buffer. copy_loop array from buffer off (i + 1) n))
      else Inr buffer)"
  by pat_completeness auto
termination by (relation "measure (\<lambda>(a, f, b, off, i, n). nat (n - i))") auto

function merge_loop ::
  "'a :: linorder list \<Rightarrow> 'a list \<Rightarrow> int \<Rightarrow> int \<Rightarrow> int \<Rightarrow> int \<Rightarrow> int \<Rightarrow> ('a list \<times> int \<times> int \<times> int) res"
where
  "merge_loop array buffer n1 n2 i j k =
     (if i < n1 \<and> j < n2 then
        ebind (elem_at buffer i) (\<lambda>l.
        ebind (elem_at buffer (n1 + j)) (\<lambda>r.
        if l \<le> r then
          ebind (set_at array k l) (\<lambda>array. merge_loop array buffer n1 n2 (i + 1) j (k + 1))
        else
          ebind (set_at array k r) (\<lambda>array. merge_loop array buffer n1 n2 i (j + 1) (k + 1))))
      else Inr (array, i, j, k))"
  by pat_completeness auto
termination by (relation "measure (\<lambda>(a, b, n1, n2, i, j, k). nat (n1 - i) + nat (n2 - j))") auto

text \<open>The two loops that copy what is left of one half.\<close>

function drain_loop ::
  "'a list \<Rightarrow> 'a list \<Rightarrow> int \<Rightarrow> int \<Rightarrow> int \<Rightarrow> int \<Rightarrow> ('a list \<times> int) res"
where
  "drain_loop array buffer off n i k =
     (if i < n then
        ebind (elem_at buffer (off + i)) (\<lambda>x.
        ebind (set_at array k x) (\<lambda>array. drain_loop array buffer off n (i + 1) (k + 1)))
      else Inr (array, k))"
  by pat_completeness auto
termination by (relation "measure (\<lambda>(a, b, off, n, i, k). nat (n - i))") auto

declare copy_loop.simps [simp del] merge_loop.simps [simp del] drain_loop.simps [simp del]

text \<open>The sort works on the two arrays, the one that is sorted and the buffer.\<close>

definition merge_block :: "int \<Rightarrow> int \<Rightarrow> int \<Rightarrow> ('a :: linorder list \<times> 'a list, unit) act" where
  "merge_block left mid right = (\<lambda>(array, buffer).
     let subArrayOne = as_int (mid - left);
         subArrayTwo = as_int (right - mid) in
     case ebind (copy_loop array left buffer 0 0 subArrayOne) (\<lambda>buffer.
          ebind (copy_loop array mid buffer subArrayOne 0 subArrayTwo) (\<lambda>buffer.
          ebind (merge_loop array buffer subArrayOne subArrayTwo 0 0 (as_int left)) (\<lambda>(array, i, j, k).
          ebind (drain_loop array buffer 0 subArrayOne i k) (\<lambda>(array, k).
          ebind (drain_loop array buffer subArrayOne subArrayTwo j k) (\<lambda>(array, k).
          Inr (array, buffer)))))) of
       Inl e \<Rightarrow> Some (Inl e, (array, buffer))
     | Inr s \<Rightarrow> Some (Inr (), s))"

text \<open>The middle is an \<^verbatim>\<open>int\<close>: for arrays of 2^31 elements or more it is negative.\<close>

partial_function (option) merge_sort_block ::
  "int \<Rightarrow> int \<Rightarrow> 'a :: linorder list \<times> 'a list \<Rightarrow> (unit res \<times> 'a list \<times> 'a list) option"
where
  "merge_sort_block begin end s =
     (if end \<le> begin then ret () s
      else if end - begin \<le> 1 then ret () s
      else bnd (\<lambda>s. merge_sort_block begin (as_int (begin + (end - begin) div 2)) s) (\<lambda>_ s.
        bnd (\<lambda>s. merge_sort_block (as_int (begin + (end - begin) div 2)) end s) (\<lambda>_ s.
        merge_block begin (as_int (begin + (end - begin) div 2)) end s) s) s)"

declare merge_sort_block.simps [code]

text \<open>The new buffer is not initialised and holds \<open>junk\<close>.\<close>

definition merge_sort_vec :: "'a :: linorder list \<Rightarrow> 'a \<Rightarrow> 'a list res option" where
  "merge_sort_vec v junk =
     (case merge_sort_block 0 (int (length v)) (v, replicate (length v) junk) of
        None \<Rightarrow> None
      | Some (r, (array, buffer)) \<Rightarrow> Some (ebind r (\<lambda>_. Inr array)))"

section \<open>Insertion sort\<close>

function shift_loop :: "'a :: linorder list \<Rightarrow> 'a \<Rightarrow> int \<Rightarrow> ('a list \<times> int) res" where
  "shift_loop array key j =
     (if 0 \<le> j then
        ebind (elem_at array j) (\<lambda>x.
        if key < x then ebind (set_at array (j + 1) x) (\<lambda>array. shift_loop array key (j - 1))
        else Inr (array, j))
      else Inr (array, j))"
  by pat_completeness auto
termination by (relation "measure (\<lambda>(a, key, j). nat (j + 1))") auto

function insert_loop :: "'a :: linorder list \<Rightarrow> int \<Rightarrow> int \<Rightarrow> 'a list res" where
  "insert_loop array i end =
     (if i < end then
        ebind (elem_at array i) (\<lambda>key.
        ebind (shift_loop array key (i - 1)) (\<lambda>(array, j).
        ebind (set_at array (j + 1) key) (\<lambda>array. insert_loop array (i + 1) end)))
      else Inr array)"
  by pat_completeness auto
termination by (relation "measure (\<lambda>(a, i, end). nat (end - i))") auto

declare shift_loop.simps [simp del] insert_loop.simps [simp del]

definition insert_sort :: "'a :: linorder list \<Rightarrow> u32 \<Rightarrow> u32 \<Rightarrow> 'a list res" where
  "insert_sort array low end = insert_loop array (uint low) (uint end)"

section \<open>Merging is the reference merge\<close>

fun merge_lists :: "'a :: linorder list \<Rightarrow> 'a list \<Rightarrow> 'a list" where
  "merge_lists (x # xs) (y # ys) =
     (if x \<le> y then x # merge_lists xs (y # ys) else y # merge_lists (x # xs) ys)"
| "merge_lists [] ys = ys"
| "merge_lists xs [] = xs"

lemma length_merge_lists [simp]: "length (merge_lists xs ys) = length xs + length ys"
  by (induction xs ys rule: merge_lists.induct) auto

lemma mset_merge_lists [simp]: "mset (merge_lists xs ys) = mset xs + mset ys"
  by (induction xs ys rule: merge_lists.induct) auto

lemma merge_lists_Nil [simp]: "merge_lists xs [] = xs"
  by (cases xs) simp_all

lemma sorted_merge_lists: "sorted xs \<Longrightarrow> sorted ys \<Longrightarrow> sorted (merge_lists xs ys)"
proof (induction xs ys rule: merge_lists.induct)
  case (1 x xs y ys)
  have "set (merge_lists as bs) = set as \<union> set bs" for as bs :: "'a list"
    by (metis mset_merge_lists set_mset_mset set_mset_union)
  with 1 show ?case by auto
qed simp_all

lemma merge_lists_sort: "merge_lists (sort xs) (sort ys) = sort (xs @ ys)"
  by (rule properties_for_sort [symmetric]) (simp_all add: sorted_merge_lists)

text \<open>A loop that writes the elements of a list one after the other.\<close>

lemma take_Suc_update: "k < length a \<Longrightarrow> take (Suc k) (a[k := x]) = take k a @ [x]"
  by (simp add: take_Suc_conv_app_nth)

lemma take_drop_Cons:
  "i < length xs \<Longrightarrow> take (Suc n) (drop i xs) = xs ! i # take n (drop (Suc i) xs)"
  by (simp add: Cons_nth_drop_Suc [symmetric])

lemma copy_loop_step:
  assumes "i < n" and "from + i < length array" and "off + i < length buffer"
  shows "copy_loop array (int from) buffer (int off) (int i) (int n) =
    copy_loop array (int from) (buffer[off + i := array ! (from + i)]) (int off) (int (Suc i)) (int n)"
  using assms by (subst copy_loop.simps) (simp add: elem_at_def set_at_def nat_int_add add.commute)

lemma drain_loop_step:
  assumes "i < n" and "off + i < length buffer" and "k < length array"
  shows "drain_loop array buffer (int off) (int n) (int i) (int k) =
    drain_loop (array[k := buffer ! (off + i)]) buffer (int off) (int n) (int (Suc i)) (int (Suc k))"
  using assms by (subst drain_loop.simps) (simp add: elem_at_def set_at_def nat_int_add add.commute)

lemma copy_loop_eq:
  assumes "from + i + m \<le> length array" and "off + i + m \<le> length buffer"
  shows "copy_loop array (int from) buffer (int off) (int i) (int (i + m)) =
    Inr (take (off + i) buffer @ take m (drop (from + i) array) @ drop (off + i + m) buffer)"
  using assms
proof (induction m arbitrary: i buffer)
  case (Suc m)
  from Suc.IH [of "Suc i" "buffer[off + i := array ! (from + i)]"] Suc.prems show ?case
    by (simp add: copy_loop_step take_Suc_update take_drop_Cons del: of_nat_add of_nat_Suc)
qed (simp add: copy_loop.simps)

lemma drain_loop_eq:
  assumes "off + i + m \<le> length buffer" and "k + m \<le> length array"
  shows "drain_loop array buffer (int off) (int (i + m)) (int i) (int k) =
    Inr (take k array @ take m (drop (off + i) buffer) @ drop (k + m) array, int (k + m))"
  using assms
proof (induction m arbitrary: i k array)
  case (Suc m)
  from Suc.IH [of "Suc i" "Suc k" "array[k := buffer ! (off + i)]"] Suc.prems show ?case
    by (simp add: drain_loop_step take_Suc_update take_drop_Cons del: of_nat_add of_nat_Suc)
qed (simp add: drain_loop.simps)

text \<open>The loop that merges and the two that follow it.\<close>

lemma merge_loop_step:
  assumes "i < n1" and "j < n2" and "n1 + n2 \<le> length buffer" and "k < length array"
  shows "merge_loop array buffer (int n1) (int n2) (int i) (int j) (int k) =
    (if buffer ! i \<le> buffer ! (n1 + j)
     then merge_loop (array[k := buffer ! i]) buffer (int n1) (int n2) (int (Suc i)) (int j) (int (Suc k))
     else merge_loop (array[k := buffer ! (n1 + j)]) buffer (int n1) (int n2) (int i) (int (Suc j)) (int (Suc k)))"
  using assms by (subst merge_loop.simps) (simp add: elem_at_def set_at_def nat_int_add add.commute)

lemma merge_loops_eq:
  assumes "length buffer \<ge> i + m + (j + n)" and "k + m + n \<le> length array" and "i + m = n1" and "j + n = n2"
  shows "ebind (merge_loop array buffer (int n1) (int n2) (int i) (int j) (int k)) (\<lambda>(array, i, j, k).
      ebind (drain_loop array buffer 0 (int n1) i k) (\<lambda>(array, k).
      drain_loop array buffer (int n1) (int n2) j k)) =
    Inr (take k array @ merge_lists (take m (drop i buffer)) (take n (drop (n1 + j) buffer)) @
      drop (k + m + n) array, int (k + m + n))"
  using assms
proof (induction "m + n" arbitrary: m n i j k array)
  case 0
  then show ?case
    using drain_loop_eq [of 0 i 0 buffer k array] drain_loop_eq [of n1 j 0 buffer k array]
    by (simp add: merge_loop.simps)
next
  case (Suc l)
  show ?case
  proof (cases "m = 0 \<or> n = 0")
    case True
    then show ?thesis
      using Suc.prems drain_loop_eq [of 0 i m buffer k array]
        drain_loop_eq [of n1 j n buffer "k + m"
          "take k array @ take m (drop i buffer) @ drop (k + m) array"]
      by (auto simp: merge_loop.simps add.commute)
  next
    case False
    then obtain m' n' where mn: "m = Suc m'" "n = Suc n'" by (metis not0_implies_Suc)
    have Cons: "take (Suc m') (drop i buffer) = buffer ! i # take m' (drop (Suc i) buffer)"
      "take (Suc n') (drop (n1 + j) buffer) = buffer ! (n1 + j) # take n' (drop (Suc (n1 + j)) buffer)"
      using Suc.prems mn by (simp_all add: take_drop_Cons)
    show ?thesis
    proof (cases "buffer ! i \<le> buffer ! (n1 + j)")
      case True
      then show ?thesis
        using Suc.hyps(1) [of m' n "Suc i" j "Suc k" "array[k := buffer ! i]"] Suc.hyps(2) Suc.prems
        by (simp add: merge_loop_step take_Suc_update Cons mn del: of_nat_add of_nat_Suc)
    next
      case False
      then show ?thesis
        using Suc.hyps(1) [of m n' i "Suc j" "Suc k" "array[k := buffer ! (n1 + j)]"] Suc.hyps(2) Suc.prems
        by (simp add: merge_loop_step take_Suc_update Cons mn del: of_nat_add of_nat_Suc)
    qed
  qed
qed

lemma merge_block_eq:
  assumes "l \<le> m" and "m \<le> r" and "r \<le> length array" and "r - l \<le> length buffer" and "length array < 2 ^ 31"
  shows "\<exists>buffer'. length buffer' = length buffer \<and>
    merge_block (int l) (int m) (int r) (array, buffer) =
      Some (Inr (), (take l array @
        merge_lists (take (m - l) (drop l array)) (take (r - m) (drop m array)) @ drop r array, buffer'))"
proof -
  define n1 n2 where "n1 = m - l" and "n2 = r - m"
  have n: "as_int (int m - int l) = int n1" "as_int (int r - int m) = int n2" "as_int (int l) = int l"
    using assms by (simp_all add: n1_def n2_def of_nat_diff)
  define xs ys where "xs = take n1 (drop l array)" and "ys = take n2 (drop m array)"
  have len: "length xs = n1" "length ys = n2" "n1 + n2 \<le> length buffer" "l + n1 + n2 \<le> length array"
    "l + n1 + n2 = r" using assms by (simp_all add: n1_def n2_def xs_def ys_def)
  define b where "b = xs @ ys @ drop (n1 + n2) buffer"
  have 1: "copy_loop array (int l) buffer 0 0 (int n1) = Inr (xs @ drop n1 buffer)"
    using copy_loop_eq [of l 0 n1 array 0 buffer] len by (simp add: xs_def)
  have 2: "copy_loop array (int m) (xs @ drop n1 buffer) (int n1) 0 (int n2) = Inr b"
    using copy_loop_eq [of m 0 n2 array n1 "xs @ drop n1 buffer"] len assms
    by (simp add: ys_def b_def add.commute n2_def)
  have bl: "length b = length buffer" using len by (simp add: b_def)
  have 3: "ebind (merge_loop array b (int n1) (int n2) 0 0 (int l)) (\<lambda>(array, i, j, k).
      ebind (drain_loop array b 0 (int n1) i k) (\<lambda>(array, k). drain_loop array b (int n1) (int n2) j k)) =
    Inr (take l array @ merge_lists xs ys @ drop r array, int r)"
    using merge_loops_eq [of 0 n1 0 n2 b l array n1 n2] len bl by (simp add: b_def)
  have "ebind (merge_loop array b (int n1) (int n2) 0 0 (int l)) (\<lambda>(array, i, j, k).
      ebind (drain_loop array b 0 (int n1) i k) (\<lambda>(array, k).
      ebind (drain_loop array b (int n1) (int n2) j k) (\<lambda>(array, k). Inr (array, b)))) =
    ebind (ebind (merge_loop array b (int n1) (int n2) 0 0 (int l)) (\<lambda>(array, i, j, k).
      ebind (drain_loop array b 0 (int n1) i k) (\<lambda>(array, k). drain_loop array b (int n1) (int n2) j k)))
      (\<lambda>(array, k). Inr (array, b))"
    by (simp add: ebind_assoc split_def)
  then have "merge_block (int l) (int m) (int r) (array, buffer) =
      Some (Inr (), (take l array @ merge_lists xs ys @ drop r array, b))"
    by (simp add: merge_block_def n 1 2 3 Let_def)
  with bl show ?thesis by (auto simp: xs_def ys_def n1_def n2_def)
qed

lemma sort_short: "length xs \<le> 1 \<Longrightarrow> sort xs = xs"
  by (cases xs) auto

lemma sorted_slice_split:
  assumes "l \<le> m" and "m \<le> r"
  shows "take (r - l) (drop l xs) = take (m - l) (drop l xs) @ take (r - m) (drop m xs)"
  using take_add [of "m - l" "r - m" "drop l xs"] assms by (simp add: add.commute)

lemma merge_sort_block_eq:
  assumes "l \<le> r" and "r \<le> length array" and "r - l \<le> length buffer" and "length array < 2 ^ 31"
  shows "\<exists>buffer'. length buffer' = length buffer \<and>
    merge_sort_block (int l) (int r) (array, buffer) =
      Some (Inr (), (take l array @ sort (take (r - l) (drop l array)) @ drop r array, buffer'))"
  using assms
proof (induction "r - l" arbitrary: l r array buffer rule: less_induct)
  case less
  show ?case
  proof (cases "r - l \<le> 1")
    case True
    then have "sort (take (r - l) (drop l array)) = take (r - l) (drop l array)"
      by (simp add: sort_short)
    moreover have "take l array @ take (r - l) (drop l array) @ drop r array = array"
      using less.prems(1) by (metis append.assoc append_take_drop_id le_add_diff_inverse take_add)
    ultimately show ?thesis using True less.prems
      by (intro exI [of _ buffer]) (subst merge_sort_block.simps, auto simp: act_simps)
  next
    case False
    define m where "m = l + (r - l) div 2"
    have m: "l < m" "m < r" using False less.prems by (auto simp: m_def)
    then have lt: "m - l < r - l" "r - m < r - l" by simp_all
    have mid: "as_int (int l + (int r - int l) div 2) = int m"
      using less.prems m by (simp add: m_def of_nat_diff zdiv_int)
    define a1 where "a1 = take l array @ sort (take (m - l) (drop l array)) @ drop m array"
    obtain b1 where 1: "length b1 = length buffer"
      "merge_sort_block (int l) (int m) (array, buffer) = Some (Inr (), (a1, b1))"
      using less.hyps [of m l array buffer] less.prems m lt by (auto simp: a1_def)
    have a1: "length a1 = length array" "drop m a1 = drop m array" "take l a1 = take l array"
      "take (m - l) (drop l a1) = sort (take (m - l) (drop l array))"
      using m less.prems by (simp_all add: a1_def)
    define a2 where "a2 = take m a1 @ sort (take (r - m) (drop m a1)) @ drop r a1"
    obtain b2 where 2: "length b2 = length buffer"
      "merge_sort_block (int m) (int r) (a1, b1) = Some (Inr (), (a2, b2))"
      using less.hyps [of r m a1 b1] less.prems m lt a1 1 by (auto simp: a2_def)
    have a2: "length a2 = length array" "drop r a2 = drop r array" "take l a2 = take l array"
      "take (m - l) (drop l a2) = sort (take (m - l) (drop l array))"
      "take (r - m) (drop m a2) = sort (take (r - m) (drop m array))"
    proof -
      have "take m a2 = take m a1" using m less.prems a1(1) by (simp add: a2_def)
      then have "take l (take m a2) = take l (take m a1)" "drop l (take m a2) = drop l (take m a1)"
        by simp_all
      then show "take l a2 = take l array"
        "take (m - l) (drop l a2) = sort (take (m - l) (drop l array))"
        using m a1(3,4) by (simp_all add: min_def drop_take)
      have "drop (r - m) (drop m a1) = drop (r - m) (drop m array)" by (simp only: a1(2))
      then show "drop r a2 = drop r array" using m less.prems a1(1) by (simp add: a2_def)
    qed (use m less.prems a1 in \<open>simp_all add: a2_def\<close>)
    obtain b3 where 3: "length b3 = length buffer"
      "merge_block (int l) (int m) (int r) (a2, b2) =
        Some (Inr (), (take l a2 @ merge_lists (take (m - l) (drop l a2)) (take (r - m) (drop m a2)) @ drop r a2, b3))"
      using merge_block_eq [of l m r a2 b2] less.prems m a2 2 by auto
    have "merge_lists (take (m - l) (drop l a2)) (take (r - m) (drop m a2)) = sort (take (r - l) (drop l array))"
      using sorted_slice_split [of l m r array] m by (simp add: a2 merge_lists_sort)
    moreover have "\<not> int r \<le> int l" "\<not> int r - int l \<le> 1" using False by linarith+
    ultimately show ?thesis using 3 a2(2,3) 1 2
      by (intro exI [of _ b3]) (subst merge_sort_block.simps, simp add: mid act_simps)
  qed
qed

lemma merge_sort_vec_eq:
  "length v < 2 ^ 31 \<Longrightarrow> merge_sort_vec v junk = Some (Inr (sort v))"
  using merge_sort_block_eq [of 0 "length v" v "replicate (length v) junk"]
  by (auto simp: merge_sort_vec_def)

section \<open>Insertion sort\<close>

lemma shift_loop_step:
  assumes "j < length array" and "Suc j < length array"
  shows "shift_loop array key (int j) =
    (if key < array ! j then shift_loop (array[Suc j := array ! j]) key (int j - 1) else Inr (array, int j))"
  using assms by (subst shift_loop.simps) (simp add: elem_at_def set_at_def nat_add_distrib)

text \<open>The elements above the key move up by one, and the key goes into the hole they leave.\<close>

lemma insort_last:
  assumes "sorted (xs :: 'a :: linorder list)" and "\<And>x. x \<in> set xs \<Longrightarrow> x \<le> key"
  shows "insort key xs = xs @ [key]"
proof -
  have "sort (key # xs) = xs @ [key]"
    by (rule properties_for_sort) (use assms in \<open>auto simp: sorted_append\<close>)
  then show ?thesis using assms(1) by (simp add: sorted_sort_id)
qed

lemma insort_before:
  assumes "key < (x :: 'a :: linorder)" and "sorted (xs @ [x])"
  shows "insort key (xs @ [x]) = insort key xs @ [x]"
  using assms by (induction xs) auto

lemma insert_step:
  assumes "n < length array" and "sorted (take n array)"
  shows "ebind (shift_loop array key (int n - 1)) (\<lambda>(array, j). set_at array (j + 1) key) =
    Inr (insort key (take n array) @ drop (Suc n) array)"
  using assms
proof (induction n arbitrary: array)
  case 0
  then show ?case by (cases array) (simp_all add: shift_loop.simps set_at_def)
next
  case (Suc n)
  have t: "take (Suc n) array = take n array @ [array ! n]"
    using Suc.prems by (simp add: take_Suc_conv_app_nth)
  show ?case
  proof (cases "key < array ! n")
    case True
    have "drop (Suc n) (array[Suc n := array ! n]) = array ! n # drop (Suc (Suc n)) array"
      using Suc.prems by (simp add: Cons_nth_drop_Suc [symmetric])
    with True Suc.IH [of "array[Suc n := array ! n]"] Suc.prems show ?thesis
      by (simp add: shift_loop_step t insort_before sorted_append)
  next
    case False
    have "insort key (take (Suc n) array) = take (Suc n) array @ [key]"
      using False Suc.prems by (intro insort_last) (fastforce simp: t sorted_append)+
    moreover have "set_at array (int n + 1) key = Inr (take (Suc n) array @ key # drop (Suc (Suc n)) array)"
      using Suc.prems by (simp add: set_at_def nat_add_distrib upd_conv_take_nth_drop)
    ultimately show ?thesis using False Suc.prems by (simp add: shift_loop_step)
  qed
qed

lemma insert_loop_eq:
  assumes "i \<le> n" and "n \<le> length array" and "sorted (take i array)"
  shows "insert_loop array (int i) (int n) = Inr (sort (take n array) @ drop n array)"
  using assms
proof (induction "n - i" arbitrary: i array)
  case 0
  then show ?case by (simp add: insert_loop.simps sorted_sort_id)
next
  case (Suc d)
  let ?a = "insort (array ! i) (take i array) @ drop (Suc i) array"
  have i: "i < n" "i < length array" using Suc by simp_all
  have "mset (take n ?a) = mset (take n array)"
  proof -
    have "take n array = take i array @ array ! i # take (n - Suc i) (drop (Suc i) array)"
      using id_take_nth_drop [of i "take n array"] i Suc.prems by (simp add: drop_take min_def)
    then show ?thesis using i by simp
  qed
  then have s: "sort (take n ?a) = sort (take n array)"
    by (intro properties_for_sort) simp_all
  have "insert_loop array (int i) (int n) = insert_loop ?a (int (Suc i)) (int n)"
    using i insert_step [OF i(2) Suc.prems(3), of "array ! i"]
    by (subst insert_loop.simps)
      (auto simp: ebind_eq_Inr ebind_def split_def add.commute split: sum.splits)
  also have "\<dots> = Inr (sort (take n ?a) @ drop n ?a)"
    using Suc.hyps(1) [of "Suc i" ?a] Suc.hyps(2) Suc.prems i by (simp add: sorted_insort)
  also have "drop n ?a = drop n array" using i by simp
  finally show ?case by (simp only: s)
qed

section \<open>What the sorts do\<close>

lemma insert_sort_from_sorted:
  assumes "unat low \<le> unat end" and "unat end \<le> length array" and "sorted (take (unat low) array)"
  shows "insert_sort array low end = Inr (sort (take (unat end) array) @ drop (unat end) array)"
  using insert_loop_eq [OF assms] by (simp add: insert_sort_def)

text \<open>
  C30. The sorts of arrays in memory sort: \<open>merge_sort_vec\<close>, on any vector of less than \<open>2 ^ 31\<close>
  elements and whatever the new buffer holds, returns, never leaves the two arrays, and the result
  is the sorted list of the same elements (that of the library's reference \<open>sort\<close>);
  \<open>merge_sort_block\<close> sorts the range it is given in a bigger array, and leaves the rest of the
  array as it is; and \<open>insert_sort\<close> from index 0 sorts the beginning of the array.
\<close>

theorem vectors_sorted:
  assumes "length v < 2 ^ 31"
  shows "merge_sort_vec v junk = Some (Inr (sort v)) \<and>
    (b \<le> e \<and> e \<le> length v \<and> e - b \<le> length buffer \<longrightarrow>
      (\<exists>buffer'. merge_sort_block (int b) (int e) (v, buffer) =
        Some (Inr (), (take b v @ sort (take (e - b) (drop b v)) @ drop e v, buffer')))) \<and>
    (e \<le> length v \<longrightarrow> insert_sort v 0 (of_nat e) = Inr (sort (take e v) @ drop e v))"
proof (intro conjI impI)
  show "merge_sort_vec v junk = Some (Inr (sort v))" using assms by (rule merge_sort_vec_eq)
next
  assume "b \<le> e \<and> e \<le> length v \<and> e - b \<le> length buffer"
  then show "\<exists>buffer'. merge_sort_block (int b) (int e) (v, buffer) =
        Some (Inr (), (take b v @ sort (take (e - b) (drop b v)) @ drop e v, buffer'))"
    using merge_sort_block_eq [of b e v buffer] assms by auto
next
  assume e: "e \<le> length v"
  then have "unat (of_nat e :: u32) = e"
    using assms by (simp add: unat_of_nat)
  then show "insert_sort v 0 (of_nat e) = Inr (sort (take e v) @ drop e v)"
    using e insert_sort_from_sorted [of 0 "of_nat e" v] by simp
qed

theorem vectors_sorted_witness:
  "merge_sort_vec [3, 1, 2 :: nat] 7 = Some (Inr [1, 2, 3]) \<and>
   (\<exists>buffer'. merge_sort_block 1 3 ([9, 5, 4 :: nat], [0, 0]) = Some (Inr (), ([9, 4, 5], buffer'))) \<and>
   insert_sort [3, 1, 2 :: nat] 0 2 = Inr [1, 3, 2]"
  using vectors_sorted [of "[3, 1, 2 :: nat]" 7 0 2 "[]"] vectors_sorted [of "[9, 5, 4 :: nat]" 0 1 3 "[0, 0]"]
  by simp

text \<open>
  \<^verbatim>\<open>insert_sort\<close> from another index does not sort the range it is given: it inserts the elements
  of the range in everything before it, which it moves.
\<close>

lemma insert_sort_leaves_range: "insert_sort [5, 9, 1 :: nat] 2 3 = Inr [1, 5, 9]"
  by (simp add: insert_sort_def insert_loop.simps shift_loop.simps elem_at_def set_at_def)

end
