(* ===== verification/BitonicSort.thy ===== *)
theory BitonicSort
  imports MergeSort "HOL-Library.Log_Nat"
begin

text \<open>
  \<^verbatim>\<open>memory/cache/algorithm/bitonicsort.cc\<close> and the part of \<^verbatim>\<open>bitonicsort.hh\<close> that sorts arrays
  in memory: a bitonic sort for any number of elements, not only powers of two. Sizes and
  positions are the 32-bit words of the code; the loop counter of \<^verbatim>\<open>bitonicMergeBlock\<close> is an
  \<^verbatim>\<open>int\<close>, so an index beyond \<open>2 ^ 31\<close> is \<open>Undefined\<close>. A direction is a \<open>bool\<close> (the code keeps 0 or 1
  in an \<^verbatim>\<open>uint32_t\<close>).
\<close>

section \<open>The code\<close>

definition flp2 :: "u32 \<Rightarrow> u32" where
  "flp2 x =
     (let x = x OR drop_bit 1 x; x = x OR drop_bit 2 x; x = x OR drop_bit 4 x;
          x = x OR drop_bit 8 x; x = x OR drop_bit 16 x
      in x - drop_bit 1 x)"

text \<open>The body of the loops: two elements are put in the order of the direction.\<close>

definition comp_and_swap :: "'a :: linorder list \<Rightarrow> int \<Rightarrow> int \<Rightarrow> bool \<Rightarrow> 'a list res" where
  "comp_and_swap a i j dir =
     ebind (elem_at a i) (\<lambda>atI.
     ebind (elem_at a j) (\<lambda>atJ.
     if dir = (atJ < atI) then ebind (set_at a i atJ) (\<lambda>a. set_at a j atI) else Inr a))"

text \<open>\<open>i\<close> is an \<^verbatim>\<open>int\<close> that is compared as an \<^verbatim>\<open>uint32_t\<close>.\<close>

function merge_swaps :: "'a :: linorder list \<Rightarrow> nat \<Rightarrow> u32 \<Rightarrow> u32 \<Rightarrow> bool \<Rightarrow> 'a list res" where
  "merge_swaps a i end k dir =
     (if i < unat end then
        (if 2 ^ 31 \<le> i + unat k then Inl Undefined
         else ebind (comp_and_swap a (int i) (int i + uint k) dir) (\<lambda>a. merge_swaps a (i + 1) end k dir))
      else Inr a)"
  by pat_completeness auto
termination by (relation "measure (\<lambda>(a, i, end, k, dir). unat end - i)") auto

declare merge_swaps.simps [simp del]

lemma ex_less_double: "(\<exists>j < n. P j) \<or> (\<exists>j < n. P (n + j)) \<longleftrightarrow> (\<exists>j < n + n. P j)" for n :: nat
proof (intro iffI)
  assume "\<exists>j < n + n. P j"
  then obtain j where "j < n + n" "P j" by auto
  then show "(\<exists>j < n. P j) \<or> (\<exists>j < n. P (n + j))"
    by (metis add_less_cancel_left le_add_diff_inverse not_less)
next
  assume "(\<exists>j < n. P j) \<or> (\<exists>j < n. P (n + j))"
  then obtain j where "j < n + n" "P j" by (metis add_less_cancel_left trans_less_add1)
  then show "\<exists>j < n + n. P j" by auto
qed

lemma fill_bits:
  fixes x y :: u32
  assumes "\<And>i. bit y i \<longleftrightarrow> (\<exists>j < n. bit x (i + j))"
  shows "bit (y OR drop_bit n y) i \<longleftrightarrow> (\<exists>j < n + n. bit x (i + j))"
  using ex_less_double [of n "\<lambda>j. bit x (i + j)"]
  by (simp add: bit_or_iff bit_drop_bit_eq assms ac_simps)

lemma flp2_power:
  assumes "2 ^ m \<le> unat x" and "unat x < 2 ^ Suc m"
  shows "unat (flp2 x) = 2 ^ m"
proof -
  define y1 y2 y3 y4 y5 where "y1 = x OR drop_bit 1 x" and "y2 = y1 OR drop_bit 2 y1"
    and "y3 = y2 OR drop_bit 4 y2" and "y4 = y3 OR drop_bit 8 y3" and "y5 = y4 OR drop_bit 16 y4"
  have f: "flp2 x = y5 - drop_bit 1 y5"
    by (simp only: flp2_def y1_def y2_def y3_def y4_def y5_def Let_def)
  have 0: "bit x i \<longleftrightarrow> (\<exists>j < 1. bit x (i + j))" for i
    by simp
  have 1: "bit y1 i \<longleftrightarrow> (\<exists>j < 2. bit x (i + j))" for i
    using fill_bits [of x 1 x i, OF 0] by (simp only: y1_def one_add_one)
  have 2: "bit y2 i \<longleftrightarrow> (\<exists>j < 4. bit x (i + j))" for i
    using fill_bits [of y1 2 x i, OF 1] by (simp only: y2_def) simp
  have 3: "bit y3 i \<longleftrightarrow> (\<exists>j < 8. bit x (i + j))" for i
    using fill_bits [of y2 4 x i, OF 2] by (simp only: y3_def) simp
  have 4: "bit y4 i \<longleftrightarrow> (\<exists>j < 16. bit x (i + j))" for i
    using fill_bits [of y3 8 x i, OF 3] by (simp only: y4_def) simp
  have 5: "bit y5 i \<longleftrightarrow> (\<exists>j < 32. bit x (i + j))" for i
    using fill_bits [of y4 16 x i, OF 4] by (simp only: y5_def) simp
  have m: "m < 32"
    using assms(1) unat_less_u32 [of x] power_less_imp_less_exp [of "2 :: nat" m 32] by simp
  have bx: "bit x j \<longleftrightarrow> odd (unat x div 2 ^ j)" for j
    by (simp add: bit_iff_odd [of "unat x", symmetric] bit_unsigned_iff)
  have top: "bit x m" "\<And>j. m < j \<Longrightarrow> \<not> bit x j"
  proof -
    have "unat x div 2 ^ m = 1"
      using assms by (intro div_nat_eqI) simp_all
    then show "bit x m" using m by (simp add: bx)
    fix j assume "m < j"
    then have "(2 :: nat) ^ Suc m \<le> 2 ^ j" by (intro power_increasing) simp_all
    then have "unat x div 2 ^ j = 0" using assms(2) by simp
    then show "\<not> bit x j" by (simp add: bx)
  qed
  have "y5 = mask (Suc m)"
  proof (rule bit_word_eqI)
    fix i
    have "(\<exists>j < 32. bit x (i + j)) \<longleftrightarrow> i \<le> m"
      using top m by (metis add_diff_inverse_nat le_add_diff_inverse less_imp_diff_less not_le le_add1 le_less_trans linorder_not_less)
    then show "bit y5 i = bit (mask (Suc m) :: u32) i" using m by (auto simp: 5 bit_mask_iff less_Suc_eq_le)
  qed
  moreover have "drop_bit 1 (mask (Suc m) :: u32) = mask m"
    using m by (intro bit_word_eqI) (auto simp: bit_mask_iff bit_drop_bit_eq)
  ultimately have "flp2 x = 2 ^ m" by (simp add: f mask_eq_exp_minus_1)
  moreover have "unat (2 ^ m :: u32) = 2 ^ m"
    using m unat_of_nat [of "2 ^ m", where 'a = 32] power_strict_increasing [OF m, of "2 :: nat"] by simp
  ultimately show ?thesis by simp
qed

text \<open>The greatest power of two below the number of elements.\<close>

definition half :: "nat \<Rightarrow> nat" where
  "half n = 2 ^ (floorlog 2 (n - 1) - 1)"

lemma half_bounds:
  assumes "1 < n"
  shows "0 < half n" and "half n < n" and "n \<le> 2 * half n"
proof -
  have f: "2 ^ (floorlog 2 (n - 1) - 1) \<le> n - 1 \<and> n - 1 < 2 ^ floorlog 2 (n - 1)"
    using assms by (intro floorlog_bounds) simp_all
  have "0 < floorlog 2 (n - 1)" using assms by (simp add: floorlog_def)
  then have "2 ^ floorlog 2 (n - 1) = 2 * half n" by (simp add: half_def flip: power_Suc)
  with f have "half n \<le> n - 1" "n - 1 < 2 * half n" by (simp_all only: half_def)
  with assms show "0 < half n" "half n < n" "n \<le> 2 * half n" by linarith+
qed

lemma half_simps [simp]:
  "Suc 0 < n \<Longrightarrow> 0 < half n" "Suc 0 < n \<Longrightarrow> half n < n" "Suc 0 < n \<Longrightarrow> n - half n < n"
  using half_bounds [of n] by simp_all

lemma half_add [simp]: "Suc 0 < n \<Longrightarrow> half n + (n - half n) = n"
  by (simp add: less_imp_le)

lemma flp2_half:
  assumes "1 < nb"
  shows "unat (flp2 (nb - 1)) = half (unat nb)"
proof -
  have nb: "1 < unat nb" "unat (nb - 1) = unat nb - 1"
    using assms by (simp_all add: word_less_nat_alt unat_sub word_le_nat_alt)
  then show ?thesis
    using half_bounds [OF nb(1)] flp2_power [of "floorlog 2 (unat nb - 1) - 1" "nb - 1"]
    by (simp add: half_def)
qed

lemma flp2_less: "1 < nb \<Longrightarrow> 0 < unat (flp2 (nb - 1)) \<and> unat (flp2 (nb - 1)) < unat nb"
  using half_bounds [of "unat nb"] by (simp add: flp2_half word_less_nat_alt)

function bitonicMergeBlock :: "'a :: linorder list \<Rightarrow> u32 \<Rightarrow> u32 \<Rightarrow> bool \<Rightarrow> 'a list res" where
  "bitonicMergeBlock a low nb dir =
     (if 1 < nb then
        let k = flp2 (nb - 1) in
        ebind (merge_swaps a (unat low) (low + nb - k) k dir) (\<lambda>a.
        ebind (bitonicMergeBlock a low k dir) (\<lambda>a.
        bitonicMergeBlock a (low + k) (nb - k) dir))
      else Inr a)"
  by pat_completeness auto
termination
proof (relation "measure (\<lambda>(a, low, nb, dir). unat nb)", goal_cases)
  case (3 a low nb dir k a' a'')
  then show ?case using flp2_less [of nb] by (simp add: unat_sub word_le_nat_alt)
qed (use flp2_less in auto)

function bitonicSortVec :: "'a :: linorder list \<Rightarrow> u32 \<Rightarrow> u32 \<Rightarrow> bool \<Rightarrow> 'a list res" where
  "bitonicSortVec data low nb dir =
     (if 1 < nb then
        let k = nb div 2 in
        ebind (bitonicSortVec data low k (\<not> dir)) (\<lambda>data.
        ebind (bitonicSortVec data (low + k) (nb - k) dir) (\<lambda>data.
        bitonicMergeBlock data low nb dir))
      else Inr data)"
  by pat_completeness auto
termination
proof (relation "measure (\<lambda>(a, low, nb, dir). unat nb)", goal_cases)
  case (2 data low nb dir k)
  then show ?case by (simp add: unat_div word_less_nat_alt)
next
  case (3 data low nb dir k data')
  then show ?case by (simp add: unat_div word_less_nat_alt unat_sub word_le_nat_alt)
qed simp

declare bitonicMergeBlock.simps [simp del] bitonicSortVec.simps [simp del]

definition bitonicSort_vec :: "'a :: linorder list \<Rightarrow> 'a list res" where
  "bitonicSort_vec vec = bitonicSortVec vec 0 (of_nat (length vec)) True"

section \<open>The network\<close>

text \<open>The two lists one stage of the merge makes of \<open>n\<close> elements, with \<open>k\<close> the greatest power of two below.\<close>

definition pick :: "bool \<Rightarrow> 'a :: linorder \<Rightarrow> 'a \<Rightarrow> 'a" where
  "pick dir x y = (if dir then min x y else max x y)"

definition lower :: "bool \<Rightarrow> 'a :: linorder list \<Rightarrow> 'a list" where
  "lower dir xs = (let n = length xs; k = half n in
     map (\<lambda>i. if i < n - k then pick dir (xs ! i) (xs ! (i + k)) else xs ! i) [0..<k])"

definition upper :: "bool \<Rightarrow> 'a :: linorder list \<Rightarrow> 'a list" where
  "upper dir xs = (let n = length xs; k = half n in
     map (\<lambda>i. pick (\<not> dir) (xs ! i) (xs ! (i + k))) [0..<n - k])"

lemma length_stage [simp]:
  "length (lower dir xs) = half (length xs)" "length (upper dir xs) = length xs - half (length xs)"
  by (simp_all add: lower_def upper_def Let_def)

lemma nth_lower:
  "i < half (length xs) \<Longrightarrow> lower dir xs ! i =
     (if i < length xs - half (length xs) then pick dir (xs ! i) (xs ! (i + half (length xs))) else xs ! i)"
  by (simp add: lower_def Let_def)

lemma nth_upper:
  "i < length xs - half (length xs) \<Longrightarrow>
   upper dir xs ! i = pick (\<not> dir) (xs ! i) (xs ! (i + half (length xs)))"
  by (simp add: upper_def Let_def)

function bmerge :: "bool \<Rightarrow> 'a :: linorder list \<Rightarrow> 'a list" where
  "bmerge dir xs = (if 1 < length xs then bmerge dir (lower dir xs) @ bmerge dir (upper dir xs) else xs)"
  by pat_completeness auto
termination by (relation "measure (\<lambda>(dir, xs). length xs)") simp_all

function bsort :: "bool \<Rightarrow> 'a :: linorder list \<Rightarrow> 'a list" where
  "bsort dir xs =
     (if 1 < length xs then
        bmerge dir (bsort (\<not> dir) (take (length xs div 2) xs) @ bsort dir (drop (length xs div 2) xs))
      else xs)"
  by pat_completeness auto
termination by (relation "measure (\<lambda>(dir, xs). length xs)") auto

declare bmerge.simps [simp del] bsort.simps [simp del]

lemma length_bmerge [simp]: "length (bmerge dir xs) = length xs"
proof (induction dir xs rule: bmerge.induct)
  case (1 dir xs)
  then show ?case by (subst bmerge.simps) auto
qed

lemma length_bsort [simp]: "length (bsort dir xs) = length xs"
proof (induction dir xs rule: bsort.induct)
  case (1 dir xs)
  then show ?case by (subst bsort.simps) auto
qed

text \<open>The loop of exchanges makes the two halves in place.\<close>

definition swapped :: "'a :: linorder list \<Rightarrow> bool \<Rightarrow> nat \<Rightarrow> nat \<Rightarrow> nat \<Rightarrow> nat \<Rightarrow> 'a" where
  "swapped a dir lo e k p =
     (if lo \<le> p \<and> p < e then pick dir (a ! p) (a ! (p + k))
      else if lo + k \<le> p \<and> p < e + k then pick (\<not> dir) (a ! (p - k)) (a ! p)
      else a ! p)"

lemma merge_swaps_eq:
  assumes "unat end \<le> lo + unat k" and "unat end + unat k \<le> length a" and "length a < 2 ^ 31"
  shows "\<exists>a'. merge_swaps a lo end k dir = Inr a' \<and> length a' = length a \<and>
    (\<forall>p < length a. a' ! p = swapped a dir lo (unat end) (unat k) p)"
  using assms
proof (induction "unat end - lo" arbitrary: lo a)
  case 0
  then show ?case by (subst merge_swaps.simps) (auto simp: swapped_def)
next
  case (Suc d)
  let ?k = "unat k"
  have lo: "lo < unat end" "lo + ?k < length a" using Suc by simp_all
  have d: "d = unat end - Suc lo" "unat end \<le> Suc lo + ?k" using Suc by simp_all
  have k: "0 < ?k" using Suc.hyps(2) Suc.prems(1) by simp
  let ?b = "a[lo := pick dir (a ! lo) (a ! (lo + ?k)), lo + ?k := pick (\<not> dir) (a ! lo) (a ! (lo + ?k))]"
  have "comp_and_swap a (int lo) (int lo + uint k) dir = Inr ?b"
  proof -
    have "int lo + uint k = int (lo + ?k)" by simp
    moreover have "comp_and_swap a (int lo) (int (lo + ?k)) dir = Inr ?b"
      using lo k by (auto simp: comp_and_swap_def pick_def min_def max_def list_update_id not_less
          simp del: of_nat_add intro: nth_equalityI split: if_splits)
    ultimately show ?thesis by simp
  qed
  then have step: "merge_swaps a lo end k dir = merge_swaps ?b (Suc lo) end k dir"
    using lo Suc.prems by (subst merge_swaps.simps) simp
  obtain a' where a': "merge_swaps ?b (Suc lo) end k dir = Inr a'" "length a' = length a"
    "\<And>p. p < length a \<Longrightarrow> a' ! p = swapped ?b dir (Suc lo) (unat end) ?k p"
    using Suc.hyps(1) [of "Suc lo" ?b] d Suc.prems by auto
  have "swapped ?b dir (Suc lo) (unat end) ?k p = swapped a dir lo (unat end) ?k p" if "p < length a" for p
    using that lo k Suc.prems
    by (cases "p = lo"; cases "p = lo + ?k") (simp_all add: swapped_def nth_list_update, auto)
  with a' show ?case by (auto simp: step)
qed

text \<open>The code computes the network, in place.\<close>

definition window :: "nat \<Rightarrow> nat \<Rightarrow> 'a list \<Rightarrow> 'a list" where
  "window l n a = take n (drop l a)"

definition set_window :: "nat \<Rightarrow> 'a list \<Rightarrow> 'a list \<Rightarrow> 'a list" where
  "set_window l xs a = take l a @ xs @ drop (l + length xs) a"

lemma window_set:
  assumes "l + length xs \<le> length a"
  shows "length (set_window l xs a) = length a" "window l (length xs) (set_window l xs a) = xs"
    "m \<le> l \<Longrightarrow> take m (set_window l xs a) = take m a"
    "l + length xs \<le> m \<Longrightarrow> drop m (set_window l xs a) = drop m a"
  using assms by (simp_all add: window_def set_window_def)

lemma length_window [simp]: "length (window l n a) = min n (length a - l)"
  by (simp add: window_def)

lemma nth_window [simp]: "i < n \<Longrightarrow> l + i < length a \<Longrightarrow> window l n a ! i = a ! (l + i)"
  by (simp add: window_def)

lemma set_window_two:
  assumes "l + length xs + length ys \<le> length a"
  shows "set_window (l + length xs) ys (set_window l xs a) = set_window l (xs @ ys) a"
    and "window (l + length xs) n (set_window l xs a) = window (l + length xs) n a"
  using assms by (simp_all add: window_def set_window_def ac_simps)

lemma stage_windows:
  assumes n: "1 < n" and b: "l + n \<le> length a" and len: "length a' = length a"
    and a': "\<And>p. p < length a \<Longrightarrow> a' ! p = swapped a dir l (l + n - half n) (half n) p"
  shows "a' = set_window l (lower dir (window l n a) @ upper dir (window l n a)) a"
proof (rule nth_equalityI)
  have k: "0 < half n" "half n < n" "n \<le> 2 * half n" using half_bounds [OF n] by auto
  define xs where "xs = window l n a"
  have xs: "length xs = n" using b by (simp add: xs_def)
  let ?w = "set_window l (lower dir xs @ upper dir xs) a"
  show "length a' = length (set_window l (lower dir (window l n a) @ upper dir (window l n a)) a)"
    using b k len by (simp add: set_window_def)
  fix p assume "p < length a'"
  then have p: "p < length a" by (simp add: len)
  consider "p < l" | "l \<le> p" "p < l + half n" | "l + half n \<le> p" "p < l + n" | "l + n \<le> p" by linarith
  then have "a' ! p = ?w ! p"
  proof cases
    case 1
    then show ?thesis using b k p by (simp add: a' swapped_def set_window_def nth_append)
  next
    case 2
    define i where "i = p - l"
    have i: "p = l + i" "i < half n" using 2 by (simp_all add: i_def)
    have "?w ! p = lower dir xs ! i" using i b p by (simp add: set_window_def nth_append xs)
    also have "\<dots> = swapped a dir l (l + n - half n) (half n) p"
      using i b k by (auto simp: nth_lower xs swapped_def xs_def add.assoc)
    finally show ?thesis using p by (simp add: a')
  next
    case 3
    define i where "i = p - l - half n"
    have i: "p = l + half n + i" "i < n - half n" using 3 by (simp_all add: i_def)
    have "?w ! p = upper dir xs ! i" using i b p by (simp add: set_window_def nth_append xs)
    also have "\<dots> = swapped a dir l (l + n - half n) (half n) p"
      using i b k by (auto simp: nth_upper xs swapped_def xs_def ac_simps)
    finally show ?thesis using p by (simp add: a')
  next
    case 4
    then show ?thesis using b k p by (auto simp: a' swapped_def set_window_def nth_append xs)
  qed
  then show "a' ! p = set_window l (lower dir (window l n a) @ upper dir (window l n a)) a ! p"
    by (simp only: xs_def)
qed

lemma bitonicMergeBlock_eq:
  assumes "unat low + unat nb \<le> length a" and "length a < 2 ^ 31"
  shows "bitonicMergeBlock a low nb dir =
    Inr (set_window (unat low) (bmerge dir (window (unat low) (unat nb) a)) a)"
  using assms
proof (induction a low nb dir rule: bitonicMergeBlock.induct)
  case (1 a low nb dir)
  let ?l = "unat low" and ?n = "unat nb"
  show ?case
  proof (cases "1 < nb")
    case False
    then have "?n \<le> 1" by (simp add: word_less_nat_alt)
    then have "bmerge dir (window ?l ?n a) = window ?l ?n a" by (subst bmerge.simps) simp
    with False 1(3) show ?thesis
      by (subst bitonicMergeBlock.simps) (simp add: set_window_def window_def min_def flip: append_assoc take_add)
  next
    case True
    then have n: "1 < ?n" by (simp add: word_less_nat_alt)
    note k = half_bounds [OF n]
    define k where "k = flp2 (nb - 1)"
    have uk: "unat k = half ?n" using flp2_half [OF True] by (simp add: k_def)
    have e: "unat (low + nb - k) = ?l + ?n - half ?n"
    proof -
      have "unat (low + nb) = ?l + ?n" using 1(3,4) by (intro unat_add_u32) simp
      then show ?thesis using k by (simp add: unat_sub word_le_nat_alt uk)
    qed
    have ee: "?l + ?n - half ?n \<le> ?l + half ?n" "?l + ?n - half ?n + half ?n \<le> length a"
      using k 1(3) by linarith+
    define xs where "xs = window ?l ?n a"
    have xs: "length xs = ?n" using 1(3) by (simp add: xs_def)
    obtain a1 where a1: "merge_swaps a ?l (low + nb - k) k dir = Inr a1" "length a1 = length a"
      "\<And>p. p < length a \<Longrightarrow> a1 ! p = swapped a dir ?l (?l + ?n - half ?n) (half ?n) p"
      using merge_swaps_eq [of "low + nb - k" ?l k a dir] 1(3,4) ee unfolding e uk by auto
    have a1w: "a1 = set_window ?l (lower dir xs @ upper dir xs) a"
      unfolding xs_def by (rule stage_windows [OF n 1(3) a1(2,3)])
    have s1: "window ?l (half ?n) a1 = lower dir xs"
      using 1(3) k by (simp add: a1w window_def set_window_def xs)
    define a2 where "a2 = set_window ?l (bmerge dir (lower dir xs)) a1"
    have 2: "bitonicMergeBlock a1 low k dir = Inr a2"
      using "1.IH"(1) [OF True k_def a1(1)] 1(3,4) k by (simp add: uk a1(2) s1 a2_def)
    have la2: "length a2 = length a" using 1(3) k by (simp add: a2_def set_window_def a1(2) xs)
    have lk: "unat (low + k) = ?l + half ?n" "unat (nb - k) = ?n - half ?n"
      using 1(3,4) k by (simp_all add: unat_add_u32 unat_sub word_le_nat_alt uk)
    have s2: "window (?l + half ?n) (?n - half ?n) a2 = upper dir xs"
      using 1(3) k by (simp add: a2_def a1w window_def set_window_def xs)
    have "bitonicMergeBlock a2 (low + k) (nb - k) dir =
        Inr (set_window (?l + half ?n) (bmerge dir (upper dir xs)) a2)"
      using "1.IH"(2) [OF True k_def a1(1) 2] 1(3,4) k by (simp add: lk s2 la2)
    moreover have "set_window (?l + half ?n) (bmerge dir (upper dir xs)) a2 = set_window ?l (bmerge dir xs) a"
      using n 1(3) k by (subst bmerge.simps) (simp add: xs a2_def a1w set_window_def)
    ultimately show ?thesis
      using True a1(1) 2 by (subst bitonicMergeBlock.simps) (simp add: Let_def xs_def flip: k_def)
  qed
qed

lemma bitonicSortVec_eq:
  assumes "unat low + unat nb \<le> length a" and "length a < 2 ^ 31"
  shows "bitonicSortVec a low nb dir =
    Inr (set_window (unat low) (bsort dir (window (unat low) (unat nb) a)) a)"
  using assms
proof (induction a low nb dir rule: bitonicSortVec.induct)
  case (1 a low nb dir)
  let ?l = "unat low" and ?n = "unat nb"
  show ?case
  proof (cases "1 < nb")
    case False
    then have "?n \<le> 1" by (simp add: word_less_nat_alt)
    then have "bsort dir (window ?l ?n a) = window ?l ?n a" by (subst bsort.simps) simp
    with False 1(3) show ?thesis
      by (subst bitonicSortVec.simps) (simp add: set_window_def window_def min_def flip: append_assoc take_add)
  next
    case True
    define k where "k = nb div 2"
    have uk: "unat k = ?n div 2" "unat (low + k) = ?l + ?n div 2" "unat (nb - k) = ?n - ?n div 2"
    proof -
      show uk: "unat k = ?n div 2" by (simp add: k_def unat_div)
      show "unat (low + k) = ?l + ?n div 2" using 1(3,4) by (subst unat_add_u32) (simp_all add: uk)
      show "unat (nb - k) = ?n - ?n div 2" by (simp add: unat_sub word_le_nat_alt uk)
    qed
    define xs where "xs = window ?l ?n a"
    have xs: "length xs = ?n" "take (?n div 2) xs = window ?l (?n div 2) a"
      "drop (?n div 2) xs = window (?l + ?n div 2) (?n - ?n div 2) a"
      using 1(3) by (auto simp: xs_def window_def min_def drop_take ac_simps)
    define ys zs where "ys = bsort (\<not> dir) (take (?n div 2) xs)" and "zs = bsort dir (drop (?n div 2) xs)"
    have yz: "length ys = ?n div 2" "length zs = ?n - ?n div 2" by (simp_all add: ys_def zs_def xs(1))
    define a1 a2 where "a1 = set_window ?l ys a" and "a2 = set_window ?l (ys @ zs) a"
    have la: "length a1 = length a" "length a2 = length a"
      using 1(3) yz by (simp_all add: a1_def a2_def set_window_def)
    have 1: "bitonicSortVec a low k (\<not> dir) = Inr a1"
      using "1.IH"(1) [OF True k_def] 1(3,4) by (simp add: uk a1_def ys_def xs)
    have w: "window (?l + ?n div 2) (?n - ?n div 2) a1 = drop (?n div 2) xs"
      using set_window_two(2) [of ?l ys "[]" a "?n - ?n div 2"] "1.prems" yz by (simp add: a1_def xs)
    have 2: "bitonicSortVec a1 (low + k) (nb - k) dir = Inr a2"
      using "1.IH"(2) [OF True k_def 1] "1.prems" set_window_two(1) [of ?l ys zs a]
      by (simp add: uk la w yz a2_def flip: zs_def) (simp add: a1_def)
    have "bitonicMergeBlock a2 low nb dir = Inr (set_window ?l (bmerge dir (ys @ zs)) a)"
      using bitonicMergeBlock_eq [of low nb a2 dir] "1.prems" yz
      by (simp add: la) (simp add: a2_def window_def set_window_def)
    moreover have "bsort dir xs = bmerge dir (ys @ zs)"
      using True by (subst bsort.simps) (simp add: ys_def zs_def xs(1) word_less_nat_alt)
    ultimately show ?thesis
      using True 1 2 by (subst bitonicSortVec.simps) (simp add: Let_def xs_def flip: k_def)
  qed
qed

section \<open>The zero-one principle\<close>

text \<open>
  The network only compares, so it commutes with monotone functions, and it sorts when it sorts
  lists of truth values.
\<close>

lemma pick_mono: "mono f \<Longrightarrow> pick dir (f x) (f y) = f (pick dir x y)"
  by (simp add: pick_def min_of_mono max_of_mono)

lemma stage_map:
  assumes "mono f" and "1 < length xs"
  shows "lower dir (map f xs) = map f (lower dir xs)" and "upper dir (map f xs) = map f (upper dir xs)"
  using assms half_simps(2) [of "length xs"]
  by (auto simp: lower_def upper_def Let_def pick_mono simp del: half_simps)

lemma bmerge_map:
  assumes "mono f"
  shows "bmerge dir (map f xs) = map f (bmerge dir xs)"
proof (induction dir xs rule: bmerge.induct)
  case (1 dir xs)
  then show ?case by (simp add: bmerge.simps [of dir xs] bmerge.simps [of dir "map f xs"] stage_map [OF assms])
qed

lemma bsort_map:
  assumes "mono f"
  shows "bsort dir (map f xs) = map f (bsort dir xs)"
proof (induction dir xs rule: bsort.induct)
  case (1 dir xs)
  then show ?case
    by (simp add: bsort.simps [of dir xs] bsort.simps [of dir "map f xs"] bmerge_map [OF assms]
        take_map drop_map flip: map_append)
qed

text \<open>The other direction is the same network on the negated values.\<close>

lemma pick_Not: "pick (\<not> dir) (\<not> x) (\<not> y) \<longleftrightarrow> \<not> pick dir x y"
  by (auto simp: pick_def min_def max_def)

lemma stage_Not:
  assumes "1 < length xs"
  shows "lower (\<not> dir) (map Not xs) = map Not (lower dir xs)"
    and "upper (\<not> dir) (map Not xs) = map Not (upper dir xs)"
  using assms half_simps(2) [of "length xs"] pick_Not [of "\<not> dir"]
  by (auto simp: lower_def upper_def Let_def pick_Not simp del: half_simps)

lemma bmerge_Not: "bmerge (\<not> dir) (map Not xs) = map Not (bmerge dir xs)"
proof (induction dir xs rule: bmerge.induct)
  case (1 dir xs)
  then show ?case
    by (simp add: bmerge.simps [of dir xs] bmerge.simps [of "\<not> dir" "map Not xs"] stage_Not)
qed

lemma bsort_Not: "bsort (\<not> dir) (map Not xs) = map Not (bsort dir xs)"
proof (induction dir xs rule: bsort.induct)
  case (1 dir xs)
  then show ?case
    using bmerge_Not [of dir "bsort (\<not> dir) (take (length xs div 2) xs) @ bsort dir (drop (length xs div 2) xs)"]
    by (simp add: bsort.simps [of dir xs] bsort.simps [of "\<not> dir" "map Not xs"] take_map drop_map)
qed

text \<open>Truth values: a block of one value in a list of the other.\<close>

definition valley :: "bool list \<Rightarrow> bool" where
  "valley xs \<longleftrightarrow> (\<exists>a e. a \<le> e \<and> e \<le> length xs \<and> (\<forall>i < length xs. xs ! i \<longleftrightarrow> i < a \<or> e \<le> i))"

definition peak :: "bool list \<Rightarrow> bool" where
  "peak xs \<longleftrightarrow> (\<exists>a e. a \<le> e \<and> e \<le> length xs \<and> (\<forall>i < length xs. xs ! i \<longleftrightarrow> a \<le> i \<and> i < e))"

definition power2 :: "nat \<Rightarrow> bool" where
  "power2 n \<longleftrightarrow> (\<exists>m. n = 2 ^ m)"

text \<open>What the ascending merge sorts, whatever the length or for powers of two only.\<close>

definition mergeable :: "bool list \<Rightarrow> bool" where
  "mergeable xs \<longleftrightarrow> valley xs \<or> (power2 (length xs) \<and> peak xs)"

lemma power2_half: "power2 (half n)"
  by (auto simp: power2_def half_def)

lemma half_power2: "power2 n \<Longrightarrow> 1 < n \<Longrightarrow> n = 2 * half n"
proof -
  assume "power2 n" "1 < n"
  then obtain m where n: "n = 2 ^ Suc m" by (metis less_irrefl not0_implies_Suc power2_def power_0)
  have "2 ^ m < n" "n \<le> 2 * half n" "half n < n" using half_bounds [of n] \<open>1 < n\<close> by (simp_all add: n)
  moreover obtain j where "half n = 2 ^ j" using power2_half [of n] by (auto simp: power2_def)
  ultimately have "2 ^ m \<le> (2 :: nat) ^ j" "(2 :: nat) ^ j < 2 ^ Suc m" by (simp_all add: n)
  then have "j = m"
    by (metis Suc_leI le_antisym less_Suc_eq_le one_less_numeral_iff power_increasing_iff power_strict_increasing_iff semiring_norm(76))
  then show ?thesis using \<open>half n = 2 ^ j\<close> n by simp
qed

text \<open>One stage: one of the halves is constant, so they are in order, and both can be merged.\<close>

definition all_of :: "bool \<Rightarrow> bool list \<Rightarrow> bool" where
  "all_of b xs \<longleftrightarrow> (\<forall>i < length xs. xs ! i = b)"

lemma valleyI: "a \<le> e \<Longrightarrow> e \<le> length xs \<Longrightarrow> (\<And>i. i < length xs \<Longrightarrow> xs ! i \<longleftrightarrow> i < a \<or> e \<le> i) \<Longrightarrow> valley xs"
  by (auto simp: valley_def)

lemma peakI: "a \<le> e \<Longrightarrow> e \<le> length xs \<Longrightarrow> (\<And>i. i < length xs \<Longrightarrow> xs ! i \<longleftrightarrow> a \<le> i \<and> i < e) \<Longrightarrow> peak xs"
  by (auto simp: peak_def)

lemma nth_stage_bool:
  "i < half (length xs) \<Longrightarrow>
     lower True xs ! i \<longleftrightarrow> xs ! i \<and> (i < length xs - half (length xs) \<longrightarrow> xs ! (i + half (length xs)))"
  "i < length xs - half (length xs) \<Longrightarrow> upper True xs ! i \<longleftrightarrow> xs ! i \<or> xs ! (i + half (length xs))"
  by (auto simp: nth_lower nth_upper pick_def min_def max_def)

lemma stage_valley:
  assumes n: "1 < length xs" and "valley xs"
  shows "mergeable (lower True xs) \<and> valley (upper True xs) \<and>
    (all_of False (lower True xs) \<or> all_of True (upper True xs))"
proof -
  define n k where "n = length xs" and "k = half n"
  have k: "0 < k" "k < n" "n \<le> 2 * k" using half_bounds [OF n] by (simp_all add: n_def k_def)
  obtain a e where ae: "a \<le> e" "e \<le> n" "\<And>i. i < n \<Longrightarrow> xs ! i \<longleftrightarrow> i < a \<or> e \<le> i"
    using assms(2) by (auto simp: valley_def n_def)
  have L: "lower True xs ! i \<longleftrightarrow> (i < a \<or> e \<le> i) \<and> (i < n - k \<longrightarrow> i + k < a \<or> e \<le> i + k)" if "i < k" for i
    using that k nth_stage_bool(1) [of i xs] ae(3) by (auto simp: n_def k_def)
  have U: "upper True xs ! i \<longleftrightarrow> i < a \<or> e \<le> i \<or> i + k < a \<or> e \<le> i + k" if "i < n - k" for i
    using that k nth_stage_bool(2) [of i xs] ae(3) [of i] ae(3) [of "i + k"] by (auto simp: n_def k_def)
  have len: "length (lower True xs) = k" "length (upper True xs) = n - k"
    by (simp_all add: n_def k_def)
  have p: "power2 k" by (simp add: k_def power2_half)
  consider "e \<le> k" | "k \<le> a" | "a < k" "k < e" "e - k \<le> a" | "a < k" "k < e" "a < e - k" by linarith
  then show ?thesis
  proof cases
    case 1
    have "valley (lower True xs)" by (rule valleyI [of a e]) (use 1 ae L k in \<open>auto simp: len simp del: length_stage\<close>)
    moreover have "all_of True (upper True xs)" using 1 U by (auto simp: all_of_def len simp del: length_stage)
    moreover have "valley (upper True xs)" by (rule valleyI [of 0 0]) (use 1 U in \<open>auto simp: len simp del: length_stage\<close>)
    ultimately show ?thesis by (simp add: mergeable_def)
  next
    case 2
    have "valley (lower True xs)"
      by (rule valleyI [of "a - k" "e - k"]) (use 2 ae L k in \<open>auto simp: len simp del: length_stage\<close>)
    moreover have "all_of True (upper True xs)" using 2 U ae k by (auto simp: all_of_def len simp del: length_stage)
    moreover have "valley (upper True xs)" by (rule valleyI [of 0 0]) (use 2 U ae k in \<open>auto simp: len simp del: length_stage\<close>)
    ultimately show ?thesis by (simp add: mergeable_def)
  next
    case 3
    have "peak (lower True xs)" by (rule peakI [of "e - k" a]) (use 3 ae L k in \<open>auto simp: len simp del: length_stage\<close>)
    moreover have "all_of True (upper True xs)" using 3 U ae k by (auto simp: all_of_def len simp del: length_stage)
    moreover have "valley (upper True xs)" by (rule valleyI [of 0 0]) (use 3 U ae k in \<open>auto simp: len simp del: length_stage\<close>)
    ultimately show ?thesis using p by (simp add: mergeable_def len del: length_stage)
  next
    case 4
    have "all_of False (lower True xs)" using 4 L ae k by (auto simp: all_of_def len simp del: length_stage)
    moreover have "valley (lower True xs)" by (rule valleyI [of 0 k]) (use 4 L ae k in \<open>auto simp: len simp del: length_stage\<close>)
    moreover have "valley (upper True xs)"
      by (rule valleyI [of a "e - k"]) (use 4 U ae k in \<open>auto simp: len simp del: length_stage\<close>)
    ultimately show ?thesis by (simp add: mergeable_def)
  qed
qed

lemma stage_peak:
  assumes n: "1 < length xs" and "power2 (length xs)" and "peak xs"
  shows "mergeable (lower True xs) \<and> mergeable (upper True xs) \<and>
    (all_of False (lower True xs) \<or> all_of True (upper True xs))"
proof -
  define n k where "n = length xs" and "k = half n"
  have k: "0 < k" "n = k + k" using half_bounds [OF n] half_power2 [OF assms(2) n] by (simp_all add: n_def k_def)
  obtain a e where ae: "a \<le> e" "e \<le> n" "\<And>i. i < n \<Longrightarrow> xs ! i \<longleftrightarrow> a \<le> i \<and> i < e"
    using assms(3) by (auto simp: peak_def n_def)
  have L: "lower True xs ! i \<longleftrightarrow> a \<le> i \<and> i < e \<and> a \<le> i + k \<and> i + k < e" if "i < k" for i
    using that k nth_stage_bool(1) [of i xs] ae(3) [of i] ae(3) [of "i + k"] by (auto simp: n_def k_def)
  have U: "upper True xs ! i \<longleftrightarrow> (a \<le> i \<and> i < e) \<or> (a \<le> i + k \<and> i + k < e)" if "i < k" for i
    using that k nth_stage_bool(2) [of i xs] ae(3) [of i] ae(3) [of "i + k"] by (auto simp: n_def k_def)
  have len: "length (lower True xs) = k" "length (upper True xs) = k"
    using k by (simp_all add: n_def k_def)
  have p: "power2 k" by (simp add: k_def power2_half)
  consider "e \<le> k" | "k \<le> a" | "a < k" "k < e" "e - k \<le> a" | "a < k" "k < e" "a < e - k" by linarith
  then show ?thesis
  proof cases
    case 1
    have "peak (upper True xs)" by (rule peakI [of a e]) (use 1 ae U k in \<open>auto simp: len simp del: length_stage\<close>)
    moreover have "all_of False (lower True xs)" using 1 L by (auto simp: all_of_def len simp del: length_stage)
    moreover have "peak (lower True xs)" by (rule peakI [of 0 0]) (use 1 L in \<open>auto simp: len simp del: length_stage\<close>)
    ultimately show ?thesis using p by (simp add: mergeable_def len del: length_stage)
  next
    case 2
    have "peak (upper True xs)" by (rule peakI [of "a - k" "e - k"]) (use 2 ae U k in \<open>auto simp: len simp del: length_stage\<close>)
    moreover have "all_of False (lower True xs)" using 2 L by (auto simp: all_of_def len simp del: length_stage)
    moreover have "peak (lower True xs)" by (rule peakI [of 0 0]) (use 2 L in \<open>auto simp: len simp del: length_stage\<close>)
    ultimately show ?thesis using p by (simp add: mergeable_def len del: length_stage)
  next
    case 3
    have "valley (upper True xs)" by (rule valleyI [of "e - k" a]) (use 3 ae U k in \<open>auto simp: len simp del: length_stage\<close>)
    moreover have "all_of False (lower True xs)" using 3 L by (auto simp: all_of_def len simp del: length_stage)
    moreover have "peak (lower True xs)" by (rule peakI [of 0 0]) (use 3 L in \<open>auto simp: len simp del: length_stage\<close>)
    ultimately show ?thesis using p by (simp add: mergeable_def len del: length_stage)
  next
    case 4
    have "all_of True (upper True xs)" using 4 U by (auto simp: all_of_def len simp del: length_stage)
    moreover have "valley (upper True xs)" by (rule valleyI [of 0 0]) (use 4 U in \<open>auto simp: len simp del: length_stage\<close>)
    moreover have "peak (lower True xs)" by (rule peakI [of a "e - k"]) (use 4 ae L k in \<open>auto simp: len simp del: length_stage\<close>)
    ultimately show ?thesis using p by (simp add: mergeable_def len del: length_stage)
  qed
qed

text \<open>A stage keeps the elements.\<close>

lemma mset_picks:
  assumes "length xs = length ys"
  shows "mset (map2 (pick dir) xs ys) + mset (map2 (pick (\<not> dir)) xs ys) = mset xs + mset ys"
  using assms by (induction xs ys rule: list_induct2) (auto simp: pick_def min_def max_def)

lemma stage_map2:
  assumes "1 < length xs"
  defines "k \<equiv> half (length xs)"
  shows "lower dir xs = map2 (pick dir) (take (length xs - k) xs) (drop k xs) @ take (2 * k - length xs) (drop (length xs - k) xs)"
    and "upper dir xs = map2 (pick (\<not> dir)) (take (length xs - k) xs) (drop k xs)"
proof -
  have k: "0 < k" "k < length xs" "length xs \<le> 2 * k"
    using half_bounds [OF assms(1)] by (simp_all add: k_def)
  show "lower dir xs = map2 (pick dir) (take (length xs - k) xs) (drop k xs) @ take (2 * k - length xs) (drop (length xs - k) xs)"
    by (rule nth_equalityI)
      (use k in \<open>auto simp: nth_lower nth_append add.commute simp flip: k_def\<close>)
  show "upper dir xs = map2 (pick (\<not> dir)) (take (length xs - k) xs) (drop k xs)"
    by (rule nth_equalityI) (use k in \<open>auto simp: nth_upper add.commute simp flip: k_def\<close>)
qed

lemma mset_stage:
  assumes "1 < length xs"
  shows "mset (lower dir xs) + mset (upper dir xs) = mset xs"
proof -
  define n k where "n = length xs" and "k = half n"
  have k: "k < n" "n \<le> 2 * k" using half_bounds [OF assms] by (simp_all add: n_def k_def)
  have "mset (lower dir xs) + mset (upper dir xs) =
      mset (take (n - k) xs) + mset (drop k xs) + mset (take (2 * k - n) (drop (n - k) xs))"
    using mset_picks [of "take (n - k) xs" "drop k xs" dir]
    by (simp add: stage_map2 [OF assms, folded n_def, folded k_def] union_ac) (simp add: n_def)
  also have "\<dots> = mset (take (n - k) xs @ take (2 * k - n) (drop (n - k) xs) @ drop k xs)"
    by simp
  also have "take (2 * k - n) (drop (n - k) xs) @ drop k xs = drop (n - k) xs"
    using append_take_drop_id [of "2 * k - n" "drop (n - k) xs"] k by simp
  finally show ?thesis by simp
qed

lemma mset_bmerge [simp]: "mset (bmerge dir xs) = mset xs"
proof (induction dir xs rule: bmerge.induct)
  case (1 dir xs)
  then show ?case using mset_stage [of xs dir] by (subst bmerge.simps) auto
qed

lemma mset_bsort [simp]: "mset (bsort dir xs) = mset xs"
proof (induction dir xs rule: bsort.induct)
  case (1 dir xs)
  have "mset (take (length xs div 2) xs) + mset (drop (length xs div 2) xs) = mset xs"
    by (simp flip: mset_append)
  with 1 show ?case by (simp add: bsort.simps [of dir xs])
qed

section \<open>The network sorts\<close>

lemma sorted_halves:
  assumes "sorted xs" and "sorted ys" and "mset xs = mset xs'" and "mset ys = mset ys'"
    and "all_of False xs' \<or> all_of True ys'"
  shows "sorted (xs @ ys)"
proof -
  have "set xs = set xs'" "set ys = set ys'" using assms(3,4) by (metis set_mset_mset)+
  moreover have "(\<forall>x \<in> set xs'. \<not> x) \<or> (\<forall>y \<in> set ys'. y)"
    using assms(5) by (auto simp: all_of_def in_set_conv_nth)
  ultimately show ?thesis using assms(1,2) by (auto simp: sorted_append)
qed

lemma bmerge_bool: "mergeable xs \<Longrightarrow> sorted (bmerge True xs)"
proof (induction "True" xs rule: bmerge.induct)
  case (1 xs)
  show ?case
  proof (cases "1 < length xs")
    case True
    have "mergeable (lower True xs) \<and> mergeable (upper True xs) \<and>
      (all_of False (lower True xs) \<or> all_of True (upper True xs))"
      using "1.prems" stage_valley [OF True] stage_peak [OF True] by (auto simp: mergeable_def)
    with 1(1,2) True show ?thesis
      by (subst bmerge.simps) (auto intro: sorted_halves [OF _ _ mset_bmerge mset_bmerge])
  next
    case False
    then show ?thesis by (subst bmerge.simps) (cases xs, auto)
  qed
qed

lemma sorted_nth_bool:
  assumes "sorted xs"
  obtains b where "b \<le> length xs" "\<And>i. i < length xs \<Longrightarrow> xs ! i \<longleftrightarrow> b \<le> i"
proof
  let ?b = "length (takeWhile Not xs)"
  show "?b \<le> length xs" by (rule length_takeWhile_le)
  fix i assume i: "i < length xs"
  show "xs ! i \<longleftrightarrow> ?b \<le> i"
  proof
    assume "xs ! i"
    show "?b \<le> i"
    proof (rule ccontr)
      assume "\<not> ?b \<le> i"
      then have "\<not> xs ! i" by (metis nth_mem not_less set_takeWhileD takeWhile_nth)
      with \<open>xs ! i\<close> show False by simp
    qed
  next
    assume "?b \<le> i"
    then have "xs ! ?b" "xs ! ?b \<le> xs ! i"
      using i nth_length_takeWhile [of Not xs] sorted_nth_mono [OF assms, of ?b i] by auto
    then show "xs ! i" by simp
  qed
qed

lemma valley_halves:
  assumes "sorted (map Not xs)" and "sorted ys"
  shows "valley (xs @ ys)"
proof -
  obtain a where a: "a \<le> length xs" "\<And>i. i < length xs \<Longrightarrow> xs ! i \<longleftrightarrow> i < a"
    using sorted_nth_bool [OF assms(1)] by (metis length_map not_less nth_map)
  obtain e where e: "e \<le> length ys" "\<And>i. i < length ys \<Longrightarrow> ys ! i \<longleftrightarrow> e \<le> i"
    using sorted_nth_bool [OF assms(2)] by blast
  show ?thesis
    by (rule valleyI [of a "length xs + e"]) (use a e in \<open>auto simp: nth_append\<close>)
qed

lemma bsort_bool: "sorted (bsort True xs) \<and> sorted (map Not (bsort False xs))"
proof (induction xs rule: length_induct)
  case (1 xs)
  have asc: "sorted (bsort True ys)" if "length ys \<le> length xs" for ys :: "bool list"
  proof (cases "1 < length ys")
    case True
    let ?a = "take (length ys div 2) ys" and ?b = "drop (length ys div 2) ys"
    have "sorted (map Not (bsort False ?a))" "sorted (bsort True ?b)"
      using 1 [rule_format, of ?a] 1 [rule_format, of ?b] that True by simp_all
    then have "mergeable (bsort False ?a @ bsort True ?b)" by (simp add: mergeable_def valley_halves)
    with True show ?thesis by (subst bsort.simps) (simp add: bmerge_bool)
  next
    case False
    then show ?thesis by (subst bsort.simps) (cases ys, auto)
  qed
  have "sorted (map Not (bsort False xs))"
    using asc [of "map Not xs"] by (simp only: length_map order_refl bsort_Not [of False xs, simplified])
  with asc [OF order_refl] show ?case by blast
qed

theorem sorted_bsort: "sorted (bsort True xs)"
proof -
  have "xs' ! i \<le> xs' ! j" if "i < j" "j < length xs'" "xs' = bsort True xs" for i j xs'
  proof (rule ccontr)
    assume "\<not> xs' ! i \<le> xs' ! j"
    define f where "f y \<longleftrightarrow> xs' ! i \<le> y" for y
    have "mono f" by (rule monoI) (auto simp: f_def)
    then have "sorted (map f xs')" using bsort_bool [of "map f xs"] bsort_map [of f True xs] that by simp
    then have "map f xs' ! i \<le> map f xs' ! j" using that by (intro sorted_nth_mono) simp_all
    then show False using that \<open>\<not> xs' ! i \<le> xs' ! j\<close> by (simp add: f_def)
  qed
  then show ?thesis by (auto simp: sorted_iff_nth_mono_less)
qed

lemma bsort_sort: "bsort True xs = sort xs"
  by (rule properties_for_sort [symmetric]) (simp_all add: sorted_bsort)

lemma sorted_bsort_desc: "sorted_wrt (\<ge>) (bsort False xs)"
proof -
  have "xs' ! j \<le> xs' ! i" if "i < j" "j < length xs'" "xs' = bsort False xs" for i j xs'
  proof (rule ccontr)
    assume "\<not> xs' ! j \<le> xs' ! i"
    define f where "f y \<longleftrightarrow> xs' ! j \<le> y" for y
    have "mono f" by (rule monoI) (auto simp: f_def)
    then have "sorted (map Not (map f xs'))"
      using bsort_bool [of "map f xs"] bsort_map [of f False xs] that by simp
    then have "map Not (map f xs') ! i \<le> map Not (map f xs') ! j"
      using that by (intro sorted_nth_mono) simp_all
    then show False using that \<open>\<not> xs' ! j \<le> xs' ! i\<close> by (simp add: f_def)
  qed
  then show ?thesis by (auto simp: sorted_wrt_iff_nth_less)
qed

section \<open>What the sort does\<close>

text \<open>
  C31. The bitonic sort of a vector sorts for every number of elements, not only for powers of two:
  on a vector of less than \<open>2 ^ 31\<close> elements it returns the sorted list of its elements; and the
  recursive function sorts any range of a bigger array, upwards or downwards, without touching
  the rest.
\<close>

theorem bitonic_sorted:
  assumes "length vec < 2 ^ 31"
  shows "bitonicSort_vec vec = Inr (sort vec) \<and>
    (unat low + unat nb \<le> length vec \<longrightarrow>
      (case bitonicSortVec vec low nb dir of
         Inr a \<Rightarrow> (\<exists>ys. a = take (unat low) vec @ ys @ drop (unat low + unat nb) vec \<and>
           mset ys = mset (take (unat nb) (drop (unat low) vec)) \<and>
           sorted_wrt (if dir then (\<le>) else (\<ge>)) ys)
       | Inl _ \<Rightarrow> False))"
proof (intro conjI impI)
  have "unat (of_nat (length vec) :: u32) = length vec"
    using assms by (simp add: unat_of_nat)
  then show "bitonicSort_vec vec = Inr (sort vec)"
    using bitonicSortVec_eq [of 0 "of_nat (length vec)" vec True] assms
    by (simp add: bitonicSort_vec_def bsort_sort set_window_def window_def)
next
  assume r: "unat low + unat nb \<le> length vec"
  define ys where "ys = bsort dir (take (unat nb) (drop (unat low) vec))"
  have "bitonicSortVec vec low nb dir = Inr (take (unat low) vec @ ys @ drop (unat low + unat nb) vec)"
    using bitonicSortVec_eq [OF r assms, of dir] r
    by (simp add: ys_def set_window_def window_def min_absorb2)
  moreover have "mset ys = mset (take (unat nb) (drop (unat low) vec))" by (simp add: ys_def)
  moreover have "sorted_wrt (if dir then (\<le>) else (\<ge>)) ys"
    using sorted_bsort [of "take (unat nb) (drop (unat low) vec)"] sorted_bsort_desc
    by (cases dir) (simp_all add: ys_def)
  ultimately show "case bitonicSortVec vec low nb dir of
         Inr a \<Rightarrow> (\<exists>ys. a = take (unat low) vec @ ys @ drop (unat low + unat nb) vec \<and>
           mset ys = mset (take (unat nb) (drop (unat low) vec)) \<and>
           sorted_wrt (if dir then (\<le>) else (\<ge>)) ys)
       | Inl _ \<Rightarrow> False" by auto
qed

theorem bitonic_sorted_witness:
  "bitonicSort_vec [3, 1, 2 :: nat] = Inr [1, 2, 3] \<and>
   (case bitonicSortVec [4, 5, 9, 1 :: nat] 1 3 False of Inr a \<Rightarrow> a ! 0 = 4 | Inl _ \<Rightarrow> False)"
  using bitonic_sorted [of "[3, 1, 2 :: nat]" 0 0 True] bitonic_sorted [of "[4, 5, 9, 1 :: nat]" 1 3 False]
  by (auto split: sum.splits)

end
