(* ===== verification/ArraySort.thy ===== *)
theory ArraySort
  imports ArrayOps BitonicSort
begin

text \<open>
  The buffered readers and writers of \<^verbatim>\<open>array.hh\<close> (\<^verbatim>\<open>Puller\<close>, \<^verbatim>\<open>Pusher\<close>) and the sorts of arrays in
  the cache: the merge sort of \<^verbatim>\<open>mergesort.hh\<close> and the bitonic sort of \<^verbatim>\<open>bitonicsort.hh\<close>, which
  bring at most a few buffers of an array to memory at a time. \<^verbatim>\<open>std::sort\<close> is the library's sort.
\<close>

section \<open>Readers and writers\<close>

text \<open>The buffer is the memory the reader was given; it may be longer than \<open>pl_bufferSize\<close>.\<close>

record 'a puller =
  pl_context :: cache_array
  pl_beg :: u32
  pl_i :: u32
  pl_buffer :: "'a list"
  pl_bufferSize :: u32

definition ca_puller :: "cache_array \<Rightarrow> u32 \<Rightarrow> 'a list \<Rightarrow> u32 \<Rightarrow> 'a puller" where
  "ca_puller a start buffer bufferSize =
     \<lparr>pl_context = a, pl_beg = start, pl_i = bufferSize - 1, pl_buffer = buffer, pl_bufferSize = bufferSize\<rparr>"

definition pl_current :: "'a puller \<Rightarrow> (allocator, 'a) act" where
  "pl_current p =
     (if unat (pl_i p) < length (pl_buffer p) then ret (pl_buffer p ! unat (pl_i p)) else throw Undefined)"

definition pl_retreive :: "'a trivial \<Rightarrow> 'a puller \<Rightarrow> (allocator, 'a puller \<times> bool) act" where
  "pl_retreive T p =
     (let r = min (pl_bufferSize p) (ca_size (pl_context p) - pl_beg p) in
      if r = 0 then ret (p, False)
      else bnd (\<lambda>s. ca_getNb T (pl_context p) (pl_beg p) r s) (\<lambda>els.
        if length (pl_buffer p) < unat r then throw Undefined
        else ret (p\<lparr>pl_buffer := els @ drop (unat r) (pl_buffer p), pl_beg := pl_beg p + r,
                    pl_bufferSize := r, pl_i := 0\<rparr>, True)))"

definition pl_next :: "'a trivial \<Rightarrow> 'a puller \<Rightarrow> (allocator, 'a puller \<times> bool) act" where
  "pl_next T p =
     (let p = p\<lparr>pl_i := pl_i p + 1\<rparr> in
      if pl_bufferSize p \<le> pl_i p then pl_retreive T p else ret (p, True))"

record 'a pusher =
  ps_context :: cache_array
  ps_beg :: u32
  ps_i :: u32
  ps_buffer :: "'a list"
  ps_bufferSize :: u32

definition ca_pusher :: "cache_array \<Rightarrow> u32 \<Rightarrow> 'a list \<Rightarrow> u32 \<Rightarrow> 'a pusher" where
  "ca_pusher a start buffer bufferSize =
     \<lparr>ps_context = a, ps_beg = start, ps_i = 0, ps_buffer = buffer, ps_bufferSize = bufferSize\<rparr>"

definition ps_commitForce :: "'a trivial \<Rightarrow> 'a pusher \<Rightarrow> (allocator, 'a pusher \<times> bool) act" where
  "ps_commitForce T p =
     (let w = (if ps_i p < ps_bufferSize p then ps_i p else ps_bufferSize p) in
      if w \<noteq> 0 then
        bnd (\<lambda>s. ca_setNb T (ps_context p) (ps_beg p) (ps_buffer p) w s) (\<lambda>_.
        let beg = ps_beg p + ps_i p; restLen = ca_size (ps_context p) - beg in
        ret (p\<lparr>ps_beg := beg, ps_bufferSize := (if ps_bufferSize p < restLen then ps_bufferSize p else restLen),
               ps_i := 0\<rparr>, True))
      else ret (p\<lparr>ps_bufferSize := 0, ps_i := 0, ps_beg := 0\<rparr>, False))"

definition ps_commit :: "'a trivial \<Rightarrow> 'a pusher \<Rightarrow> (allocator, 'a pusher \<times> bool) act" where
  "ps_commit T p = (if ps_i p \<noteq> 0 then ps_commitForce T p else ret (p, True))"

definition ps_push :: "'a trivial \<Rightarrow> 'a pusher \<Rightarrow> 'a \<Rightarrow> (allocator, 'a pusher \<times> bool) act" where
  "ps_push T p val =
     (if length (ps_buffer p) \<le> unat (ps_i p) then throw Undefined
      else let p = p\<lparr>ps_buffer := (ps_buffer p)[unat (ps_i p) := val], ps_i := ps_i p + 1\<rparr> in
        if ps_bufferSize p \<le> ps_i p then ps_commit T p else ret (p, True))"

text \<open>The destructor.\<close>

definition ps_delete :: "'a trivial \<Rightarrow> 'a pusher \<Rightarrow> (allocator, unit) act" where
  "ps_delete T p = (if ps_i p \<noteq> 0 then bnd (ps_commitForce T p) (\<lambda>_. ret ()) else ret ())"

text \<open>
  \<^verbatim>\<open>equals\<close> (of an array, and of a slice, which starts further) and the output operator, which both
  read through a reader. The text of an element is a parameter, that of its type.
\<close>

fun equals_loop :: "'a trivial \<Rightarrow> 'a list \<Rightarrow> 'a puller \<Rightarrow> (allocator, bool) act" where
  "equals_loop T [] puller = ret True"
| "equals_loop T (it # vec) puller =
     bnd (pl_current puller) (\<lambda>c.
     if it \<noteq> c then ret False
     else bnd (pl_next T puller) (\<lambda>(puller, _). equals_loop T vec puller))"

definition ca_equals :: "'a trivial \<Rightarrow> cache_array \<Rightarrow> 'a list \<Rightarrow> 'a list \<Rightarrow> u32 \<Rightarrow> (allocator, bool) act" where
  "ca_equals T a vec buffer nb =
     bnd (pl_next T (ca_puller a 0 buffer nb)) (\<lambda>(puller, _). equals_loop T vec puller)"

definition slice_equals :: "'a trivial \<Rightarrow> ca_slice \<Rightarrow> 'a list \<Rightarrow> 'a list \<Rightarrow> u32 \<Rightarrow> (allocator, bool) act" where
  "slice_equals T sl vec buffer nb =
     bnd (pl_next T (ca_puller (sl_context sl) (sl_beg sl) buffer nb)) (\<lambda>(puller, _). equals_loop T vec puller)"

function print_loop :: "'a trivial \<Rightarrow> ('a \<Rightarrow> string) \<Rightarrow> nat \<Rightarrow> nat \<Rightarrow> string \<Rightarrow> 'a puller \<Rightarrow> (allocator, string) act" where
  "print_loop T show i len out p =
     (if i < len then
        bnd (pl_current p) (\<lambda>c.
        bnd (pl_next T p) (\<lambda>(p, _).
        print_loop T show (i + 1) len (out @ (if i \<noteq> 0 then '', '' else []) @ show c) p))
      else ret out)"
  by pat_completeness auto
termination by (relation "measure (\<lambda>(T, show, i, len, _). len - i)") auto

declare print_loop.simps [simp del]

definition ca_print :: "'a trivial \<Rightarrow> ('a \<Rightarrow> string) \<Rightarrow> cache_array \<Rightarrow> 'a list \<Rightarrow> (allocator, string) act" where
  "ca_print T show a buffer =
     bnd (pl_next T (ca_puller a 0 buffer 8192)) (\<lambda>(p, _).
     bnd (print_loop T show 0 (unat (ca_len a)) ''['' p) (\<lambda>out. ret (out @ '']'')))"

section \<open>Merge sort\<close>

definition ARRAY_BUFFER_SIZE :: nat where
  "ARRAY_BUFFER_SIZE = 8192"

text \<open>The element at the head of a reader goes to the writer.\<close>

definition push_current ::
  "'a trivial \<Rightarrow> 'a pusher \<Rightarrow> 'a puller \<Rightarrow> (allocator, 'a pusher \<times> 'a puller) act" where
  "push_current T pusher puller =
     bnd (pl_current puller) (\<lambda>x.
     bnd (ps_push T pusher x) (\<lambda>(pusher, _).
     bnd (pl_next T puller) (\<lambda>(puller, _).
     ret (pusher, puller))))"

function merge_pull ::
  "'a :: linorder trivial \<Rightarrow> nat \<Rightarrow> nat \<Rightarrow> nat \<Rightarrow> nat \<Rightarrow> 'a pusher \<Rightarrow> 'a puller \<Rightarrow> 'a puller \<Rightarrow>
   (allocator, nat \<times> nat \<times> 'a pusher \<times> 'a puller \<times> 'a puller) act"
where
  "merge_pull T lSub rSub lIndex rIndex pusher lPuller rPuller =
     (if lIndex < lSub \<and> rIndex < rSub then
        bnd (pl_current lPuller) (\<lambda>l.
        bnd (pl_current rPuller) (\<lambda>r.
        if l \<le> r then
          bnd (push_current T pusher lPuller) (\<lambda>(pusher, lPuller).
          merge_pull T lSub rSub (lIndex + 1) rIndex pusher lPuller rPuller)
        else
          bnd (push_current T pusher rPuller) (\<lambda>(pusher, rPuller).
          merge_pull T lSub rSub lIndex (rIndex + 1) pusher lPuller rPuller)))
      else ret (lIndex, rIndex, pusher, lPuller, rPuller))"
  by pat_completeness auto
termination
  by (relation "measure (\<lambda>(T, lSub, rSub, lIndex, rIndex, _). lSub - lIndex + (rSub - rIndex))") auto

function drain_pull ::
  "'a trivial \<Rightarrow> nat \<Rightarrow> nat \<Rightarrow> 'a pusher \<Rightarrow> 'a puller \<Rightarrow> (allocator, 'a pusher) act"
where
  "drain_pull T sub index pusher puller =
     (if index < sub then
        bnd (push_current T pusher puller) (\<lambda>(pusher, puller). drain_pull T sub (index + 1) pusher puller)
      else ret pusher)"
  by pat_completeness auto
termination by (relation "measure (\<lambda>(T, sub, index, _). sub - index)") auto

declare merge_pull.simps [simp del] drain_pull.simps [simp del]

text \<open>\<open>junk\<close> is what the buffers hold; every buffer is overwritten before it is read.\<close>

definition ca_merge ::
  "'a :: linorder trivial \<Rightarrow> 'a \<Rightarrow> cache_array \<Rightarrow> cache_array \<Rightarrow> nat \<Rightarrow> nat \<Rightarrow> nat \<Rightarrow> (allocator, unit) act"
where
  "ca_merge T junk a aux left mid right =
     (let lSub = mid - left; rSub = right - mid;
          full = replicate ARRAY_BUFFER_SIZE junk; half = replicate (ARRAY_BUFFER_SIZE div 2) junk;
          pusher = ca_pusher aux 0 full (of_nat ARRAY_BUFFER_SIZE);
          lPuller = ca_puller a (of_nat left) half (of_nat (ARRAY_BUFFER_SIZE div 2));
          rPuller = ca_puller a (of_nat mid) half (of_nat (ARRAY_BUFFER_SIZE div 2)) in
      bnd (pl_next T lPuller) (\<lambda>(lPuller, _).
      bnd (pl_next T rPuller) (\<lambda>(rPuller, _).
      bnd (merge_pull T lSub rSub 0 0 pusher lPuller rPuller) (\<lambda>(lIndex, rIndex, pusher, lPuller, rPuller).
      bnd (drain_pull T lSub lIndex pusher lPuller) (\<lambda>pusher.
      bnd (drain_pull T rSub rIndex pusher rPuller) (\<lambda>pusher.
      bnd (ps_delete T pusher) (\<lambda>_.
      ca_copy_slice T a (of_nat left) (ca_slice_of aux 0 (of_nat (right - left))) (of_nat ARRAY_BUFFER_SIZE))))))))"

function merge_sort_range ::
  "'a :: linorder trivial \<Rightarrow> 'a \<Rightarrow> cache_array \<Rightarrow> cache_array \<Rightarrow> nat \<Rightarrow> nat \<Rightarrow> (allocator, unit) act"
where
  "merge_sort_range T junk a aux begin end =
     (if end - begin \<le> ARRAY_BUFFER_SIZE then
        bnd (\<lambda>s. ca_getNb T a (of_nat begin) (of_nat (end - begin)) s) (\<lambda>buffer s.
          ca_setNb T a (of_nat begin) (sort buffer) (of_nat (end - begin)) s)
      else let mid = begin + (end - begin) div 2 in
        bnd (merge_sort_range T junk a aux begin mid) (\<lambda>_.
        bnd (merge_sort_range T junk a aux mid end) (\<lambda>_.
        ca_merge T junk a aux begin mid end)))"
  by pat_completeness auto
termination
  by (relation "measure (\<lambda>(T, junk, a, aux, begin, end). end - begin)") (auto simp: ARRAY_BUFFER_SIZE_def)

declare merge_sort_range.simps [simp del]

text \<open>The auxiliary array is built on memory that is not initialised, \<open>junk_array\<close>.\<close>

definition ca_merge_sort ::
  "'a :: linorder trivial \<Rightarrow> 'a \<Rightarrow> cache_array \<Rightarrow> cache_array \<Rightarrow> (allocator, unit) act"
where
  "ca_merge_sort T junk junk_array a =
     bnd (ca_allocate (ca_size a) (tsize T) junk_array) (\<lambda>aux.
     bnd (merge_sort_range T junk a aux 0 (unat (ca_size a))) (\<lambda>_.
     bnd (ca_dispose aux) (\<lambda>_. ret ())))"

section \<open>Bitonic sort\<close>

definition compAndSwap :: "bool \<Rightarrow> 'a :: linorder \<times> 'a \<Rightarrow> 'a \<times> 'a" where
  "compAndSwap dir = (\<lambda>(atI, atJ). if dir = (atJ < atI) then (atJ, atI) else (atI, atJ))"

partial_function (option) bitonic_stage ::
  "'a :: linorder trivial \<Rightarrow> u32 \<Rightarrow> cache_array \<Rightarrow> u32 \<Rightarrow> u32 \<Rightarrow> u32 \<Rightarrow> bool \<Rightarrow> allocator \<Rightarrow> (unit res \<times> allocator) option"
where
  "bitonic_stage T locBlk a i end k dir s =
     (if i < end then
        bnd (\<lambda>s. ca_getNb T a i (if end - i < locBlk then end - i else locBlk) s) (\<lambda>l s.
        bnd (\<lambda>s. ca_getNb T a (i + k) (if end - i < locBlk then end - i else locBlk) s) (\<lambda>r s.
        bnd (\<lambda>s. ca_setNb T a i (map (fst \<circ> compAndSwap dir) (zip l r)) (if end - i < locBlk then end - i else locBlk) s) (\<lambda>_ s.
        bnd (\<lambda>s. ca_setNb T a (i + k) (map (snd \<circ> compAndSwap dir) (zip l r)) (if end - i < locBlk then end - i else locBlk) s) (\<lambda>_ s.
        bitonic_stage T locBlk a (i + locBlk) end k dir s) s) s) s) s
      else ret () s)"

text \<open>A range that fits in the buffer is merged there.\<close>

definition merge_in_buffer :: "'a :: linorder trivial \<Rightarrow> cache_array \<Rightarrow> u32 \<Rightarrow> u32 \<Rightarrow> bool \<Rightarrow> (allocator, unit) act" where
  "merge_in_buffer T a beg nb dir =
     bnd (\<lambda>s. ca_getNb T a beg nb s) (\<lambda>buffer.
     bnd (lift_res (bitonicMergeBlock buffer 0 nb dir)) (\<lambda>buffer s. ca_setNb T a beg buffer nb s))"

partial_function (option) ca_bitonicMerge ::
  "'a :: linorder trivial \<Rightarrow> u32 \<Rightarrow> cache_array \<Rightarrow> u32 \<Rightarrow> u32 \<Rightarrow> bool \<Rightarrow> allocator \<Rightarrow> (unit res \<times> allocator) option"
where
  "ca_bitonicMerge T BLK_SIZE a beg nb dir s =
     (if 1 < nb then
        bnd (\<lambda>s. bitonic_stage T (BLK_SIZE div 2) a beg (beg + nb - flp2 (nb - 1)) (flp2 (nb - 1)) dir s) (\<lambda>_ s.
        bnd (\<lambda>s. if flp2 (nb - 1) \<le> BLK_SIZE then merge_in_buffer T a beg (flp2 (nb - 1)) dir s
                 else ca_bitonicMerge T BLK_SIZE a beg (flp2 (nb - 1)) dir s) (\<lambda>_ s.
        (if nb - flp2 (nb - 1) \<le> BLK_SIZE then merge_in_buffer T a (beg + flp2 (nb - 1)) (nb - flp2 (nb - 1)) dir s
         else ca_bitonicMerge T BLK_SIZE a (beg + flp2 (nb - 1)) (nb - flp2 (nb - 1)) dir s)) s) s
      else ret () s)"

partial_function (option) ca_bitonicSort ::
  "'a :: linorder trivial \<Rightarrow> u32 \<Rightarrow> cache_array \<Rightarrow> u32 \<Rightarrow> u32 \<Rightarrow> bool \<Rightarrow> allocator \<Rightarrow> (unit res \<times> allocator) option"
where
  "ca_bitonicSort T BLK_SIZE a beg nb dir s =
     (if 1 < nb then
        bnd (\<lambda>s. ca_bitonicSort T BLK_SIZE a beg (nb div 2) (\<not> dir) s) (\<lambda>_ s.
        bnd (\<lambda>s. ca_bitonicSort T BLK_SIZE a (beg + nb div 2) (nb - nb div 2) dir s) (\<lambda>_ s.
        (if nb \<le> BLK_SIZE then merge_in_buffer T a beg nb dir s
         else ca_bitonicMerge T BLK_SIZE a beg nb dir s)) s) s
      else ret () s)"

declare bitonic_stage.simps [code] ca_bitonicMerge.simps [code] ca_bitonicSort.simps [code]

definition bitonicSort_array :: "'a :: linorder trivial \<Rightarrow> cache_array \<Rightarrow> (allocator, unit) act" where
  "bitonicSort_array T a = (\<lambda>s. ca_bitonicSort T (of_nat ARRAY_BUFFER_SIZE) a 0 (ca_size a) True s)"

section \<open>The bitonic sort sorts\<close>

lemma compAndSwap_pick:
  "fst (compAndSwap dir (x, y)) = pick dir x y" "snd (compAndSwap dir (x, y)) = pick (\<not> dir) x y"
  by (auto simp: compAndSwap_def pick_def min_def max_def)

lemma picked_chunk:
  assumes "i + c \<le> length xs" and "i + k + c \<le> length xs"
  shows "map (fst \<circ> compAndSwap dir) (zip (take c (drop i xs)) (take c (drop (i + k) xs))) =
      map (\<lambda>j. pick dir (xs ! (i + j)) (xs ! (i + k + j))) [0..<c]"
    and "map (snd \<circ> compAndSwap dir) (zip (take c (drop i xs)) (take c (drop (i + k) xs))) =
      map (\<lambda>j. pick (\<not> dir) (xs ! (i + j)) (xs ! (i + k + j))) [0..<c]"
  using assms by (auto intro!: nth_equalityI simp: compAndSwap_pick)

lemma swapped_chunk:
  assumes "i + c \<le> e" and "e \<le> i + k" and "e + k \<le> length xs" and "p < length xs" and "i + c \<le> i' \<or> e \<le> i + c"
    and "i' = i + c \<or> e \<le> i'"
    and "length l = c" and "length r = c"
    and "\<And>j. j < c \<Longrightarrow> l ! j = pick dir (xs ! (i + j)) (xs ! (i + k + j))"
    and "\<And>j. j < c \<Longrightarrow> r ! j = pick (\<not> dir) (xs ! (i + j)) (xs ! (i + k + j))"
    and "e \<le> i' \<Longrightarrow> e = i + c"
  shows "swapped (set_list (i + k) r (set_list i l xs)) dir i' e k p = swapped xs dir i e k p"
proof -
  have ys: "set_list (i + k) r (set_list i l xs) ! q =
      (if i + k \<le> q \<and> q < i + k + c then r ! (q - (i + k))
       else if i \<le> q \<and> q < i + c then l ! (q - i) else xs ! q)" if "q < length xs" for q
    using that assms(1-3,7,8) by (simp add: nth_set_list)
  consider "i' = i + c" | "e = i + c" "e \<le> i'" using assms(6,11) by auto
  then show ?thesis
  proof cases
    case 1
    show ?thesis
      using assms(1-4) assms(9) [of "p - i"] assms(10) [of "p - (i + k)"] ys [of p] ys [of "p + k"] ys [of "p - k"]
      by (simp add: swapped_def 1) (auto simp: add.commute add.left_commute)
  next
    case 2
    show ?thesis
      using assms(1-4) assms(9) [of "p - i"] assms(10) [of "p - (i + k)"] ys [of p] 2
      by (simp add: swapped_def) (auto simp: add.commute add.left_commute)
  qed
qed

lemma map_swapped_id: "e \<le> i \<Longrightarrow> map (swapped xs dir i e k) [0..<length xs] = xs"
  by (rule nth_equalityI) (auto simp: swapped_def)

lemma stage_run:
  assumes "arr_ok T a s" and "unat end + unat k \<le> alen a" and "unat end \<le> unat i + unat k" and "0 < unat loc"
    and "alen a + unat loc \<le> 2 ^ 32"
  shows "makes T a (\<lambda>s. bitonic_stage T loc a i end k dir s) s
    (map (swapped (alist T a s) dir (unat i) (unat end) (unat k)) [0..<alen a])"
  using assms
proof (induction "unat end - unat i" arbitrary: i s rule: less_induct)
  case less
  show ?case
  proof (cases "i < end")
    case False
    then have "unat end \<le> unat i" by (simp add: word_less_nat_alt)
    from map_swapped_id [OF this, of "alist T a s" dir "unat k"] have
      "map (swapped (alist T a s) dir (unat i) (unat end) (unat k)) [0..<alen a] = alist T a s" by simp
    then show ?thesis using makes_ret [OF less.prems(1)] False
      by (subst makes_cong [of _ _ "ret ()"]) (simp_all add: bitonic_stage.simps)
  next
    case True
    define nb where "nb = (if end - i < loc then end - i else loc)"
    define xs where "xs = alist T a s"
    let ?i = "unat i" and ?e = "unat end" and ?k = "unat k" and ?c = "unat nb"
    have lt: "?i < ?e" using True by (simp add: word_less_nat_alt)
    have c: "?c = min (?e - ?i) (unat loc)"
      using lt by (auto simp: nb_def word_less_nat_alt unat_sub word_le_nat_alt)
    have c': "0 < ?c" "?i + ?c \<le> ?e" "?c = unat loc \<or> ?e \<le> ?i + unat loc"
      "?e \<le> ?i + unat loc \<Longrightarrow> ?e = ?i + ?c"
      using c lt less.prems(4) by linarith+
    have il: "unat (i + loc) = ?i + unat loc" "unat (i + k) = ?i + ?k"
      using less.prems(2,5) lt by (auto intro!: unat_add_u32)
    have xs: "length xs = alen a" by (simp add: xs_def)
    define l r where "l = map (fst \<circ> compAndSwap dir) (zip (take ?c (drop ?i xs)) (take ?c (drop (?i + ?k) xs)))"
      and "r = map (snd \<circ> compAndSwap dir) (zip (take ?c (drop ?i xs)) (take ?c (drop (?i + ?k) xs)))"
    have b: "?i + ?c \<le> alen a" "?i + ?k + ?c \<le> alen a" using c'(2) less.prems(2) by linarith+
    have lr: "length l = ?c" "length r = ?c"
      "\<And>j. j < ?c \<Longrightarrow> l ! j = pick dir (xs ! (?i + j)) (xs ! (?i + ?k + j))"
      "\<And>j. j < ?c \<Longrightarrow> r ! j = pick (\<not> dir) (xs ! (?i + j)) (xs ! (?i + ?k + j))"
      using b by (simp_all add: l_def r_def xs picked_chunk)
    define ys where "ys = set_list (?i + ?k) r (set_list ?i l xs)"
    have sw: "map (swapped ys dir (unat (i + loc)) ?e ?k) [0..<alen a] = map (swapped xs dir ?i ?e ?k) [0..<alen a]"
      unfolding ys_def il(1)
      by (intro map_cong refl swapped_chunk [where c = ?c])
        (use b c' lr xs less.prems(2,3) in auto)
    have rest: "makes T a (\<lambda>s. bitonic_stage T loc a (i + loc) end k dir s) s'
        (map (swapped xs dir ?i ?e ?k) [0..<alen a])" if "arr_ok T a s'" "alist T a s' = ys" for s'
    proof -
      have "?e - unat (i + loc) < ?e - ?i" "?e \<le> unat (i + loc) + ?k" using il(1) lt less.prems(3,4) by linarith+
      from less.hyps [OF this(1) that(1) less.prems(2) this(2) less.prems(4,5)] show ?thesis
        by (simp only: that(2) sw)
    qed
    note il' = b(2) [folded il(2)]
    have put2: "makes T a (bnd (\<lambda>s. ca_setNb T a (i + k) r nb s) (\<lambda>_ s. bitonic_stage T loc a (i + loc) end k dir s)) s'
        (map (swapped xs dir ?i ?e ?k) [0..<alen a])" if "arr_ok T a s'" "alist T a s' = set_list ?i l xs" for s'
      by (rule makes_put [OF that il' c'(1) lr(2)]) (simp add: rest ys_def il(2))
    have put1: "makes T a (bnd (\<lambda>s. ca_setNb T a i l nb s) (\<lambda>_. bnd (\<lambda>s. ca_setNb T a (i + k) r nb s)
        (\<lambda>_ s. bitonic_stage T loc a (i + loc) end k dir s))) s' (map (swapped xs dir ?i ?e ?k) [0..<alen a])"
      if "arr_ok T a s'" "alist T a s' = xs" for s'
      by (rule makes_put [OF that b(1) c'(1) lr(1)]) (rule put2)
    have "makes T a (bnd (\<lambda>s. ca_getNb T a i nb s) (\<lambda>l. bnd (\<lambda>s. ca_getNb T a (i + k) nb s) (\<lambda>r.
        bnd (\<lambda>s. ca_setNb T a i (map (fst \<circ> compAndSwap dir) (zip l r)) nb s) (\<lambda>_.
        bnd (\<lambda>s. ca_setNb T a (i + k) (map (snd \<circ> compAndSwap dir) (zip l r)) nb s) (\<lambda>_ s.
        bitonic_stage T loc a (i + loc) end k dir s))))) s (map (swapped xs dir ?i ?e ?k) [0..<alen a])"
      by (rule makes_take [OF less.prems(1) _ b(1) c'(1)], rule xs_def [symmetric],
        rule makes_take [OF _ _ il' c'(1)], assumption, assumption)
        (simp only: il(2) flip: l_def r_def, rule put1)
    then show ?thesis
      unfolding xs_def using True
      by (subst makes_cong) (subst bitonic_stage.simps, simp flip: nb_def)
  qed
qed

text \<open>The merge: the network on the range, whether it is merged in the buffer or from the array.\<close>

lemma set_list_window: "set_list = set_window"
  by (rule ext)+ (simp add: set_list_def set_window_def)

lemma bmerge_windows:
  fixes dir :: bool
  assumes n: "1 < n" and b: "l + n \<le> length a"
  defines "a1 \<equiv> set_window l (lower dir (window l n a) @ upper dir (window l n a)) a"
  defines "a2 \<equiv> set_window l (bmerge dir (window l (half n) a1)) a1"
  shows "set_window (l + half n) (bmerge dir (window (l + half n) (n - half n) a2)) a2 =
      set_window l (bmerge dir (window l n a)) a"
    and "length a1 = length a" "length a2 = length a"
proof -
  note k = half_bounds [OF n]
  define xs where "xs = window l n a"
  have m: "min n (length a - l) = n" using b by auto
  have xs: "length xs = n" using b by (simp add: xs_def)
  have l1: "length a1 = length a" using b k by (simp add: a1_def set_window_def m)
  have 1: "window l (half n) a1 = lower dir xs"
    using b k by (simp add: a1_def flip: xs_def) (simp add: window_def set_window_def xs)
  have l2: "length a2 = length a" using b k by (simp add: a2_def set_window_def l1 xs 1)
  have 2: "window (l + half n) (n - half n) a2 = upper dir xs"
    using b k by (simp add: a2_def 1 a1_def flip: xs_def) (simp add: window_def set_window_def xs)
  show "set_window (l + half n) (bmerge dir (window (l + half n) (n - half n) a2)) a2 =
      set_window l (bmerge dir (window l n a)) a"
    unfolding 2 unfolding a2_def 1
    using b k n k(2) [THEN less_imp_le] by (subst bmerge.simps [of dir "window l n a"]) (simp add: xs a1_def set_window_def flip: xs_def)
  show "length a1 = length a" "length a2 = length a" by (fact l1 l2)+
qed

lemma merge_in_buffer_run:
  assumes "arr_ok T a s" and "alist T a s = xs" and "unat beg + unat nb \<le> alen a" and "0 < unat nb" and "unat nb < 2 ^ 31"
  shows "makes T a (merge_in_buffer T a beg nb dir) s
    (set_window (unat beg) (bmerge dir (window (unat beg) (unat nb) xs)) xs)"
proof -
  define ys where "ys = window (unat beg) (unat nb) xs"
  have ys: "length ys = unat nb" using assms(2,3) by (auto simp: ys_def)
  have "bitonicMergeBlock ys 0 nb dir = Inr (bmerge dir ys)"
    using bitonicMergeBlock_eq [of 0 nb ys dir] assms(5) by (simp add: ys window_def set_window_def)
  then have "bnd (lift_res (bitonicMergeBlock ys 0 nb dir)) (\<lambda>buffer s. ca_setNb T a beg buffer nb s) =
      (\<lambda>s. ca_setNb T a beg (bmerge dir ys) nb s)"
    by (simp add: act_simps fun_eq_iff)
  moreover have "makes T a (\<lambda>s. ca_setNb T a beg (bmerge dir ys) nb s) s' (set_window (unat beg) (bmerge dir ys) xs)"
    if "arr_ok T a s'" "alist T a s' = xs" for s'
    using makes_setNb [OF that(1) assms(3,4), of "bmerge dir ys"] that(2) ys by (simp add: set_list_window)
  ultimately show ?thesis
    unfolding merge_in_buffer_def ys_def [symmetric]
    by (intro makes_take [OF assms(1,2,3,4)]) (simp flip: window_def ys_def)
qed

lemma ca_bitonicMerge_run:
  assumes "arr_ok T a s" and "alist T a s = xs" and "unat beg + unat nb \<le> alen a"
    and B: "1 < BLK" "unat BLK < 2 ^ 31" "alen a + unat BLK \<le> 2 ^ 32"
  shows "makes T a (\<lambda>s. ca_bitonicMerge T BLK a beg nb dir s) s
    (set_window (unat beg) (bmerge dir (window (unat beg) (unat nb) xs)) xs)"
  using assms(1-3)
proof (induction "unat nb" arbitrary: beg nb s xs rule: less_induct)
  case less
  let ?l = "unat beg" and ?n = "unat nb"
  show ?case
  proof (cases "1 < nb")
    case False
    then have "?n \<le> 1" by (simp add: word_less_nat_alt)
    then have "bmerge dir (window ?l ?n xs) = window ?l ?n xs" by (subst bmerge.simps) simp
    moreover have "set_window ?l (window ?l ?n xs) xs = xs"
      using less.prems(2,3) by (simp add: set_window_def window_def min_def flip: append_assoc take_add)
    ultimately show ?thesis using makes_ret [OF less.prems(1)] False less.prems(2)
      by (subst makes_cong [of _ _ "ret ()"]) (simp_all add: ca_bitonicMerge.simps)
  next
    case True
    then have n: "1 < ?n" by (simp add: word_less_nat_alt)
    note h = half_bounds [OF n]
    define k where "k = flp2 (nb - 1)"
    define part where "part = (\<lambda>b m s. if m \<le> BLK then merge_in_buffer T a b m dir s else ca_bitonicMerge T BLK a b m dir s)"
    have uk: "unat k = half ?n" using flp2_half [OF True] by (simp add: k_def)
    have b: "?l + ?n < 4294967296" using less.prems(3) unat_less_u32 [of "ca_size a"] by (simp add: alen_def)
    have e: "unat (beg + nb - k) = ?l + ?n - half ?n"
      using unat_add_u32 [OF b] h by (simp add: unat_sub word_le_nat_alt uk)
    have lk: "unat (beg + k) = ?l + half ?n" "unat (nb - k) = ?n - half ?n"
      using b h by (simp_all add: unat_add_u32 unat_sub word_le_nat_alt uk)
    have len: "length xs = alen a" using less.prems(2) by auto
    then have bx: "?l + ?n \<le> length xs" using less.prems(3) by simp
    define a1 where "a1 = set_window ?l (lower dir (window ?l ?n xs) @ upper dir (window ?l ?n xs)) xs"
    define a2 where "a2 = set_window ?l (bmerge dir (window ?l (half ?n) a1)) a1"
    note w = bmerge_windows [OF n bx, of dir, folded a1_def, folded a2_def]
    have part: "makes T a (\<lambda>s. part b m s) s' (set_window (unat b) (bmerge dir (window (unat b) (unat m) ys)) ys)"
      if "arr_ok T a s'" "alist T a s' = ys" "unat b + unat m \<le> alen a" "0 < unat m" "unat m < ?n" for b m s' ys
    proof (cases "m \<le> BLK")
      case True
      then have "unat m < 2 ^ 31" using B(2) by (simp add: word_le_nat_alt)
      from merge_in_buffer_run [OF that(1-4) this] True show ?thesis by (simp add: part_def)
    next
      case False
      with less.hyps [OF that(5,1-3)] show ?thesis by (simp add: part_def)
    qed
    have stage: "makes T a (\<lambda>s. bitonic_stage T (BLK div 2) a beg (beg + nb - k) k dir s) s a1"
    proof -
      have m: "map (swapped xs dir ?l (?l + ?n - half ?n) (half ?n)) [0..<alen a] = a1"
        unfolding a1_def by (rule stage_windows [OF n bx]) (simp_all add: len)
      have "?l + ?n - half ?n + half ?n \<le> alen a" "?l + ?n - half ?n \<le> ?l + half ?n"
        using h less.prems(3) by linarith+
      moreover have "0 < unat (BLK div 2)" "alen a + unat (BLK div 2) \<le> 2 ^ 32"
        using B by (simp_all add: unat_div word_less_nat_alt)
      ultimately show ?thesis
        using stage_run [OF less.prems(1), of "beg + nb - k" k beg "BLK div 2" dir] by (simp only: e uk less.prems(2) m)
    qed
    have "makes T a (bnd (\<lambda>s. bitonic_stage T (BLK div 2) a beg (beg + nb - k) k dir s)
        (\<lambda>_. bnd (\<lambda>s. part beg k s) (\<lambda>_ s. part (beg + k) (nb - k) s))) s
        (set_window ?l (bmerge dir (window ?l ?n xs)) xs)"
    proof (intro makes_bnd [OF stage] makes_bnd)
      fix s1 assume s1: "arr_ok T a s1" "alist T a s1 = a1"
      have "?l + unat k \<le> alen a" "0 < unat k" "unat k < ?n" using h less.prems(3) uk by linarith+
      from part [OF s1 this] show "makes T a (\<lambda>s. part beg k s) s1 a2" by (simp only: uk flip: a2_def)
    next
      fix s2 assume s2: "arr_ok T a s2" "alist T a s2 = a2"
      have "unat (beg + k) + unat (nb - k) \<le> alen a" "0 < unat (nb - k)" "unat (nb - k) < ?n"
        using h less.prems(3) unfolding lk by linarith+
      from part [OF s2 this]
      show "makes T a (\<lambda>s. part (beg + k) (nb - k) s) s2 (set_window ?l (bmerge dir (window ?l ?n xs)) xs)"
        by (simp only: lk w(1))
    qed
    then show ?thesis
      unfolding part_def k_def
      using True by (subst makes_cong) (subst ca_bitonicMerge.simps, simp cong: if_cong)
  qed
qed

lemma ca_bitonicSort_run:
  assumes "arr_ok T a s" and "alist T a s = xs" and "unat beg + unat nb \<le> alen a"
    and B: "1 < BLK" "unat BLK < 2 ^ 31" "alen a + unat BLK \<le> 2 ^ 32"
  shows "makes T a (\<lambda>s. ca_bitonicSort T BLK a beg nb dir s) s
    (set_window (unat beg) (bsort dir (window (unat beg) (unat nb) xs)) xs)"
  using assms(1-3)
proof (induction "unat nb" arbitrary: beg nb dir s xs rule: less_induct)
  case less
  let ?l = "unat beg" and ?n = "unat nb"
  show ?case
  proof (cases "1 < nb")
    case False
    then have "?n \<le> 1" by (simp add: word_less_nat_alt)
    then have "bsort dir (window ?l ?n xs) = window ?l ?n xs" by (subst bsort.simps) simp
    moreover have "set_window ?l (window ?l ?n xs) xs = xs"
      using less.prems(2,3) by (simp add: set_window_def window_def min_def flip: append_assoc take_add)
    ultimately show ?thesis using makes_ret [OF less.prems(1)] False less.prems(2)
      by (subst makes_cong [of _ _ "ret ()"]) (simp_all add: ca_bitonicSort.simps)
  next
    case True
    then have n: "1 < ?n" by (simp add: word_less_nat_alt)
    define k where "k = nb div 2"
    have k: "unat k = ?n div 2" by (simp add: k_def unat_div)
    have b: "?l + ?n < 4294967296" using less.prems(3) unat_less_u32 [of "ca_size a"] by (simp add: alen_def)
    have lk: "unat (beg + k) = ?l + ?n div 2" "unat (nb - k) = ?n - ?n div 2"
      using b by (simp_all add: unat_add_u32 unat_sub word_le_nat_alt k)
    have bx: "?l + ?n \<le> length xs" using less.prems(2,3) by auto
    define ws where "ws = window ?l ?n xs"
    have ws: "length ws = ?n" using bx by (auto simp: ws_def)
    define x1 where "x1 = set_window ?l (bsort (\<not> dir) (take (?n div 2) ws)) xs"
    define x2 where "x2 = set_window (?l + ?n div 2) (bsort dir (drop (?n div 2) ws)) x1"
    have x1: "window (?l + ?n div 2) (?n - ?n div 2) x1 = drop (?n div 2) ws"
      using bx by (simp add: x1_def ws) (simp add: window_def set_window_def ws_def drop_take ac_simps)
    have x2: "x2 = set_window ?l (bsort (\<not> dir) (take (?n div 2) ws) @ bsort dir (drop (?n div 2) ws)) xs"
      using bx set_window_two(1) [of ?l "bsort (\<not> dir) (take (?n div 2) ws)" "bsort dir (drop (?n div 2) ws)" xs]
      by (simp add: x2_def x1_def ws)
    have "makes T a (bnd (\<lambda>s. ca_bitonicSort T BLK a beg k (\<not> dir) s) (\<lambda>_.
        bnd (\<lambda>s. ca_bitonicSort T BLK a (beg + k) (nb - k) dir s) (\<lambda>_ s.
        if nb \<le> BLK then merge_in_buffer T a beg nb dir s else ca_bitonicMerge T BLK a beg nb dir s))) s
        (set_window ?l (bsort dir ws) xs)"
    proof (intro makes_bnd)
      have "take (?n div 2) ws = window ?l (?n div 2) xs" by (simp add: ws_def window_def min_def)
      then show "makes T a (\<lambda>s. ca_bitonicSort T BLK a beg k (\<not> dir) s) s x1"
        using less.hyps [OF _ less.prems(1,2), of k beg "\<not> dir"] n less.prems(3) by (simp add: k x1_def)
    next
      fix s1 assume s1: "arr_ok T a s1" "alist T a s1 = x1"
      show "makes T a (\<lambda>s. ca_bitonicSort T BLK a (beg + k) (nb - k) dir s) s1 x2"
        using less.hyps [OF _ s1, of "nb - k" "beg + k" dir] n less.prems(3) by (simp add: lk x1 x2_def)
    next
      fix s2 assume s2: "arr_ok T a s2" "alist T a s2 = x2"
      have "window ?l ?n x2 = bsort (\<not> dir) (take (?n div 2) ws) @ bsort dir (drop (?n div 2) ws)"
        using bx by (simp add: x2 window_def set_window_def ws)
      then have "bmerge dir (window ?l ?n x2) = bsort dir ws" using n by (subst bsort.simps) (simp add: ws)
      moreover have "set_window ?l (bsort dir ws) x2 = set_window ?l (bsort dir ws) xs"
        using bx by (simp add: x2 set_window_def ws)
      ultimately have r: "set_window ?l (bmerge dir (window ?l ?n x2)) x2 = set_window ?l (bsort dir ws) xs" by simp
      have "unat nb < 2 ^ 31" if "nb \<le> BLK" using that B(2) by (simp add: word_le_nat_alt)
      with merge_in_buffer_run [OF s2 less.prems(3), of dir] ca_bitonicMerge_run [OF s2 less.prems(3) B, of dir] n
      show "makes T a (\<lambda>s. if nb \<le> BLK then merge_in_buffer T a beg nb dir s else ca_bitonicMerge T BLK a beg nb dir s)
          s2 (set_window ?l (bsort dir ws) xs)"
        by (cases "nb \<le> BLK") (simp_all add: r)
    qed
    then show ?thesis
      unfolding k_def ws_def
      using True by (subst makes_cong) (subst ca_bitonicSort.simps, simp cong: if_cong)
  qed
qed


text \<open>
  C22. The bitonic sort of an array in the cache returns, and leaves the array with the sorted list of
  its elements, for every number of elements (not only powers of two), with at most one buffer of
  the array in memory; nothing outside the array changes.
\<close>

theorem bitonic_array_sorted:
  assumes "arr_ok T a s" and "alen a + ARRAY_BUFFER_SIZE \<le> 2 ^ 32"
  shows "returns (bitonicSort_array T a) s (\<lambda>_ s'. alist T a s' = sort (alist T a s) \<and>
    arr_ok T a s' \<and> outside a s s')"
proof -
  have "makes T a (\<lambda>s. ca_bitonicSort T (of_nat ARRAY_BUFFER_SIZE) a 0 (ca_size a) True s) s
      (set_window (unat (0 :: u32)) (bsort True (window (unat (0 :: u32)) (unat (ca_size a)) (alist T a s))) (alist T a s))"
    by (rule ca_bitonicSort_run [OF assms(1) refl])
      (use assms(2) in \<open>simp_all add: ARRAY_BUFFER_SIZE_def alen_def word_less_nat_alt\<close>)
  then show ?thesis
    by (auto simp: makes_def returns_def bitonicSort_array_def window_def set_window_def bsort_sort alen_def)
qed

theorem bitonic_array_sorted_witness:
  "returns (bitonicSort_array byte_elem demo_array) demo_state
     (\<lambda>_ s'. alist byte_elem demo_array s' = [2, 3, 4, 7, 8, 9])"
proof -
  have "alen demo_array + ARRAY_BUFFER_SIZE \<le> 2 ^ 32" by (simp add: demo_lengths ARRAY_BUFFER_SIZE_def)
  from bitonic_array_sorted [OF demo_arrays(1) this] show ?thesis
    by (auto simp: demo_list elim!: returns_mono)
qed

end
