(* ===== verification/ArrayMerge.thy ===== *)
theory ArrayMerge
  imports ArraySort
begin

text \<open>
  The merge sort of arrays in the cache sorts: what the buffered readers and writers of
  \<^verbatim>\<open>array.hh\<close> are to the lists of their arrays, the merge of two runs through them, the copy back,
  and the recursion.
\<close>

section \<open>Readers\<close>

text \<open>The reader is at element \<open>q\<close> of its array: its buffer holds what follows in the list \<open>xs\<close>.\<close>

definition pl_at :: "cache_array \<Rightarrow> 'a list \<Rightarrow> 'a puller \<Rightarrow> nat \<Rightarrow> bool" where
  "pl_at a xs p q \<longleftrightarrow> pl_context p = a \<and>
     (q < alen a \<longrightarrow> unat (pl_i p) \<le> q \<and> unat (pl_i p) < unat (pl_bufferSize p) \<and>
       unat (pl_bufferSize p) \<le> length (pl_buffer p) \<and>
       unat (pl_beg p) = q - unat (pl_i p) + unat (pl_bufferSize p) \<and> unat (pl_beg p) \<le> alen a \<and>
       take (unat (pl_bufferSize p)) (pl_buffer p) = take (unat (pl_bufferSize p)) (drop (q - unat (pl_i p)) xs))"

lemma pl_retreive_run:
  assumes "arr_ok T a s" and "pl_context p = a" and "unat (pl_beg p) = q" and "q \<le> alen a"
    and "0 < unat (pl_bufferSize p)" and "unat (pl_bufferSize p) \<le> length (pl_buffer p)"
  shows "\<exists>p' b s'. pl_retreive T p s = Some (Inr (p', b), s') \<and> unchanged T a s s' \<and> pl_at a (alist T a s) p' q"
proof -
  define r where "r = min (pl_bufferSize p) (ca_size a - pl_beg p)"
  have rest: "unat (ca_size a - pl_beg p) = alen a - q"
    using assms(3,4) by (simp add: unat_sub word_le_nat_alt alen_def)
  have r: "unat r = min (unat (pl_bufferSize p)) (alen a - q)"
    using rest by (auto simp: r_def min_def word_le_nat_alt)
  show ?thesis
  proof (cases "q < alen a")
    case False
    then have "r = 0" using r by (simp add: word_unat_eq_iff)
    then have "pl_retreive T p s = Some (Inr (p, False), s)"
      using assms(2) by (simp add: pl_retreive_def r_def act_simps Let_def)
    with unchanged_refl [OF assms(1)] False assms(2) show ?thesis by (fastforce simp: pl_at_def)
  next
    case True
    have r0: "0 < unat r" "q + unat r \<le> alen a" using True r assms(5) by auto
    obtain s' where g: "ca_getNb T a (pl_beg p) r s = Some (Inr (take (unat r) (drop q (alist T a s))), s')"
      "unchanged T a s s'"
      using getNb_run [OF assms(1), of "pl_beg p" r] r0 assms(3) by auto
    define els where "els = take (unat r) (drop q (alist T a s))"
    have le: "length els = unat r" "unat r \<le> length (pl_buffer p)" using r0 r assms(6) by (simp_all add: els_def)
    have "r \<noteq> 0" using r0 by auto
    then have "pl_retreive T p s = Some (Inr (p\<lparr>pl_buffer := els @ drop (unat r) (pl_buffer p), pl_beg := pl_beg p + r,
        pl_bufferSize := r, pl_i := 0\<rparr>, True), s')"
      using g le assms(2) by (simp add: pl_retreive_def act_simps Let_def r_def els_def)
    moreover have "unat (pl_beg p + r) = q + unat r"
      using r0 assms(3) unat_less_u32 [of "ca_size a"] by (subst unat_add_u32) (simp_all add: alen_def)
    moreover have "take (unat r) (els @ drop (unat r) (pl_buffer p)) = els" using le by simp
    ultimately show ?thesis using g(2) le r0 assms(2) by (auto simp: pl_at_def els_def)
  qed
qed

lemma pl_next_run:
  assumes "arr_ok T a s" and "alist T a s = xs" and "pl_at a xs p q" and "q < alen a"
  shows "\<exists>p' b s'. pl_next T p s = Some (Inr (p', b), s') \<and> unchanged T a s s' \<and> pl_at a xs p' (Suc q)"
proof -
  let ?p = "p\<lparr>pl_i := pl_i p + 1\<rparr>"
  have at: "pl_context p = a" "unat (pl_i p) \<le> q" "unat (pl_i p) < unat (pl_bufferSize p)"
    "unat (pl_bufferSize p) \<le> length (pl_buffer p)" "unat (pl_beg p) = q - unat (pl_i p) + unat (pl_bufferSize p)"
    "unat (pl_beg p) \<le> alen a"
    "take (unat (pl_bufferSize p)) (pl_buffer p) = take (unat (pl_bufferSize p)) (drop (q - unat (pl_i p)) xs)"
    using assms(3,4) by (auto simp: pl_at_def)
  have i: "unat (pl_i p + 1) = unat (pl_i p) + 1"
    using at(3) unat_less_u32 [of "pl_bufferSize p"] by (subst unat_add_u32) simp_all
  show ?thesis
  proof (cases "pl_bufferSize p \<le> pl_i p + 1")
    case True
    then have b: "unat (pl_bufferSize p) = unat (pl_i p) + 1" using at(3) i by (simp add: word_le_nat_alt)
    have "unat (pl_beg ?p) = Suc q" "Suc q \<le> alen a" using at(2,5) b assms(4) by simp_all
    from pl_retreive_run [OF assms(1) _ this, unfolded assms(2)] True at(1,3,4) show ?thesis
      by (simp add: pl_next_def Let_def)
  next
    case False
    then have "unat (pl_i p) + 1 < unat (pl_bufferSize p)" using i by (simp add: word_le_nat_alt)
    then have "pl_at a xs ?p (Suc q)" using at i by (simp add: pl_at_def)
    with False unchanged_refl [OF assms(1)] show ?thesis by (auto simp: pl_next_def Let_def act_simps)
  qed
qed

lemma pl_current_run:
  assumes "pl_at a xs p q" and "q < alen a" and "length xs = alen a"
  shows "pl_current p s = Some (Inr (xs ! q), s)"
proof -
  let ?i = "unat (pl_i p)" and ?b = "unat (pl_bufferSize p)"
  have at: "?i \<le> q" "?i < ?b" "?b \<le> length (pl_buffer p)" "take ?b (pl_buffer p) = take ?b (drop (q - ?i) xs)"
    using assms(1,2) by (simp_all add: pl_at_def)
  have "pl_buffer p ! ?i = take ?b (pl_buffer p) ! ?i" using at(2) by simp
  also have "\<dots> = xs ! q" using at assms(2,3) by simp
  finally show ?thesis using at(2,3) by (simp add: pl_current_def act_simps)
qed

text \<open>A new reader.\<close>

lemma ca_puller_run:
  assumes "arr_ok T a s" and "0 < n" and "n < 2 ^ 32" and "q \<le> alen a" and "length buffer = n"
  shows "\<exists>p' b s'. pl_next T (ca_puller a (of_nat q) buffer (of_nat n)) s = Some (Inr (p', b), s') \<and>
    unchanged T a s s' \<and> pl_at a (alist T a s) p' q"
proof -
  have "unat (of_nat n :: u32) = n" "unat (of_nat q :: u32) = q"
    using assms(3,4) unat_less_u32 [of "ca_size a"] by (simp_all add: unat_of_nat alen_def)
  with assms(2,5) pl_retreive_run [OF assms(1) _ _ assms(4), of "(ca_puller a (of_nat q) buffer (of_nat n))\<lparr>pl_i := of_nat n\<rparr>"]
  show ?thesis by (simp add: pl_next_def ca_puller_def Let_def)
qed

section \<open>Writers\<close>

text \<open>The writer has been given \<open>ws\<close>: the first of them are in its array, the others in its buffer.\<close>

definition ps_at :: "'a trivial \<Rightarrow> cache_array \<Rightarrow> 'a pusher \<Rightarrow> 'a list \<Rightarrow> allocator \<Rightarrow> bool" where
  "ps_at T b p ws s \<longleftrightarrow> ps_context p = b \<and> unat (ps_beg p) + unat (ps_i p) = length ws \<and>
     take (unat (ps_beg p)) (alist T b s) = take (unat (ps_beg p)) ws \<and>
     take (unat (ps_i p)) (ps_buffer p) = drop (unat (ps_beg p)) ws \<and>
     unat (ps_bufferSize p) \<le> length (ps_buffer p) \<and> unat (ps_beg p) + unat (ps_bufferSize p) \<le> alen b \<and>
     (if length ws < alen b then unat (ps_i p) < unat (ps_bufferSize p) else ps_i p = 0)"

definition writes :: "'a trivial \<Rightarrow> cache_array \<Rightarrow> allocator \<Rightarrow> allocator \<Rightarrow> bool" where
  "writes T b s s' \<longleftrightarrow> arr_ok T b s' \<and> outside b s s'"

lemma writes_trans: "writes T b s s' \<Longrightarrow> writes T b s' s'' \<Longrightarrow> writes T b s s''"
  by (auto simp: writes_def intro: outside_trans)

lemma ps_commitForce_run:
  assumes "arr_ok T b s" and p: "ps_context p = b" "unat (ps_beg p) + unat (ps_i p) = length ws" "length ws \<le> alen b"
    "take (unat (ps_beg p)) (alist T b s) = take (unat (ps_beg p)) ws"
    "take (unat (ps_i p)) (ps_buffer p) = drop (unat (ps_beg p)) ws"
    "unat (ps_bufferSize p) \<le> length (ps_buffer p)" "0 < unat (ps_i p)" "unat (ps_i p) \<le> unat (ps_bufferSize p)"
  shows "\<exists>p' r s'. ps_commitForce T p s = Some (Inr (p', r), s') \<and> writes T b s s' \<and> ps_at T b p' ws s' \<and>
    take (length ws) (alist T b s') = ws"
proof -
  have w: "(if ps_i p < ps_bufferSize p then ps_i p else ps_bufferSize p) = ps_i p" "ps_i p \<noteq> 0"
    using p(7,8) by (auto simp: word_less_nat_alt word_unat_eq_iff)
  have "unat (ps_beg p) + unat (ps_i p) \<le> alen b" using p(2,3) by simp
  from setNb_run [OF assms(1) this p(7), of "ps_buffer p"] p(6,8) obtain s' where
    s': "ca_setNb T b (ps_beg p) (ps_buffer p) (ps_i p) s = Some (Inr (), s')" "arr_ok T b s'" "outside b s s'"
    "alist T b s' = set_list (unat (ps_beg p)) (drop (unat (ps_beg p)) ws) (alist T b s)"
    by (auto simp: written_def p(5))
  have beg: "unat (ps_beg p + ps_i p) = length ws"
    using p(2,3) unat_less_u32 [of "ca_size b"] by (subst unat_add_u32) (simp_all add: alen_def)
  have rest: "unat (ca_size b - (ps_beg p + ps_i p)) = alen b - length ws"
    using beg p(3) by (simp add: unat_sub word_le_nat_alt alen_def)
  have done': "take (length ws) (alist T b s') = ws"
  proof -
    have "take (length ws) (alist T b s') = take (unat (ps_beg p)) ws @ drop (unat (ps_beg p)) ws"
      using p(2,3,4) by (simp add: s'(4) set_list_def)
    then show ?thesis by simp
  qed
  define p' where "p' = p\<lparr>ps_beg := ps_beg p + ps_i p, ps_bufferSize := (if ps_bufferSize p < ca_size b - (ps_beg p + ps_i p)
      then ps_bufferSize p else ca_size b - (ps_beg p + ps_i p)), ps_i := 0\<rparr>"
  have bs: "unat (ps_bufferSize p') = min (unat (ps_bufferSize p)) (alen b - length ws)"
    using rest by (auto simp: p'_def word_less_nat_alt)
  have "ps_commitForce T p s = Some (Inr (p', True), s')"
    using s'(1) w p(1) by (simp add: ps_commitForce_def Let_def act_simps p'_def cong: if_cong)
  moreover have "ps_at T b p' ws s'"
    using p(1,3,6-8) beg done' bs by (auto simp: ps_at_def) (auto simp: p'_def)
  ultimately show ?thesis using s' done' by (auto simp: writes_def)
qed

lemma ps_push_run:
  assumes "arr_ok T b s" and p: "ps_at T b p ws s" and "length ws < alen b"
  shows "\<exists>p' r s'. ps_push T p x s = Some (Inr (p', r), s') \<and> writes T b s s' \<and> ps_at T b p' (ws @ [x]) s'"
proof -
  let ?i = "unat (ps_i p)" and ?beg = "unat (ps_beg p)"
  have p: "ps_context p = b" "?beg + ?i = length ws" "take ?beg (alist T b s) = take ?beg ws"
    "take ?i (ps_buffer p) = drop ?beg ws" "unat (ps_bufferSize p) \<le> length (ps_buffer p)"
    "?beg + unat (ps_bufferSize p) \<le> alen b" "?i < unat (ps_bufferSize p)"
    using p assms(3) by (simp_all add: ps_at_def)
  define p1 where "p1 = p\<lparr>ps_buffer := (ps_buffer p)[?i := x], ps_i := ps_i p + 1\<rparr>"
  have i: "unat (ps_i p + 1) = ?i + 1"
    using p(7) unat_less_u32 [of "ps_bufferSize p"] by (subst unat_add_u32) simp_all
  have buf: "take (?i + 1) ((ps_buffer p)[?i := x]) = drop ?beg (ws @ [x])"
    using p(2,4,5,7) by (simp add: take_Suc_update)
  have push: "ps_push T p x s = (if ps_bufferSize p \<le> ps_i p + 1 then ps_commit T p1 s else Some (Inr (p1, True), s))"
    using p(5,7) by (simp add: ps_push_def Let_def p1_def act_simps)
  show ?thesis
  proof (cases "ps_bufferSize p \<le> ps_i p + 1")
    case True
    then have b: "unat (ps_bufferSize p) = ?i + 1" using p(7) i by (simp add: word_le_nat_alt)
    have "ps_i p + 1 \<noteq> 0" using i by (auto simp: word_unat_eq_iff)
    then have c: "ps_push T p x s = ps_commitForce T p1 s" using push True by (simp add: ps_commit_def p1_def)
    have "\<exists>p' r s'. ps_commitForce T p1 s = Some (Inr (p', r), s') \<and> writes T b s s' \<and> ps_at T b p' (ws @ [x]) s' \<and>
        take (length (ws @ [x])) (alist T b s') = ws @ [x]"
      by (rule ps_commitForce_run [OF assms(1)])
        (use p b i buf assms(3) in \<open>simp_all add: p1_def\<close>)
    then show ?thesis using c by auto
  next
    case False
    then have b: "?i + 1 < unat (ps_bufferSize p)" using i by (simp add: word_le_nat_alt)
    then have "length (ws @ [x]) < alen b" using p(2,6) by simp
    then have "ps_at T b p1 (ws @ [x]) s"
      using p b i buf by (simp add: ps_at_def p1_def)
    moreover have "writes T b s s" using assms(1) by (auto simp: writes_def arr_ok_def intro: outside_same)
    ultimately show ?thesis using push False by auto
  qed
qed

lemma ps_delete_run:
  assumes "arr_ok T b s" and p: "ps_at T b p ws s" and "length ws \<le> alen b"
  shows "\<exists>s'. ps_delete T p s = Some (Inr (), s') \<and> writes T b s s' \<and> take (length ws) (alist T b s') = ws"
proof (cases "ps_i p = 0")
  case True
  then have "take (length ws) (alist T b s) = ws" using p by (auto simp: ps_at_def)
  moreover have "writes T b s s" using assms(1) by (auto simp: writes_def arr_ok_def intro: outside_same)
  ultimately show ?thesis using True by (auto simp: ps_delete_def act_simps)
next
  case False
  have "\<exists>p' r s'. ps_commitForce T p s = Some (Inr (p', r), s') \<and> writes T b s s' \<and> ps_at T b p' ws s' \<and>
      take (length ws) (alist T b s') = ws"
    by (rule ps_commitForce_run [OF assms(1)])
      (use p False assms(3) in \<open>auto simp: ps_at_def word_unat_eq_iff split: if_splits\<close>)
  then show ?thesis using False by (auto simp: ps_delete_def act_simps)
qed


section \<open>Merging two runs\<close>

text \<open>While an array is read and the other one is written: the first keeps its list.\<close>

definition merging :: "'a trivial \<Rightarrow> cache_array \<Rightarrow> cache_array \<Rightarrow> 'a list \<Rightarrow> allocator \<Rightarrow> allocator \<Rightarrow> bool" where
  "merging T a b xs s0 s \<longleftrightarrow> arr_ok T a s \<and> arr_ok T b s \<and> alist T a s = xs \<and> outside b s0 s"

lemma merging_unchanged: "merging T a b xs s0 s \<Longrightarrow> unchanged T a s s' \<Longrightarrow> merging T a b xs s0 s'"
  using outside_trans [of b s0 s s'] unchanged_outside [of T a s s' b] unchanged_alist [of T a s s' T a]
    arr_ok_outside [of T b s b s']
  by (simp add: merging_def unchanged_def)

lemma merging_writes:
  assumes "merging T a b xs s0 s" and "writes T b s s'" and "disjoint_arrays b a"
  shows "merging T a b xs s0 s'"
  using assms alist_outside [of b s s' a T] arr_ok_outside [of T a s b s'] outside_trans [of b s0 s s']
  by (simp add: merging_def writes_def arr_ok_def)

lemma ps_at_unchanged: "unchanged T a s s' \<Longrightarrow> ps_at T b p ws s' = ps_at T b p ws s"
  using unchanged_alist [of T a s s' T b] by (simp add: ps_at_def)

lemma push_current_run:
  assumes m: "merging T a b xs s0 s" and "disjoint_arrays b a" and "pl_at a xs pl q" and "q < alen a"
    and "ps_at T b ps ws s" and "length ws < alen b"
  shows "\<exists>ps' pl' s'. push_current T ps pl s = Some (Inr (ps', pl'), s') \<and> merging T a b xs s0 s' \<and>
    pl_at a xs pl' (Suc q) \<and> ps_at T b ps' (ws @ [xs ! q]) s'"
proof -
  have "length xs = alen a" "arr_ok T b s" using m by (auto simp: merging_def)
  from ps_push_run [OF this(2) assms(5,6), of "xs ! q"] obtain ps' r s1 where
    1: "ps_push T ps (xs ! q) s = Some (Inr (ps', r), s1)" "writes T b s s1" "ps_at T b ps' (ws @ [xs ! q]) s1" by auto
  have m1: "merging T a b xs s0 s1" by (rule merging_writes [OF m 1(2) assms(2)])
  then have "arr_ok T a s1" "alist T a s1 = xs" by (simp_all add: merging_def)
  from pl_next_run [OF this assms(3,4)] obtain pl' r' s2 where
    2: "pl_next T pl s1 = Some (Inr (pl', r'), s2)" "unchanged T a s1 s2" "pl_at a xs pl' (Suc q)" by auto
  have "push_current T ps pl s = Some (Inr (ps', pl'), s2)"
    using pl_current_run [OF assms(3,4) \<open>length xs = alen a\<close>] 1(1) 2(1) by (simp add: push_current_def act_simps)
  with merging_unchanged [OF m1 2(2)] ps_at_unchanged [OF 2(2)] 1(3) 2(3) show ?thesis by auto
qed

text \<open>\<open>piece xs q n k\<close> are the elements of the run of \<open>n\<close> elements from \<open>q\<close>, from the \<open>k\<close>-th on.\<close>

definition piece :: "'a list \<Rightarrow> nat \<Rightarrow> nat \<Rightarrow> nat \<Rightarrow> 'a list" where
  "piece xs q n k = take (n - k) (drop (q + k) xs)"

lemma piece_Cons: "k < n \<Longrightarrow> q + n \<le> length xs \<Longrightarrow> piece xs q n k = xs ! (q + k) # piece xs q n (Suc k)"
  using Cons_nth_drop_Suc [of "q + k" xs] by (simp add: piece_def) (metis Suc_diff_Suc take_Suc_Cons)

lemma piece_Nil [simp]: "n \<le> k \<Longrightarrow> piece xs q n k = []"
  by (simp add: piece_def)

lemma length_piece: "q + n \<le> length xs \<Longrightarrow> length (piece xs q n k) = n - k"
  by (auto simp: piece_def)

lemma drain_pull_run:
  assumes "merging T a b xs s0 s" and "disjoint_arrays b a" and "pl_at a xs pl (q + k)" and "q + n \<le> alen a"
    and "ps_at T b ps ws s" and "length ws + (n - k) \<le> alen b"
  shows "\<exists>ps' s'. drain_pull T n k ps pl s = Some (Inr ps', s') \<and> merging T a b xs s0 s' \<and>
    ps_at T b ps' (ws @ piece xs q n k) s'"
  using assms
proof (induction "n - k" arbitrary: k ps pl s ws)
  case 0
  then show ?case by (simp add: drain_pull.simps act_simps)
next
  case (Suc d)
  have k: "k < n" using Suc.hyps(2) by simp
  have len: "length xs = alen a" using Suc.prems(1) by (auto simp: merging_def)
  have "q + k < alen a" "length ws < alen b" using k Suc.prems(4,6) by linarith+
  from push_current_run [OF Suc.prems(1-3) this(1) Suc.prems(5) this(2)] obtain ps' pl' s1 where
    1: "push_current T ps pl s = Some (Inr (ps', pl'), s1)" "merging T a b xs s0 s1" "pl_at a xs pl' (q + Suc k)"
      "ps_at T b ps' (ws @ [xs ! (q + k)]) s1" by auto
  from Suc.hyps(1) [OF _ 1(2) Suc.prems(2) 1(3) Suc.prems(4) 1(4)] Suc.hyps(2) Suc.prems(6)
  show ?case using 1(1) k piece_Cons [of k n q xs] Suc.prems(4) len
    by (auto simp: drain_pull.simps [of _ _ k] act_simps)
qed

lemma merge_pull_run:
  fixes xs :: "'a :: linorder list"
  assumes "merging T a b xs s0 s" and "disjoint_arrays b a"
    and "pl_at a xs lp (ql + i)" and "ql + m \<le> alen a" and "pl_at a xs rp (qr + j)" and "qr + n \<le> alen a"
    and "ps_at T b ps ws s" and "length ws + (m - i) + (n - j) \<le> alen b" and "i \<le> m" and "j \<le> n"
  shows "\<exists>i' j' ps' lp' rp' s' ws'. merge_pull T m n i j ps lp rp s = Some (Inr (i', j', ps', lp', rp'), s') \<and>
    merging T a b xs s0 s' \<and> pl_at a xs lp' (ql + i') \<and> pl_at a xs rp' (qr + j') \<and> ps_at T b ps' ws' s' \<and>
    i' \<le> m \<and> j' \<le> n \<and> (i' = m \<or> j' = n) \<and> length ws' + (m - i') + (n - j') \<le> alen b \<and>
    ws' @ merge_lists (piece xs ql m i') (piece xs qr n j') = ws @ merge_lists (piece xs ql m i) (piece xs qr n j)"
  using assms
proof (induction "m - i + (n - j)" arbitrary: i j ps lp rp s ws rule: less_induct)
  case less
  have len: "length xs = alen a" using less.prems(1) by (auto simp: merging_def)
  show ?case
  proof (cases "i < m \<and> j < n")
    case False
    then have "merge_pull T m n i j ps lp rp s = Some (Inr (i, j, ps, lp, rp), s)"
      by (subst merge_pull.simps, subst if_not_P) (simp_all add: act_simps)
    moreover have "i = m \<or> j = n" using False less.prems(9,10) by linarith
    ultimately show ?thesis using less.prems by blast
  next
    case True
    then have ij: "i < m" "j < n" by simp_all
    then have q: "ql + i < alen a" "qr + j < alen a" "length ws < alen b" using less.prems(4,6,8) by linarith+
    let ?x = "xs ! (ql + i)" and ?y = "xs ! (qr + j)"
    have P: "piece xs ql m i = ?x # piece xs ql m (Suc i)" "piece xs qr n j = ?y # piece xs qr n (Suc j)"
      using True less.prems(4,6) len by (simp_all add: piece_Cons)
    have step: "merge_pull T m n i j ps lp rp s =
        (if ?x \<le> ?y then bnd (push_current T ps lp) (\<lambda>(ps, lp). merge_pull T m n (Suc i) j ps lp rp)
         else bnd (push_current T ps rp) (\<lambda>(ps, rp). merge_pull T m n i (Suc j) ps lp rp)) s"
      using True pl_current_run [OF less.prems(3) q(1) len] pl_current_run [OF less.prems(5) q(2) len]
      by (subst merge_pull.simps) (simp add: act_simps)
    show ?thesis
    proof (cases "?x \<le> ?y")
      case le: True
      from push_current_run [OF less.prems(1-3) q(1) less.prems(7) q(3)] obtain ps' lp' s1 where
        1: "push_current T ps lp s = Some (Inr (ps', lp'), s1)" "merging T a b xs s0 s1" "pl_at a xs lp' (ql + Suc i)"
          "ps_at T b ps' (ws @ [?x]) s1" by auto
      have "m - Suc i + (n - j) < m - i + (n - j)" "length (ws @ [?x]) + (m - Suc i) + (n - j) \<le> alen b" "Suc i \<le> m"
        using ij less.prems(8) by (linarith, simp, linarith)
      from less.hyps [OF this(1) 1(2) less.prems(2) 1(3) less.prems(4-6) 1(4) this(2,3) less.prems(10)]
      show ?thesis using step 1(1) le by (simp add: act_simps P)
    next
      case gt: False
      from push_current_run [OF less.prems(1,2,5) q(2) less.prems(7) q(3)] obtain ps' rp' s1 where
        1: "push_current T ps rp s = Some (Inr (ps', rp'), s1)" "merging T a b xs s0 s1" "pl_at a xs rp' (qr + Suc j)"
          "ps_at T b ps' (ws @ [?y]) s1" by auto
      have "m - i + (n - Suc j) < m - i + (n - j)" "length (ws @ [?y]) + (m - i) + (n - Suc j) \<le> alen b" "Suc j \<le> n"
        using ij less.prems(8) by (linarith, simp, linarith)
      from less.hyps [OF this(1) 1(2) less.prems(2-4) 1(3) less.prems(6) 1(4) this(2) less.prems(9) this(3)]
      show ?thesis using step 1(1) gt by (simp add: act_simps P)
    qed
  qed
qed


section \<open>Copies\<close>

lemma set_list_same [simp]: "set_list p [] l = l"
  by (simp add: set_list_def)

lemma bnd_ret_right: "bnd m ret = m"
  by (rule ext) (auto simp: bnd_def ret_def split: option.splits sum.splits)

text \<open>A copy changes the array it writes only; the other one, apart from it, keeps its list.\<close>

lemma copy_chunk:
  assumes "arr_ok T a s" and "arr_ok T b s" and "disjoint_arrays a b" and "alist T a s = xs" and "alist T b s = ys"
    and "unat i + unat n \<le> alen a" and "unat j + unat n \<le> alen b" and "0 < unat n"
    and rest: "\<And>s'. arr_ok T a s' \<Longrightarrow> arr_ok T b s' \<Longrightarrow> alist T b s' = ys \<Longrightarrow>
      alist T a s' = set_list (unat i) (take (unat n) (drop (unat j) ys)) xs \<Longrightarrow> makes T a (f ()) s' zs"
  shows "makes T a (bnd (\<lambda>s. ca_getNb T b j n s) (\<lambda>buffer. bnd (\<lambda>s. ca_setNb T a i buffer n s) f)) s zs"
proof -
  obtain s1 where s1: "ca_getNb T b j n s = Some (Inr (take (unat n) (drop (unat j) ys)), s1)" "unchanged T b s s1"
    using getNb_run [OF assms(2,7,8)] assms(5) by auto
  have len: "length (take (unat n) (drop (unat j) ys)) = unat n" using assms(5,7) by auto
  have o1: "outside a s s1" by (rule unchanged_outside [OF s1(2)])
  have a1: "arr_ok T a s1" "arr_ok T b s1" "alist T a s1 = xs" "alist T b s1 = ys"
    using s1(2) assms(1,4,5) unchanged_alist [OF s1(2), of T] arr_ok_outside [OF assms(1) o1] by (simp_all add: unchanged_def)
  from setNb_run [OF a1(1) assms(6,8)] len a1(3) obtain s2 where
    s2: "ca_setNb T a i (take (unat n) (drop (unat j) ys)) n s1 = Some (Inr (), s2)" "arr_ok T a s2" "outside a s1 s2"
      "alist T a s2 = set_list (unat i) (take (unat n) (drop (unat j) ys)) xs" by (force simp: written_def)
  have "arr_ok T b s2" by (rule arr_ok_outside [OF a1(2) s2(3)])
  moreover have "alist T b s2 = ys"
    using alist_outside [OF s2(3) assms(3), of T] a1(2,4) by (simp add: arr_ok_def)
  ultimately have "makes T a (f ()) s2 zs" using rest s2 by blast
  with s1(1) s2(1) outside_trans [OF o1 s2(3)] show ?thesis
    by (auto simp: makes_def act_simps dest: outside_trans)
qed

lemma copy_chunks_run:
  assumes "arr_ok T a s" and "arr_ok T b s" and "disjoint_arrays a b" and "alist T a s = xs" and "alist T b s = ys"
    and "unat i + unat n \<le> alen a" and "unat j + unat n \<le> alen b" and "0 < unat buf" and "unat k \<le> unat n"
    and "unat buf dvd unat n - unat k"
  shows "makes T a (\<lambda>s. copy_chunks T a i b j n buf k s) s
    (set_list (unat i + unat k) (take (unat n - unat k) (drop (unat j + unat k) ys)) xs)"
  using assms(1,2,4,5,9,10)
proof (induction "unat n - unat k" arbitrary: k s xs rule: less_induct)
  case less
  show ?case
  proof (cases "k < n")
    case False
    then have "unat n - unat k = 0" by (simp add: word_less_nat_alt)
    then show ?thesis using makes_ret [OF less.prems(1)] False less.prems(3)
      by (subst makes_cong [of _ _ "ret ()"]) (simp_all only: take_0 set_list_same, simp add: copy_chunks.simps)
  next
    case True
    then have kn: "unat k < unat n" by (simp add: word_less_nat_alt)
    have b: "unat buf \<le> unat n - unat k" using kn less.prems(6) by (simp add: dvd_imp_le)
    have u: "unat (k + buf) = unat k + unat buf" "unat (k + i) = unat i + unat k" "unat (k + j) = unat j + unat k"
      using b kn assms(6,7) unat_less_u32 [of "ca_size a"] unat_less_u32 [of "ca_size b"] unat_less_u32 [of n]
      by (auto simp: alen_def intro!: unat_add_u32 [THEN trans])
    define chunk where "chunk = take (unat buf) (drop (unat j + unat k) ys)"
    have len: "length xs = alen a" "length ys = alen b" using less.prems(3,4) by auto
    have lc: "length chunk = unat buf" using b kn assms(7) len by (simp add: chunk_def)
    have all: "set_list (unat i + unat (k + buf)) (take (unat n - unat (k + buf)) (drop (unat j + unat (k + buf)) ys))
        (set_list (unat i + unat k) chunk xs) =
        set_list (unat i + unat k) (take (unat n - unat k) (drop (unat j + unat k) ys)) xs"
    proof -
      have "take (unat n - unat k) (drop (unat j + unat k) ys) =
          chunk @ take (unat n - unat (k + buf)) (drop (unat j + unat (k + buf)) ys)"
      proof -
        have "unat n - unat k = unat buf + (unat n - unat (k + buf))" "unat j + unat (k + buf) = unat buf + (unat j + unat k)"
          using b u(1) by simp_all
        then show ?thesis by (simp only: take_add chunk_def drop_drop)
      qed
      then show ?thesis
        using set_list_append [of "unat i + unat k" chunk _ xs] b kn assms(6,7) lc len u(1)
        by (simp add: add.assoc)
    qed
    have "makes T a (bnd (\<lambda>s. ca_getNb T b (k + j) buf s) (\<lambda>buffer. bnd (\<lambda>s. ca_setNb T a (k + i) buffer buf s)
        (\<lambda>_ s. copy_chunks T a i b j n buf (k + buf) s))) s
        (set_list (unat i + unat k) (take (unat n - unat k) (drop (unat j + unat k) ys)) xs)"
    proof (rule copy_chunk [OF less.prems(1,2) assms(3) less.prems(3,4) _ _ assms(8)])
      show "unat (k + i) + unat buf \<le> alen a" "unat (k + j) + unat buf \<le> alen b"
        using b kn assms(6,7) unfolding u(2,3) by linarith+
      fix s' assume s': "arr_ok T a s'" "arr_ok T b s'" "alist T b s' = ys"
        "alist T a s' = set_list (unat (k + i)) (take (unat buf) (drop (unat (k + j)) ys)) xs"
      have "unat n - unat (k + buf) < unat n - unat k" "unat (k + buf) \<le> unat n"
        "unat n - unat (k + buf) = unat n - unat k - unat buf"
        using b kn assms(8) u(1) by simp_all
      moreover from this(3) have "unat buf dvd unat n - unat (k + buf)"
        by (simp only: dvd_diff_nat less.prems(6) dvd_refl)
      ultimately show "makes T a (\<lambda>s. copy_chunks T a i b j n buf (k + buf) s) s'
          (set_list (unat i + unat k) (take (unat n - unat k) (drop (unat j + unat k) ys)) xs)"
        using less.hyps [OF _ s'(1,2) refl s'(3), of "k + buf"] s'(4) all
        by (simp only: u(2,3) chunk_def)
    qed
    then show ?thesis using True by (subst makes_cong) (subst copy_chunks.simps, simp)
  qed
qed


lemma ca_copy_run:
  assumes "arr_ok T a s" and "arr_ok T b s" and "disjoint_arrays a b" and "alist T a s = xs" and "alist T b s = ys"
    and "unat i + unat n \<le> alen a" and "unat j + unat n \<le> alen b" and "1 < unat buf"
  shows "makes T a (ca_copy T a i b j n buf) s (set_list (unat i) (take (unat n) (drop (unat j) ys)) xs)"
proof -
  define m where "m = n div buf * buf"
  define r where "r = n - m"
  have m: "unat m = unat n div unat buf * unat buf"
  proof -
    have "unat n div unat buf * unat buf \<le> unat n" by simp
    then have "unat n div unat buf * unat buf < 4294967296" using unat_less_u32 [of n] by linarith
    then have "unat (n div buf) * unat buf < 2 ^ 32" by (simp add: unat_div)
    then show ?thesis by (simp add: m_def unat_mult_lem [THEN iffD1] unat_div)
  qed
  have mn: "unat m \<le> unat n" by (simp add: m)
  have r: "unat r = unat n - unat m" using mn by (simp add: r_def unat_sub word_le_nat_alt)
  have u: "unat (m + i) = unat i + unat m" "unat (m + j) = unat j + unat m"
    using mn assms(6,7) unat_less_u32 [of "ca_size a"] unat_less_u32 [of "ca_size b"]
    by (auto simp: alen_def intro!: unat_add_u32 [THEN trans])
  have len: "length xs = alen a" "length ys = alen b" using assms(4,5) by auto
  define tail where "tail = (if r \<noteq> 0 then bnd (\<lambda>s. ca_getNb T b (m + j) r s) (\<lambda>buffer. bnd (\<lambda>s. ca_setNb T a (m + i) buffer r s) ret)
      else ret ())"
  have "m = n div buf * buf" "buf \<noteq> 0" "buf \<noteq> 1" using assms(8) by (auto simp: m_def word_unat_eq_iff)
  then have copy: "ca_copy T a i b j n buf = bnd (\<lambda>s. copy_chunks T a i b j m buf 0 s) (\<lambda>_. tail)"
    by (intro ext) (simp add: ca_copy_def Let_def bnd_ret bnd_ret_right tail_def r_def cong: if_cong)
  let ?xs = "set_list (unat i) (take (unat m) (drop (unat j) ys)) xs"
  have "makes T a (\<lambda>s. copy_chunks T a i b j m buf 0 s) s ?xs"
    using copy_chunks_run [OF assms(1-5), of i m j buf 0] mn m assms(6-8) by simp
  then obtain s1 where s1: "copy_chunks T a i b j m buf 0 s = Some (Inr (), s1)" "arr_ok T a s1" "outside a s s1"
    "alist T a s1 = ?xs" by (auto simp: makes_def)
  have b1: "arr_ok T b s1" by (rule arr_ok_outside [OF assms(2) s1(3)])
  have l1: "alist T b s1 = ys"
    using alist_outside [OF s1(3) assms(3), of T] assms(2,5) by (simp add: arr_ok_def)
  have all: "set_list (unat i + unat m) (take (unat r) (drop (unat j + unat m) ys)) ?xs =
      set_list (unat i) (take (unat n) (drop (unat j) ys)) xs"
  proof -
    have "unat n = unat m + unat r" using mn r by simp
    then have "take (unat n) (drop (unat j) ys) = take (unat m) (drop (unat j) ys) @ take (unat r) (drop (unat j + unat m) ys)"
      by (simp only: take_add drop_drop add.commute [of "unat m" "unat j"])
    moreover have "length (take (unat m) (drop (unat j) ys)) = unat m" using mn assms(7) len by simp
    ultimately show ?thesis
      using set_list_append [of "unat i" "take (unat m) (drop (unat j) ys)" "take (unat r) (drop (unat j + unat m) ys)" xs]
        mn r assms(6,7) len by simp
  qed
  have "makes T a tail s1 (set_list (unat i) (take (unat n) (drop (unat j) ys)) xs)"
  proof (cases "r = 0")
    case True
    then show ?thesis using makes_ret [OF s1(2)] s1(4) all by (simp add: tail_def)
  next
    case False
    have "makes T a (bnd (\<lambda>s. ca_getNb T b (m + j) r s) (\<lambda>buffer. bnd (\<lambda>s. ca_setNb T a (m + i) buffer r s) ret)) s1
        (set_list (unat i) (take (unat n) (drop (unat j) ys)) xs)"
    proof (rule copy_chunk [OF s1(2) b1 assms(3) s1(4) l1])
      show "unat (m + i) + unat r \<le> alen a" "unat (m + j) + unat r \<le> alen b" "0 < unat r"
        using assms(6,7) mn r False by (simp_all add: u word_unat_eq_iff)
      show "makes T a (ret ()) s' (set_list (unat i) (take (unat n) (drop (unat j) ys)) xs)"
        if "arr_ok T a s'" "alist T a s' = set_list (unat (m + i)) (take (unat r) (drop (unat (m + j)) ys)) ?xs" for s'
        using makes_ret [OF that(1)] that(2) by (simp add: u all)
    qed
    then show ?thesis using False by (simp add: tail_def)
  qed
  with s1 show ?thesis unfolding copy by (auto simp: makes_def act_simps dest: outside_trans)
qed


section \<open>The merge sort\<close>

text \<open>What both arrays leave as it was.\<close>

definition outside2 :: "cache_array \<Rightarrow> cache_array \<Rightarrow> allocator \<Rightarrow> allocator \<Rightarrow> bool" where
  "outside2 a b s s' \<longleftrightarrow>
     (\<forall>c. map_option length (block_at s' c) = map_option length (block_at s c)) \<and>
     (\<forall>c i n. (\<forall>p < alen a. apart (esize a) (place a p) c i n) \<longrightarrow>
        (\<forall>p < alen b. apart (esize b) (place b p) c i n) \<longrightarrow> win s' c i n = win s c i n)"

lemma outside2I: "outside a s s' \<Longrightarrow> outside2 a b s s'" "outside b s s' \<Longrightarrow> outside2 a b s s'"
  by (auto simp: outside_def outside2_def)

lemma outside2_trans: "outside2 a b s s' \<Longrightarrow> outside2 a b s' s'' \<Longrightarrow> outside2 a b s s''"
  by (auto simp: outside2_def)

text \<open>As \<open>makes\<close>, for operations that write on both arrays.\<close>

definition makes2 :: "'a trivial \<Rightarrow> cache_array \<Rightarrow> cache_array \<Rightarrow> (allocator, unit) act \<Rightarrow> allocator \<Rightarrow> 'a list \<Rightarrow> bool" where
  "makes2 T a b m s xs \<longleftrightarrow>
     (\<exists>s'. m s = Some (Inr (), s') \<and> arr_ok T a s' \<and> arr_ok T b s' \<and> outside2 a b s s' \<and> alist T a s' = xs)"

lemma makes2_bnd:
  assumes "makes2 T a b m s xs"
    and "\<And>s'. arr_ok T a s' \<Longrightarrow> arr_ok T b s' \<Longrightarrow> alist T a s' = xs \<Longrightarrow> makes2 T a b (f ()) s' ys"
  shows "makes2 T a b (bnd m f) s ys"
proof -
  obtain s1 where s1: "m s = Some (Inr (), s1)" "arr_ok T a s1" "arr_ok T b s1" "outside2 a b s s1" "alist T a s1 = xs"
    using assms(1) by (auto simp: makes2_def)
  obtain s2 where "f () s1 = Some (Inr (), s2)" "arr_ok T a s2" "arr_ok T b s2" "outside2 a b s1 s2" "alist T a s2 = ys"
    using assms(2) [OF s1(2,3,5)] by (auto simp: makes2_def)
  with s1 outside2_trans [OF s1(4)] show ?thesis by (auto simp: makes2_def act_simps)
qed

lemma makes_makes2: "makes T a m s xs \<Longrightarrow> arr_ok T b s \<Longrightarrow> makes2 T a b m s xs"
  using arr_ok_outside outside2I(1) by (fastforce simp: makes_def makes2_def)

lemma ca_pusher_at:
  assumes "ARRAY_BUFFER_SIZE \<le> alen b" and "length buffer = ARRAY_BUFFER_SIZE"
  shows "ps_at T b (ca_pusher b 0 buffer (of_nat ARRAY_BUFFER_SIZE)) [] s"
  using assms by (simp add: ps_at_def ca_pusher_def ARRAY_BUFFER_SIZE_def)

lemma ca_merge_run:
  fixes xs :: "'a :: linorder list"
  assumes ok: "arr_ok T a s" "arr_ok T b s" and dj: "disjoint_arrays a b" "disjoint_arrays b a"
    and xs: "alist T a s = xs" and len: "left \<le> mid" "mid \<le> right" "right \<le> alen a" "alen b = alen a"
    and big: "ARRAY_BUFFER_SIZE < right - left"
  shows "makes2 T a b (ca_merge T junk a b left mid right) s
    (set_list left (merge_lists (take (mid - left) (drop left xs)) (take (right - mid) (drop mid xs))) xs)"
proof -
  define full half where "full = replicate ARRAY_BUFFER_SIZE junk" and "half = replicate (ARRAY_BUFFER_SIZE div 2) junk"
  define m n where "m = mid - left" and "n = right - mid"
  have B: "0 < ARRAY_BUFFER_SIZE div 2" "ARRAY_BUFFER_SIZE div 2 < 2 ^ 32" by (simp_all add: ARRAY_BUFFER_SIZE_def)
  have hl: "length half = ARRAY_BUFFER_SIZE div 2" by (simp add: half_def)
  have lq: "left \<le> alen a" "mid \<le> alen a" using len by linarith+
  obtain lp r1 s1 where 1: "pl_next T (ca_puller a (of_nat left) half (of_nat (ARRAY_BUFFER_SIZE div 2))) s = Some (Inr (lp, r1), s1)"
    "unchanged T a s s1" "pl_at a xs lp left"
    using ca_puller_run [OF ok(1) B lq(1) hl] xs by auto
  have ok1: "arr_ok T a s1" "alist T a s1 = xs" using 1(2) unchanged_alist [OF 1(2), of T a] xs by (simp_all add: unchanged_def)
  obtain rp r2 s2 where 2: "pl_next T (ca_puller a (of_nat mid) half (of_nat (ARRAY_BUFFER_SIZE div 2))) s1 = Some (Inr (rp, r2), s2)"
    "unchanged T a s1 s2" "pl_at a xs rp mid"
    using ca_puller_run [OF ok1(1) B lq(2) hl] ok1(2) by auto
  have "merging T a b xs s s"
    using ok xs by (auto simp: merging_def arr_ok_def intro: outside_same)
  then have m2: "merging T a b xs s s2" using merging_unchanged 1(2) 2(2) by blast
  have "length full = ARRAY_BUFFER_SIZE" "ARRAY_BUFFER_SIZE \<le> alen b" using big len by (simp_all add: full_def)
  from ca_pusher_at [OF this(2,1)] have ps: "ps_at T b (ca_pusher b 0 full (of_nat ARRAY_BUFFER_SIZE)) [] s2" .
  have at: "pl_at a xs lp (left + 0)" "left + m \<le> alen a" "pl_at a xs rp (mid + 0)" "mid + n \<le> alen a"
    "length ([] :: 'a list) + (m - 0) + (n - 0) \<le> alen b" "0 \<le> m" "0 \<le> n"
    using 1(3) 2(3) len by (simp_all add: m_def n_def)
  from merge_pull_run [OF m2 dj(2) at(1-4) ps at(5-7)] obtain i j ps' lp' rp' s3 ws where
    3: "merge_pull T m n 0 0 (ca_pusher b 0 full (of_nat ARRAY_BUFFER_SIZE)) lp rp s2 = Some (Inr (i, j, ps', lp', rp'), s3)"
    "merging T a b xs s s3" "pl_at a xs lp' (left + i)" "pl_at a xs rp' (mid + j)" "ps_at T b ps' ws s3" "i \<le> m" "j \<le> n"
    "i = m \<or> j = n" "length ws + (m - i) + (n - j) \<le> alen b"
    "ws @ merge_lists (piece xs left m i) (piece xs mid n j) = merge_lists (piece xs left m 0) (piece xs mid n 0)"
    by (auto simp del: append_eq_append_conv)
  have lx: "length xs = alen a" using xs by auto
  have f: "length ws + (m - i) \<le> alen b" using 3(9) by simp
  from drain_pull_run [OF 3(2) dj(2) 3(3) at(2) 3(5) f] obtain ps4 s4 where
    4: "drain_pull T m i ps' lp' s3 = Some (Inr ps4, s4)" "merging T a b xs s s4" "ps_at T b ps4 (ws @ piece xs left m i) s4"
    by auto
  have f: "length (ws @ piece xs left m i) + (n - j) \<le> alen b"
    using 3(9) at(2) by (simp add: length_piece lx)
  from drain_pull_run [OF 4(2) dj(2) 3(4) at(4) 4(3) f] obtain ps5 s5 where
    5: "drain_pull T n j ps4 rp' s4 = Some (Inr ps5, s5)" "merging T a b xs s s5"
      "ps_at T b ps5 (ws @ piece xs left m i @ piece xs mid n j) s5"
    by auto
  define zs where "zs = merge_lists (take m (drop left xs)) (take n (drop mid xs))"
  have zs: "ws @ piece xs left m i @ piece xs mid n j = zs"
    using 3(8,10) by (auto simp: zs_def piece_def)
  have lz: "length zs = right - left" using len lx by (simp add: zs_def m_def n_def)
  have "arr_ok T b s5" "length zs \<le> alen b" using 5(2) lz len by (simp_all add: merging_def)
  from ps_delete_run [OF this(1) 5(3) [unfolded zs] this(2)] obtain s6 where
    6: "ps_delete T ps5 s5 = Some (Inr (), s6)" "writes T b s5 s6" "take (length zs) (alist T b s6) = zs" by auto
  have m6: "merging T a b xs s s6" by (rule merging_writes [OF 5(2) 6(2) dj(2)])
  have w: "unat (of_nat left :: u32) = left" "unat (of_nat (right - left) :: u32) = right - left"
    using len unat_less_u32 [of "ca_size a"] by (simp_all add: unat_of_nat alen_def del: of_nat_diff)
  have mn: "min (of_nat (right - left)) (ca_size a - of_nat left) = (of_nat (right - left) :: u32)"
  proof -
    have "unat (ca_size a - of_nat left) = alen a - left"
      using lq(1) w(1) by (simp add: unat_sub word_le_nat_alt alen_def)
    then have "(of_nat (right - left) :: u32) \<le> ca_size a - of_nat left"
      unfolding word_le_nat_alt w(2) using len by simp
    then show ?thesis by (rule min_absorb1)
  qed
  have "makes T a (ca_copy T a (of_nat left) b 0 (of_nat (right - left)) (of_nat ARRAY_BUFFER_SIZE)) s6
      (set_list (unat (of_nat left :: u32)) (take (unat (of_nat (right - left) :: u32)) (drop (unat (0 :: u32)) (alist T b s6))) xs)"
  proof (rule ca_copy_run)
    show "unat (of_nat left :: u32) + unat (of_nat (right - left) :: u32) \<le> alen a"
      "unat (0 :: u32) + unat (of_nat (right - left) :: u32) \<le> alen b"
      unfolding w using len by simp_all
  qed (use m6 dj in \<open>auto simp: merging_def ARRAY_BUFFER_SIZE_def\<close>)
  then have cp: "makes T a (ca_copy_slice T a (of_nat left) (ca_slice_of b 0 (of_nat (right - left))) (of_nat ARRAY_BUFFER_SIZE)) s6
      (set_list left zs xs)"
    using 6(3) lz by (simp add: ca_copy_slice_def ca_slice_of_def mn w)
  have "ca_merge T junk a b left mid right s =
      ca_copy_slice T a (of_nat left) (ca_slice_of b 0 (of_nat (right - left))) (of_nat ARRAY_BUFFER_SIZE) s6"
    using 1(1) 2(1) 3(1) 4(1) 5(1) 6(1)
    by (simp add: ca_merge_def Let_def act_simps flip: full_def half_def m_def n_def)
  moreover have "outside b s s6" "arr_ok T b s6" using m6 by (simp_all add: merging_def)
  ultimately show ?thesis
    using makes_makes2 [OF cp] outside2I(2) [of b s s6 a] outside2_trans [of a b s s6]
    by (auto simp: makes2_def zs_def m_def n_def)
qed


lemma merge_sort_range_run:
  fixes xs :: "'a :: linorder list"
  assumes "arr_ok T a s" and "arr_ok T b s" and dj: "disjoint_arrays a b" "disjoint_arrays b a"
    and "alist T a s = xs" and "l < r" and "r \<le> alen a" and "alen b = alen a"
  shows "makes2 T a b (merge_sort_range T junk a b l r) s (set_list l (sort (take (r - l) (drop l xs))) xs)"
  using assms(1,2,5-7)
proof (induction "r - l" arbitrary: l r s xs rule: less_induct)
  case less
  have len: "length xs = alen a" using less.prems(3) by auto
  have u: "unat (of_nat l :: u32) = l" "unat (of_nat (r - l) :: u32) = r - l"
    using less.prems(4,5) unat_less_u32 [of "ca_size a"] by (simp_all add: unat_of_nat alen_def del: of_nat_diff)
  show ?case
  proof (cases "r - l \<le> ARRAY_BUFFER_SIZE")
    case True
    define n where "n = (of_nat (r - l) :: u32)"
    have n: "unat n = r - l" by (simp only: n_def u)
    have b: "unat (of_nat l :: u32) + unat n \<le> alen a" "0 < unat n" using less.prems(4,5) by (simp_all add: u(1) n)
    have put: "makes T a (\<lambda>s. ca_setNb T a (of_nat l) (sort (take (unat n) (drop (unat (of_nat l :: u32)) xs))) n s) s'
        (set_list l (sort (take (r - l) (drop l xs))) xs)" if "arr_ok T a s'" "alist T a s' = xs" for s'
      using makes_setNb [OF that(1) b, of "sort (take (r - l) (drop l xs))"] that(2) less.prems(5) len
      by (simp add: u(1) n)
    have "makes T a (bnd (\<lambda>s. ca_getNb T a (of_nat l) n s) (\<lambda>buffer s. ca_setNb T a (of_nat l) (sort buffer) n s)) s
        (set_list l (sort (take (r - l) (drop l xs))) xs)"
      by (rule makes_take [OF less.prems(1,3) b]) (rule put)
    then show ?thesis
      using True makes_makes2 [OF _ less.prems(2)]
      by (subst merge_sort_range.simps) (simp add: n_def)
  next
    case False
    define mid where "mid = l + (r - l) div 2"
    have mid: "l < mid" "mid < r" "r - mid < r - l" "mid - l < r - l"
      using False by (auto simp: mid_def ARRAY_BUFFER_SIZE_def)
    define L R where "L = sort (take (mid - l) (drop l xs))" and "R = sort (take (r - mid) (drop mid xs))"
    have ll: "length L = mid - l" "length R = r - mid" using mid less.prems(5) len by (simp_all add: L_def R_def)
    let ?x1 = "set_list l L xs"
    let ?x2 = "set_list mid R ?x1"
    have d: "take (r - mid) (drop mid ?x1) = take (r - mid) (drop mid xs)"
      using mid ll less.prems(5) len by (simp add: set_list_def)
    have x2: "?x2 = set_list l (L @ R) xs"
      using set_list_append [of l L R xs] mid ll less.prems(5) len by simp
    have w: "take (mid - l) (drop l ?x2) = L" "take (r - mid) (drop mid ?x2) = R"
      using mid ll less.prems(5) len unfolding x2 by (simp_all add: set_list_def)
    have "take (r - l) (drop l xs) = take (mid - l) (drop l xs) @ take (r - mid) (drop mid xs)"
      using take_add [of "mid - l" "r - mid" "drop l xs"] mid by (simp add: add.commute)
    then have m: "merge_lists L R = sort (take (r - l) (drop l xs))"
      by (simp add: L_def R_def merge_lists_sort)
    have x3: "set_list l (merge_lists L R) ?x2 = set_list l (merge_lists L R) xs"
      unfolding x2 using mid ll less.prems(5) len by (simp add: set_list_def)
    have "makes2 T a b (bnd (merge_sort_range T junk a b l mid) (\<lambda>_. bnd (merge_sort_range T junk a b mid r)
        (\<lambda>_. ca_merge T junk a b l mid r))) s (set_list l (merge_lists L R) ?x2)"
    proof (intro makes2_bnd)
      show "makes2 T a b (merge_sort_range T junk a b l mid) s ?x1"
        using less.hyps [OF mid(4) less.prems(1-3) mid(1)] mid less.prems(5) by (simp add: L_def)
      show "makes2 T a b (merge_sort_range T junk a b mid r) s1 ?x2"
        if "arr_ok T a s1" "arr_ok T b s1" "alist T a s1 = ?x1" for s1
        using less.hyps [OF mid(3) that mid(2) less.prems(5)] by (simp add: R_def d)
      show "makes2 T a b (ca_merge T junk a b l mid r) s2 (set_list l (merge_lists L R) ?x2)"
        if "arr_ok T a s2" "arr_ok T b s2" "alist T a s2 = ?x2" for s2
        using ca_merge_run [OF that(1,2) dj that(3) _ _ less.prems(5) assms(8), of l mid junk] mid False by (simp add: w)
    qed
    then show ?thesis
      unfolding x3 unfolding m
      using False by (subst merge_sort_range.simps) (simp add: Let_def flip: mid_def)
  qed
qed

text \<open>
  C21. The merge sort of an array in the cache, given an auxiliary array of the same length that does
  not overlap it, returns and leaves the sorted list of its elements, reading and writing both arrays
  through buffers of a bounded size; no byte outside the two arrays changes.
\<close>

theorem merge_array_sorted:
  assumes "arr_ok T a s" and "arr_ok T aux s" and "disjoint_arrays a aux" and "disjoint_arrays aux a"
    and "0 < alen a" and "alen aux = alen a"
  shows "returns (merge_sort_range T junk a aux 0 (unat (ca_size a))) s (\<lambda>_ s'.
    alist T a s' = sort (alist T a s) \<and> arr_ok T a s' \<and> arr_ok T aux s' \<and> outside2 a aux s s')"
proof -
  have "makes2 T a aux (merge_sort_range T junk a aux 0 (alen a)) s (set_list 0 (sort (take (alen a - 0) (drop 0 (alist T a s)))) (alist T a s))"
    by (rule merge_sort_range_run [OF assms(1-4) refl assms(5) order_refl assms(6)])
  then show ?thesis by (auto simp: makes2_def returns_def set_list_def alen_def)
qed

theorem merge_array_sorted_witness:
  "returns (merge_sort_range byte_elem 0 demo_array demo_aux 0 6) demo_state
     (\<lambda>_ s'. alist byte_elem demo_array s' = [2, 3, 4, 7, 8, 9])"
proof -
  have "unat (ca_size demo_array) = 6" by (simp add: demo_array_def)
  with merge_array_sorted [OF demo_arrays, of 0] show ?thesis
    by (auto simp: demo_list demo_lengths elim!: returns_mono)
qed


section \<open>Comparing and printing\<close>

text \<open>
  \<^verbatim>\<open>equals\<close> tells whether the vector is a prefix of the array: the lengths are not compared.
\<close>

lemma equals_loop_run:
  assumes "arr_ok T a s" and "alist T a s = xs" and "pl_at a xs p q" and "q + length vec \<le> alen a"
  shows "\<exists>s'. equals_loop T vec p s = Some (Inr (vec = take (length vec) (drop q xs)), s') \<and> unchanged T a s s'"
  using assms
proof (induction vec arbitrary: p q s)
  case Nil
  then show ?case using unchanged_refl [OF Nil(1)] by (simp add: act_simps)
next
  case (Cons x vec)
  have q: "q < alen a" using Cons.prems(4) by simp
  have len: "length xs = alen a" using Cons.prems(2) by auto
  then have d: "drop q xs = xs ! q # drop (Suc q) xs" using q by (simp add: Cons_nth_drop_Suc)
  note c = pl_current_run [OF Cons.prems(3) q len]
  show ?case
  proof (cases "x = xs ! q")
    case False
    then show ?thesis using c unchanged_refl [OF Cons.prems(1)] by (auto simp: act_simps d)
  next
    case True
    from pl_next_run [OF Cons.prems(1-3) q] obtain p' r s1 where
      1: "pl_next T p s = Some (Inr (p', r), s1)" "unchanged T a s s1" "pl_at a xs p' (Suc q)" by auto
    have "arr_ok T a s1" "alist T a s1 = xs"
      using 1(2) Cons.prems(2) unchanged_alist [OF 1(2), of T a] by (simp_all add: unchanged_def)
    from Cons.IH [OF this 1(3)] Cons.prems(4) obtain s2 where
      "equals_loop T vec p' s1 = Some (Inr (vec = take (length vec) (drop (Suc q) xs)), s2)" "unchanged T a s1 s2" by auto
    then show ?thesis using True c 1(1) unchanged_trans [OF 1(2)] by (auto simp: act_simps d)
  qed
qed

lemma ca_equals_prefix:
  assumes "arr_ok T a s" and "length vec \<le> alen a" and "0 < n" and "n < 2 ^ 32" and "length buffer = n"
  shows "\<exists>s'. ca_equals T a vec buffer (of_nat n) s = Some (Inr (vec = take (length vec) (alist T a s)), s') \<and>
    unchanged T a s s'"
proof -
  from ca_puller_run [OF assms(1,3,4) _ assms(5), of 0] obtain p b s1 where
    1: "pl_next T (ca_puller a 0 buffer (of_nat n)) s = Some (Inr (p, b), s1)" "unchanged T a s s1" "pl_at a (alist T a s) p 0"
    by auto
  have "arr_ok T a s1" "alist T a s1 = alist T a s"
    using 1(2) unchanged_alist [OF 1(2), of T a] by (simp_all add: unchanged_def)
  from equals_loop_run [OF this 1(3)] assms(2) unchanged_trans [OF 1(2)] 1(1) show ?thesis
    by (fastforce simp: ca_equals_def act_simps)
qed

end
