(* ===== verification/ArrayStream.thy ===== *)
theory ArrayStream
  imports CacheArray Stream
begin

text \<open>
  Sending an array over a stream and receiving one (\<^verbatim>\<open>array.cc\<close>): the size, the size of an element,
  then the bytes of the blocks and of the rest, a buffer of whole elements at a time. The state is the
  allocator of the machine and the stream.
\<close>

type_synonym wire = "allocator \<times> tcp_stream"

definition on_alloc :: "(allocator, 'a) act \<Rightarrow> (wire, 'a) act" where
  "on_alloc = zoom fst (\<lambda>t s. (t, snd s))"

definition on_wire :: "(tcp_stream, 'a) act \<Rightarrow> (wire, 'a) act" where
  "on_wire = zoom snd (\<lambda>t s. (fst s, t))"

text \<open>The loops end when the counter reaches the number of elements: never, with an empty buffer.\<close>

partial_function (option) sendBlock ::
  "u32 \<Rightarrow> segment \<Rightarrow> u32 \<Rightarrow> u32 \<Rightarrow> u32 \<Rightarrow> wire \<Rightarrow> (unit res \<times> wire) option"
where
  "sendBlock innerSize seg nbElements nbInBuffer i s =
     (if i < nbElements then
        bnd (on_alloc (alloc_read seg (i * innerSize) (nb_read nbElements i nbInBuffer * innerSize))) (\<lambda>buffer s.
        bnd (on_wire (inner_sendRaw buffer True)) (\<lambda>_ s.
        sendBlock innerSize seg nbElements nbInBuffer (i + nb_read nbElements i nbInBuffer) s) s) s
      else ret () s)"

partial_function (option) recvBlock ::
  "u32 \<Rightarrow> segment \<Rightarrow> u32 \<Rightarrow> u32 \<Rightarrow> u32 \<Rightarrow> wire \<Rightarrow> (unit res \<times> wire) option"
where
  "recvBlock innerSize seg nbElements nbInBuffer i s =
     (if i < nbElements then
        bnd (on_wire (inner_receiveRaw (unat (nb_read nbElements i nbInBuffer * innerSize)) True)) (\<lambda>r s.
        bnd (if fst r
             then on_alloc (alloc_write seg (snd r) (i * innerSize) (nb_read nbElements i nbInBuffer * innerSize))
             else ret ()) (\<lambda>_ s.
        recvBlock innerSize seg nbElements nbInBuffer (i + nb_read nbElements i nbInBuffer) s) s) s
      else ret () s)"

declare sendBlock.simps [code] recvBlock.simps [code]

text \<open>The blocks of the array in their order.\<close>

fun each_block :: "(u32 \<Rightarrow> (wire, unit) act) \<Rightarrow> u32 list \<Rightarrow> (wire, unit) act" where
  "each_block f [] = ret ()"
| "each_block f (i # is) = bnd (f i) (\<lambda>_. each_block f is)"

definition ca_send :: "cache_array \<Rightarrow> u32 \<Rightarrow> (wire, unit) act" where
  "ca_send a bufferSize =
     (if ca_innerSize a = 0 then throw Undefined
      else let nb = bufferSize div ca_innerSize a; D = ca_sizeDividePerBlock a in
        bnd (on_wire (sendU32 (ca_size a) True)) (\<lambda>_.
        bnd (on_wire (sendU32 (ca_innerSize a) True)) (\<lambda>_.
        bnd (each_block (\<lambda>i s. sendBlock (ca_innerSize a) (block_segment a i) D nb 0 s) (block_indices a)) (\<lambda>_ s.
        sendBlock (ca_innerSize a) (ca_rest a) (ca_size a - ca_nbBlocks a * D) nb 0 s))))"

text \<open>The array that was there is disposed of; the result is the array received.\<close>

definition ca_recv :: "cache_array \<Rightarrow> u32 \<Rightarrow> (wire, cache_array) act" where
  "ca_recv a bufferSize =
     bnd (on_wire receiveU32) (\<lambda>size.
     bnd (on_wire receiveU32) (\<lambda>innerSize.
     bnd (on_alloc (ca_dispose a)) (\<lambda>a.
     bnd (on_alloc (ca_allocate size innerSize a)) (\<lambda>a.
     if innerSize = 0 then throw Undefined
     else let nb = bufferSize div innerSize; D = ca_sizeDividePerBlock a in
       bnd (each_block (\<lambda>i s. recvBlock innerSize (block_segment a i) D nb 0 s) (block_indices a)) (\<lambda>_.
       bnd (\<lambda>s. recvBlock innerSize (ca_rest a) (ca_size a - ca_nbBlocks a * D) nb 0 s) (\<lambda>_. ret a))))))"

end
