(* ===== verification/CacheList.thy ===== *)
theory CacheList
  imports ArrayStream
begin

text \<open>
  \<^verbatim>\<open>memory/cache/collection/list.hh\<close> and \<^verbatim>\<open>list.cc\<close>: lists of a trivially copied type that grow at their end,
  a block of the allocator at a time; and \<^verbatim>\<open>box.hh\<close>. A list is the record of its members; an operation takes it and
  returns it with the state of the allocator. (\<^verbatim>\<open>get\<close> of one element returns a value from a \<^verbatim>\<open>void\<close>
  function and \<^verbatim>\<open>move\<close> is not defined anywhere: no program can call them.)
\<close>

section \<open>Lists\<close>

record cache_list =
  cl_metadata :: "u32 list"
  cl_size :: u32
  cl_innerSize :: u32
  cl_allocable :: u32

definition cl_empty :: cache_list where
  "cl_empty = \<lparr>cl_metadata = [], cl_size = 0, cl_innerSize = 0, cl_allocable = 0\<rparr>"

text \<open>The segment that \<^verbatim>\<open>allocate\<close> does not set when it fails is used all the same.\<close>

definition cl_grow :: "cache_list \<Rightarrow> (allocator, cache_list) act" where
  "cl_grow l = bnd (allocate (cl_allocable l) True False) (\<lambda>seg. case seg of
     None \<Rightarrow> throw Undefined
   | Some seg \<Rightarrow> ret (l\<lparr>cl_metadata := cl_metadata l @ [blockAddr seg]\<rparr>))"

fun grow_blocks :: "nat \<Rightarrow> cache_list \<Rightarrow> (allocator, cache_list) act" where
  "grow_blocks 0 l = ret l"
| "grow_blocks (Suc n) l = bnd (cl_grow l) (\<lambda>l. grow_blocks n l)"

definition cl_new :: "u32 \<Rightarrow> u32 \<Rightarrow> (allocator, cache_list) act" where
  "cl_new nbBlocks innerSize =
     bnd (grow_blocks (unat nbBlocks) \<lparr>cl_metadata = [], cl_size = 0, cl_innerSize = innerSize, cl_allocable = 0\<rparr>) (\<lambda>l.
     bnd (gets (\<lambda>s. al_max_allocable s - 4)) (\<lambda>al.
     if innerSize = 0 then throw Undefined
     else ret (l\<lparr>cl_allocable := (al - al mod innerSize) div innerSize\<rparr>)))"

definition cacheArrayList :: "'a trivial \<Rightarrow> (allocator, cache_list) act" where
  "cacheArrayList T = cl_new 0 (tsize T)"

definition cl_len :: "cache_list \<Rightarrow> u32" where
  "cl_len l = cl_size l"

definition cl_nbBlocks :: "cache_list \<Rightarrow> u32" where
  "cl_nbBlocks l = of_nat (length (cl_metadata l))"

fun free_each :: "u32 list \<Rightarrow> (allocator, unit) act" where
  "free_each [] = ret ()"
| "free_each (it # its) = bnd (freeFast it) (\<lambda>_. free_each its)"

definition cl_dispose :: "cache_list \<Rightarrow> (allocator, cache_list) act" where
  "cl_dispose l = bnd (free_each (cl_metadata l)) (\<lambda>_. ret (l\<lparr>cl_metadata := [], cl_size := 0\<rparr>))"

section \<open>Access\<close>

definition list_index :: "cache_list \<Rightarrow> u32 \<Rightarrow> u32" where
  "list_index l i = i div cl_allocable l"

definition list_offset :: "cache_list \<Rightarrow> u32 \<Rightarrow> u32" where
  "list_offset l i = i - list_index l i * cl_allocable l"

definition list_segment :: "u32 \<Rightarrow> segment" where
  "list_segment bl = \<lparr>blockAddr = bl, offset = ALLOC_HEAD_SIZE\<rparr>"

text \<open>\<^verbatim>\<open>_metadata [index]\<close>, where \<open>list_index\<close> divides by \<^verbatim>\<open>_allocable\<close>.\<close>

definition list_block :: "cache_list \<Rightarrow> u32 \<Rightarrow> u32 res" where
  "list_block l i =
     (if cl_allocable l = 0 then Inl Undefined
      else if unat (list_index l i) < length (cl_metadata l) then Inr (cl_metadata l ! unat (list_index l i))
      else Inl Undefined)"

text \<open>The exceptions of \<^verbatim>\<open>set\<close> and \<^verbatim>\<open>setNb\<close> are made but not thrown.\<close>

definition cl_set :: "'a trivial \<Rightarrow> cache_list \<Rightarrow> u32 \<Rightarrow> 'a \<Rightarrow> (allocator, unit) act" where
  "cl_set T l i val = bnd (lift_res (list_block l i)) (\<lambda>bl.
     alloc_write (list_segment bl) (enc T val) (list_offset l i * tsize T) (tsize T))"

definition list_rest :: "cache_list \<Rightarrow> u32 \<Rightarrow> u32 \<Rightarrow> u32" where
  "list_rest l i nb = nb + list_offset l i - cl_allocable l"

definition leaves_block :: "cache_list \<Rightarrow> u32 \<Rightarrow> u32 \<Rightarrow> bool" where
  "leaves_block l i nb \<longleftrightarrow> cl_allocable l < nb + list_offset l i"

partial_function (option) cl_setNb ::
  "'a trivial \<Rightarrow> cache_list \<Rightarrow> u32 \<Rightarrow> 'a list \<Rightarrow> u32 \<Rightarrow> allocator \<Rightarrow> (unit res \<times> allocator) option"
where
  "cl_setNb T l i buffer nb s =
     bnd (lift_res (list_block l i)) (\<lambda>bl s.
     if leaves_block l i nb then
       bnd (alloc_write (list_segment bl) (store_elems T buffer) (list_offset l i * tsize T)
             (tsize T * (nb - list_rest l i nb))) (\<lambda>_ s.
       cl_setNb T l (i + (nb - list_rest l i nb)) (drop (unat (nb - list_rest l i nb)) buffer) (list_rest l i nb) s) s
     else alloc_write (list_segment bl) (store_elems T buffer) (list_offset l i * tsize T) (tsize T * nb) s) s"

partial_function (option) cl_getNb ::
  "'a trivial \<Rightarrow> cache_list \<Rightarrow> u32 \<Rightarrow> u32 \<Rightarrow> allocator \<Rightarrow> ('a list res \<times> allocator) option"
where
  "cl_getNb T l i nb s =
     (if cl_allocable l = 0 then throw Undefined s
      else if length (cl_metadata l) \<le> unat (list_index l i) then throw (RuntimeError ''Out of bounds'') s
      else bnd (lift_res (list_block l i)) (\<lambda>bl s.
        if leaves_block l i nb then
          bnd (alloc_read (list_segment bl) (list_offset l i * tsize T) (tsize T * (nb - list_rest l i nb))) (\<lambda>bs s.
          bnd (\<lambda>s. cl_getNb T l (i + (nb - list_rest l i nb)) (list_rest l i nb) s) (\<lambda>rest.
          ret (load_elems T (unat (nb - list_rest l i nb)) bs @ rest)) s) s
        else
          bnd (alloc_read (list_segment bl) (list_offset l i * tsize T) (tsize T * nb)) (\<lambda>bs.
          ret (load_elems T (unat nb) bs)) s) s)"

section \<open>Growing\<close>

definition grow_if_full :: "cache_list \<Rightarrow> (allocator, cache_list) act" where
  "grow_if_full l =
     (if cl_allocable l = 0 then throw Undefined
      else if length (cl_metadata l) \<le> unat (list_index l (cl_size l)) then cl_grow l
      else ret l)"

definition cl_push :: "'a trivial \<Rightarrow> cache_list \<Rightarrow> 'a \<Rightarrow> (allocator, cache_list) act" where
  "cl_push T l val =
     bnd (grow_if_full l) (\<lambda>g.
     bnd (lift_res (list_block g (cl_size l))) (\<lambda>bl.
     bnd (alloc_write (list_segment bl) (enc T val) (list_offset l (cl_size l) * tsize T) (tsize T)) (\<lambda>_.
     ret (g\<lparr>cl_size := cl_size l + 1\<rparr>))))"

partial_function (option) cl_pushNb ::
  "'a trivial \<Rightarrow> cache_list \<Rightarrow> 'a list \<Rightarrow> u32 \<Rightarrow> allocator \<Rightarrow> (cache_list res \<times> allocator) option"
where
  "cl_pushNb T l buffer nb s =
     bnd (grow_if_full l) (\<lambda>g s.
     bnd (lift_res (list_block g (cl_size l))) (\<lambda>bl s.
     if leaves_block l (cl_size l) nb then
       bnd (alloc_write (list_segment bl) (store_elems T buffer) (list_offset l (cl_size l) * tsize T)
             (tsize T * (nb - list_rest l (cl_size l) nb))) (\<lambda>_ s.
       cl_pushNb T (g\<lparr>cl_size := cl_size l + (nb - list_rest l (cl_size l) nb)\<rparr>)
         (drop (unat (nb - list_rest l (cl_size l) nb)) buffer) (list_rest l (cl_size l) nb) s) s
     else
       bnd (alloc_write (list_segment bl) (store_elems T buffer) (list_offset l (cl_size l) * tsize T) (tsize T * nb)) (\<lambda>_.
       ret (g\<lparr>cl_size := cl_size l + nb\<rparr>)) s) s) s"

declare cl_setNb.simps [code] cl_getNb.simps [code] cl_pushNb.simps [code]

definition cl_pushOrSetNb :: "'a trivial \<Rightarrow> cache_list \<Rightarrow> u32 \<Rightarrow> 'a list \<Rightarrow> u32 \<Rightarrow> (allocator, cache_list) act" where
  "cl_pushOrSetNb T l i buffer nb =
     (if i < cl_size l then
        let before = (if nb < cl_size l - i then nb else cl_size l - i); after = nb - before in
        bnd (\<lambda>s. cl_setNb T l i buffer before s) (\<lambda>_.
        if after \<noteq> 0 then (\<lambda>s. cl_pushNb T l (drop (unat before) buffer) after s) else ret l)
      else (\<lambda>s. cl_pushNb T l buffer nb s))"

section \<open>Readers and writers\<close>

text \<open>The list they belong to is given to each of their operations.\<close>

record 'a list_cursor =
  lc_beg :: u32
  lc_i :: u32
  lc_buffer :: "'a list"
  lc_bufferSize :: u32

definition cl_puller :: "u32 \<Rightarrow> 'a list \<Rightarrow> u32 \<Rightarrow> 'a list_cursor" where
  "cl_puller start buffer bufferSize = \<lparr>lc_beg = start, lc_i = bufferSize - 1, lc_buffer = buffer, lc_bufferSize = bufferSize\<rparr>"

definition cl_pusher :: "u32 \<Rightarrow> 'a list \<Rightarrow> u32 \<Rightarrow> 'a list_cursor" where
  "cl_pusher start buffer bufferSize = \<lparr>lc_beg = start, lc_i = 0, lc_buffer = buffer, lc_bufferSize = bufferSize\<rparr>"

definition lp_current :: "'a list_cursor \<Rightarrow> (allocator, 'a) act" where
  "lp_current p = (if unat (lc_i p) < length (lc_buffer p) then ret (lc_buffer p ! unat (lc_i p)) else throw Undefined)"

definition lp_retreive :: "'a trivial \<Rightarrow> cache_list \<Rightarrow> 'a list_cursor \<Rightarrow> (allocator, 'a list_cursor \<times> bool) act" where
  "lp_retreive T l p =
     (let r = min (lc_bufferSize p) (cl_size l - lc_beg p) in
      if r = 0 then ret (p, False)
      else bnd (\<lambda>s. cl_getNb T l (lc_beg p) r s) (\<lambda>els.
        if length (lc_buffer p) < unat r then throw Undefined
        else ret (p\<lparr>lc_buffer := els @ drop (unat r) (lc_buffer p), lc_beg := lc_beg p + r, lc_bufferSize := r, lc_i := 0\<rparr>, True)))"

definition lp_next :: "'a trivial \<Rightarrow> cache_list \<Rightarrow> 'a list_cursor \<Rightarrow> (allocator, 'a list_cursor \<times> bool) act" where
  "lp_next T l p =
     (let p = p\<lparr>lc_i := lc_i p + 1\<rparr> in
      if lc_bufferSize p \<le> lc_i p then lp_retreive T l p else ret (p, True))"

definition ls_commitForce :: "'a trivial \<Rightarrow> cache_list \<Rightarrow> 'a list_cursor \<Rightarrow> (allocator, cache_list \<times> 'a list_cursor) act" where
  "ls_commitForce T l p =
     bnd (cl_pushOrSetNb T l (lc_beg p) (lc_buffer p) (lc_i p)) (\<lambda>l.
     ret (l, p\<lparr>lc_beg := lc_beg p + lc_i p, lc_i := 0\<rparr>))"

definition ls_commit :: "'a trivial \<Rightarrow> cache_list \<Rightarrow> 'a list_cursor \<Rightarrow> (allocator, cache_list \<times> 'a list_cursor) act" where
  "ls_commit T l p = (if lc_i p \<noteq> 0 then ls_commitForce T l p else ret (l, p))"

definition ls_push :: "'a trivial \<Rightarrow> cache_list \<Rightarrow> 'a list_cursor \<Rightarrow> 'a \<Rightarrow> (allocator, cache_list \<times> 'a list_cursor) act" where
  "ls_push T l p val =
     (if length (lc_buffer p) \<le> unat (lc_i p) then throw Undefined
      else let p = p\<lparr>lc_buffer := (lc_buffer p)[unat (lc_i p) := val], lc_i := lc_i p + 1\<rparr> in
        if lc_bufferSize p \<le> lc_i p then ls_commit T l p else ret (l, p))"

text \<open>The destructor.\<close>

definition ls_delete :: "'a trivial \<Rightarrow> cache_list \<Rightarrow> 'a list_cursor \<Rightarrow> (allocator, cache_list) act" where
  "ls_delete T l p = (if lc_i p \<noteq> 0 then bnd (ls_commitForce T l p) (\<lambda>(l, _). ret l) else ret l)"

text \<open>The output operator.\<close>

fun print_list :: "'a trivial \<Rightarrow> ('a \<Rightarrow> string) \<Rightarrow> cache_list \<Rightarrow> nat \<Rightarrow> bool \<Rightarrow> string \<Rightarrow> 'a list_cursor \<Rightarrow> (allocator, string) act" where
  "print_list T show l 0 first out p = ret out"
| "print_list T show l (Suc n) first out p =
     bnd (lp_current p) (\<lambda>c.
     bnd (lp_next T l p) (\<lambda>(p, _).
     print_list T show l n False (out @ (if first then [] else '', '') @ show c) p))"

definition cl_print :: "'a trivial \<Rightarrow> ('a \<Rightarrow> string) \<Rightarrow> cache_list \<Rightarrow> 'a list \<Rightarrow> (allocator, string) act" where
  "cl_print T show l buffer =
     (if tsize T = 0 then throw Undefined
      else bnd (lp_next T l (cl_puller 0 buffer (8192 div tsize T))) (\<lambda>(p, _).
        bnd (print_list T show l (unat (cl_len l)) True ''['' p) (\<lambda>out. ret (out @ '']''))))"

section \<open>Sending\<close>

text \<open>Every block is sent whole, up to \<^verbatim>\<open>_allocable\<close> elements, whatever the length of the list.\<close>

fun send_blocks :: "cache_list \<Rightarrow> u32 \<Rightarrow> u32 list \<Rightarrow> (wire, unit) act" where
  "send_blocks l nbInBuffer [] = ret ()"
| "send_blocks l nbInBuffer (bl # bls) =
     bnd (\<lambda>s. sendBlock (cl_innerSize l) (list_segment bl) (cl_allocable l) nbInBuffer 0 s) (\<lambda>_. send_blocks l nbInBuffer bls)"

definition cl_send :: "cache_list \<Rightarrow> u32 \<Rightarrow> (wire, unit) act" where
  "cl_send l bufferSize =
     (if cl_innerSize l = 0 then throw Undefined
      else bnd (on_wire (sendU32 (cl_size l) True)) (\<lambda>_.
        bnd (on_wire (sendU32 (cl_innerSize l) True)) (\<lambda>_.
        send_blocks l (bufferSize div cl_innerSize l) (cl_metadata l))))"

section \<open>Boxes\<close>

text \<open>\<^verbatim>\<open>box.hh\<close>: one value in a segment. A box that is not allocated ends the program, which is \<open>None\<close> here.\<close>

definition box_new :: "'a trivial \<Rightarrow> (allocator, segment) act" where
  "box_new T = bnd (allocate (tsize T) False True) (\<lambda>seg. case seg of
     Some seg \<Rightarrow> ret seg
   | None \<Rightarrow> (\<lambda>_. None))"

definition box_write :: "'a trivial \<Rightarrow> segment \<Rightarrow> 'a \<Rightarrow> (allocator, unit) act" where
  "box_write T box t = alloc_write box (enc T t) 0 (tsize T)"

definition box_read :: "'a trivial \<Rightarrow> segment \<Rightarrow> (allocator, 'a) act" where
  "box_read T box = bnd (alloc_read box 0 (tsize T)) (\<lambda>bs. ret (dec T bs))"

definition box_delete :: "segment \<Rightarrow> (allocator, segment) act" where
  "box_delete box = bnd (free box) (\<lambda>_. ret \<lparr>blockAddr = 0, offset = 0\<rparr>)"

text \<open>What is written in a box is read back, whatever is paged out, and no other byte changes.\<close>

lemma box_roundtrip:
  assumes "al_inv s" "\<not> al_locked s" "trivial_ok T" "block_at s (blockAddr box) = Some m"
    "unat (offset box) + unat (tsize T) \<le> length m"
  shows "\<exists>s1 s2. box_write T box x s = Some (Inr (), s1) \<and> box_read T box s1 = Some (Inr x, s2) \<and>
    block_at s2 = (block_at s)(blockAddr box \<mapsto> splice (unat (offset box)) (enc T x) m)"
proof -
  have e: "length (enc T x) = unat (tsize T)" "dec T (enc T x) = x" using assms(3) by (simp_all add: trivial_ok_def)
  obtain s1 where s1: "box_write T box x s = Some (Inr (), s1)" "al_inv s1" "\<not> al_locked s1"
    "block_at s1 = (block_at s)(blockAddr box \<mapsto> splice (unat (offset box)) (enc T x) m)"
    using alloc_write_run [OF assms(1,2,4), of "unat (offset box)" 0 "enc T x" "tsize T"] assms(5) e by (auto simp: box_write_def)
  have at: "block_at s1 (blockAddr box) = Some (splice (unat (offset box)) (enc T x) m)" by (simp add: s1(4))
  have fits: "unat (offset box) + unat (tsize T) \<le> length (splice (unat (offset box)) (enc T x) m)"
    using assms(5) e by (simp add: length_splice)
  have "take (unat (tsize T)) (drop (unat (offset box)) (splice (unat (offset box)) (enc T x) m)) = enc T x"
    using assms(5) e by (simp add: splice_def)
  then obtain s2 where "box_read T box s1 = Some (Inr x, s2)" "block_at s2 = block_at s1"
    using alloc_read_run [OF s1(2,3) at, of "unat (offset box)" 0 "tsize T"] fits e by (auto simp: box_read_def act_simps)
  then show ?thesis using s1(1,4) by auto
qed

end
