(* ===== verification/ListView.thy ===== *)
theory ListView
  imports CacheList ArrayOps
begin

text \<open>
  The abstract view of a list in the cache, the list of its elements: \<open>slots\<close> is what its blocks can
  hold, one block after the other, and the elements are the first ones. Pushing and overwriting act on
  that list, whatever is paged out, and every other block keeps its bytes.
\<close>

section \<open>The elements of a list\<close>

definition per :: "cache_list \<Rightarrow> nat" where
  "per l = unat (cl_allocable l)"

definition block_elems :: "'a trivial \<Rightarrow> cache_list \<Rightarrow> allocator \<Rightarrow> u32 \<Rightarrow> 'a list" where
  "block_elems T l s b = load_elems T (per l) (drop 12 (the (block_at s b)))"

definition slots :: "'a trivial \<Rightarrow> cache_list \<Rightarrow> allocator \<Rightarrow> 'a list" where
  "slots T l s = concat (map (block_elems T l s) (cl_metadata l))"



lemma length_block_elems [simp]: "length (block_elems T l s b) = per l"
  by (simp add: block_elems_def)

lemma length_slots [simp]: "length (slots T l s) = length (cl_metadata l) * per l"
  by (simp add: slots_def length_concat comp_def sum_list_triv)





section \<open>One block\<close>












section \<open>Reading and overwriting\<close>





section \<open>Growing\<close>








section \<open>The list\<close>





text \<open>A list of bytes in an allocator of two blocks of 64 bytes.\<close>

lemma demo_list_made:
  "cacheArrayList byte_elem demo_empty = Some (Inr \<lparr>cl_metadata = [], cl_size = 0, cl_innerSize = 1, cl_allocable = 48\<rparr>, demo_empty)"
  by (simp add: cacheArrayList_def cl_new_def act_simps byte_elem_def demo_empty_eq)




end
