(* ===== verification/FlatString.thy ===== *)
theory FlatString
  imports Prelude
begin

text \<open>
  \<^verbatim>\<open>memory/cache/collection/str.hh\<close>: a text of less than \<^verbatim>\<open>N\<close> characters in an array of \<^verbatim>\<open>N\<close>. A \<^verbatim>\<open>const char *\<close> is
  the memory it points to, up to its end; reading behind that is \<open>Undefined\<close>.
\<close>

record flat_string =
  fs_value :: string
  fs_len :: u32

abbreviation NUL :: char where "NUL \<equiv> CHR 0x00"

text \<open>\<open>junk\<close> is what the members hold before; \<^verbatim>\<open>_len\<close> is not set by the default constructor.\<close>

definition flat_empty :: "flat_string \<Rightarrow> flat_string res" where
  "flat_empty junk = (if fs_value junk = [] then Inl Undefined else Inr (junk\<lparr>fs_value := (fs_value junk)[0 := NUL]\<rparr>))"

text \<open>The loop of the assignment from position \<open>i\<close>; the terminator goes behind the last character copied.\<close>

fun copy_chars :: "nat \<Rightarrow> string \<Rightarrow> string \<Rightarrow> flat_string res" where
  "copy_chars i buf value =
     (if i < length buf then
        (case value of
           [] \<Rightarrow> Inl Undefined
         | c # value \<Rightarrow>
             if c \<noteq> NUL then copy_chars (i + 1) (buf[i := c]) value
             else Inr \<lparr>fs_value = buf[i := NUL], fs_len = of_nat i\<rparr>)
      else Inl Undefined)"

declare copy_chars.simps [simp del]

definition flat_assign :: "flat_string \<Rightarrow> string \<Rightarrow> flat_string res" where
  "flat_assign fs value = copy_chars 0 (fs_value fs) value"

text \<open>A \<^verbatim>\<open>std::string\<close> gives its characters and a terminator.\<close>

definition flat_assign_str :: "flat_string \<Rightarrow> string \<Rightarrow> flat_string res" where
  "flat_assign_str fs cst = flat_assign fs (cst @ [NUL])"

definition flat_len :: "flat_string \<Rightarrow> u32" where
  "flat_len fs = fs_len fs"

definition flat_forceLen :: "u32 \<Rightarrow> flat_string \<Rightarrow> flat_string" where
  "flat_forceLen l fs = fs\<lparr>fs_len := l\<rparr>"

definition flat_at :: "flat_string \<Rightarrow> u32 \<Rightarrow> char res" where
  "flat_at fs i = (if unat i < length (fs_value fs) then Inr (fs_value fs ! unat i) else Inl Undefined)"

definition flat_put :: "flat_string \<Rightarrow> u32 \<Rightarrow> char \<Rightarrow> flat_string res" where
  "flat_put fs i c =
     (if unat i < length (fs_value fs) then Inr (fs\<lparr>fs_value := (fs_value fs)[unat i := c]\<rparr>) else Inl Undefined)"

fun flat_strcmp :: "string \<Rightarrow> string \<Rightarrow> int res" where
  "flat_strcmp (x # X) (y # Y) =
     (if x \<noteq> NUL \<and> x = y then flat_strcmp X Y else Inr (int (of_char x) - int (of_char y)))"
| "flat_strcmp X Y = Inl Undefined"

definition flat_inf :: "flat_string \<Rightarrow> string \<Rightarrow> bool res" where
  "flat_inf fs value = ebind (flat_strcmp (fs_value fs) value) (\<lambda>d. Inr (d < 0))"

definition flat_sup :: "flat_string \<Rightarrow> string \<Rightarrow> bool res" where
  "flat_sup fs value = ebind (flat_strcmp (fs_value fs) value) (\<lambda>d. Inr (0 < d))"

definition flat_eq :: "flat_string \<Rightarrow> string \<Rightarrow> bool res" where
  "flat_eq fs value = ebind (flat_strcmp (fs_value fs) value) (\<lambda>d. Inr (d = 0))"

definition flat_inf_eq :: "flat_string \<Rightarrow> string \<Rightarrow> bool res" where
  "flat_inf_eq fs value = ebind (flat_strcmp (fs_value fs) value) (\<lambda>d. Inr (d \<le> 0))"

definition flat_sup_eq :: "flat_string \<Rightarrow> string \<Rightarrow> bool res" where
  "flat_sup_eq fs value = ebind (flat_strcmp (fs_value fs) value) (\<lambda>d. Inr (0 \<le> d))"

text \<open>The output operator prints up to the terminator.\<close>

fun cstr :: "string \<Rightarrow> string res" where
  "cstr [] = Inl Undefined"
| "cstr (c # cs) = (if c = NUL then Inr [] else ebind (cstr cs) (\<lambda>s. Inr (c # s)))"

definition flat_print :: "flat_string \<Rightarrow> string res" where
  "flat_print fs = cstr (fs_value fs)"

section \<open>What a flat string holds\<close>

definition holds :: "flat_string \<Rightarrow> string \<Rightarrow> bool" where
  "holds fs s \<longleftrightarrow> NUL \<notin> set s \<and> (\<exists>rest. fs_value fs = s @ NUL # rest) \<and> fs_len fs = of_nat (length s)"

lemma copy_chars_run:
  "NUL \<notin> set s \<Longrightarrow> i + length s < length buf \<Longrightarrow>
   copy_chars i buf (s @ NUL # more_chars) = Inr \<lparr>fs_value = take i buf @ s @ NUL # drop (i + length s + 1) buf, fs_len = of_nat (i + length s)\<rparr>"
proof (induction s arbitrary: i buf)
  case Nil
  then show ?case by (subst copy_chars.simps) (simp add: upd_conv_take_nth_drop)
next
  case (Cons c s)
  then have "copy_chars (i + 1) (buf[i := c]) (s @ NUL # more_chars) =
      Inr \<lparr>fs_value = take (i + 1) (buf[i := c]) @ s @ NUL # drop (i + 1 + length s + 1) (buf[i := c]), fs_len = of_nat (i + 1 + length s)\<rparr>"
    by simp
  moreover have "take (i + 1) (buf[i := c]) = take i buf @ [c]" using Cons.prems(2) by (simp add: take_Suc_conv_app_nth)
  moreover have "c \<noteq> NUL" using Cons.prems(1) by auto
  ultimately show ?case using Cons.prems by (subst copy_chars.simps) simp
qed

lemma copy_chars_overflow:
  "NUL \<notin> set s \<Longrightarrow> length buf \<le> i + length s \<Longrightarrow> copy_chars i buf (s @ more_chars) = Inl Undefined"
proof (induction s arbitrary: i buf)
  case (Cons c s)
  moreover from Cons.prems have "c \<noteq> NUL" by auto
  ultimately show ?case by (subst copy_chars.simps) simp
qed (subst copy_chars.simps, simp)

lemma of_char_pos: "y \<noteq> NUL \<Longrightarrow> 0 < (of_char y :: nat)"
proof -
  assume "y \<noteq> NUL"
  then have "of_char y \<noteq> (of_char NUL :: nat)" by (simp only: of_char_eq_iff not_False_eq_True)
  then show ?thesis by simp
qed

lemma strcmp_run:
  "NUL \<notin> set a \<Longrightarrow> NUL \<notin> set b \<Longrightarrow>
   \<exists>d. flat_strcmp (a @ NUL # r) (b @ NUL # r') = Inr d \<and> (d = 0 \<longleftrightarrow> a = b) \<and>
     (d < 0 \<longleftrightarrow> ord_class.lexordp (map (of_char :: char \<Rightarrow> nat) a) (map of_char b))"
proof (induction a arbitrary: b)
  case Nil
  show ?case
  proof (cases b)
    case (Cons y b')
    then have "0 < (of_char y :: nat)" using Nil.prems(2) by (intro of_char_pos) auto
    then show ?thesis using Cons by simp
  qed simp
next
  case (Cons x a)
  show ?case
  proof (cases b)
    case Nil
    then have "0 < (of_char x :: nat)" using Cons.prems(1) by (intro of_char_pos) auto
    then show ?thesis using Nil by auto
  next
    case (Cons y b')
    have x: "x \<noteq> NUL" using Cons.prems(1) by auto
    show ?thesis
    proof (cases "x = y")
      case True
      then show ?thesis using Cons.IH [of b'] Cons.prems \<open>b = y # b'\<close> x by auto
    next
      case False
      then have "(of_char x :: nat) \<noteq> of_char y" by (simp only: of_char_eq_iff not_False_eq_True)
      then have "(of_char x :: nat) < of_char y \<or> (of_char y :: nat) < of_char x" by (simp only: neq_iff)
      then show ?thesis using False \<open>b = y # b'\<close> by auto
    qed
  qed
qed

text \<open>
  A text without NUL that is shorter than the array is kept, and the comparisons are those of the texts
  by their unsigned characters; a longer text writes its terminator outside of the array.
\<close>

lemma flat_string_assigned:
  assumes "NUL \<notin> set s"
  shows "flat_assign_str fs s = Inl Undefined \<and> length (fs_value fs) \<le> length s \<or>
    (\<exists>fs'. flat_assign_str fs s = Inr fs' \<and> holds fs' s \<and> length (fs_value fs') = length (fs_value fs) \<and> flat_print fs' = Inr s)"
proof (cases "length s < length (fs_value fs)")
  case True
  have "cstr (s @ NUL # rest) = Inr s" for rest using assms by (induction s) auto
  then show ?thesis using copy_chars_run [OF assms, of 0 "fs_value fs" "[]"] True assms
    by (auto simp: flat_assign_str_def flat_assign_def holds_def flat_print_def)
next
  case False
  then show ?thesis using copy_chars_overflow [OF assms, of "fs_value fs" 0 "[NUL]"]
    by (simp add: flat_assign_str_def flat_assign_def)
qed

lemma flat_string_order:
  assumes "holds fs a" and "NUL \<notin> set b"
  shows "flat_eq fs (b @ [NUL]) = Inr (a = b)"
    and "flat_inf fs (b @ [NUL]) = Inr (ord_class.lexordp (map (of_char :: char \<Rightarrow> nat) a) (map of_char b))"
proof -
  obtain rest where "fs_value fs = a @ NUL # rest" "NUL \<notin> set a" using assms(1) by (auto simp: holds_def)
  then show "flat_eq fs (b @ [NUL]) = Inr (a = b)"
    "flat_inf fs (b @ [NUL]) = Inr (ord_class.lexordp (map (of_char :: char \<Rightarrow> nat) a) (map of_char b))"
    using strcmp_run [of a b rest "[]"] assms(2) by (auto simp: flat_eq_def flat_inf_def)
qed

end
