(* ===== verification/LFQueue.thy ===== *)
theory LFQueue
  imports Prelude "HOL-Library.Multiset"
begin

text \<open>
  \<^verbatim>\<open>concurrency/queue.hh\<close>, the bounded queue without locks under \<^verbatim>\<open>lfmailbox.hh\<close>: any number of threads push
  and pop, and one step of a thread is one access to what they share. The steps of all threads are
  interleaved in one order (what the weaker memory orders of the code allow beyond that is not
  represented). A slot counts the pushes and the pops it has seen, the queue the tickets it gave to
  writers and readers: the ticket \<open>k\<close> is for the slot \<open>k mod size\<close>, in its round \<open>k div size\<close>.
\<close>

section \<open>The queue\<close>

record 'a lf_slot =
  sl_val :: 'a
  sl_pop :: u64
  sl_push :: u64

record 'a lf_queue =
  lf_data :: "'a lf_slot list"
  lf_r_count :: u64
  lf_w_count :: u64

definition lf_size :: "'a lf_queue \<Rightarrow> u64" where
  "lf_size q = of_nat (length (lf_data q))"

text \<open>\<open>junk\<close> is what the memory of the elements holds before.\<close>

definition queue_new :: "nat \<Rightarrow> 'a \<Rightarrow> 'a lf_queue" where
  "queue_new n junk = \<lparr>lf_data = replicate n \<lparr>sl_val = junk, sl_pop = 0, sl_push = 0\<rparr>, lf_r_count = 0, lf_w_count = 0\<rparr>"

text \<open>The two slots, and the two queues, after a move.\<close>

definition slot_assign :: "'a lf_slot \<Rightarrow> 'a lf_slot \<Rightarrow> 'a lf_slot \<times> 'a lf_slot" where
  "slot_assign this other =
     (this\<lparr>sl_val := sl_val other, sl_pop := sl_pop other, sl_push := sl_push other\<rparr>, other\<lparr>sl_pop := 0, sl_push := 0\<rparr>)"

definition queue_assign :: "'a lf_queue \<Rightarrow> 'a lf_queue \<Rightarrow> 'a lf_queue \<times> 'a lf_queue" where
  "queue_assign this other =
     (let moved = map2 slot_assign (lf_data this) (lf_data other) in
      (\<lparr>lf_data = map fst moved, lf_r_count = lf_r_count other, lf_w_count = lf_w_count other\<rparr>,
       \<lparr>lf_data = map snd moved, lf_r_count = 0, lf_w_count = 0\<rparr>))"

definition slot_index :: "'a lf_queue \<Rightarrow> u64 \<Rightarrow> nat" where
  "slot_index q w = unat (w mod lf_size q)"

abbreviation slot_at :: "'a lf_queue \<Rightarrow> u64 \<Rightarrow> 'a lf_slot" where
  "slot_at q w \<equiv> lf_data q ! slot_index q w"

definition put_slot :: "u64 \<Rightarrow> 'a lf_slot \<Rightarrow> 'a lf_queue \<Rightarrow> 'a lf_queue" where
  "put_slot w sl q = q\<lparr>lf_data := (lf_data q)[slot_index q w := sl]\<rparr>"

section \<open>The steps of a thread\<close>

text \<open>Where a thread is in \<^verbatim>\<open>Push\<close> or \<^verbatim>\<open>Pop\<close>, with its local variables.\<close>

datatype 'a lf_thread =
    Lf_idle
  | Push_load 'a
  | Push_read 'a u64
  | Push_read_pop 'a u64 u64
  | Push_cas 'a u64 u64
  | Push_store 'a u64 u64
  | Push_publish 'a u64 u64
  | Pushed bool
  | Pop_load
  | Pop_read u64
  | Pop_read_push u64 u64
  | Pop_cas u64 u64
  | Pop_take u64 u64
  | Pop_release u64 u64 'a
  | Popped "'a option"

text \<open>\<open>weak\<close> is whether a \<^verbatim>\<open>compare_exchange_weak\<close> fails without a reason.\<close>

fun lf_step :: "bool \<Rightarrow> 'a lf_thread \<Rightarrow> 'a lf_queue \<Rightarrow> 'a lf_thread \<times> 'a lf_queue" where
  "lf_step weak (Push_load e) q = (Push_read e (lf_w_count q), q)"
| "lf_step weak (Push_read e w) q = (Push_read_pop e w (sl_push (slot_at q w)), q)"
| "lf_step weak (Push_read_pop e w push) q =
     (if sl_pop (slot_at q w) < push then Pushed False
      else if w div lf_size q = push then Push_cas e w push
      else Push_load e, q)"
| "lf_step weak (Push_cas e w push) q =
     (if lf_w_count q = w \<and> \<not> weak then (Push_store e w push, q\<lparr>lf_w_count := w + 1\<rparr>)
      else (Push_read e (lf_w_count q), q))"
| "lf_step weak (Push_store e w push) q = (Push_publish e w push, put_slot w ((slot_at q w)\<lparr>sl_val := e\<rparr>) q)"
| "lf_step weak (Push_publish e w push) q = (Pushed True, put_slot w ((slot_at q w)\<lparr>sl_push := push + 1\<rparr>) q)"
| "lf_step weak Pop_load q = (Pop_read (lf_r_count q), q)"
| "lf_step weak (Pop_read r) q = (Pop_read_push r (sl_pop (slot_at q r)), q)"
| "lf_step weak (Pop_read_push r pop) q =
     (if pop = sl_push (slot_at q r) then Popped None
      else if r div lf_size q = pop then Pop_cas r pop
      else Pop_load, q)"
| "lf_step weak (Pop_cas r pop) q =
     (if lf_r_count q = r \<and> \<not> weak then (Pop_take r pop, q\<lparr>lf_r_count := r + 1\<rparr>)
      else (Pop_read (lf_r_count q), q))"
| "lf_step weak (Pop_take r pop) q = (Pop_release r pop (sl_val (slot_at q r)), q)"
| "lf_step weak (Pop_release r pop x) q = (Popped (Some x), put_slot r ((slot_at q r)\<lparr>sl_pop := pop + 1\<rparr>) q)"
| "lf_step weak pc q = (pc, q)"

text \<open>A call that runs without other threads, step by step.\<close>

fun lf_run :: "nat \<Rightarrow> 'a lf_thread \<Rightarrow> 'a lf_queue \<Rightarrow> 'a lf_thread \<times> 'a lf_queue" where
  "lf_run 0 pc q = (pc, q)"
| "lf_run (Suc n) pc q = (let (pc, q) = lf_step False pc q in lf_run n pc q)"

definition queue_push :: "'a \<Rightarrow> 'a lf_queue \<Rightarrow> bool \<times> 'a lf_queue" where
  "queue_push e q = (case lf_run 6 (Push_load e) q of (pc, q) \<Rightarrow> (pc = Pushed True, q))"

definition queue_pop :: "'a lf_queue \<Rightarrow> 'a option \<times> 'a lf_queue" where
  "queue_pop q = (case lf_run 6 Pop_load q of (pc, q) \<Rightarrow> ((case pc of Popped x \<Rightarrow> x | _ \<Rightarrow> None), q))"

section \<open>Mailboxes without a lock\<close>

text \<open>\<^verbatim>\<open>lfmailbox.hh\<close>. The answer of \<^verbatim>\<open>Push\<close> is dropped: a message to a full mailbox is lost.\<close>

definition lfmailbox_new :: "'a \<Rightarrow> 'a lf_queue" where
  "lfmailbox_new junk = queue_new 1024 junk"

definition lfmailbox_send :: "'a \<Rightarrow> 'a lf_queue \<Rightarrow> 'a lf_queue" where
  "lfmailbox_send v q = snd (queue_push v q)"

definition lfmailbox_receive :: "'a lf_queue \<Rightarrow> 'a option \<times> 'a lf_queue" where
  "lfmailbox_receive q = queue_pop q"

definition lfmailbox_dispose :: "'a \<Rightarrow> 'a lf_queue \<Rightarrow> 'a lf_queue" where
  "lfmailbox_dispose junk q = fst (queue_assign q (queue_new 1024 junk))"

section \<open>All interleavings\<close>

text \<open>
  The threads \<open>th\<close> call and step in any order. \<open>ins\<close> is the elements whose push took a ticket, in the order
  of the tickets, \<open>outs\<close> the tickets and elements of the pops that returned one. The tickets stay below
  \<open>2 ^ 64\<close>.
\<close>

fun given_ticket :: "bool \<Rightarrow> 'a lf_thread \<Rightarrow> 'a lf_queue \<Rightarrow> 'a list" where
  "given_ticket weak (Push_cas e w push) q = (if lf_w_count q = w \<and> \<not> weak then [e] else [])"
| "given_ticket weak _ q = []"

fun given_back :: "'a lf_thread \<Rightarrow> (nat \<times> 'a) list" where
  "given_back (Pop_release r pop x) = [(unat r, x)]"
| "given_back _ = []"

definition callable :: "'a lf_thread \<Rightarrow> bool" where
  "callable pc \<longleftrightarrow> (case pc of Lf_idle \<Rightarrow> True | Pushed _ \<Rightarrow> True | Popped _ \<Rightarrow> True | _ \<Rightarrow> False)"

inductive lf_reach :: "nat \<Rightarrow> 'a \<Rightarrow> 'a list \<Rightarrow> (nat \<times> 'a) list \<Rightarrow> (nat \<Rightarrow> 'a lf_thread) \<Rightarrow> 'a lf_queue \<Rightarrow> bool"
  for n junk
where
  lr_new: "2 < n \<Longrightarrow> n < 2 ^ 64 \<Longrightarrow> lf_reach n junk [] [] (\<lambda>_. Lf_idle) (queue_new n junk)"
| lr_push: "lf_reach n junk ins outs th q \<Longrightarrow> callable (th t) \<Longrightarrow> lf_reach n junk ins outs (th(t := Push_load e)) q"
| lr_pop: "lf_reach n junk ins outs th q \<Longrightarrow> callable (th t) \<Longrightarrow> lf_reach n junk ins outs (th(t := Pop_load)) q"
| lr_step: "lf_reach n junk ins outs th q \<Longrightarrow> unat (lf_w_count q) < 2 ^ 64 - 1 \<Longrightarrow> lf_step weak (th t) q = (pc, q') \<Longrightarrow>
    lf_reach n junk (ins @ given_ticket weak (th t) q) (outs @ given_back (th t)) (th(t := pc)) q'"

section \<open>The invariant\<close>

text \<open>
  In numbers: \<open>W\<close> and \<open>R\<close> tickets given, \<open>wr i\<close> and \<open>rd i\<close> pushes and pops that slot \<open>i\<close> has seen, \<open>va i\<close> its
  element. A ticket \<open>k\<close> of a writer is done when \<open>wr (k mod n)\<close> has passed \<open>k div n\<close>.
\<close>

fun push_ticket :: "'a lf_thread \<Rightarrow> nat option" where
  "push_ticket (Push_store e w p) = Some (unat w)"
| "push_ticket (Push_publish e w p) = Some (unat w)"
| "push_ticket _ = None"

fun pop_ticket :: "'a lf_thread \<Rightarrow> nat option" where
  "pop_ticket (Pop_take r p) = Some (unat r)"
| "pop_ticket (Pop_release r p x) = Some (unat r)"
| "pop_ticket _ = None"

definition counts_ok :: "nat \<Rightarrow> nat \<Rightarrow> nat \<Rightarrow> (nat \<Rightarrow> nat) \<Rightarrow> (nat \<Rightarrow> nat) \<Rightarrow> bool" where
  "counts_ok n W R wr rd \<longleftrightarrow> (\<forall>i < n. rd i \<le> wr i \<and> wr i \<le> rd i + 1) \<and>
     (\<forall>k < W. k div n \<le> wr (k mod n)) \<and> (\<forall>k \<ge> W. wr (k mod n) \<le> k div n) \<and>
     (\<forall>k < R. k div n \<le> rd (k mod n) \<and> k div n < wr (k mod n)) \<and> (\<forall>k \<ge> R. rd (k mod n) \<le> k div n)"

definition writing :: "nat \<Rightarrow> nat \<Rightarrow> (nat \<Rightarrow> nat) \<Rightarrow> nat \<Rightarrow> bool" where
  "writing n W wr k \<longleftrightarrow> k < W \<and> wr (k mod n) = k div n"

fun thread_ok :: "nat \<Rightarrow> (nat \<Rightarrow> nat) \<Rightarrow> (nat \<Rightarrow> nat) \<Rightarrow> (nat \<Rightarrow> 'a) \<Rightarrow> 'a list \<Rightarrow> 'a lf_thread \<Rightarrow> bool" where
  "thread_ok n wr rd va ins (Push_read_pop e w p) \<longleftrightarrow> unat p \<le> wr (unat w mod n)"
| "thread_ok n wr rd va ins (Push_cas e w p) \<longleftrightarrow>
     unat p = unat w div n \<and> unat p \<le> wr (unat w mod n) \<and> unat p \<le> rd (unat w mod n)"
| "thread_ok n wr rd va ins (Push_store e w p) \<longleftrightarrow>
     unat p = unat w div n \<and> rd (unat w mod n) = unat w div n \<and> ins ! unat w = e"
| "thread_ok n wr rd va ins (Push_publish e w p) \<longleftrightarrow>
     unat p = unat w div n \<and> rd (unat w mod n) = unat w div n \<and> ins ! unat w = e \<and> va (unat w mod n) = e"
| "thread_ok n wr rd va ins (Pop_read_push r p) \<longleftrightarrow> unat p \<le> rd (unat r mod n)"
| "thread_ok n wr rd va ins (Pop_cas r p) \<longleftrightarrow>
     unat p = unat r div n \<and> unat p \<le> rd (unat r mod n) \<and> unat p < wr (unat r mod n)"
| "thread_ok n wr rd va ins (Pop_take r p) \<longleftrightarrow> unat p = unat r div n"
| "thread_ok n wr rd va ins (Pop_release r p x) \<longleftrightarrow> unat p = unat r div n \<and> x = ins ! unat r"
| "thread_ok n wr rd va ins _ \<longleftrightarrow> True"

definition tickets_ok :: "(nat \<Rightarrow> bool) \<Rightarrow> (nat \<Rightarrow> nat option) \<Rightarrow> bool" where
  "tickets_ok open_ticket ticket \<longleftrightarrow> (\<forall>k. open_ticket k \<longleftrightarrow> (\<exists>t. ticket t = Some k)) \<and>
     (\<forall>t t' k. ticket t = Some k \<longrightarrow> ticket t' = Some k \<longrightarrow> t = t')"

definition vals_ok :: "nat \<Rightarrow> nat \<Rightarrow> (nat \<Rightarrow> nat) \<Rightarrow> (nat \<Rightarrow> nat) \<Rightarrow> (nat \<Rightarrow> 'a) \<Rightarrow> 'a list \<Rightarrow> bool" where
  "vals_ok n W wr rd va ins \<longleftrightarrow> length ins = W \<and>
     (\<forall>k < W. wr (k mod n) = k div n + 1 \<longrightarrow> rd (k mod n) = k div n \<longrightarrow> va (k mod n) = ins ! k)"

definition log_ok :: "nat \<Rightarrow> nat \<Rightarrow> (nat \<Rightarrow> nat) \<Rightarrow> 'a list \<Rightarrow> (nat \<times> 'a) list \<Rightarrow> bool" where
  "log_ok n R rd ins outs \<longleftrightarrow> distinct (map fst outs) \<and>
     set (map fst outs) = {k. k < R \<and> k div n < rd (k mod n)} \<and> (\<forall>(k, x) \<in> set outs. x = ins ! k)"

definition queue_inv ::
  "nat \<Rightarrow> nat \<Rightarrow> nat \<Rightarrow> (nat \<Rightarrow> nat) \<Rightarrow> (nat \<Rightarrow> nat) \<Rightarrow> (nat \<Rightarrow> 'a) \<Rightarrow> 'a list \<Rightarrow> (nat \<times> 'a) list \<Rightarrow> (nat \<Rightarrow> 'a lf_thread) \<Rightarrow> bool"
where
  "queue_inv n W R wr rd va ins outs th \<longleftrightarrow> counts_ok n W R wr rd \<and> vals_ok n W wr rd va ins \<and> log_ok n R rd ins outs \<and>
     tickets_ok (writing n W wr) (\<lambda>t. push_ticket (th t)) \<and> tickets_ok (writing n R rd) (\<lambda>t. pop_ticket (th t)) \<and>
     (\<forall>t. thread_ok n wr rd va ins (th t))"

text \<open>Two tickets of one slot are of different rounds.\<close>

lemma ticket_eq: "k mod n = j mod n \<Longrightarrow> k div n = j div n \<Longrightarrow> k = (j :: nat)"
  by (metis div_mult_mod_eq)

lemma later_round: "k mod n = j mod n \<Longrightarrow> j < k \<Longrightarrow> j div n < k div (n :: nat)"
  by (metis div_le_mono le_neq_implies_less less_imp_le ticket_eq nat_less_le)

lemma tickets_local:
  "tickets_ok P (\<lambda>t. f (th t)) \<Longrightarrow> f (th t) = f pc \<Longrightarrow> tickets_ok P (\<lambda>t'. f ((th(t := pc)) t'))"
  unfolding tickets_ok_def by simp (metis (no_types, lifting))

lemma tickets_take:
  "tickets_ok P (\<lambda>t. f (th t)) \<Longrightarrow> f (th t) = None \<Longrightarrow> f pc = Some k \<Longrightarrow> \<not> P k \<Longrightarrow>
   (\<And>j. P' j \<longleftrightarrow> P j \<or> j = k) \<Longrightarrow> tickets_ok P' (\<lambda>t'. f ((th(t := pc)) t'))"
  unfolding tickets_ok_def by (simp split: if_splits) (metis option.distinct(1) option.inject)

lemma tickets_return:
  "tickets_ok P (\<lambda>t. f (th t)) \<Longrightarrow> f (th t) = Some k \<Longrightarrow> f pc = None \<Longrightarrow>
   (\<And>j. P' j \<longleftrightarrow> P j \<and> j \<noteq> k) \<Longrightarrow> tickets_ok P' (\<lambda>t'. f ((th(t := pc)) t'))"
  unfolding tickets_ok_def by (simp split: if_splits) (metis option.distinct(1) option.inject)

text \<open>A step of one thread that only changes where it is.\<close>

lemma local_inv:
  assumes "queue_inv n W R wr rd va ins outs th" and "push_ticket (th t) = push_ticket pc" and "pop_ticket (th t) = pop_ticket pc"
    and "thread_ok n wr rd va ins pc"
  shows "queue_inv n W R wr rd va ins outs (th(t := pc))"
  using assms tickets_local [of "writing n W wr" push_ticket th t pc] tickets_local [of "writing n R rd" pop_ticket th t pc]
  by (simp add: queue_inv_def)

text \<open>The steps that change something.\<close>

lemma thread_ok_mono:
  assumes "thread_ok n wr rd va ins pc" and "\<And>i. wr i \<le> wr' i" and "\<And>i. rd i \<le> rd' i"
    and "\<And>k. push_ticket pc = Some k \<Longrightarrow> rd' (k mod n) = rd (k mod n) \<and> ins' ! k = ins ! k \<and> va' (k mod n) = va (k mod n)"
    and "\<And>k. pop_ticket pc = Some k \<Longrightarrow> ins' ! k = ins ! k"
  shows "thread_ok n wr' rd' va' ins' pc"
  using assms by (cases pc) (auto intro: order_trans less_le_trans)

lemma read_before: "counts_ok n W R wr rd \<Longrightarrow> k < R \<Longrightarrow> k < W"
  unfolding counts_ok_def by (meson leD le_less_linear)

lemma ticket_open:
  assumes "queue_inv n W R wr rd va ins outs th"
  shows "push_ticket (th t) = Some k \<Longrightarrow> writing n W wr k" and "pop_ticket (th t) = Some k \<Longrightarrow> writing n R rd k"
  using assms by (auto simp: queue_inv_def tickets_ok_def)

lemma reads_le: "counts_ok n W R wr rd \<Longrightarrow> R \<le> W"
  by (meson read_before le_less_linear less_irrefl)

lemma take_push_ticket:
  assumes inv: "queue_inv n W R wr rd va ins outs th" and n: "0 < n" and pc: "th t = Push_cas e w p" and w: "unat w = W"
  shows "queue_inv n (W + 1) R wr rd va (ins @ [e]) outs (th(t := Push_store e w p))"
proof -
  have c: "counts_ok n W R wr rd" and v: "vals_ok n W wr rd va ins" and l: "log_ok n R rd ins outs"
    and ths: "\<And>t. thread_ok n wr rd va ins (th t)" using inv by (simp_all add: queue_inv_def)
  have p: "unat p = W div n" "unat p \<le> wr (W mod n)" "unat p \<le> rd (W mod n)" using ths [of t] pc w by simp_all
  have "wr (W mod n) \<le> W div n" "rd (W mod n) \<le> wr (W mod n)" using c n by (simp_all add: counts_ok_def)
  then have W: "wr (W mod n) = W div n" "rd (W mod n) = W div n" using p by simp_all
  have "counts_ok n (W + 1) R wr rd" using c W by (auto simp: counts_ok_def less_Suc_eq)
  moreover have "vals_ok n (W + 1) wr rd va (ins @ [e])"
    using v W by (auto simp: vals_ok_def less_Suc_eq nth_append)
  moreover have "log_ok n R rd (ins @ [e]) outs"
  proof -
    have "k < length ins" if "(k, x) \<in> set outs" for k x
    proof -
      have "k \<in> set (map fst outs)" using that by force
      then show ?thesis using l v read_before [OF c] by (auto simp: log_ok_def vals_ok_def)
    qed
    then show ?thesis using l by (auto simp: log_ok_def nth_append)
  qed
  moreover have "tickets_ok (writing n (W + 1) wr) (\<lambda>t'. push_ticket ((th(t := Push_store e w p)) t'))"
    using inv pc w W by (intro tickets_take [of "writing n W wr" _ _ _ _ W]) (auto simp: queue_inv_def writing_def less_Suc_eq)
  moreover have "tickets_ok (writing n R rd) (\<lambda>t'. pop_ticket ((th(t := Push_store e w p)) t'))"
    using inv pc by (intro tickets_local) (simp_all add: queue_inv_def)
  moreover have "thread_ok n wr rd va (ins @ [e]) ((th(t := Push_store e w p)) t')" for t'
  proof (cases "t' = t")
    case True
    then show ?thesis using v p w W by (simp add: vals_ok_def nth_append)
  next
    case False
    have "k < length ins" if "push_ticket (th t') = Some k \<or> pop_ticket (th t') = Some k" for k
      using that ticket_open [OF inv, of t' k] v read_before [OF c] by (auto simp: vals_ok_def writing_def)
    then have "thread_ok n wr rd va (ins @ [e]) (th t')"
      by (intro thread_ok_mono [OF ths]) (simp_all add: nth_append)
    with False show ?thesis by simp
  qed
  ultimately show ?thesis by (simp add: queue_inv_def)
qed

lemma store_value:
  assumes inv: "queue_inv n W R wr rd va ins outs th" and n: "0 < n" and pc: "th t = Push_store e w p"
  shows "queue_inv n W R wr rd (va(unat w mod n := e)) ins outs (th(t := Push_publish e w p))"
proof -
  have v: "vals_ok n W wr rd va ins" and ths: "\<And>t. thread_ok n wr rd va ins (th t)" using inv by (simp_all add: queue_inv_def)
  have w: "writing n W wr (unat w)" using ticket_open(1) [OF inv, of t] pc by simp
  have "vals_ok n W wr rd (va(unat w mod n := e)) ins"
    using v w ths [of t] pc by (auto simp: vals_ok_def writing_def)
  moreover have "tickets_ok (writing n W wr) (\<lambda>t'. push_ticket ((th(t := Push_publish e w p)) t'))"
    using inv pc by (intro tickets_local) (simp_all add: queue_inv_def)
  moreover have "tickets_ok (writing n R rd) (\<lambda>t'. pop_ticket ((th(t := Push_publish e w p)) t'))"
    using inv pc by (intro tickets_local) (simp_all add: queue_inv_def)
  moreover have "thread_ok n wr rd (va(unat w mod n := e)) ins ((th(t := Push_publish e w p)) t')" for t'
  proof (cases "t' = t")
    case True
    then show ?thesis using ths [of t] pc by simp
  next
    case False
    have "k mod n \<noteq> unat w mod n" if k: "push_ticket (th t') = Some k" for k
    proof
      assume "k mod n = unat w mod n"
      then have "k = unat w" using ticket_open(1) [OF inv k] w ticket_eq [of k n "unat w"] by (simp add: writing_def)
      then show False using inv k pc False by (auto simp: queue_inv_def tickets_ok_def)
    qed
    then have "thread_ok n wr rd (va(unat w mod n := e)) ins (th t')"
      by (intro thread_ok_mono [OF ths]) simp_all
    with False show ?thesis by simp
  qed
  ultimately show ?thesis using inv by (simp add: queue_inv_def)
qed

lemma publish_value:
  assumes inv: "queue_inv n W R wr rd va ins outs th" and n: "0 < n" and pc: "th t = Push_publish e w p"
  shows "queue_inv n W R (wr(unat w mod n := unat p + 1)) rd va ins outs (th(t := Pushed True))"
proof -
  let ?k = "unat w" and ?wr = "wr(unat w mod n := unat p + 1)"
  have c: "counts_ok n W R wr rd" and v: "vals_ok n W wr rd va ins" and ths: "\<And>t. thread_ok n wr rd va ins (th t)"
    using inv by (simp_all add: queue_inv_def)
  have p: "unat p = ?k div n" "rd (?k mod n) = ?k div n" "ins ! ?k = e" "va (?k mod n) = e" using ths [of t] pc by simp_all
  have w: "?k < W" "wr (?k mod n) = ?k div n" using ticket_open(1) [OF inv, of t] pc by (simp_all add: writing_def)
  have le: "wr i \<le> ?wr i" for i using w p by simp
  have last: "j = ?k" if "j < W" "j mod n = ?k mod n" "?k div n \<le> j div n" for j
  proof (rule ticket_eq)
    have "j div n \<le> wr (j mod n)" using c that(1) by (simp add: counts_ok_def)
    then show "j div n = ?k div n" using w that by simp
  qed (rule that(2))
  have "?wr (k mod n) \<le> k div n" if "W \<le> k" for k
    using that w c later_round [of k n ?k] by (auto simp: counts_ok_def p(1) Suc_le_eq)
  then have "counts_ok n W R ?wr rd"
    using c w p by (auto simp: counts_ok_def intro: le_SucI less_SucI)
  moreover have "vals_ok n W ?wr rd va ins"
  proof -
    have "va (k mod n) = ins ! k" if "k < W" "?wr (k mod n) = k div n + 1" "rd (k mod n) = k div n" for k
    proof (cases "k mod n = ?k mod n")
      case True
      then have "k = ?k" using that p ticket_eq [of k n ?k] by simp
      then show ?thesis using p by simp
    next
      case False
      then show ?thesis using that v by (simp add: vals_ok_def)
    qed
    then show ?thesis using v by (simp add: vals_ok_def)
  qed
  moreover have "tickets_ok (writing n W ?wr) (\<lambda>t'. push_ticket ((th(t := Pushed True)) t'))"
    using inv pc w p
    by (intro tickets_return [of "writing n W wr" _ _ _ ?k]) (auto simp: queue_inv_def writing_def dest: last)
  moreover have "tickets_ok (writing n R rd) (\<lambda>t'. pop_ticket ((th(t := Pushed True)) t'))"
    using inv pc by (intro tickets_local) (simp_all add: queue_inv_def)
  moreover have "thread_ok n ?wr rd va ins ((th(t := Pushed True)) t')" for t'
  proof -
    have "thread_ok n ?wr rd va ins (th t')"
      using le by (intro thread_ok_mono [OF ths]) simp_all
    then show ?thesis by simp
  qed
  ultimately show ?thesis using inv by (simp add: queue_inv_def)
qed

lemma take_pop_ticket:
  assumes inv: "queue_inv n W R wr rd va ins outs th" and n: "0 < n" and pc: "th t = Pop_cas r p" and r: "unat r = R"
  shows "queue_inv n W (R + 1) wr rd va ins outs (th(t := Pop_take r p))"
proof -
  have c: "counts_ok n W R wr rd" and l: "log_ok n R rd ins outs"
    and ths: "\<And>t. thread_ok n wr rd va ins (th t)" using inv by (simp_all add: queue_inv_def)
  have p: "unat p = R div n" "unat p \<le> rd (R mod n)" "unat p < wr (R mod n)" using ths [of t] pc r by simp_all
  have "rd (R mod n) \<le> R div n" using c by (simp add: counts_ok_def)
  then have R: "rd (R mod n) = R div n" using p by simp
  have "counts_ok n W (R + 1) wr rd" using c R p by (auto simp: counts_ok_def less_Suc_eq)
  moreover have "log_ok n (R + 1) rd ins outs" using l R by (auto simp: log_ok_def less_Suc_eq)
  moreover have "tickets_ok (writing n W wr) (\<lambda>t'. push_ticket ((th(t := Pop_take r p)) t'))"
    using inv pc by (intro tickets_local) (simp_all add: queue_inv_def)
  moreover have "tickets_ok (writing n (R + 1) rd) (\<lambda>t'. pop_ticket ((th(t := Pop_take r p)) t'))"
    using inv pc r R by (intro tickets_take [of "writing n R rd" _ _ _ _ R]) (auto simp: queue_inv_def writing_def less_Suc_eq)
  moreover have "thread_ok n wr rd va ins ((th(t := Pop_take r p)) t')" for t'
    using ths [of t'] p r by simp
  ultimately show ?thesis using inv by (simp add: queue_inv_def)
qed

text \<open>What a reader with a ticket finds in its slot.\<close>

lemma ticket_value:
  assumes inv: "queue_inv n W R wr rd va ins outs th" and n: "0 < n" and k: "pop_ticket (th t) = Some k"
  shows "k < W" "wr (k mod n) = k div n + 1" "rd (k mod n) = k div n" "va (k mod n) = ins ! k"
proof -
  have c: "counts_ok n W R wr rd" and v: "vals_ok n W wr rd va ins" using inv by (simp_all add: queue_inv_def)
  have k: "k < R" "rd (k mod n) = k div n" using ticket_open(2) [OF inv k] by (simp_all add: writing_def)
  show W: "k < W" using read_before [OF c k(1)] .
  have "k mod n < n" using n by simp
  then have "wr (k mod n) \<le> rd (k mod n) + 1" "k div n < wr (k mod n)" using c k(1) by (simp_all add: counts_ok_def)
  then show wr: "wr (k mod n) = k div n + 1" using k(2) by simp
  show "rd (k mod n) = k div n" by (rule k(2))
  show "va (k mod n) = ins ! k" using v W wr k(2) by (simp add: vals_ok_def)
qed

lemma release_slot:
  assumes inv: "queue_inv n W R wr rd va ins outs th" and n: "0 < n" and pc: "th t = Pop_release r p x"
  shows "queue_inv n W R wr (rd(unat r mod n := unat p + 1)) va ins (outs @ [(unat r, x)]) (th(t := Popped (Some x)))"
proof -
  let ?k = "unat r" and ?rd = "rd(unat r mod n := unat p + 1)"
  have c: "counts_ok n W R wr rd" and v: "vals_ok n W wr rd va ins" and l: "log_ok n R rd ins outs"
    and ths: "\<And>t. thread_ok n wr rd va ins (th t)" using inv by (simp_all add: queue_inv_def)
  have p: "unat p = ?k div n" "x = ins ! ?k" using ths [of t] pc by simp_all
  have k: "?k < R" using ticket_open(2) [OF inv, of t] pc by (simp add: writing_def)
  note tv = ticket_value [OF inv n, of t ?k]
  have w: "wr (?k mod n) = ?k div n + 1" "rd (?k mod n) = ?k div n" using tv pc by simp_all
  have le: "rd i \<le> ?rd i" for i using w p by simp
  have last: "j = ?k" if "j < R" "j mod n = ?k mod n" "?k div n \<le> j div n" for j
  proof (rule ticket_eq)
    have "j div n < wr (j mod n)" using c that(1) by (simp add: counts_ok_def)
    then show "j div n = ?k div n" using w that by simp
  qed (rule that(2))
  have "?rd (j mod n) \<le> j div n" if "R \<le> j" for j
    using that k c later_round [of j n ?k] by (auto simp: counts_ok_def p(1) Suc_le_eq)
  then have "counts_ok n W R wr ?rd"
    using c w p by (auto simp: counts_ok_def intro: le_SucI)
  moreover have "vals_ok n W wr ?rd va ins"
    using v w p by (auto simp: vals_ok_def)
  moreover have "log_ok n R ?rd ins (outs @ [(?k, x)])"
  proof -
    have "{j. j < R \<and> j div n < ?rd (j mod n)} = insert ?k {j. j < R \<and> j div n < rd (j mod n)}"
      using k w p ticket_eq [of _ n ?k] by (auto simp: less_Suc_eq)
    then show ?thesis using l w p by (auto simp: log_ok_def)
  qed
  moreover have "tickets_ok (writing n W wr) (\<lambda>t'. push_ticket ((th(t := Popped (Some x))) t'))"
    using inv pc by (intro tickets_local) (simp_all add: queue_inv_def)
  moreover have "tickets_ok (writing n R ?rd) (\<lambda>t'. pop_ticket ((th(t := Popped (Some x))) t'))"
    using inv pc k w p
    by (intro tickets_return [of "writing n R rd" _ _ _ ?k]) (auto simp: queue_inv_def writing_def dest: last)
  moreover have "thread_ok n wr ?rd va ins ((th(t := Popped (Some x))) t')" for t'
  proof (cases "t' = t")
    case False
    have "?rd (j mod n) = rd (j mod n)" if j: "push_ticket (th t') = Some j" for j
      using ticket_open(1) [OF inv j] ths [of t'] w j by (cases "th t'") (auto simp: writing_def)
    then have "thread_ok n wr ?rd va ins (th t')"
      using le by (intro thread_ok_mono [OF ths]) simp_all
    with False show ?thesis by simp
  qed simp
  ultimately show ?thesis using inv by (simp add: queue_inv_def)
qed

section \<open>Every reachable queue\<close>

definition pushes_of :: "'a lf_queue \<Rightarrow> nat \<Rightarrow> nat" where
  "pushes_of q i = unat (sl_push (lf_data q ! i))"

definition pops_of :: "'a lf_queue \<Rightarrow> nat \<Rightarrow> nat" where
  "pops_of q i = unat (sl_pop (lf_data q ! i))"

definition value_of :: "'a lf_queue \<Rightarrow> nat \<Rightarrow> 'a" where
  "value_of q i = sl_val (lf_data q ! i)"

lemmas views = pushes_of_def pops_of_def value_of_def

definition lf_inv :: "nat \<Rightarrow> 'a list \<Rightarrow> (nat \<times> 'a) list \<Rightarrow> (nat \<Rightarrow> 'a lf_thread) \<Rightarrow> 'a lf_queue \<Rightarrow> bool" where
  "lf_inv n ins outs th q \<longleftrightarrow> length (lf_data q) = n \<and> 2 < n \<and> n < 2 ^ 64 \<and>
     queue_inv n (unat (lf_w_count q)) (unat (lf_r_count q)) (pushes_of q) (pops_of q) (value_of q) ins outs th"

lemma size_words:
  assumes "length (lf_data q) = n" and "n < 2 ^ 64"
  shows "slot_index q w = unat w mod n" and "unat (w div lf_size q) = unat w div n"
proof -
  have "unat (lf_size q) = n" using assms by (simp add: lf_size_def unat_of_nat)
  then show "slot_index q w = unat w mod n" "unat (w div lf_size q) = unat w div n"
    by (simp_all add: slot_index_def unat_mod unat_div)
qed

lemma slot_views:
  assumes "length (lf_data q) = n" and "0 < n" and "n < 2 ^ 64"
  shows "pushes_of (put_slot w ((slot_at q w)\<lparr>sl_push := c\<rparr>) q) = (pushes_of q)(unat w mod n := unat c)"
    and "pops_of (put_slot w ((slot_at q w)\<lparr>sl_push := c\<rparr>) q) = pops_of q"
    and "value_of (put_slot w ((slot_at q w)\<lparr>sl_push := c\<rparr>) q) = value_of q"
    and "pushes_of (put_slot w ((slot_at q w)\<lparr>sl_pop := c\<rparr>) q) = pushes_of q"
    and "pops_of (put_slot w ((slot_at q w)\<lparr>sl_pop := c\<rparr>) q) = (pops_of q)(unat w mod n := unat c)"
    and "value_of (put_slot w ((slot_at q w)\<lparr>sl_pop := c\<rparr>) q) = value_of q"
    and "pushes_of (put_slot w ((slot_at q w)\<lparr>sl_val := x\<rparr>) q) = pushes_of q"
    and "pops_of (put_slot w ((slot_at q w)\<lparr>sl_val := x\<rparr>) q) = pops_of q"
    and "value_of (put_slot w ((slot_at q w)\<lparr>sl_val := x\<rparr>) q) = (value_of q)(unat w mod n := x)"
  using assms by (auto simp: put_slot_def size_words [OF assms(1,3)] views nth_list_update)

lemma put_slot_frame [simp]:
  "length (lf_data (put_slot w sl q)) = length (lf_data q)" "lf_w_count (put_slot w sl q) = lf_w_count q"
  "lf_r_count (put_slot w sl q) = lf_r_count q"
  by (simp_all add: put_slot_def)

lemma count_views [simp]:
  "pushes_of (q\<lparr>lf_w_count := c\<rparr>) = pushes_of q" "pops_of (q\<lparr>lf_w_count := c\<rparr>) = pops_of q" "value_of (q\<lparr>lf_w_count := c\<rparr>) = value_of q"
  "pushes_of (q\<lparr>lf_r_count := c\<rparr>) = pushes_of q" "pops_of (q\<lparr>lf_r_count := c\<rparr>) = pops_of q" "value_of (q\<lparr>lf_r_count := c\<rparr>) = value_of q"
  by (auto simp: views)

lemma slot_index_count [simp]:
  "slot_index (q\<lparr>lf_w_count := c\<rparr>) w = slot_index q w" "slot_index (q\<lparr>lf_r_count := c\<rparr>) w = slot_index q w"
  by (simp_all add: slot_index_def lf_size_def)

lemma unat_plus_one: "unat (w :: u64) < 2 ^ 64 - 1 \<Longrightarrow> unat (w + 1) = unat w + 1"
  by (simp add: unat_word_ariths)

lemma lf_step_inv:
  assumes inv: "lf_inv n ins outs th q" and small: "unat (lf_w_count q) < 2 ^ 64 - 1" and run: "lf_step weak (th t) q = (pc, q')"
  shows "lf_inv n (ins @ given_ticket weak (th t) q) (outs @ given_back (th t)) (th(t := pc)) q'"
proof -
  have n: "length (lf_data q) = n" "0 < n" "2 < n" "n < 2 ^ 64" and
    qi: "queue_inv n (unat (lf_w_count q)) (unat (lf_r_count q)) (pushes_of q) (pops_of q) (value_of q) ins outs th"
    using inv by (auto simp: lf_inv_def)
  have c: "counts_ok n (unat (lf_w_count q)) (unat (lf_r_count q)) (pushes_of q) (pops_of q)"
    and ok: "thread_ok n (pushes_of q) (pops_of q) (value_of q) ins (th t)" using qi by (simp_all add: queue_inv_def)
  have le: "pops_of q (k mod n) \<le> pushes_of q (k mod n)" for k using c n(2) by (simp add: counts_ok_def)
  note sz = size_words [OF n(1,4)]
  have RW: "unat (lf_r_count q) \<le> unat (lf_w_count q)" by (rule reads_le [OF c])
  have round: "unat (p + 1) = unat p + 1" if "unat p \<le> unat (lf_w_count q)" for p :: u64
    using that small by (intro unat_plus_one) linarith
  have local: ?thesis if "q' = q" "push_ticket (th t) = push_ticket pc" "pop_ticket (th t) = pop_ticket pc"
    "thread_ok n (pushes_of q) (pops_of q) (value_of q) ins pc" "given_ticket weak (th t) q = []" "given_back (th t) = []"
    using that n local_inv [OF qi] by (simp add: lf_inv_def)
  show ?thesis
  proof (cases "th t")
    case (Push_read_pop e w p)
    then show ?thesis using ok run sz by (intro local) (auto simp: views word_less_nat_alt split: if_splits)
  next
    case (Push_cas e w p)
    then show ?thesis
    proof (cases "lf_w_count q = w \<and> \<not> weak")
      case True
      then show ?thesis using take_push_ticket [OF qi n(2) Push_cas] Push_cas run n unat_plus_one [OF small]
        by (auto simp: lf_inv_def)
    next
      case False
      then show ?thesis using Push_cas run by (intro local) auto
    qed
  next
    case (Push_store e w p)
    then show ?thesis using store_value [OF qi n(2) Push_store] run n(1,3,4) by (auto simp: lf_inv_def slot_views [OF n(1,2,4)])
  next
    case (Push_publish e w p)
    have "unat w < unat (lf_w_count q)" "unat p = unat w div n"
      using ticket_open(1) [OF qi, of t] ok Push_publish by (simp_all add: writing_def)
    then have "unat (p + 1) = unat p + 1" using div_le_dividend [of "unat w" n] by (intro round) linarith
    then show ?thesis using publish_value [OF qi n(2) Push_publish] run n(1,3,4) Push_publish
      by (auto simp: lf_inv_def slot_views [OF n(1,2,4)])
  next
    case (Pop_read_push r p)
    have "unat p \<noteq> pushes_of q (unat r mod n)" if "p \<noteq> sl_push (slot_at q r)" using that by (auto simp: views sz word_unat_eq_iff)
    then show ?thesis using Pop_read_push ok run sz le [of "unat r"] by (intro local) (auto split: if_splits)
  next
    case (Pop_cas r p)
    then show ?thesis
    proof (cases "lf_r_count q = r \<and> \<not> weak")
      case True
      moreover have "unat (r + 1) = unat r + 1" using True RW by (intro round) simp
      ultimately show ?thesis using take_pop_ticket [OF qi n(2) Pop_cas] Pop_cas run n by (auto simp: lf_inv_def)
    next
      case False
      then show ?thesis using Pop_cas run by (intro local) auto
    qed
  next
    case (Pop_take r p)
    then show ?thesis using ok run ticket_value(4) [OF qi n(2), of t "unat r"] sz
      by (intro local) (auto simp: views)
  next
    case (Pop_release r p x)
    have "unat r < unat (lf_r_count q)" "unat p = unat r div n"
      using ticket_open(2) [OF qi, of t] ok Pop_release by (simp_all add: writing_def)
    then have "unat (p + 1) = unat p + 1" using div_le_dividend [of "unat r" n] RW by (intro round) linarith
    then show ?thesis using release_slot [OF qi n(2) Pop_release] run n(1,3,4) Pop_release
      by (auto simp: lf_inv_def slot_views [OF n(1,2,4)])
  next
    case (Pushed b)
    then have "pc = Pushed b" "q' = q" using run by simp_all
    then show ?thesis using Pushed by (intro local) simp_all
  next
    case (Popped x)
    then have "pc = Popped x" "q' = q" using run by simp_all
    then show ?thesis using Popped by (intro local) simp_all
  qed ((rule local; use run sz in \<open>auto simp: views\<close>)+)
qed

lemma lf_reach_inv: "lf_reach n junk ins outs th q \<Longrightarrow> lf_inv n ins outs th q"
proof (induction rule: lf_reach.induct)
  case lr_new
  have "k div n = 0 \<or> n \<le> k" for k by (metis div_less le_less_linear)
  moreover have "pushes_of (queue_new n junk) (k mod n) = 0" "pops_of (queue_new n junk) (k mod n) = 0" for k
    using lr_new by (simp_all add: queue_new_def views)
  ultimately show ?case using lr_new
    by (auto simp: lf_inv_def queue_new_def queue_inv_def counts_ok_def vals_ok_def log_ok_def tickets_ok_def writing_def views)
next
  case (lr_push ins outs th q t e)
  then have "push_ticket (th t) = None" "pop_ticket (th t) = None" by (cases "th t"; simp add: callable_def)+
  then show ?case using lr_push.IH local_inv [where t = t and pc = "Push_load e"] by (simp add: lf_inv_def del: fun_upd_apply)
next
  case (lr_pop ins outs th q t)
  then have "push_ticket (th t) = None" "pop_ticket (th t) = None" by (cases "th t"; simp add: callable_def)+
  then show ?case using lr_pop.IH local_inv [where th = th and t = t and pc = "Pop_load"] by (simp add: lf_inv_def del: fun_upd_apply)
next
  case (lr_step ins outs th q weak t pc q')
  then show ?case by (intro lf_step_inv)
qed

text \<open>A queue that nobody is working on, as the list of its elements.\<close>

definition queue_holds :: "nat \<Rightarrow> 'a lf_queue \<Rightarrow> 'a list \<Rightarrow> bool" where
  "queue_holds n q xs \<longleftrightarrow> length (lf_data q) = n \<and> 2 < n \<and> n < 2 ^ 64 \<and> length xs \<le> n \<and>
     unat (lf_w_count q) = unat (lf_r_count q) + length xs \<and>
     (\<forall>k. unat (lf_w_count q) \<le> k \<and> k < unat (lf_w_count q) + n \<longrightarrow> pushes_of q (k mod n) = k div n) \<and>
     (\<forall>k. unat (lf_r_count q) \<le> k \<and> k < unat (lf_r_count q) + n \<longrightarrow> pops_of q (k mod n) = k div n) \<and>
     (\<forall>i < length xs. value_of q ((unat (lf_r_count q) + i) mod n) = xs ! i)"

text \<open>The slot whose element a thread may read or write.\<close>

definition touches :: "nat \<Rightarrow> 'a lf_thread \<Rightarrow> nat option" where
  "touches n pc = (case pc of
     Push_store e w p \<Rightarrow> Some (unat w mod n)
   | Push_publish e w p \<Rightarrow> Some (unat w mod n)
   | Pop_take r p \<Rightarrow> Some (unat r mod n)
   | Pop_release r p x \<Rightarrow> Some (unat r mod n)
   | _ \<Rightarrow> None)"

lemma touches_ticket:
  "touches n pc = Some i \<longleftrightarrow> (\<exists>k. (push_ticket pc = Some k \<or> pop_ticket pc = Some k) \<and> i = k mod n)"
  by (cases pc) (auto simp: touches_def)

lemma slot_exclusive:
  assumes inv: "lf_inv n ins outs th q" and "touches n (th t) = Some i" and "touches n (th t') = Some i"
  shows "t = t'"
proof -
  have qi: "queue_inv n (unat (lf_w_count q)) (unat (lf_r_count q)) (pushes_of q) (pops_of q) (value_of q) ins outs th" and n: "0 < n"
    using inv by (auto simp: lf_inv_def)
  have ok: "thread_ok n (pushes_of q) (pops_of q) (value_of q) ins (th u)" for u using qi by (simp add: queue_inv_def)
  have push: "pushes_of q (k mod n) = k div n \<and> pops_of q (k mod n) = k div n" if "push_ticket (th u) = Some k" for u k
    using ticket_open(1) [OF qi that] ok [of u] that by (cases "th u") (auto simp: writing_def)
  have pop: "pushes_of q (k mod n) = k div n + 1 \<and> pops_of q (k mod n) = k div n" if "pop_ticket (th u) = Some k" for u k
    using ticket_value [OF qi n that] by simp
  obtain k where k: "push_ticket (th t) = Some k \<or> pop_ticket (th t) = Some k" "i = k mod n" using assms(2) by (auto simp: touches_ticket)
  obtain j where j: "push_ticket (th t') = Some j \<or> pop_ticket (th t') = Some j" "i = j mod n" using assms(3) by (auto simp: touches_ticket)
  have "k div n = j div n" using k j push [of t k] push [of t' j] pop [of t k] pop [of t' j] by auto
  then have e: "k = j" using k(2) j(2) ticket_eq [of k n j] by simp
  have "push_ticket (th t) = Some k \<longleftrightarrow> push_ticket (th t') = Some k"
    using k j e push [of t k] push [of t' k] pop [of t k] pop [of t' k] by auto
  then show ?thesis using qi k j e by (auto simp: queue_inv_def tickets_ok_def)
qed

lemma round_next: "0 < n \<Longrightarrow> (k + n) div n = k div n + 1 \<and> (k + n) mod n = k mod (n :: nat)"
  by (simp add: div_add_self2)

lemma settled_count:
  assumes "0 < (n :: nat)" and "\<And>k. k < W \<Longrightarrow> k div n < f (k mod n)" and "\<And>k. W \<le> k \<Longrightarrow> f (k mod n) \<le> k div n" and "W \<le> k" "k < W + n"
  shows "f (k mod n) = k div n"
proof (cases "k < n")
  case True
  then show ?thesis using assms(3) [OF assms(4)] by simp
next
  case False
  then have "(k - n) div n < f ((k - n) mod n)" using assms(5) by (intro assms(2)) simp
  then have "k div n \<le> f (k mod n)" using False round_next [OF assms(1), of "k - n"] by simp
  then show ?thesis using assms(3) [OF assms(4)] by simp
qed

lemma idle_holds:
  assumes inv: "lf_inv n ins outs th q" and idle: "\<And>t. touches n (th t) = None"
  shows "queue_holds n q (drop (length outs) ins)" and "length outs = unat (lf_r_count q)"
    and "mset (map snd outs) = mset (take (length outs) ins)"
proof -
  let ?W = "unat (lf_w_count q)" and ?R = "unat (lf_r_count q)"
  have n: "length (lf_data q) = n" "0 < n" "2 < n" "n < 2 ^ 64" and
    qi: "queue_inv n ?W ?R (pushes_of q) (pops_of q) (value_of q) ins outs th"
    using inv by (auto simp: lf_inv_def)
  have c: "counts_ok n ?W ?R (pushes_of q) (pops_of q)" and v: "vals_ok n ?W (pushes_of q) (pops_of q) (value_of q) ins"
    and l: "log_ok n ?R (pops_of q) ins outs" using qi by (simp_all add: queue_inv_def)
  have "push_ticket (th t) = None" "pop_ticket (th t) = None" for t using idle [of t] by (cases "th t"; simp add: touches_def)+
  then have no: "\<not> writing n ?W (pushes_of q) k" "\<not> writing n ?R (pops_of q) k" for k
    using qi by (auto simp: queue_inv_def tickets_ok_def)
  have w: "k div n < pushes_of q (k mod n)" if "k < ?W" for k using c no(1) [of k] that by (auto simp: counts_ok_def writing_def le_less)
  have r: "k div n < pops_of q (k mod n)" if "k < ?R" for k using c no(2) [of k] that by (auto simp: counts_ok_def writing_def le_less)
  have fst: "set (map fst outs) = {..< ?R}" using l r by (auto simp: log_ok_def)
  have "length outs = card (set (map fst outs))" using l distinct_card [of "map fst outs"] by (simp only: log_ok_def length_map)
  then show R: "length outs = ?R" using fst by simp
  have "mset (map fst outs) = mset [0 ..< ?R]" using l fst by (intro set_eq_iff_mset_eq_distinct [THEN iffD1]) (auto simp: log_ok_def)
  moreover have "map snd outs = map ((!) ins) (map fst outs)" using l by (auto simp: log_ok_def)
  ultimately have "mset (map snd outs) = mset (map ((!) ins) [0 ..< ?R])" by (metis mset_map)
  moreover have "map ((!) ins) [0 ..< ?R] = take ?R ins"
    using v reads_le [OF c] by (simp add: vals_ok_def list_eq_iff_nth_eq)
  ultimately show "mset (map snd outs) = mset (take (length outs) ins)" using R by simp
  have slot: "pushes_of q (k mod n) \<le> pops_of q (k mod n) + 1" for k using c n(2) by (simp add: counts_ok_def)
  have hi: "pops_of q (k mod n) \<le> k div n" if "?R \<le> k" for k using c that by (simp add: counts_ok_def)
  have "?W \<le> ?R + n"
  proof (rule ccontr)
    assume "\<not> ?W \<le> ?R + n"
    then have "(?R + n) div n < pushes_of q ((?R + n) mod n)" by (intro w) simp
    then show False using slot [of ?R] hi [of ?R] round_next [OF n(2), of ?R] by simp
  qed
  moreover have "value_of q ((?R + i) mod n) = ins ! (?R + i)" if "?R + i < ?W" for i
    using v that w [OF that] slot [of "?R + i"] hi [of "?R + i"] by (auto simp: vals_ok_def)
  moreover have "pushes_of q (k mod n) = k div n" if "?W \<le> k" "k < ?W + n" for k
    using c that by (intro settled_count [OF n(2) w]) (auto simp: counts_ok_def)
  moreover have "pops_of q (k mod n) = k div n" if "?R \<le> k" "k < ?R + n" for k
    using hi that by (intro settled_count [OF n(2) r])
  ultimately show "queue_holds n q (drop (length outs) ins)"
    using n R v reads_le [OF c] by (auto simp: queue_holds_def vals_ok_def)
qed

section \<open>A queue for one thread\<close>

lemma push_alone:
  assumes holds: "queue_holds n q xs" and small: "unat (lf_w_count q) < 2 ^ 64 - 1"
  shows "\<exists>q'. queue_push e q = (length xs < n, q') \<and> queue_holds n q' (if length xs < n then xs @ [e] else xs) \<and>
    lf_r_count q' = lf_r_count q"
proof -
  let ?w = "lf_w_count q" and ?W = "unat (lf_w_count q)" and ?R = "unat (lf_r_count q)" and ?p = "sl_push (slot_at q (lf_w_count q))"
  have n: "length (lf_data q) = n" "0 < n" "2 < n" "n < 2 ^ 64" and W: "?W = ?R + length xs" "length xs \<le> n"
    and wr: "\<And>k. ?W \<le> k \<Longrightarrow> k < ?W + n \<Longrightarrow> pushes_of q (k mod n) = k div n"
    and rd: "\<And>k. ?R \<le> k \<Longrightarrow> k < ?R + n \<Longrightarrow> pops_of q (k mod n) = k div n"
    and va: "\<And>i. i < length xs \<Longrightarrow> value_of q ((?R + i) mod n) = xs ! i"
    using holds by (auto simp: queue_holds_def)
  note sz = size_words [OF n(1,4)]
  have push: "unat ?p = ?W div n" using wr [of ?W] n(2) by (simp add: views sz)
  have pop: "unat (sl_pop (slot_at q ?w)) = pops_of q (?W mod n)" by (simp add: views sz)
  show ?thesis
  proof (cases "length xs < n")
    case False
    then have "?W = ?R + n" using W by simp
    then have "unat (sl_pop (slot_at q ?w)) < unat ?p" using push pop rd [of ?R] round_next [OF n(2), of ?R] n(2) by simp
    then show ?thesis using False holds by (simp add: queue_push_def numeral_eq_Suc word_less_nat_alt)
  next
    case True
    have "\<not> unat (sl_pop (slot_at q ?w)) < unat ?p" using push pop rd [of ?W] W True by simp
    then have c: "\<not> sl_pop (slot_at q ?w) < ?p" "?w div lf_size q = ?p"
      using push sz by (simp_all add: word_less_nat_alt word_unat_eq_iff)
    define q1 where "q1 = q\<lparr>lf_w_count := ?w + 1\<rparr>"
    define q2 where "q2 = put_slot ?w ((slot_at q1 ?w)\<lparr>sl_val := e\<rparr>) q1"
    define q3 where "q3 = put_slot ?w ((slot_at q2 ?w)\<lparr>sl_push := ?p + 1\<rparr>) q2"
    have run: "queue_push e q = (True, q3)"
      using c by (simp add: queue_push_def numeral_eq_Suc q1_def q2_def q3_def)
    have "unat ?p < 2 ^ 64 - 1" using small push div_le_dividend [of ?W n] by linarith
    then have p1: "unat (?p + 1) = ?W div n + 1" using push by (simp only: unat_plus_one)
    have len: "length (lf_data q1) = n" "length (lf_data q2) = n" using n by (simp_all add: q1_def q2_def)
    have v: "pushes_of q3 = (pushes_of q)(?W mod n := ?W div n + 1)" "pops_of q3 = pops_of q" "value_of q3 = (value_of q)(?W mod n := e)"
      using slot_views [OF len(2) n(2,4), of ?w] slot_views [OF len(1) n(2,4), of ?w] p1
      by (simp_all add: q3_def q2_def) (simp_all add: q1_def)
    have q3: "unat (lf_w_count q3) = ?W + 1" "lf_r_count q3 = lf_r_count q" "length (lf_data q3) = n"
      using unat_plus_one [OF small] len by (simp_all add: q3_def q2_def q1_def)
    have "pushes_of q3 (k mod n) = k div n" if "?W + 1 \<le> k" "k < ?W + 1 + n" for k
    proof (cases "k = ?W + n")
      case False
      then have "k mod n \<noteq> ?W mod n" using that later_round [of k n ?W] wr [of k] wr [of ?W] n(2) by auto
      then show ?thesis using that wr [of k] False by (simp add: v)
    qed (simp add: v round_next [OF n(2)])
    moreover have "value_of q3 ((?R + i) mod n) = (xs @ [e]) ! i" if "i < length xs + 1" for i
    proof (cases "i = length xs")
      case False
      then have i: "i < length xs" using that by simp
      have "(?R + i) mod n \<noteq> ?W mod n"
      proof
        assume e: "(?R + i) mod n = ?W mod n"
        have "pops_of q ((?R + i) mod n) = (?R + i) div n" "pops_of q (?W mod n) = ?W div n"
          using i True W by (auto intro!: rd)
        then show False using e later_round [of ?W n "?R + i"] i W by simp
      qed
      then show ?thesis using va i by (simp add: v nth_append)
    qed (use W in \<open>simp add: v\<close>)
    ultimately have "queue_holds n q3 (xs @ [e])"
      using n True W rd by (simp add: queue_holds_def q3 v(2))
    then show ?thesis using run True q3(2) by simp
  qed
qed

lemma pop_alone:
  assumes holds: "queue_holds n q xs"
  shows "\<exists>q'. queue_pop q = ((case xs of [] \<Rightarrow> None | x # _ \<Rightarrow> Some x), q') \<and> queue_holds n q' (tl xs)"
proof -
  let ?r = "lf_r_count q" and ?W = "unat (lf_w_count q)" and ?R = "unat (lf_r_count q)" and ?p = "sl_pop (slot_at q (lf_r_count q))"
  have n: "length (lf_data q) = n" "0 < n" "2 < n" "n < 2 ^ 64" and W: "?W = ?R + length xs" "length xs \<le> n"
    and wr: "\<And>k. ?W \<le> k \<Longrightarrow> k < ?W + n \<Longrightarrow> pushes_of q (k mod n) = k div n"
    and rd: "\<And>k. ?R \<le> k \<Longrightarrow> k < ?R + n \<Longrightarrow> pops_of q (k mod n) = k div n"
    and va: "\<And>i. i < length xs \<Longrightarrow> value_of q ((?R + i) mod n) = xs ! i"
    using holds by (auto simp: queue_holds_def)
  note sz = size_words [OF n(1,4)]
  have pop: "unat ?p = ?R div n" using rd [of ?R] n(2) by (simp add: views sz)
  have push: "unat (sl_push (slot_at q ?r)) = pushes_of q (?R mod n)" by (simp add: views sz)
  show ?thesis
  proof (cases xs)
    case Nil
    then have "?p = sl_push (slot_at q ?r)" using pop push wr [of ?R] W n(2) by (simp add: word_unat_eq_iff)
    then show ?thesis using Nil holds by (simp add: queue_pop_def numeral_eq_Suc)
  next
    case (Cons x xs')
    have "pushes_of q ((?R + n) mod n) = (?R + n) div n" using W Cons by (intro wr) auto
    then have "unat ?p \<noteq> unat (sl_push (slot_at q ?r))" using pop push round_next [OF n(2), of ?R] by simp
    then have c: "?p \<noteq> sl_push (slot_at q ?r)" "?r div lf_size q = ?p"
      using pop sz by (auto simp: word_unat_eq_iff)
    define q1 where "q1 = q\<lparr>lf_r_count := ?r + 1\<rparr>"
    define q2 where "q2 = put_slot ?r ((slot_at q1 ?r)\<lparr>sl_pop := ?p + 1\<rparr>) q1"
    have x: "sl_val (slot_at q1 ?r) = x" using va [of 0] Cons by (simp add: q1_def views sz)
    have run: "queue_pop q = (Some x, q2)"
      using c x by (simp add: queue_pop_def numeral_eq_Suc q1_def [symmetric] q2_def)
    have small: "?R < 2 ^ 64 - 1" using W Cons unat_less_u64 [of "lf_w_count q"] by simp
    have "unat ?p < 2 ^ 64 - 1" using small pop div_le_dividend [of ?R n] by linarith
    then have p1: "unat (?p + 1) = ?R div n + 1" using pop by (simp only: unat_plus_one)
    have len: "length (lf_data q1) = n" using n by (simp add: q1_def)
    have v: "pops_of q2 = (pops_of q)(?R mod n := ?R div n + 1)" "pushes_of q2 = pushes_of q" "value_of q2 = value_of q"
      using slot_views [OF len n(2,4), of ?r] p1 by (simp_all add: q2_def) (simp_all add: q1_def)
    have q2: "unat (lf_r_count q2) = ?R + 1" "lf_w_count q2 = lf_w_count q" "length (lf_data q2) = n"
      using unat_plus_one [OF small] len by (simp_all add: q2_def q1_def)
    have "pops_of q2 (k mod n) = k div n" if "?R + 1 \<le> k" "k < ?R + 1 + n" for k
    proof (cases "k = ?R + n")
      case False
      then have "k mod n \<noteq> ?R mod n" using that later_round [of k n ?R] rd [of k] rd [of ?R] n(2) by auto
      then show ?thesis using that rd [of k] False by (simp add: v)
    qed (simp add: v round_next [OF n(2)])
    moreover have "value_of q2 ((?R + 1 + i) mod n) = xs' ! i" if "i < length xs'" for i
      using va [of "Suc i"] that Cons by (simp add: v)
    ultimately have "queue_holds n q2 xs'"
      using n Cons W wr by (simp add: queue_holds_def q2 v(2))
    then show ?thesis using run Cons by simp
  qed
qed

section \<open>Schedules\<close>

text \<open>A given interleaving of calls and steps; a call of a thread that is busy is no call.\<close>

datatype 'a lf_call = Call_push nat 'a | Call_pop nat | Steps nat nat

type_synonym 'a lf_system = "'a list \<times> (nat \<times> 'a) list \<times> (nat \<Rightarrow> 'a lf_thread) \<times> 'a lf_queue"

fun lf_move :: "nat \<Rightarrow> 'a lf_system \<Rightarrow> 'a lf_system" where
  "lf_move t (ins, outs, th, q) =
     (if unat (lf_w_count q) < 2 ^ 64 - 1 then
        (ins @ given_ticket False (th t) q, outs @ given_back (th t), th(t := fst (lf_step False (th t) q)), snd (lf_step False (th t) q))
      else (ins, outs, th, q))"

fun lf_steps :: "nat \<Rightarrow> nat \<Rightarrow> 'a lf_system \<Rightarrow> 'a lf_system" where
  "lf_steps t 0 s = s"
| "lf_steps t (Suc n) s = lf_steps t n (lf_move t s)"

fun lf_do :: "'a lf_system \<Rightarrow> 'a lf_call \<Rightarrow> 'a lf_system" where
  "lf_do (ins, outs, th, q) (Call_push t e) = (if callable (th t) then (ins, outs, th(t := Push_load e), q) else (ins, outs, th, q))"
| "lf_do (ins, outs, th, q) (Call_pop t) = (if callable (th t) then (ins, outs, th(t := Pop_load), q) else (ins, outs, th, q))"
| "lf_do s (Steps t n) = lf_steps t n s"

definition lf_reachable :: "nat \<Rightarrow> 'a \<Rightarrow> 'a lf_system \<Rightarrow> bool" where
  "lf_reachable n junk s = (case s of (ins, outs, th, q) \<Rightarrow> lf_reach n junk ins outs th q)"

lemma lf_move_reach: "lf_reachable n junk s \<Longrightarrow> lf_reachable n junk (lf_move t s)"
  by (cases s) (auto simp: lf_reachable_def intro: lr_step [where weak = False])

lemma lf_steps_reach: "lf_reachable n junk s \<Longrightarrow> lf_reachable n junk (lf_steps t k s)"
  by (induction t k s rule: lf_steps.induct) (simp_all add: lf_move_reach)

lemma lf_event_reach: "lf_reachable n junk s \<Longrightarrow> lf_reachable n junk (lf_do s ev)"
proof (cases ev)
  case (Steps t k)
  then show "lf_reachable n junk s \<Longrightarrow> ?thesis" by (cases s) (simp add: lf_steps_reach)
qed (cases s; auto simp: lf_reachable_def intro: lr_push lr_pop)+

lemma lf_events_reach: "lf_reachable n junk s \<Longrightarrow> lf_reachable n junk (foldl lf_do s evs)"
  by (induction evs arbitrary: s) (simp_all add: lf_event_reach)

definition demo_queue :: "nat lf_system" where
  "demo_queue = ([], [], (\<lambda>_. Lf_idle), queue_new 3 0)"

lemma demo_queue_reach: "lf_reachable 3 0 (foldl lf_do demo_queue evs)"
  by (rule lf_events_reach) (simp add: demo_queue_def lf_reachable_def lr_new)

lemma lf_steps_numeral: "lf_steps t (numeral v) s = lf_steps t (pred_numeral v) (lf_move t s)"
  by (simp only: numeral_eq_Suc lf_steps.simps)

lemma replicate_three: "replicate 3 x = [x, x, x]"
  by (simp add: numeral_eq_Suc)

lemmas demo_queue_eval = demo_queue_def queue_new_def callable_def lf_steps_numeral replicate_three slot_index_def lf_size_def put_slot_def

text \<open>
  The answer that the queue is empty may be wrong: a pop that started when there were two elements, and
  during which another thread took one of them, returns nothing.
\<close>

lemma pop_misses_element:
  "case foldl lf_do demo_queue [Call_push 0 1, Steps 0 6, Call_push 0 2, Steps 0 6, Call_pop 0, Steps 0 1,
       Call_pop 1, Steps 1 6, Steps 0 2] of
     (ins, outs, th, q) \<Rightarrow> ins = [1, 2] \<and> outs = [(0, 1)] \<and> th 0 = Popped None"
  by (simp add: demo_queue_eval)

text \<open>
  C33. The queue without locks loses and doubles nothing, however its threads interleave. Each pop that
  returned an element had its own ticket, and returned what the push with that ticket put in; no thread
  reads or writes the element of a slot that another thread is working on; and whenever no call is between
  its ticket and its end, what was popped is exactly the elements of the first pushes, and the slots hold
  the others in their order, at most as many as there are slots.
\<close>

theorem lock_free_queue:
  assumes reach: "lf_reach n junk ins outs th q"
  shows "distinct (map fst outs) \<and> (\<forall>(k, x) \<in> set outs. k < length ins \<and> x = ins ! k) \<and>
    (\<forall>t t'. touches n (th t) \<noteq> None \<longrightarrow> touches n (th t) = touches n (th t') \<longrightarrow> t = t') \<and>
    ((\<forall>t. touches n (th t) = None) \<longrightarrow>
      mset (map snd outs) = mset (take (length outs) ins) \<and> queue_holds n q (drop (length outs) ins))"
proof -
  let ?W = "unat (lf_w_count q)" and ?R = "unat (lf_r_count q)"
  have inv: "lf_inv n ins outs th q" by (rule lf_reach_inv [OF reach])
  then have c: "counts_ok n ?W ?R (pushes_of q) (pops_of q)" and l: "log_ok n ?R (pops_of q) ins outs" and len: "length ins = ?W"
    by (simp_all add: lf_inv_def queue_inv_def vals_ok_def)
  have "k < length ins \<and> x = ins ! k" if "(k, x) \<in> set outs" for k x
  proof -
    have "k \<in> set (map fst outs)" using that by force
    then have "k < ?R" using l by (simp add: log_ok_def)
    then show ?thesis using l that read_before [OF c] len by (auto simp: log_ok_def)
  qed
  moreover have "distinct (map fst outs)" using l by (simp add: log_ok_def)
  moreover have "t = t'" if "touches n (th t) \<noteq> None" "touches n (th t) = touches n (th t')" for t t'
    using slot_exclusive [OF inv, of t _ t'] that by auto
  ultimately show ?thesis using idle_holds [OF inv] by blast
qed

theorem lock_free_queue_witness:
  "case foldl lf_do demo_queue [Call_push 0 7, Call_push 1 8, Steps 0 3, Steps 1 3, Steps 0 1, Steps 1 6, Call_pop 2, Steps 2 6,
       Steps 0 2, Call_pop 2, Steps 2 6] of
     (ins, outs, th, q) \<Rightarrow> ins = [7, 8] \<and> outs = [(0, 7)] \<and> queue_holds 3 q [8]"
proof -
  let ?s = "foldl lf_do demo_queue [Call_push 0 7, Call_push 1 8, Steps 0 3, Steps 1 3, Steps 0 1, Steps 1 6, Call_pop 2, Steps 2 6,
       Steps 0 2, Call_pop 2, Steps 2 6]"
  obtain ins outs th q where s: "?s = (ins, outs, th, q)" by (cases ?s)
  have r: "lf_reach 3 0 ins outs th q"
    using demo_queue_reach [of "[Call_push 0 7, Call_push 1 8, Steps 0 3, Steps 1 3, Steps 0 1, Steps 1 6, Call_pop 2, Steps 2 6,
       Steps 0 2, Call_pop 2, Steps 2 6]"] by (simp only: s lf_reachable_def case_prod_conv)
  have "ins = [7, 8] \<and> outs = [(0, 7)] \<and> (\<forall>t. touches 3 (th t) = None)"
    using s by (auto simp: demo_queue_eval touches_def)
  then show ?thesis using lock_free_queue [OF r] by (simp only: s) simp
qed

text \<open>
  C34. A mailbox without a lock that one thread uses is a bounded queue: it is empty at first and after
  dispose, receive takes the messages in the order they were sent and answers that there is none exactly
  when there is none, and a message that is sent to a full mailbox, of 1024 messages, is lost.
\<close>

theorem lf_mailbox_bounded_queue:
  assumes "queue_holds 1024 q xs" and "unat (lf_w_count q) < 2 ^ 64 - 1"
  shows "queue_holds 1024 (lfmailbox_new junk) [] \<and> queue_holds 1024 (lfmailbox_dispose junk q) [] \<and>
    queue_holds 1024 (lfmailbox_send v q) (if length xs < 1024 then xs @ [v] else xs) \<and>
    (\<exists>q'. lfmailbox_receive q = ((case xs of [] \<Rightarrow> None | x # _ \<Rightarrow> Some x), q') \<and> queue_holds 1024 q' (tl xs))"
proof -
  have new: "queue_holds 1024 (queue_new 1024 j) []" for j :: 'a
    using idle_holds(1) [OF lf_reach_inv [OF lr_new [of 1024 j]]] by (simp add: touches_def)
  have "length (lf_data q) = 1024" using assms(1) by (simp add: queue_holds_def)
  then have "lfmailbox_dispose junk q = queue_new 1024 junk"
    by (auto simp: lfmailbox_dispose_def queue_assign_def queue_new_def slot_assign_def list_eq_iff_nth_eq)
  then show ?thesis using new push_alone [OF assms, of v] pop_alone [OF assms(1)]
    by (auto simp: lfmailbox_new_def lfmailbox_send_def lfmailbox_receive_def)
qed

theorem lf_mailbox_bounded_queue_witness:
  "\<exists>q. queue_holds 1024 q [3, 4 :: nat] \<and> fst (lfmailbox_receive q) = Some 3"
proof -
  have e: "queue_holds 1024 (queue_new 1024 (0 :: nat)) []"
    using idle_holds(1) [OF lf_reach_inv [OF lr_new [of 1024 "0 :: nat"]]] by (simp add: touches_def)
  have "\<exists>q. queue_holds 1024 q [3 :: nat] \<and> unat (lf_w_count q) < 2 ^ 64 - 1"
    using push_alone [OF e, of 3] by (auto simp: queue_new_def queue_holds_def)
  then obtain q where q: "queue_holds 1024 q [3 :: nat]" "unat (lf_w_count q) < 2 ^ 64 - 1" by blast
  from lf_mailbox_bounded_queue [OF q, of 0 4] have q4: "queue_holds 1024 (lfmailbox_send 4 q) [3, 4]" by simp
  then show ?thesis using pop_alone [OF q4] by (auto simp: lfmailbox_receive_def)
qed

end
