(* ===== verification/Pipe.thy ===== *)
theory Pipe
  imports Stream
begin

text \<open>
  \<^verbatim>\<open>concurrency/iopipe.cc\<close> and \<^verbatim>\<open>tpipe.cc\<close>: the two ends of a pipe. As for the sockets, the kernel side of an end is
  what the next calls of \<^verbatim>\<open>write\<close> accept (\<open>op_room\<close>; \<open>None\<close>, and no answer left, is -1) and what those of \<^verbatim>\<open>read\<close>
  deliver (\<open>ip_inbox\<close>; no piece left, or an empty one, is the end or an error). It follows the file descriptor.
\<close>

section \<open>The writing end\<close>

record o_pipe =
  op_pipe :: nat
  op_error :: bool
  op_nonblock :: bool
  op_room :: "nat option list"
  op_written :: bytes

definition opipe_new :: "nat \<Rightarrow> nat option list \<Rightarrow> o_pipe" where
  "opipe_new out rm = \<lparr>op_pipe = out, op_error = False, op_nonblock = True, op_room = rm, op_written = []\<rparr>"

text \<open>The two ends after a move; the new one does not take the error over.\<close>

definition opipe_move :: "o_pipe \<Rightarrow> o_pipe \<times> o_pipe" where
  "opipe_move other = (other\<lparr>op_error := False\<rparr>, other\<lparr>op_pipe := 0, op_room := [], op_written := []\<rparr>)"

definition opipe_dispose :: "o_pipe \<Rightarrow> o_pipe" where
  "opipe_dispose p = (if op_pipe p \<noteq> 0 \<and> op_pipe p \<noteq> 1 \<and> op_pipe p \<noteq> 2 then p\<lparr>op_pipe := 0, op_room := []\<rparr> else p)"

text \<open>After the assignment the error is that of the end that was assigned to.\<close>

definition opipe_assign :: "o_pipe \<Rightarrow> o_pipe \<Rightarrow> o_pipe \<times> o_pipe" where
  "opipe_assign this other =
     (other\<lparr>op_error := op_error (opipe_dispose this)\<rparr>, other\<lparr>op_pipe := 0, op_room := [], op_written := []\<rparr>)"

definition opipe_isOpen :: "o_pipe \<Rightarrow> bool" where
  "opipe_isOpen p \<longleftrightarrow> op_pipe p \<noteq> 0 \<and> \<not> op_error p"

definition opipe_setNonBlocking :: "(o_pipe, unit) act" where
  "opipe_setNonBlocking = modify (\<lambda>p. p\<lparr>op_nonblock := True\<rparr>)"

definition opipe_setBlocking :: "(o_pipe, unit) act" where
  "opipe_setBlocking = modify (\<lambda>p. p\<lparr>op_nonblock := False\<rparr>)"

definition pipe_closed :: "bool \<Rightarrow> ('s, bool) act" where
  "pipe_closed t = (if t then throw (RuntimeError ''Stream is closed'') else ret False)"

text \<open>One call of \<^verbatim>\<open>write\<close>.\<close>

definition os_write :: "bytes \<Rightarrow> (o_pipe, nat option) act" where
  "os_write cur = (\<lambda>p. case op_room p of
       [] \<Rightarrow> Some (Inr None, p)
     | None # ks \<Rightarrow> Some (Inr None, p\<lparr>op_room := ks\<rparr>)
     | Some k # ks \<Rightarrow> let n = min k (length cur) in
         Some (Inr (Some n), p\<lparr>op_room := ks, op_written := op_written p @ take n cur\<rparr>))"

text \<open>The -1 of an error is read as \<open>2 ^ 32 - 1\<close> bytes, and the pointer to the rest leaves the buffer.\<close>

function (sequential) write_loop :: "bytes \<Rightarrow> bool \<Rightarrow> o_pipe \<Rightarrow> (bool res \<times> o_pipe) option" where
  "write_loop buf t p =
     (if buf = [] then ret True p
      else bnd (os_write buf) (\<lambda>sent. case sent of
          None \<Rightarrow> throw Undefined
        | Some sent \<Rightarrow>
            if sent < 1 then bnd (modify (\<lambda>p. p\<lparr>op_error := True\<rparr>)) (\<lambda>_. pipe_closed t)
            else write_loop (drop sent buf) t) p)"
  by pat_completeness auto
termination
  by (relation "measure (\<lambda>(buf, t, p). length buf)") auto

declare write_loop.simps [simp del]

definition inner_writeRaw :: "bytes \<Rightarrow> bool \<Rightarrow> (o_pipe, bool) act" where
  "inner_writeRaw buffer t =
     bnd (gets opipe_isOpen) (\<lambda>open.
     if open then write_loop (take (length buffer mod 2 ^ 32) buffer) t else pipe_closed t)"

definition writeU64 :: "u64 \<Rightarrow> bool \<Rightarrow> (o_pipe, bool) act" where
  "writeU64 i t = inner_writeRaw (le_bytes 8 i) t"

definition writeU32 :: "u32 \<Rightarrow> bool \<Rightarrow> (o_pipe, bool) act" where
  "writeU32 i t = inner_writeRaw (le_bytes 4 i) t"

definition writeI64 :: "u64 \<Rightarrow> bool \<Rightarrow> (o_pipe, bool) act" where
  "writeI64 i t = inner_writeRaw (le_bytes 8 i) t"

definition writeI32 :: "u32 \<Rightarrow> bool \<Rightarrow> (o_pipe, bool) act" where
  "writeI32 i t = inner_writeRaw (le_bytes 4 i) t"

definition writeChar :: "u8 \<Rightarrow> bool \<Rightarrow> (o_pipe, bool) act" where
  "writeChar i t = inner_writeRaw [i] t"

definition writeF32 :: "u32 \<Rightarrow> bool \<Rightarrow> (o_pipe, bool) act" where
  "writeF32 i t = inner_writeRaw (le_bytes 4 i) t"

definition writeF64 :: "u64 \<Rightarrow> bool \<Rightarrow> (o_pipe, bool) act" where
  "writeF64 i t = inner_writeRaw (le_bytes 8 i) t"

definition writeStr :: "string \<Rightarrow> bool \<Rightarrow> (o_pipe, bool) act" where
  "writeStr msg t = inner_writeRaw (map char_byte msg) t"

section \<open>The reading end\<close>

record i_pipe =
  ip_pipe :: nat
  ip_error :: bool
  ip_nonblock :: bool
  ip_inbox :: "bytes list"

definition ipipe_new :: "nat \<Rightarrow> bytes list \<Rightarrow> i_pipe" where
  "ipipe_new i ib = \<lparr>ip_pipe = i, ip_error = False, ip_nonblock = True, ip_inbox = ib\<rparr>"

definition ipipe_move :: "i_pipe \<Rightarrow> i_pipe \<times> i_pipe" where
  "ipipe_move other = (other\<lparr>ip_error := False\<rparr>, other\<lparr>ip_pipe := 0, ip_inbox := []\<rparr>)"

definition ipipe_dispose :: "i_pipe \<Rightarrow> i_pipe" where
  "ipipe_dispose p = (if ip_pipe p \<noteq> 0 then p\<lparr>ip_pipe := 0, ip_inbox := []\<rparr> else p)"

definition ipipe_assign :: "i_pipe \<Rightarrow> i_pipe \<Rightarrow> i_pipe \<times> i_pipe" where
  "ipipe_assign this other =
     (other\<lparr>ip_error := ip_error (ipipe_dispose this)\<rparr>, other\<lparr>ip_pipe := 0, ip_inbox := []\<rparr>)"

definition ipipe_isOpen :: "i_pipe \<Rightarrow> bool" where
  "ipipe_isOpen p \<longleftrightarrow> ip_pipe p \<noteq> 0 \<and> \<not> ip_error p"

definition ipipe_setNonBlocking :: "(i_pipe, unit) act" where
  "ipipe_setNonBlocking = modify (\<lambda>p. p\<lparr>ip_nonblock := True\<rparr>)"

definition ipipe_setBlocking :: "(i_pipe, unit) act" where
  "ipipe_setBlocking = modify (\<lambda>p. p\<lparr>ip_nonblock := False\<rparr>)"

text \<open>One call of \<^verbatim>\<open>read\<close> for at most \<open>n\<close> bytes; an empty result is \<^verbatim>\<open>valread <= 0\<close>.\<close>

definition os_read :: "nat \<Rightarrow> (i_pipe, bytes) act" where
  "os_read n = (\<lambda>p. case ip_inbox p of
       [] \<Rightarrow> Some (Inr [], p)
     | c # cs \<Rightarrow> Some (Inr (take n c), p\<lparr>ip_inbox := (if n < length c then drop n c # cs else cs)\<rparr>))"

function (sequential) read_loop ::
  "nat \<Rightarrow> bytes \<Rightarrow> bool \<Rightarrow> i_pipe \<Rightarrow> ((bool \<times> bytes) res \<times> i_pipe) option"
where
  "read_loop lenToRecv got t p =
     (if lenToRecv = 0 then ret (True, got) p
      else bnd (os_read lenToRecv) (\<lambda>b.
        if b = [] then
          bnd (modify (\<lambda>p. p\<lparr>ip_error := True\<rparr>)) (\<lambda>_.
          bnd (pipe_closed t) (\<lambda>r. ret (r, got)))
        else read_loop (lenToRecv - length b) (got @ b) t) p)"
  by pat_completeness auto
termination
  by (relation "measure (\<lambda>(n, got, t, p). n)") auto

declare read_loop.simps [simp del]

definition inner_readRaw :: "nat \<Rightarrow> bool \<Rightarrow> (i_pipe, bool \<times> bytes) act" where
  "inner_readRaw len t =
     bnd (gets ipipe_isOpen) (\<lambda>open.
     if open then read_loop len [] t else bnd (pipe_closed t) (\<lambda>r. ret (r, [])))"

text \<open>Into a variable that holds \<open>val\<close>, and the readers that return what they read or throw.\<close>

definition read_into :: "nat \<Rightarrow> 'a :: len word \<Rightarrow> (i_pipe, bool \<times> 'a word) act" where
  "read_into n val =
     bnd (inner_readRaw n False) (\<lambda>(ok, got).
     ret (ok, le_word (got @ drop (length got) (le_bytes n val))))"

definition read_word :: "nat \<Rightarrow> (i_pipe, 'a :: len word) act" where
  "read_word n = bnd (inner_readRaw n True) (\<lambda>(ok, got). ret (le_word got))"

definition pipe_readU64 :: "(i_pipe, u64) act" where
  "pipe_readU64 = read_word 8"

definition pipe_readU32 :: "(i_pipe, u32) act" where
  "pipe_readU32 = read_word 4"

definition pipe_readI64 :: "(i_pipe, u64) act" where
  "pipe_readI64 = read_word 8"

definition pipe_readI32 :: "(i_pipe, u32) act" where
  "pipe_readI32 = read_word 4"

definition pipe_readChar :: "(i_pipe, u8) act" where
  "pipe_readChar = read_word 1"

definition pipe_readF32 :: "(i_pipe, u32) act" where
  "pipe_readF32 = read_word 4"

definition pipe_readF64 :: "(i_pipe, u64) act" where
  "pipe_readF64 = read_word 8"

function (sequential) readStr_loop ::
  "nat \<Rightarrow> string \<Rightarrow> bool \<Rightarrow> i_pipe \<Rightarrow> ((bool \<times> string) res \<times> i_pipe) option"
where
  "readStr_loop lenToRecv result t p =
     (if lenToRecv = 0 then ret (True, result) p
      else bnd (os_read (min lenToRecv 1024)) (\<lambda>b.
        if b = [] then
          bnd (modify (\<lambda>p. p\<lparr>ip_error := True\<rparr>)) (\<lambda>_.
          bnd (pipe_closed t) (\<lambda>r. ret (r, [])))
        else readStr_loop (lenToRecv - length b)
               (result @ takeWhile (\<lambda>c. c \<noteq> CHR 0x00) (map byte_char b)) t) p)"
  by pat_completeness auto
termination
  by (relation "measure (\<lambda>(n, result, t, p). n)") auto

declare readStr_loop.simps [simp del]

definition readStr_into :: "string \<Rightarrow> u32 \<Rightarrow> bool \<Rightarrow> (i_pipe, bool \<times> string) act" where
  "readStr_into v len t =
     bnd (gets ipipe_isOpen) (\<lambda>open.
     if open then readStr_loop (unat len) [] t else bnd (pipe_closed t) (\<lambda>r. ret (r, v)))"

definition pipe_readStr :: "u32 \<Rightarrow> (i_pipe, string) act" where
  "pipe_readStr len = bnd (readStr_into [] len True) (\<lambda>(ok, v). ret v)"

section \<open>Both ends\<close>

record io_pipe =
  io_ipipe :: i_pipe
  io_opipe :: o_pipe

text \<open>\<open>os_pipe\<close> is what \<^verbatim>\<open>pipe\<close> answers, \<open>None\<close> for an error.\<close>

definition createPipes :: "(nat \<times> nat) option \<Rightarrow> bool \<Rightarrow> (nat \<times> nat) res" where
  "createPipes os_pipe create =
     (if create then
        (case os_pipe of None \<Rightarrow> Inl (RuntimeError ''failed creating pipes'') | Some (i, out) \<Rightarrow> Inr (i, out))
      else Inr (0, 0))"

definition iopipe_of :: "nat \<times> nat \<Rightarrow> bytes list \<Rightarrow> nat option list \<Rightarrow> io_pipe" where
  "iopipe_of io ib rm = \<lparr>io_ipipe = ipipe_new (fst io) ib, io_opipe = opipe_new (snd io) rm\<rparr>"

definition iopipe_new :: "(nat \<times> nat) option \<Rightarrow> bool \<Rightarrow> bytes list \<Rightarrow> nat option list \<Rightarrow> io_pipe res" where
  "iopipe_new os_pipe create ib rm = ebind (createPipes os_pipe create) (\<lambda>io. Inr (iopipe_of io ib rm))"

definition iopipe_move :: "io_pipe \<Rightarrow> io_pipe \<times> io_pipe" where
  "iopipe_move other =
     (\<lparr>io_ipipe = fst (ipipe_move (io_ipipe other)), io_opipe = fst (opipe_move (io_opipe other))\<rparr>,
      \<lparr>io_ipipe = snd (ipipe_move (io_ipipe other)), io_opipe = snd (opipe_move (io_opipe other))\<rparr>)"

definition iopipe_dispose :: "io_pipe \<Rightarrow> io_pipe" where
  "iopipe_dispose p = \<lparr>io_ipipe = ipipe_dispose (io_ipipe p), io_opipe = opipe_dispose (io_opipe p)\<rparr>"

definition iopipe_assign :: "io_pipe \<Rightarrow> io_pipe \<Rightarrow> io_pipe \<times> io_pipe" where
  "iopipe_assign this other =
     (let this = iopipe_dispose this;
          (i, i') = ipipe_assign (io_ipipe this) (io_ipipe other); (out, out') = opipe_assign (io_opipe this) (io_opipe other)
      in (\<lparr>io_ipipe = i, io_opipe = out\<rparr>, \<lparr>io_ipipe = i', io_opipe = out'\<rparr>))"

definition iopipe_isOpen :: "io_pipe \<Rightarrow> bool" where
  "iopipe_isOpen p \<longleftrightarrow> ipipe_isOpen (io_ipipe p) \<and> opipe_isOpen (io_opipe p)"

text \<open>\<^verbatim>\<open>ThreadPipe\<close>, apart from its \<^verbatim>\<open>read\<close> and \<^verbatim>\<open>write\<close>, is the pipe and what threads wait on.\<close>

definition tpipe_setNonBlocking :: "(io_pipe, unit) act" where
  "tpipe_setNonBlocking =
     bnd (zoom io_opipe (\<lambda>out p. p\<lparr>io_opipe := out\<rparr>) opipe_setNonBlocking) (\<lambda>_.
     zoom io_ipipe (\<lambda>i p. p\<lparr>io_ipipe := i\<rparr>) ipipe_setNonBlocking)"

section \<open>What is written is read\<close>

text \<open>A reading end behaves as the stream with the same pieces does.\<close>

definition as_stream :: "i_pipe \<Rightarrow> tcp_stream" where
  "as_stream p = \<lparr>sockfd = ip_pipe p, stream_error = ip_error p, stream_addr = addr_zero, connected = True,
     inbox = ip_inbox p, room = [], outbox = []\<rparr>"

definition as_pipe :: "i_pipe \<Rightarrow> tcp_stream \<Rightarrow> i_pipe" where
  "as_pipe p s = p\<lparr>ip_error := stream_error s, ip_inbox := inbox s\<rparr>"

definition via :: "i_pipe \<Rightarrow> ('a res \<times> tcp_stream) option \<Rightarrow> ('a res \<times> i_pipe) option" where
  "via p = map_option (apsnd (as_pipe p))"

lemma via_again: "via (as_pipe p s) = via p"
proof -
  have "as_pipe (as_pipe p s) = as_pipe p" by (rule ext) (simp add: as_pipe_def)
  then show ?thesis by (simp add: via_def [abs_def])
qed

text \<open>One call of the kernel, on both sides.\<close>

lemma os_read_step:
  obtains b s where "os_recv n (as_stream p) = Some (Inr b, s)" and "os_read n p = Some (Inr b, as_pipe p s)" and "as_stream (as_pipe p s) = s"
proof (cases "ip_inbox p")
  case Nil
  then show thesis
    using that [of "[]" "as_stream p"] by (simp add: os_recv_def os_read_def as_stream_def as_pipe_def)
next
  case (Cons c cs)
  then show thesis
    using that [of "take n c" "(as_stream p)\<lparr>inbox := (if n < length c then drop n c # cs else cs)\<rparr>"]
    by (simp add: os_recv_def os_read_def as_stream_def as_pipe_def)
qed

lemma via_end [simp]: "via p (Some (r, as_stream p)) = Some (r, p)"
  by (simp add: via_def as_pipe_def as_stream_def)

lemma read_loop_via: "read_loop n got t p = via p (recv_loop n got t (as_stream p))"
proof (induction n got t p rule: read_loop.induct)
  case (1 n got t p)
  obtain b s where b: "os_recv n (as_stream p) = Some (Inr b, s)" and rd: "os_read n p = Some (Inr b, as_pipe p s)"
    and s: "as_stream (as_pipe p s) = s"
    by (rule os_read_step)
  have "b = [] \<Longrightarrow> n \<noteq> 0 \<Longrightarrow> ?case"
    using b rd by (subst read_loop.simps, subst recv_loop.simps) (simp add: act_simps pipe_closed_def stream_closed_def via_def as_pipe_def)
  moreover have "b \<noteq> [] \<Longrightarrow> n \<noteq> 0 \<Longrightarrow> ?case"
    using b rd "1.IH" [OF _ rd] s by (subst read_loop.simps, subst recv_loop.simps) (simp add: act_simps via_again)
  moreover have "n = 0 \<Longrightarrow> ?case" by (simp add: read_loop.simps recv_loop.simps act_simps)
  ultimately show ?case by blast
qed

lemma readStr_loop_via: "readStr_loop n res t p = via p (recvStr_loop n res t (as_stream p))"
proof (induction n res t p rule: readStr_loop.induct)
  case (1 n res t p)
  obtain b s where b: "os_recv (min n 1024) (as_stream p) = Some (Inr b, s)" and rd: "os_read (min n 1024) p = Some (Inr b, as_pipe p s)"
    and s: "as_stream (as_pipe p s) = s"
    by (rule os_read_step)
  have "b = [] \<Longrightarrow> n \<noteq> 0 \<Longrightarrow> ?case"
    using b rd by (subst readStr_loop.simps, subst recvStr_loop.simps) (simp add: act_simps pipe_closed_def stream_closed_def via_def as_pipe_def)
  moreover have "b \<noteq> [] \<Longrightarrow> n \<noteq> 0 \<Longrightarrow> ?case"
    using b rd "1.IH" [OF _ rd] s by (subst readStr_loop.simps, subst recvStr_loop.simps) (simp add: act_simps via_again)
  moreover have "n = 0 \<Longrightarrow> ?case" by (simp add: readStr_loop.simps recvStr_loop.simps act_simps)
  ultimately show ?case by blast
qed

text \<open>So a reader of a pipe is the receiver of a stream.\<close>

lemma bnd_via: "(\<And>x s. f x (as_pipe p s) = Some (g x, as_pipe p s)) \<Longrightarrow> (\<And>x s. f' x s = Some (g x, s)) \<Longrightarrow>
   m p = via p (m' (as_stream p)) \<Longrightarrow> bnd m f p = via p (bnd m' f' (as_stream p))"
  by (cases "m' (as_stream p)") (auto simp: bnd_def via_def split: sum.split prod.split)

lemma inner_readRaw_via: "inner_readRaw n t p = via p (inner_receiveRaw n t (as_stream p))"
  by (simp add: inner_readRaw_def inner_receiveRaw_def act_simps ipipe_isOpen_def isOpen_def read_loop_via
      pipe_closed_def stream_closed_def conj_commute) (simp add: as_stream_def via_def as_pipe_def)

lemma read_word_via: "read_word n p = via p (receive_word n (as_stream p) :: ('a :: len word res \<times> _) option)"
  unfolding read_word_def receive_word_def
  by (rule bnd_via [where g = "\<lambda>(ok, got). Inr (le_word got)"]) (auto simp: act_simps inner_readRaw_via)

lemma pipe_readStr_via: "pipe_readStr n p = via p (receiveStr n (as_stream p))"
proof -
  have "readStr_into v n t p = via p (receiveStr_into v n t (as_stream p))" for v t
    by (simp add: readStr_into_def receiveStr_into_def act_simps ipipe_isOpen_def isOpen_def readStr_loop_via
        pipe_closed_def stream_closed_def conj_commute) (simp add: as_stream_def via_def as_pipe_def)
  then show ?thesis unfolding pipe_readStr_def receiveStr_def
    by (intro bnd_via [where g = "\<lambda>(ok, v). Inr v"]) (auto simp: act_simps)
qed

text \<open>
  A write whose calls all take something writes everything; one whose first call is refused (a full pipe,
  which does not block) has no defined outcome: the flag of the error is never set for it.
\<close>

lemma write_loop_ok:
  "set (op_room p) \<subseteq> Some ` {0 <..} \<Longrightarrow> length buf \<le> length (op_room p) \<Longrightarrow>
   \<exists>rm. write_loop buf t p = Some (Inr True, p\<lparr>op_written := op_written p @ buf, op_room := rm\<rparr>)"
proof (induction "length buf" arbitrary: buf p rule: less_induct)
  case less
  show ?case
  proof (cases "buf = []")
    case True
    have "p = p\<lparr>op_written := op_written p @ [], op_room := op_room p\<rparr>" by simp
    then show ?thesis using True by (intro exI [of _ "op_room p"]) (simp add: write_loop.simps act_simps)
  next
    case False
    with less.prems obtain k ks where k: "op_room p = Some k # ks" "0 < k" by (cases "op_room p") auto
    define n where "n = min k (length buf)"
    define p' where "p' = p\<lparr>op_room := ks, op_written := op_written p @ take n buf\<rparr>"
    have n: "0 < n" using k(2) False by (simp add: n_def)
    have call: "os_write buf p = Some (Inr (Some n), p')" by (simp add: os_write_def k n_def p'_def Let_def)
    have "length (drop n buf) < length buf" "set (op_room p') \<subseteq> Some ` {0 <..}" "length (drop n buf) \<le> length (op_room p')"
      using less.prems k n False by (auto simp: p'_def)
    from less.hyps [OF this] obtain rm where
      "write_loop (drop n buf) t p' = Some (Inr True, p'\<lparr>op_written := op_written p' @ drop n buf, op_room := rm\<rparr>)" by blast
    then show ?thesis using False n call
      by (intro exI [of _ rm], subst write_loop.simps) (simp add: act_simps p'_def)
  qed
qed

lemma write_refused:
  assumes "opipe_isOpen p" and "op_room p = []" and "0 < length buf" "length buf < 2 ^ 32"
  shows "inner_writeRaw buf t p = Some (Inl Undefined, p)"
  using assms by (simp add: inner_writeRaw_def act_simps write_loop.simps os_write_def bnd_def)

lemma pipe_transfer:
  assumes p: "opipe_isOpen p" "set (op_room p) \<subseteq> Some ` {0 <..}" and r: "ipipe_isOpen r" "[] \<notin> set (ip_inbox r)"
  shows "8 \<le> length (op_room p) \<Longrightarrow> concat (ip_inbox r) = le_bytes 8 v @ rest \<Longrightarrow>
      \<exists>rm ib. writeU64 v t p = Some (Inr True, p\<lparr>op_written := op_written p @ le_bytes 8 v, op_room := rm\<rparr>) \<and>
        pipe_readU64 r = Some (Inr v, r\<lparr>ip_inbox := ib\<rparr>) \<and> concat ib = rest"
    and "length msg \<le> length (op_room p) \<Longrightarrow> length msg < 2 ^ 32 \<Longrightarrow> CHR 0x00 \<notin> set msg \<Longrightarrow>
      concat (ip_inbox r) = map char_byte msg @ rest \<Longrightarrow>
      \<exists>rm ib. writeStr msg t p = Some (Inr True, p\<lparr>op_written := op_written p @ map char_byte msg, op_room := rm\<rparr>) \<and>
        pipe_readStr (of_nat (length msg)) r = Some (Inr msg, r\<lparr>ip_inbox := ib\<rparr>) \<and> concat ib = rest"
proof -
  have s: "isOpen (as_stream r)" "live_inbox (as_stream r)" "pending (as_stream r) = concat (ip_inbox r)"
    using r by (auto simp: as_stream_def isOpen_def ipipe_isOpen_def live_inbox_def pending_def)
  have wr: "\<exists>rm. inner_writeRaw buf t p = Some (Inr True, p\<lparr>op_written := op_written p @ buf, op_room := rm\<rparr>)"
    if "length buf \<le> length (op_room p)" "length buf < 2 ^ 32" for buf
    using write_loop_ok [OF p(2) that(1), of t] p(1) that(2) by (simp add: inner_writeRaw_def act_simps)
  {
    assume room: "8 \<le> length (op_room p)" and box: "concat (ip_inbox r) = le_bytes 8 v @ rest"
    from receive_word_ok [OF s(1,2), of 8 v rest] box s(3) obtain ib where
      "receive_word 8 (as_stream r) = Some (Inr v, (as_stream r)\<lparr>inbox := ib\<rparr>)" "concat ib = rest" by auto
    then show "\<exists>rm ib. writeU64 v t p = Some (Inr True, p\<lparr>op_written := op_written p @ le_bytes 8 v, op_room := rm\<rparr>) \<and>
        pipe_readU64 r = Some (Inr v, r\<lparr>ip_inbox := ib\<rparr>) \<and> concat ib = rest"
      using wr [of "le_bytes 8 v"] room by (auto simp: writeU64_def pipe_readU64_def read_word_via via_def as_pipe_def as_stream_def)
  next
    assume room: "length msg \<le> length (op_room p)" "length msg < 2 ^ 32" and nul: "CHR 0x00 \<notin> set msg"
      and box: "concat (ip_inbox r) = map char_byte msg @ rest"
    from receiveStr_ok [OF s(1,2), of msg rest] box s(3) nul room(2) obtain ib where
      "receiveStr (of_nat (length msg)) (as_stream r) = Some (Inr msg, (as_stream r)\<lparr>inbox := ib\<rparr>)" "concat ib = rest" by auto
    then show "\<exists>rm ib. writeStr msg t p = Some (Inr True, p\<lparr>op_written := op_written p @ map char_byte msg, op_room := rm\<rparr>) \<and>
        pipe_readStr (of_nat (length msg)) r = Some (Inr msg, r\<lparr>ip_inbox := ib\<rparr>) \<and> concat ib = rest"
      using wr [of "map char_byte msg"] room by (auto simp: writeStr_def pipe_readStr_via via_def as_pipe_def as_stream_def)
  }
qed

end
