(* ===== verification/Files.thy ===== *)
theory Files
  imports Prelude
begin

text \<open>
  \<^verbatim>\<open>utils/files.cc\<close>: paths, directories and mount points. What the file system answers is a parameter: which
  directories can be opened and what they contain, what \<^verbatim>\<open>mkdir\<close> does, and the table of mounts.
\<close>

section \<open>Paths\<close>

text \<open>\<^verbatim>\<open>find_last_of\<close> of one character.\<close>

fun find_last_of :: "char \<Rightarrow> string \<Rightarrow> nat option" where
  "find_last_of c [] = None"
| "find_last_of c (x # xs) = (case find_last_of c xs of
     Some i \<Rightarrow> Some (Suc i)
   | None \<Rightarrow> if x = c then Some 0 else None)"

definition join_path :: "string \<Rightarrow> string \<Rightarrow> string" where
  "join_path start rest =
     (if length start \<noteq> 0 \<and> length rest \<noteq> 0 then
        let need = (start ! (length start - 1) \<noteq> CHR ''/'') in
        if rest ! 0 = CHR ''/'' then
          if need then start @ rest else start @ drop 1 rest
        else
          if need then start @ ''/'' @ rest else start @ rest
      else start @ rest)"

definition parent_directory :: "string \<Rightarrow> string" where
  "parent_directory path = (case find_last_of (CHR ''/'') path of Some i \<Rightarrow> take i path | None \<Rightarrow> [])"

text \<open>The comparison reads the end of \<open>path\<close> as a NUL, and nothing behind it.\<close>

fun same_chars :: "string \<Rightarrow> string \<Rightarrow> bool res" where
  "same_chars [] path = Inr True"
| "same_chars (p # ps) (c # cs) = (if p \<noteq> c then Inr False else same_chars ps cs)"
| "same_chars (p # ps) [] = (if p \<noteq> CHR 0x00 then Inr False else if ps = [] then Inr True else Inl Undefined)"

definition is_parent_directory :: "string \<Rightarrow> string \<Rightarrow> bool res" where
  "is_parent_directory parent path = (if length parent < length path then Inr False else same_chars parent path)"

definition get_extension :: "string \<Rightarrow> string" where
  "get_extension path = (case find_last_of (CHR ''.'') path of Some i \<Rightarrow> drop (i + 1) path | None \<Rightarrow> [])"

definition strip_extension :: "string \<Rightarrow> string" where
  "strip_extension path = (case find_last_of (CHR ''.'') path of None \<Rightarrow> path | Some i \<Rightarrow> take i path)"

definition get_filename :: "string \<Rightarrow> string" where
  "get_filename path = (case find_last_of (CHR ''/'') path of Some i \<Rightarrow> drop (i + 1) path | None \<Rightarrow> [])"

definition get_absolute_path :: "(string \<Rightarrow> bool) \<Rightarrow> string \<Rightarrow> string \<Rightarrow> string res" where
  "get_absolute_path file_exists current relative =
     (let file_name = join_path current relative in
      if file_exists file_name then Inr file_name
      else if file_exists relative then Inr relative
      else Inl (FileError (''File not found : '' @ file_name)))"

section \<open>Directories\<close>

text \<open>\<open>contents\<close> is what \<^verbatim>\<open>opendir\<close> and \<^verbatim>\<open>readdir\<close> answer.\<close>

type_synonym directories = "string \<Rightarrow> string list option"

definition directory_exists :: "directories \<Rightarrow> string \<Rightarrow> bool" where
  "directory_exists contents path \<longleftrightarrow> contents path \<noteq> None"

record dir_iterator =
  di_dir :: "string list option"
  di_curr :: "string option"
  di_path :: string

fun dir_next_from :: "string list \<Rightarrow> dir_iterator \<Rightarrow> dir_iterator" where
  "dir_next_from [] d = d\<lparr>di_dir := None, di_curr := None\<rparr>"
| "dir_next_from (e # es) d =
     (if e = ''..'' \<or> e = ''.'' then dir_next_from es d else d\<lparr>di_dir := Some es, di_curr := Some e\<rparr>)"

definition dir_next :: "dir_iterator \<Rightarrow> dir_iterator" where
  "dir_next d = (case di_dir d of None \<Rightarrow> d | Some es \<Rightarrow> dir_next_from es d)"

text \<open>\<open>junk\<close> is what \<^verbatim>\<open>_curr\<close> holds before.\<close>

definition dir_begin :: "directories \<Rightarrow> string option \<Rightarrow> string \<Rightarrow> dir_iterator" where
  "dir_begin contents junk path = dir_next \<lparr>di_dir = contents path, di_curr = junk, di_path = path\<rparr>"

definition dir_entry :: "dir_iterator \<Rightarrow> string" where
  "dir_entry d = (case di_curr d of Some e \<Rightarrow> join_path (di_path d) e | None \<Rightarrow> [])"

text \<open>The loop over the entries of a directory, which ends when the directory is closed.\<close>

fun dir_loop :: "nat \<Rightarrow> dir_iterator \<Rightarrow> string list" where
  "dir_loop 0 d = []"
| "dir_loop (Suc n) d = (if di_dir d = None then [] else dir_entry d # dir_loop n (dir_next d))"

definition is_empty_directory :: "directories \<Rightarrow> string option \<Rightarrow> string \<Rightarrow> bool" where
  "is_empty_directory contents junk path =
     (if \<not> directory_exists contents path then False else di_dir (dir_begin contents junk path) = None)"

lemma find_last_of_less: "find_last_of c s = Some i \<Longrightarrow> i < length s"
  by (induction s arbitrary: i) (auto split: option.splits if_splits)

lemma parent_shorter: "parent_directory path \<noteq> [] \<Longrightarrow> length (parent_directory path) < length path"
  by (auto simp: parent_directory_def dest: find_last_of_less split: option.splits)

text \<open>\<open>mkdir\<close> is whether the directory was created and the file system afterwards.\<close>

function create_directory ::
  "('f \<Rightarrow> directories) \<Rightarrow> (string \<Rightarrow> 'f \<Rightarrow> bool \<times> 'f) \<Rightarrow> string \<Rightarrow> bool \<Rightarrow> 'f \<Rightarrow> bool \<times> 'f" where
  "create_directory contents mkdir path recursive fs =
     (let parent = parent_directory path in
      if directory_exists (contents fs) parent then mkdir path fs
      else if recursive then
        (if parent \<noteq> [] then
           (case create_directory contents mkdir parent True fs of
              (created, fs) \<Rightarrow> if \<not> created then (False, fs) else mkdir path fs)
         else mkdir path fs)
      else (False, fs))"
  by pat_completeness auto
termination
  by (relation "measure (\<lambda>(contents, mkdir, path, recursive, fs). length path)") (auto intro: parent_shorter)

declare create_directory.simps [simp del]

section \<open>Mounts\<close>

text \<open>The entries of \<^verbatim>\<open>/proc/mounts\<close>: the directory and the name of what is mounted there.\<close>

fun get_mount_type :: "(string \<times> string) list \<Rightarrow> string \<Rightarrow> string res" where
  "get_mount_type [] path = Inr []"
| "get_mount_type ((dir, fsname) # ents) path =
     ebind (is_parent_directory dir path) (\<lambda>p. if p then Inr fsname else get_mount_type ents path)"

definition get_mount_loc :: "(string \<times> string) list \<Rightarrow> string \<Rightarrow> string list" where
  "get_mount_loc ents type = map fst (filter (\<lambda>(dir, fsname). type = fsname) ents)"

text \<open>With the two variables of the file, and \<open>isV2\<close> before and after.\<close>

definition get_cgroup_mount_point :: "(string \<times> string) list \<Rightarrow> bool \<Rightarrow> bool \<times> string \<Rightarrow> string \<times> bool \<times> bool \<times> string" where
  "get_cgroup_mount_point ents isV2 cgroup = (case cgroup of (v2, root) \<Rightarrow>
     if root \<noteq> [] then (root, v2, v2, root)
     else
       (case get_mount_loc ents ''cgroup2'' of
          dir # _ \<Rightarrow> (dir, True, True, dir)
        | [] \<Rightarrow>
            (case get_mount_loc ents ''cgroup'' of
               dir # _ \<Rightarrow> (dir, isV2, v2, dir)
             | [] \<Rightarrow> ([], isV2, v2, root))))"

section \<open>What they compute\<close>

lemma find_last_of_none: "c \<notin> set s \<Longrightarrow> find_last_of c s = None"
  by (induction s) auto

lemma find_last_of_split: "c \<notin> set s \<Longrightarrow> find_last_of c (r @ c # s) = Some (length r)"
  by (induction r) (simp_all add: find_last_of_none)

text \<open>A path that was joined from a directory and a name gives them back; so does one with an extension.\<close>

lemma join_split:
  assumes "dir \<noteq> []" "last dir \<noteq> CHR ''/''" and "name \<noteq> []" "CHR ''/'' \<notin> set name"
  shows "parent_directory (join_path dir name) = dir" and "get_filename (join_path dir name) = name"
proof -
  have "name ! 0 \<noteq> CHR ''/''" using assms(3,4) by (cases name) auto
  then have "join_path dir name = dir @ CHR ''/'' # name" using assms by (simp add: join_path_def last_conv_nth)
  then show "parent_directory (join_path dir name) = dir" "get_filename (join_path dir name) = name"
    using assms(4) by (simp_all add: parent_directory_def get_filename_def find_last_of_split)
qed

lemma extension_split:
  assumes "CHR ''.'' \<notin> set ext"
  shows "get_extension (path @ CHR ''.'' # ext) = ext" and "strip_extension (path @ CHR ''.'' # ext) = path"
  using assms by (simp_all add: get_extension_def strip_extension_def find_last_of_split)

text \<open>\<^verbatim>\<open>is_parent_directory\<close> holds of a path and itself only.\<close>

lemma same_chars_shorter: "CHR 0x00 \<notin> set parent \<Longrightarrow> length path \<le> length parent \<Longrightarrow> same_chars parent path = Inr (parent = path)"
  by (induction parent path rule: same_chars.induct) auto

lemma is_parent_directory_equal: "CHR 0x00 \<notin> set parent \<Longrightarrow> is_parent_directory parent path = Inr (parent = path)"
  by (auto simp: is_parent_directory_def same_chars_shorter)

text \<open>The loop over a directory gives its entries in the order of the file system, without the two that stand for it and its parent.\<close>

definition is_entry :: "string \<Rightarrow> bool" where
  "is_entry e \<longleftrightarrow> e \<noteq> ''..'' \<and> e \<noteq> ''.''"

lemma dir_loop_from:
  "length es < n \<Longrightarrow> dir_loop n (dir_next_from es d) = map (join_path (di_path d)) (filter is_entry es)"
proof (induction es arbitrary: n d)
  case Nil
  then show ?case by (cases n) simp_all
next
  case (Cons e es)
  show ?case
  proof (cases "is_entry e")
    case True
    with Cons.prems obtain m where "n = Suc m" "length es < m" by (cases n) auto
    then show ?thesis using True Cons.IH [of m "d\<lparr>di_dir := Some es, di_curr := Some e\<rparr>"]
      by (simp add: is_entry_def dir_entry_def dir_next_def)
  next
    case False
    then show ?thesis using Cons by (auto simp: is_entry_def)
  qed
qed

lemma directory_listed:
  assumes "contents path = Some es"
  shows "dir_loop (length es + 1) (dir_begin contents junk path) = map (join_path path) (filter is_entry es)"
    and "is_empty_directory contents junk path \<longleftrightarrow> filter is_entry es = []"
proof -
  have "di_dir (dir_next_from es d) = None \<longleftrightarrow> filter is_entry es = []" for d
    by (induction es) (auto simp: is_entry_def)
  then show "is_empty_directory contents junk path \<longleftrightarrow> filter is_entry es = []"
    using assms by (simp add: is_empty_directory_def directory_exists_def dir_begin_def dir_next_def)
qed (use assms in \<open>simp add: dir_begin_def dir_next_def dir_loop_from del: dir_loop.simps\<close>)

text \<open>A relative path of one name is not created without \<^verbatim>\<open>recursive\<close>, as its parent is the empty path.\<close>

lemma create_one_name:
  assumes "CHR ''/'' \<notin> set path" and "contents fs [] = None"
  shows "create_directory contents mkdir path False fs = (False, fs)" and "create_directory contents mkdir path True fs = mkdir path fs"
  using assms by (simp_all add: create_directory.simps [of _ _ path] parent_directory_def find_last_of_none directory_exists_def)

end
