(* ===== verification/Trace.thy ===== *)
theory Trace
  imports Config Files Act
begin

text \<open>
  \<^verbatim>\<open>utils/trace\<close>: the exporters of traces, on the text of the file they write; and \<^verbatim>\<open>utils/range.cc\<close>. How a \<^verbatim>\<open>float\<close>
  is printed is a parameter.
\<close>

section \<open>CSV\<close>

record csv_exporter =
  csv_filename :: string
  csv_file :: string
  csv_head :: "string list"

text \<open>The directory of the file is made when it is missing, and whatever comes of it the file is opened.\<close>

definition open_trace :: "('f \<Rightarrow> directories) \<Rightarrow> (string \<Rightarrow> 'f \<Rightarrow> bool \<times> 'f) \<Rightarrow> string \<Rightarrow> 'f \<Rightarrow> 'f" where
  "open_trace contents mkdir filename fs =
     (if \<not> directory_exists (contents fs) (parent_directory filename)
      then snd (create_directory contents mkdir (parent_directory filename) True fs) else fs)"

definition csv_new :: "('f \<Rightarrow> directories) \<Rightarrow> (string \<Rightarrow> 'f \<Rightarrow> bool \<times> 'f) \<Rightarrow> string \<Rightarrow> 'f \<Rightarrow> csv_exporter \<times> 'f" where
  "csv_new contents mkdir filename fs =
     (\<lparr>csv_filename = filename, csv_file = [], csv_head = []\<rparr>, open_trace contents mkdir filename fs)"

text \<open>The loop over the columns, from the column \<open>i\<close>.\<close>

fun csv_columns :: "('v \<Rightarrow> string) \<Rightarrow> nat \<Rightarrow> 'v list \<Rightarrow> string" where
  "csv_columns show i [] = []"
| "csv_columns show i (it # its) = (if i \<noteq> 0 then '' ; '' else []) @ show it @ csv_columns show (i + 1) its"

definition csv_setHeader :: "string list \<Rightarrow> csv_exporter \<Rightarrow> csv_exporter" where
  "csv_setHeader values e =
     e\<lparr>csv_file := csv_file e @ ''TIMESTAMP ; '' @ csv_columns (\<lambda>it. it) 0 values @ [CHR 0x0A], csv_head := values\<rparr>"

definition csv_appendFloat :: "('v \<Rightarrow> string) \<Rightarrow> u32 \<Rightarrow> 'v list \<Rightarrow> csv_exporter \<Rightarrow> csv_exporter" where
  "csv_appendFloat show_float timestamp values e =
     e\<lparr>csv_file := csv_file e @ show_nat (unat timestamp) @ '' ; '' @ csv_columns show_float 0 values @ [CHR 0x0A]\<rparr>"

definition csv_appendInt :: "u32 \<Rightarrow> u32 list \<Rightarrow> csv_exporter \<Rightarrow> csv_exporter" where
  "csv_appendInt timestamp values e =
     e\<lparr>csv_file := csv_file e @ show_nat (unat timestamp) @ '' ; '' @ csv_columns (\<lambda>v. show_nat (unat v)) 0 values @ [CHR 0x0A]\<rparr>"

text \<open>A column that the configuration does not have is left empty.\<close>

definition csv_value :: "config \<Rightarrow> string \<Rightarrow> string" where
  "csv_value cfg it = (case config_at_key cfg it of Inl e \<Rightarrow> [] | Inr v \<Rightarrow> config_format v)"

definition csv_append :: "u32 \<Rightarrow> config \<Rightarrow> csv_exporter \<Rightarrow> csv_exporter" where
  "csv_append timestamp cfg e =
     e\<lparr>csv_file := csv_file e @ show_nat (unat timestamp) @ '' ; '' @ csv_columns (csv_value cfg) 0 (csv_head e) @ [CHR 0x0A]\<rparr>"

section \<open>JSON\<close>

record json_exporter =
  js_filename :: string
  js_file :: string
  js_head :: "string list"
  js_first :: bool

definition json_new :: "('f \<Rightarrow> directories) \<Rightarrow> (string \<Rightarrow> 'f \<Rightarrow> bool \<times> 'f) \<Rightarrow> string \<Rightarrow> 'f \<Rightarrow> json_exporter \<times> 'f" where
  "json_new contents mkdir filename fs =
     (\<lparr>js_filename = filename, js_file = ''['' @ [CHR 0x0A], js_head = [], js_first = True\<rparr>, open_trace contents mkdir filename fs)"

definition json_setHeader :: "string list \<Rightarrow> json_exporter \<Rightarrow> json_exporter" where
  "json_setHeader values e = e\<lparr>js_head := values\<rparr>"

definition quoted_name :: "string \<Rightarrow> string" where
  "quoted_name s = [CHR 0x22] @ s @ [CHR 0x22]"

text \<open>One record, after a comma unless it is the first.\<close>

definition json_record :: "u32 \<Rightarrow> string \<Rightarrow> json_exporter \<Rightarrow> json_exporter" where
  "json_record timestamp columns e =
     e\<lparr>js_file := js_file e @ (if \<not> js_first e then '','' @ [CHR 0x0A] else []) @
         [CHR 0x09] @ ''{'' @ quoted_name ''timestamp'' @ '' : '' @ show_nat (unat timestamp) @ columns @ ''}'' @ [CHR 0x0A],
       js_first := False\<rparr>"

text \<open>The index of the value is never increased: every column has the first value.\<close>

fun json_columns :: "('v \<Rightarrow> string) \<Rightarrow> 'v list \<Rightarrow> string list \<Rightarrow> string res" where
  "json_columns show values [] = Inr []"
| "json_columns show values (it # its) =
     (if values = [] then Inl Undefined
      else ebind (json_columns show values its) (\<lambda>r. Inr ('', '' @ quoted_name it @ '' : '' @ show (values ! 0) @ r)))"

definition json_appendFloat :: "('v \<Rightarrow> string) \<Rightarrow> u32 \<Rightarrow> 'v list \<Rightarrow> json_exporter \<Rightarrow> json_exporter res" where
  "json_appendFloat show_float timestamp values e =
     ebind (json_columns show_float values (js_head e)) (\<lambda>columns. Inr (json_record timestamp columns e))"

definition json_appendInt :: "u32 \<Rightarrow> u32 list \<Rightarrow> json_exporter \<Rightarrow> json_exporter res" where
  "json_appendInt timestamp values e =
     ebind (json_columns (\<lambda>v. show_nat (unat v)) values (js_head e)) (\<lambda>columns. Inr (json_record timestamp columns e))"

text \<open>The values of a dictionary, the texts between quotes (and not escaped); of anything else, nothing.\<close>

definition json_value :: "config \<Rightarrow> string \<Rightarrow> string" where
  "json_value cfg it = (case config_at_key cfg it of
     Inl e \<Rightarrow> []
   | Inr v \<Rightarrow> '', '' @ quoted_name it @ '' : '' @ (case v of CString s \<Rightarrow> quoted_name (config_format v) | _ \<Rightarrow> config_format v))"

definition json_append :: "u32 \<Rightarrow> config \<Rightarrow> json_exporter \<Rightarrow> json_exporter" where
  "json_append timestamp cfg e =
     json_record timestamp (case cfg of Dict _ _ \<Rightarrow> concat (map (json_value cfg) (getKeys cfg)) | _ \<Rightarrow> []) e"

definition json_close :: "json_exporter \<Rightarrow> json_exporter" where
  "json_close e = e\<lparr>js_file := js_file e @ '']'' @ [CHR 0x0A]\<rparr>"

section \<open>What the files hold\<close>

text \<open>A line of CSV is cut into its columns at the separators, if none of them has one.\<close>

lemma join_Cons: "join sep (x # xs) = x @ concat (map (\<lambda>y. sep @ y) xs)"
  by (induction xs arbitrary: x) simp_all

lemma csv_columns_join: "csv_columns show 0 vs = join '' ; '' (map show vs)"
proof -
  have "csv_columns show (Suc i) vs = concat (map (\<lambda>v. '' ; '' @ show v) vs)" for i vs
    by (induction vs arbitrary: i) simp_all
  then show ?thesis by (cases vs) (simp_all add: join_Cons o_def)
qed

lemma csv_append_columns:
  assumes "dict_ok cfg" and "csv_head e = getKeys cfg"
  shows "csv_append t cfg e = e\<lparr>csv_file := csv_file e @ show_nat (unat t) @ '' ; '' @
      join '' ; '' (map (\<lambda>(k, v). config_format v) (getValues cfg)) @ [CHR 0x0A]\<rparr>"
proof -
  obtain ks nodes where cfg: "cfg = Dict ks nodes" "ks = map fst nodes" "map_ok nodes"
    using assms(1) by (auto simp: dict_ok_def split: config.splits)
  have "csv_value cfg k = config_format v" if "(k, v) \<in> set nodes" for k v
    using that cfg by (simp add: csv_value_def config_at_key_def map_ok_def map_of_is_SomeI sorted_wrt_less_distinct)
  then have e: "map (csv_value cfg) (getKeys cfg) = map (\<lambda>(k, v). config_format v) (getValues cfg)"
    using cfg(1,2) by (auto simp: getKeys_def getValues_def)
  show ?thesis by (simp only: csv_append_def csv_columns_join assms(2) e)
qed

text \<open>The file of JSON: an array of the records that were appended, in their order.\<close>

definition json_line :: "u32 \<times> string \<Rightarrow> string" where
  "json_line r = [CHR 0x09] @ ''{'' @ quoted_name ''timestamp'' @ '' : '' @ show_nat (unat (fst r)) @ snd r @ ''}'' @ [CHR 0x0A]"

lemma json_record_line:
  "js_file (json_record t c e) = js_file e @ (if js_first e then [] else '','' @ [CHR 0x0A]) @ json_line (t, c)"
  "js_first (json_record t c e) = False"
  by (simp_all add: json_record_def json_line_def)

lemma json_file:
  "js_file (json_close (foldl (\<lambda>e (t, c). json_record t c e) (fst (json_new contents mkdir filename fs)) rs)) =
   ''['' @ [CHR 0x0A] @ join ('','' @ [CHR 0x0A]) (map json_line rs) @ '']'' @ [CHR 0x0A]"
proof -
  have "js_file (foldl (\<lambda>e (t, c). json_record t c e) e rs) = js_file e @ concat (map (\<lambda>r. ('','' @ [CHR 0x0A]) @ json_line r) rs)"
    if "\<not> js_first e" for e and rs :: "(u32 \<times> string) list"
    using that by (induction rs arbitrary: e) (auto simp: json_record_line)
  then show ?thesis
    by (cases rs) (auto simp: json_record_line join_Cons json_close_def json_new_def o_def)
qed

section \<open>Ranges\<close>

record r_iterator =
  ri_curr :: u64
  ri_pad :: u64

definition range_begin :: "u64 \<Rightarrow> u64 \<Rightarrow> r_iterator" where
  "range_begin start stop = (if sint stop < sint start then \<lparr>ri_curr = start, ri_pad = -1\<rparr> else \<lparr>ri_curr = start, ri_pad = 1\<rparr>)"

definition range_end :: "u64 \<Rightarrow> u64 \<Rightarrow> r_iterator" where
  "range_end start stop = \<lparr>ri_curr = stop, ri_pad = 1\<rparr>"

definition range_next :: "r_iterator \<Rightarrow> r_iterator" where
  "range_next it = it\<lparr>ri_curr := ri_curr it + ri_pad it\<rparr>"

definition range_differ :: "r_iterator \<Rightarrow> r_iterator \<Rightarrow> bool" where
  "range_differ it ot \<longleftrightarrow> ri_curr ot \<noteq> ri_curr it"

text \<open>The values of a loop over a range.\<close>

partial_function (option) range_loop :: "r_iterator \<Rightarrow> r_iterator \<Rightarrow> u64 list option" where
  "range_loop it ot =
     (if \<not> range_differ it ot then Some []
      else Option.bind (range_loop (range_next it) ot) (\<lambda>r. Some (ri_curr it # r)))"

lemma range_loop_run:
  "(\<And>i. i < n \<Longrightarrow> start + of_nat i * pad \<noteq> stop) \<Longrightarrow> start + of_nat n * pad = stop \<Longrightarrow>
   range_loop \<lparr>ri_curr = start, ri_pad = pad\<rparr> \<lparr>ri_curr = stop, ri_pad = p\<rparr> = Some (map (\<lambda>i. start + of_nat i * pad) [0 ..< n])"
proof (induction n arbitrary: start)
  case 0
  then show ?case by (subst range_loop.simps) (simp add: range_differ_def)
next
  case (Suc n)
  have "range_loop \<lparr>ri_curr = start + pad, ri_pad = pad\<rparr> \<lparr>ri_curr = stop, ri_pad = p\<rparr> =
      Some (map (\<lambda>i. (start + pad) + of_nat i * pad) [0 ..< n])"
    using Suc.prems(1) [of "Suc _"] Suc.prems(2) by (intro Suc.IH) (simp_all add: algebra_simps)
  moreover have "start \<noteq> stop" using Suc.prems(1) [of 0] by simp
  moreover have "map (\<lambda>i. start + of_nat i * pad) [0 ..< Suc n] = start # map (\<lambda>i. (start + pad) + of_nat i * pad) [0 ..< n]"
    by (simp only: upt_conv_Cons map_Suc_upt [symmetric] zero_less_Suc list.map) (simp add: algebra_simps)
  ultimately show ?case by (subst range_loop.simps) (simp add: range_differ_def range_next_def)
qed

text \<open>A loop over a range ends, and goes through the values from its start up, or down, to its end, without that.\<close>

lemma range_values:
  "range_loop (range_begin start stop) (range_end start stop) =
   Some (if sint stop < sint start then map (\<lambda>i. start - of_nat i) [0 ..< nat (sint start - sint stop)]
         else map (\<lambda>i. start + of_nat i) [0 ..< nat (sint stop - sint start)])"
proof -
  have sint_eq: "of_int (sint w) = (w :: u64)" for w by simp
  have range: "- (2 ^ 63) \<le> sint w" "sint w < 2 ^ 63" for w :: u64
    using sint_ge [of w] sint_lt [of w] by simp_all
  have apart: "of_int a \<noteq> (0 :: u64)" if "0 < \<bar>a\<bar>" "\<bar>a\<bar> < 2 ^ 64" for a
  proof
    assume "of_int a = (0 :: u64)"
    then have "(2 ^ 64) dvd a" by (simp add: word_of_int_eq_0_iff)
    then show False using that dvd_imp_le_int [of a "2 ^ 64"] by auto
  qed
  show ?thesis
  proof (cases "sint stop < sint start")
    case True
    let ?n = "nat (sint start - sint stop)"
    have e: "of_nat ?n = start - stop" using True sint_eq by (simp del: of_int_sint)
    have "start + of_nat i * (-1) \<noteq> stop" if "i < ?n" for i
    proof
      have below: "int i < sint start - sint stop" using that by linarith
      assume "start + of_nat i * (-1) = stop"
      then have "stop = start - of_nat i" by simp
      then have "of_int (sint start - sint stop - int i) = (0 :: u64)" by simp
      then show False using apart [of "sint start - sint stop - int i"] below range [of start] range [of stop] by simp
    qed
    then show ?thesis using range_loop_run [of ?n start "-1" stop 1] e True by (simp add: range_begin_def range_end_def)
  next
    case False
    let ?n = "nat (sint stop - sint start)"
    have e: "of_nat ?n = stop - start" using False sint_eq by (simp del: of_int_sint)
    have "start + of_nat i * 1 \<noteq> stop" if "i < ?n" for i
    proof
      have below: "int i < sint stop - sint start" using that by linarith
      assume "start + of_nat i * 1 = stop"
      then have "stop = start + of_nat i" by simp
      then have "of_int (sint stop - sint start - int i) = (0 :: u64)" by simp
      then show False using apart [of "sint stop - sint start - int i"] below range [of start] range [of stop] by simp
    qed
    then show ?thesis using range_loop_run [of ?n start 1 stop 1] e False by (simp add: range_begin_def range_end_def)
  qed
qed

end
