(* ===== verification/Mailbox.thy ===== *)
theory Mailbox
  imports Act
begin

text \<open>
  \<^verbatim>\<open>concurrency/mailbox.hh\<close> and \<^verbatim>\<open>semaphore.cc\<close>: what threads exchange and wait on.
  The operations of a mailbox run under its mutex, so each is one step of the thread that calls it;
  so is an operation on a semaphore.
\<close>

section \<open>The contract of a queue\<close>

text \<open>
  What senders and receivers rely on: values come out once, in the order they went in. \<open>fits\<close> is the
  number of values a queue can hold.
\<close>

locale fifo =
  fixes contents :: "'q \<Rightarrow> 'a list" and ok :: "'q \<Rightarrow> bool" and fits :: nat
    and send :: "'a \<Rightarrow> 'q \<Rightarrow> 'q" and receive :: "'q \<Rightarrow> 'a option \<times> 'q"
  assumes send_law: "ok q \<Longrightarrow> length (contents q) < fits \<Longrightarrow> ok (send x q) \<and> contents (send x q) = contents q @ [x]"
    and receive_law: "ok q \<Longrightarrow> receive q = (r, q') \<Longrightarrow> ok q' \<and>
      (case contents q of [] \<Rightarrow> r = None \<and> contents q' = [] | x # xs \<Rightarrow> r = Some x \<and> contents q' = xs)"
begin

text \<open>A run of sends (\<open>Some x\<close>) and receives (\<open>None\<close>), with what was received.\<close>

primrec run :: "'a option list \<Rightarrow> 'q \<Rightarrow> 'a list \<times> 'q" where
  "run [] q = ([], q)"
| "run (c # cs) q = (case c of
     Some x \<Rightarrow> run cs (send x q)
   | None \<Rightarrow> (case receive q of (r, q') \<Rightarrow> case run cs q' of (ys, q'') \<Rightarrow>
       ((case r of None \<Rightarrow> ys | Some y \<Rightarrow> y # ys), q'')))"

lemma receive_some: "ok q \<Longrightarrow> contents q = x # xs \<Longrightarrow> \<exists>q'. receive q = (Some x, q') \<and> ok q' \<and> contents q' = xs"
  using receive_law [of q] by (cases "receive q") force

lemma receive_none: "ok q \<Longrightarrow> contents q = [] \<Longrightarrow> \<exists>q'. receive q = (None, q') \<and> ok q' \<and> contents q' = []"
  using receive_law [of q] by (cases "receive q") force

text \<open>Nothing is lost, repeated or reordered.\<close>

lemma run_fifo:
  assumes "ok q" and "length (contents q) + length cs \<le> fits" and "run cs q = (ys, q')"
  shows "ok q' \<and> contents q @ List.map_filter id cs = ys @ contents q'"
  using assms
proof (induction cs arbitrary: q ys q')
  case (Cons c cs)
  show ?case
  proof (cases c)
    case (Some x)
    have s: "ok (send x q)" "contents (send x q) = contents q @ [x]"
      using send_law [OF Cons.prems(1)] Cons.prems(2) by auto
    with Cons.IH [of "send x q" ys] Cons.prems Some show ?thesis
      by (simp add: map_filter_simps)
  next
    case None
    obtain r q1 where r: "receive q = (r, q1)" by (cases "receive q")
    obtain zs q2 where z: "run cs q1 = (zs, q2)" by (cases "run cs q1")
    have l: "ok q1" "case contents q of [] \<Rightarrow> r = None \<and> contents q1 = [] | x # xs \<Rightarrow> r = Some x \<and> contents q1 = xs"
      using receive_law [OF Cons.prems(1) r] by auto
    then have "length (contents q1) + length cs \<le> fits" using Cons.prems(2) by (cases "contents q") auto
    from Cons.IH [OF l(1) this z] l(2) Cons.prems(3) None r z show ?thesis
      by (cases "contents q") (auto simp: map_filter_simps)
  qed
qed (simp add: map_filter_simps)

end

section \<open>Mailboxes\<close>

record 'a mailbox =
  mb_mails :: "'a list"
  mb_len :: u32

definition mailbox_new :: "'a mailbox" where
  "mailbox_new = \<lparr>mb_mails = [], mb_len = 0\<rparr>"

definition mailbox_send :: "'a \<Rightarrow> 'a mailbox \<Rightarrow> 'a mailbox" where
  "mailbox_send v b = b\<lparr>mb_mails := mb_mails b @ [v], mb_len := mb_len b + 1\<rparr>"

text \<open>The value, \<open>None\<close> when the answer is \<^verbatim>\<open>false\<close>.\<close>

definition mailbox_receive :: "'a mailbox \<Rightarrow> 'a option \<times> 'a mailbox" where
  "mailbox_receive b =
     (if mb_len b = 0 then (None, b)
      else (Some (hd (mb_mails b)), b\<lparr>mb_mails := tl (mb_mails b), mb_len := mb_len b - 1\<rparr>))"

definition mailbox_clear :: "'a mailbox \<Rightarrow> 'a mailbox" where
  "mailbox_clear b = b\<lparr>mb_mails := [], mb_len := 0\<rparr>"

definition mailbox_len :: "'a mailbox \<Rightarrow> u32" where
  "mailbox_len b = mb_len b"

text \<open>The mailbox that is moved and what is left of it.\<close>

definition mailbox_move :: "'a mailbox \<Rightarrow> 'a mailbox \<times> 'a mailbox" where
  "mailbox_move other = (other, other\<lparr>mb_mails := [], mb_len := 0\<rparr>)"

definition mailbox_ok :: "'a mailbox \<Rightarrow> bool" where
  "mailbox_ok b \<longleftrightarrow> unat (mb_len b) = length (mb_mails b)"

interpretation mb: fifo mb_mails mailbox_ok "2 ^ 32 - 1" mailbox_send mailbox_receive
proof
  fix b :: "'a mailbox" and v
  assume "mailbox_ok b" and "length (mb_mails b) < 2 ^ 32 - 1"
  then show "mailbox_ok (mailbox_send v b) \<and> mb_mails (mailbox_send v b) = mb_mails b @ [v]"
    by (simp add: mailbox_ok_def mailbox_send_def unat_add_u32)
next
  fix b :: "'a mailbox" and r b'
  assume ok: "mailbox_ok b" and "mailbox_receive b = (r, b')"
  then show "mailbox_ok b' \<and> (case mb_mails b of [] \<Rightarrow> r = None \<and> mb_mails b' = [] | x # xs \<Rightarrow> r = Some x \<and> mb_mails b' = xs)"
    by (cases "mb_mails b")
      (auto simp: mailbox_ok_def mailbox_receive_def word_unat_eq_iff unat_sub word_le_nat_alt)
qed

lemma mailbox_new_ok [simp]: "mailbox_ok mailbox_new" "mb_mails mailbox_new = []"
  by (simp_all add: mailbox_ok_def mailbox_new_def)

lemma mailbox_clear_ok [simp]: "mailbox_ok (mailbox_clear b)" "mb_mails (mailbox_clear b) = []"
  by (simp_all add: mailbox_ok_def mailbox_clear_def)

section \<open>Semaphores\<close>

text \<open>The count; \<open>None\<close> for a semaphore that was moved or disposed of.\<close>

type_synonym semaphore = "nat option"

definition sem_new :: semaphore where
  "sem_new = Some 0"

definition sem_move :: "semaphore \<Rightarrow> semaphore \<times> semaphore" where
  "sem_move other = (other, None)"

definition sem_dispose :: "semaphore \<Rightarrow> semaphore" where
  "sem_dispose s = None"

definition sem_post :: "semaphore \<Rightarrow> semaphore" where
  "sem_post s = map_option Suc s"

text \<open>Waiting without a time limit: \<open>None\<close> while the caller is blocked.\<close>

definition sem_wait :: "semaphore \<Rightarrow> (bool \<times> semaphore) option" where
  "sem_wait s = (case s of
     None \<Rightarrow> Some (False, None)
   | Some n \<Rightarrow> if n = 0 then None else Some (True, Some (n - 1)))"

definition sem_get :: "semaphore \<Rightarrow> nat" where
  "sem_get s = (case s of None \<Rightarrow> 0 | Some n \<Rightarrow> n)"

text \<open>
  Waiting with a time limit: the time at which the wait ends, from the clock (seconds and
  nanoseconds) and the two parts of the time given; and the wait when nobody posts before.
  \<^verbatim>\<open>sem_timedwait\<close> does not accept \<open>10 ^ 9\<close> nanoseconds.
\<close>

definition sem_deadline :: "u64 \<times> u64 \<Rightarrow> u64 \<Rightarrow> u64 \<Rightarrow> u64 \<times> u64" where
  "sem_deadline clock secs nanos =
     (let sec = fst clock + secs; nsec = snd clock + nanos mod 1000000000 in
      if 1000000000 < nsec then (sec + 1, nsec - 1000000000) else (sec, nsec))"

definition sem_timedwait :: "semaphore \<Rightarrow> bool \<times> semaphore" where
  "sem_timedwait s = (case s of
     None \<Rightarrow> (False, None)
   | Some n \<Rightarrow> if n = 0 then (False, Some 0) else (True, Some (n - 1)))"

lemma deadline_refused: "\<not> snd (sem_deadline (5, 600000000) 0 400000000) < 1000000000"
  by (simp add: sem_deadline_def)

end
