(* ===== verification/TaskPool.thy ===== *)
theory TaskPool
  imports Mailbox "HOL-Library.Multiset"
begin

text \<open>
  \<^verbatim>\<open>concurrency/taskpool.cc\<close>: a pool of threads that execute the tasks a client submits. The client
  and the workers are state machines whose steps interleave: a step is what one thread does between
  two points where it may wait or where what it shares is read or written (a mailbox, a semaphore,
  a counter). The client is the thread that owns the pool; a task is an opaque value whose execution
  is one step, and tasks do not call the pool themselves.
\<close>

section \<open>The state\<close>

text \<open>Where a worker is in \<^verbatim>\<open>taskMain\<close>, and the client in the methods of the pool.\<close>

datatype 'k worker_pc =
  W_start | W_wait | W_check | W_receive | W_execute 'k | W_count | W_post | W_close | W_end

datatype main_pc =
  M_idle | M_submit | M_spawn u32 | M_ready u32 nat | M_count | M_post
| M_waitall | M_blocked | M_terminate | M_closing | M_wake | M_joining "nat list" | M_clear

record 'k pool =
  tp_terminated :: bool
  tp_jobs :: "'k mailbox"
  tp_nbSubmitted :: u32
  tp_nbCompleted :: u32
  tp_nbThread :: u32
  tp_runningThreads :: "nat list"
  tp_closed :: "nat mailbox"
  tp_waitTask :: semaphore
  tp_completeTask :: semaphore
  tp_ready :: semaphore

text \<open>
  With the threads (by their ids, which are distinct) and the history: what was submitted and executed,
  and how much of it before the last \<^verbatim>\<open>join\<close>.
\<close>

record 'k threads = "'k pool" +
  workers :: "(nat \<times> 'k worker_pc) list"
  main :: main_pc
  next_id :: nat
  submitted :: "'k list"
  executed :: "'k list"
  joined :: nat

definition taskPool_new :: "u32 \<Rightarrow> 'k threads" where
  "taskPool_new nbThreads =
     \<lparr>tp_terminated = False, tp_jobs = mailbox_new, tp_nbSubmitted = 0, tp_nbCompleted = 0,
      tp_nbThread = nbThreads, tp_runningThreads = [], tp_closed = mailbox_new, tp_waitTask = sem_new,
      tp_completeTask = sem_new, tp_ready = sem_new, workers = [], main = M_idle, next_id = 1,
      submitted = [], executed = [], joined = 0\<rparr>"

text \<open>
  Moving a pool: the new one and what is left. The threads are not moved, they go on with the pool
  that they were spawned by.
\<close>

definition taskPool_move :: "'k pool \<Rightarrow> 'k pool \<times> 'k pool" where
  "taskPool_move other =
     (other,
      other\<lparr>tp_jobs := snd (mailbox_move (tp_jobs other)), tp_nbSubmitted := 0, tp_nbCompleted := 0, tp_runningThreads := [],
        tp_closed := snd (mailbox_move (tp_closed other)), tp_waitTask := snd (sem_move (tp_waitTask other)),
        tp_completeTask := snd (sem_move (tp_completeTask other)), tp_ready := snd (sem_move (tp_ready other))\<rparr>)"

section \<open>The steps\<close>

definition goto :: "nat \<Rightarrow> 'k worker_pc \<Rightarrow> 'k threads \<Rightarrow> 'k threads" where
  "goto i pc s = s\<lparr>workers := (workers s)[i := (fst (workers s ! i), pc)]\<rparr>"

text \<open>\<open>None\<close> while the thread is blocked.\<close>

definition taskMain :: "nat \<Rightarrow> 'k threads \<Rightarrow> 'k threads option" where
  "taskMain i s = (case snd (workers s ! i) of
     W_start \<Rightarrow> Some (goto i W_wait (s\<lparr>tp_ready := sem_post (tp_ready s)\<rparr>))
   | W_wait \<Rightarrow> (case sem_wait (tp_waitTask s) of
        None \<Rightarrow> None
      | Some (_, sem) \<Rightarrow> Some (goto i W_check (s\<lparr>tp_waitTask := sem\<rparr>)))
   | W_check \<Rightarrow> Some (goto i (if tp_terminated s then W_close else W_receive) s)
   | W_receive \<Rightarrow> (case mailbox_receive (tp_jobs s) of
        (Some task, jobs) \<Rightarrow> Some (goto i (W_execute task) (s\<lparr>tp_jobs := jobs\<rparr>))
      | (None, jobs) \<Rightarrow> Some (goto i W_wait (s\<lparr>tp_jobs := jobs\<rparr>)))
   | W_execute task \<Rightarrow> Some (goto i W_count (s\<lparr>executed := executed s @ [task]\<rparr>))
   | W_count \<Rightarrow> Some (goto i W_post (s\<lparr>tp_nbCompleted := tp_nbCompleted s + 1\<rparr>))
   | W_post \<Rightarrow> Some (goto i W_receive (s\<lparr>tp_completeTask := sem_post (tp_completeTask s)\<rparr>))
   | W_close \<Rightarrow> Some (goto i W_end (s\<lparr>tp_closed := mailbox_send (fst (workers s ! i)) (tp_closed s)\<rparr>))
   | W_end \<Rightarrow> None)"

text \<open>\<^verbatim>\<open>submit\<close> up to the test of the number of threads; \<open>main_step\<close> has the rest.\<close>

definition pool_submit :: "'k \<Rightarrow> 'k threads \<Rightarrow> 'k threads" where
  "pool_submit task s =
     s\<lparr>tp_jobs := mailbox_send task (tp_jobs s), submitted := submitted s @ [task], main := M_submit\<rparr>"

definition isWorkerThread :: "nat \<Rightarrow> 'k threads \<Rightarrow> bool" where
  "isWorkerThread self s \<longleftrightarrow> self \<in> set (tp_runningThreads s)"

text \<open>\<^verbatim>\<open>join\<close>, called by the thread \<open>self\<close>: it returns false at once to a worker.\<close>

definition pool_join :: "nat \<Rightarrow> 'k threads \<Rightarrow> 'k threads" where
  "pool_join self s = (if isWorkerThread self s then s else s\<lparr>main := M_waitall\<rparr>)"

text \<open>The map of the running threads, by their keys.\<close>

definition emplace :: "nat \<Rightarrow> nat list \<Rightarrow> nat list" where
  "emplace th ths = (if th \<in> set ths then ths else ths @ [th])"

definition spawnThread_step :: "'k threads \<Rightarrow> 'k threads option" where
  "spawnThread_step s = (case main s of
     M_spawn i \<Rightarrow>
       if i < tp_nbThread s then
         Some (s\<lparr>workers := workers s @ [(next_id s, W_start)], next_id := next_id s + 1, main := M_ready i (next_id s)\<rparr>)
       else Some (s\<lparr>main := M_count\<rparr>)
   | M_ready i th \<Rightarrow> (case sem_wait (tp_ready s) of
       None \<Rightarrow> None
     | Some (_, sem) \<Rightarrow> Some (s\<lparr>tp_ready := sem, tp_runningThreads := emplace th (tp_runningThreads s), main := M_spawn (i + 1)\<rparr>))
   | _ \<Rightarrow> None)"

definition submit_step :: "'k threads \<Rightarrow> 'k threads option" where
  "submit_step s = (case main s of
     M_submit \<Rightarrow>
       if length (tp_runningThreads s) \<noteq> unat (tp_nbThread s)
       then Some (s\<lparr>tp_terminated := False, main := M_spawn 0\<rparr>)
       else Some (s\<lparr>main := M_count\<rparr>)
   | M_count \<Rightarrow> Some (s\<lparr>tp_nbSubmitted := tp_nbSubmitted s + 1, main := M_post\<rparr>)
   | M_post \<Rightarrow> Some (s\<lparr>tp_waitTask := sem_post (tp_waitTask s), main := M_idle\<rparr>)
   | _ \<Rightarrow> None)"

definition waitAllCompletes_step :: "'k threads \<Rightarrow> 'k threads option" where
  "waitAllCompletes_step s = (case main s of
     M_waitall \<Rightarrow> Some (s\<lparr>main := (if tp_nbSubmitted s \<noteq> tp_nbCompleted s then M_blocked else M_terminate)\<rparr>)
   | M_blocked \<Rightarrow> (case sem_wait (tp_completeTask s) of
       None \<Rightarrow> None
     | Some (_, sem) \<Rightarrow> Some (s\<lparr>tp_completeTask := sem, main := M_waitall\<rparr>))
   | _ \<Rightarrow> None)"

definition join_step :: "'k threads \<Rightarrow> 'k threads option" where
  "join_step s = (case main s of
     M_terminate \<Rightarrow> Some (s\<lparr>tp_terminated := True, main := M_closing\<rparr>)
   | M_closing \<Rightarrow>
       if unat (mailbox_len (tp_closed s)) \<noteq> length (tp_runningThreads s)
       then Some (s\<lparr>main := M_wake\<rparr>)
       else Some (s\<lparr>main := M_joining (tp_runningThreads s)\<rparr>)
   | M_wake \<Rightarrow> Some (s\<lparr>tp_waitTask := sem_post (tp_waitTask s), main := M_closing\<rparr>)
   | M_joining [] \<Rightarrow> Some (s\<lparr>main := M_clear\<rparr>)
   | M_joining (th # ths) \<Rightarrow>
       if (th, W_end) \<in> set (workers s)
       then Some (s\<lparr>workers := filter (\<lambda>w. fst w \<noteq> th) (workers s), main := M_joining ths\<rparr>)
       else None
   | M_clear \<Rightarrow> Some (s\<lparr>tp_closed := mailbox_clear (tp_closed s), tp_runningThreads := [], tp_nbCompleted := 0,
       tp_nbSubmitted := 0, joined := length (submitted s), main := M_idle\<rparr>)
   | _ \<Rightarrow> None)"

definition main_step :: "'k threads \<Rightarrow> 'k threads option" where
  "main_step s = (case main s of
     M_submit \<Rightarrow> submit_step s | M_count \<Rightarrow> submit_step s | M_post \<Rightarrow> submit_step s
   | M_spawn _ \<Rightarrow> spawnThread_step s | M_ready _ _ \<Rightarrow> spawnThread_step s
   | M_waitall \<Rightarrow> waitAllCompletes_step s | M_blocked \<Rightarrow> waitAllCompletes_step s
   | _ \<Rightarrow> join_step s)"

text \<open>
  The client is thread 0. Between two joins it submits less than \<open>2 ^ 32\<close> tasks, so that its counter
  does not come back to the same value.
\<close>

inductive pool_reach :: "u32 \<Rightarrow> 'k threads \<Rightarrow> bool" for nbThreads :: u32 where
  new: "pool_reach nbThreads (taskPool_new nbThreads)"
| submit: "pool_reach nbThreads s \<Longrightarrow> main s = M_idle \<Longrightarrow> length (submitted s) - joined s + 1 < 2 ^ 32 \<Longrightarrow>
    pool_reach nbThreads (pool_submit task s)"
| join: "pool_reach nbThreads s \<Longrightarrow> main s = M_idle \<Longrightarrow> pool_reach nbThreads (pool_join 0 s)"
| client: "pool_reach nbThreads s \<Longrightarrow> main_step s = Some s' \<Longrightarrow> pool_reach nbThreads s'"
| worker: "pool_reach nbThreads s \<Longrightarrow> i < length (workers s) \<Longrightarrow> taskMain i s = Some s' \<Longrightarrow> pool_reach nbThreads s'"

text \<open>A schedule: the steps of the client (\<open>None\<close>) and of the workers.\<close>

primrec pool_steps :: "nat option list \<Rightarrow> 'k threads \<Rightarrow> 'k threads option" where
  "pool_steps [] s = Some s"
| "pool_steps (c # cs) s =
     (case (case c of None \<Rightarrow> main_step s | Some i \<Rightarrow> if i < length (workers s) then taskMain i s else None) of
       None \<Rightarrow> None
     | Some s' \<Rightarrow> pool_steps cs s')"

lemma steps_reach: "pool_reach n s \<Longrightarrow> pool_steps cs s = Some s' \<Longrightarrow> pool_reach n s'"
proof (induction cs arbitrary: s)
  case (Cons c cs)
  then obtain s1 where "(case c of None \<Rightarrow> main_step s | Some i \<Rightarrow> if i < length (workers s) then taskMain i s else None) = Some s1"
    and "pool_steps cs s1 = Some s'" by (auto split: option.splits)
  moreover from this(1) have "pool_reach n s1"
    using Cons.prems(1) by (auto split: option.splits if_splits intro: pool_reach.client pool_reach.worker)
  ultimately show ?case by (blast intro: Cons.IH)
qed simp

text \<open>A pool of one thread runs a task; then it is joined.\<close>

definition demo_run :: "nat option list" where
  "demo_run = [None, None, Some 0, None, None, None, None, Some 0, Some 0, Some 0, Some 0, Some 0, Some 0]"

definition demo_join :: "nat option list" where
  "demo_join = [None, None, None, None, Some 0, Some 0, Some 0, Some 0, None, None, None]"

lemma pool_one_reach:
  assumes "pool_steps cs (pool_submit (7::nat) (taskPool_new 1)) = Some s"
  shows "pool_reach 1 s"
proof -
  have "pool_reach 1 (pool_submit (7::nat) (taskPool_new 1))"
    by (rule pool_reach.submit) (simp_all add: pool_reach.new, simp_all add: taskPool_new_def)
  then show ?thesis using assms by (rule steps_reach)
qed

lemma demo_pool:
  "\<exists>s s' s''. pool_steps demo_run (pool_submit (7::nat) (taskPool_new 1)) = Some s \<and> main s = M_idle \<and>
     pool_steps [None, None] (pool_join 0 s) = Some s' \<and> main s' = M_closing \<and> workers s' \<noteq> [] \<and>
     pool_steps demo_join (pool_join 0 s) = Some s'' \<and> main s'' = M_clear \<and> executed s'' = [7] \<and> submitted s'' = [7]"
  by (simp add: demo_run_def demo_join_def taskPool_new_def pool_submit_def pool_join_def isWorkerThread_def
      main_step_def submit_step_def spawnThread_step_def waitAllCompletes_step_def join_step_def taskMain_def goto_def
      emplace_def sem_new_def sem_post_def sem_wait_def mailbox_send_def mailbox_receive_def mailbox_new_def mailbox_len_def)

section \<open>The invariant\<close>

definition count_at :: "('k worker_pc \<Rightarrow> bool) \<Rightarrow> (nat \<times> 'k worker_pc) list \<Rightarrow> nat" where
  "count_at P ws = length (filter (\<lambda>w. P (snd w)) ws)"

lemma count_at_simps [simp]:
  "count_at P [] = 0" "count_at P ((t, pc) # ws) = (if P pc then Suc (count_at P ws) else count_at P ws)"
  "count_at P (us @ ws) = count_at P us + count_at P ws"
  by (simp_all add: count_at_def)

fun held_by :: "'k worker_pc \<Rightarrow> 'k list" where
  "held_by (W_execute task) = [task]"
| "held_by _ = []"

definition held :: "(nat \<times> 'k worker_pc) list \<Rightarrow> 'k list" where
  "held ws = concat (map (held_by \<circ> snd) ws)"

lemma held_simps [simp]: "held [] = []" "held ((t, pc) # ws) = held_by pc @ held ws" "held (us @ ws) = held us @ held ws"
  by (simp_all add: held_def)

fun counted_later :: "main_pc \<Rightarrow> bool" where
  "counted_later M_submit = True" | "counted_later (M_spawn _) = True" | "counted_later (M_ready _ _) = True"
| "counted_later M_count = True" | "counted_later _ = False"

fun posted_later :: "main_pc \<Rightarrow> bool" where
  "posted_later M_post = True" | "posted_later m = counted_later m"

fun spawning :: "main_pc \<Rightarrow> bool" where
  "spawning M_submit = True" | "spawning (M_spawn _) = True" | "spawning (M_ready _ _) = True" | "spawning _ = False"

fun creating :: "main_pc \<Rightarrow> bool" where
  "creating (M_spawn _) = True" | "creating (M_ready _ _) = True" | "creating _ = False"

fun reaping :: "main_pc \<Rightarrow> bool" where
  "reaping (M_joining _) = True" | "reaping M_clear = True" | "reaping _ = False"

definition closing :: "main_pc \<Rightarrow> bool" where
  "closing m \<longleftrightarrow> m = M_closing \<or> m = M_wake \<or> reaping m"

definition all_done :: "main_pc \<Rightarrow> bool" where
  "all_done m \<longleftrightarrow> m = M_terminate \<or> closing m"

fun is_active :: "'k worker_pc \<Rightarrow> bool" where
  "is_active W_check = True" | "is_active W_receive = True" | "is_active (W_execute _) = True"
| "is_active W_count = True" | "is_active W_post = True" | "is_active _ = False"

text \<open>The tasks and the counters.\<close>

definition tasks_inv :: "'k threads \<Rightarrow> bool" where
  "tasks_inv s \<longleftrightarrow> mailbox_ok (tp_jobs s) \<and>
     mset (submitted s) = mset (executed s) + mset (mb_mails (tp_jobs s)) + mset (held (workers s)) \<and>
     length (submitted s) - joined s < 2 ^ 32 \<and>
     joined s + (if counted_later (main s) then 1 else 0) \<le> length (submitted s) \<and>
     tp_nbSubmitted s = of_nat (length (submitted s) - joined s - (if counted_later (main s) then 1 else 0)) \<and>
     joined s + count_at ((=) W_count) (workers s) \<le> length (executed s) \<and>
     tp_nbCompleted s = of_nat (length (executed s) - joined s - count_at ((=) W_count) (workers s)) \<and>
     (all_done (main s) \<longrightarrow> mb_mails (tp_jobs s) = [] \<and> held (workers s) = [] \<and> count_at ((=) W_count) (workers s) = 0)"

text \<open>The threads.\<close>

fun threads_at :: "main_pc \<Rightarrow> nat list \<Rightarrow> nat list \<Rightarrow> nat \<Rightarrow> bool" where
  "threads_at (M_ready i th) ids running n \<longleftrightarrow> ids = running @ [th] \<and> length running = unat i \<and> unat i < n"
| "threads_at (M_spawn i) ids running n \<longleftrightarrow> ids = running \<and> length running = unat i \<and> unat i \<le> n"
| "threads_at (M_joining ths) ids running n \<longleftrightarrow> ids = ths"
| "threads_at M_clear ids running n \<longleftrightarrow> ids = []"
| "threads_at M_submit ids running n \<longleftrightarrow> ids = running \<and> (running = [] \<or> length running = n)"
| "threads_at M_count ids running n \<longleftrightarrow> ids = running \<and> length running = n"
| "threads_at M_post ids running n \<longleftrightarrow> ids = running \<and> length running = n"
| "threads_at _ ids running n \<longleftrightarrow> ids = running \<and> (running = [] \<or> length running = n)"

definition threads_inv :: "'k threads \<Rightarrow> bool" where
  "threads_inv s \<longleftrightarrow> distinct (map fst (workers s)) \<and> (\<forall>t \<in> fst ` set (workers s). 0 < t \<and> t < next_id s) \<and> 0 < next_id s \<and>
     threads_at (main s) (map fst (workers s)) (tp_runningThreads s) (unat (tp_nbThread s)) \<and>
     (joined s < length (submitted s) \<longrightarrow> spawning (main s) \<or> reaping (main s) \<or> length (workers s) = unat (tp_nbThread s))"

text \<open>The semaphores and the threads that end.\<close>

definition sems_inv :: "'k threads \<Rightarrow> bool" where
  "sems_inv s \<longleftrightarrow> tp_waitTask s \<noteq> None \<and> tp_completeTask s \<noteq> None \<and> tp_ready s \<noteq> None \<and>
     (if reaping (main s) then tp_ready s = Some 0 \<and> count_at (\<lambda>pc. pc \<noteq> W_end) (workers s) = 0
      else sem_get (tp_ready s) + count_at ((=) W_start) (workers s) + length (tp_runningThreads s) = length (workers s)) \<and>
     mailbox_ok (tp_closed s) \<and>
     (reaping (main s) \<or> length (mb_mails (tp_closed s)) = count_at ((=) W_end) (workers s)) \<and>
     (tp_terminated s \<longrightarrow> closing (main s) \<or> workers s = []) \<and> (closing (main s) \<longrightarrow> tp_terminated s) \<and>
     (creating (main s) \<longrightarrow> \<not> tp_terminated s) \<and>
     (\<not> closing (main s) \<longrightarrow> count_at ((=) W_close) (workers s) = 0 \<and> count_at ((=) W_end) (workers s) = 0)"

text \<open>Whoever waits will be woken.\<close>

definition wake_inv :: "'k threads \<Rightarrow> bool" where
  "wake_inv s \<longleftrightarrow>
     (mb_mails (tp_jobs s) \<noteq> [] \<longrightarrow> 0 < sem_get (tp_waitTask s) \<or> 0 < count_at is_active (workers s) \<or> posted_later (main s)) \<and>
     (main s = M_blocked \<longrightarrow> tp_nbSubmitted s \<noteq> tp_nbCompleted s \<or> 0 < count_at ((=) W_post) (workers s) \<or>
        0 < sem_get (tp_completeTask s))"

definition pool_inv :: "'k threads \<Rightarrow> bool" where
  "pool_inv s \<longleftrightarrow> tasks_inv s \<and> threads_inv s \<and> sems_inv s \<and> wake_inv s"

lemma new_inv: "pool_inv (taskPool_new n)"
  by (simp add: pool_inv_def tasks_inv_def threads_inv_def sems_inv_def wake_inv_def taskPool_new_def sem_new_def
      sem_get_def all_done_def closing_def)


section \<open>Every step keeps the invariant\<close>

lemma split_workers:
  assumes "i < length ws"
  obtains us t pc vs where "ws = us @ (t, pc) # vs" "i = length us"
proof -
  obtain t pc where "ws ! i = (t, pc)" by (cases "ws ! i")
  with id_take_nth_drop [OF assms] assms that [of "take i ws" t pc "drop (Suc i) ws"] show ?thesis by simp
qed

text \<open>The state after a step of the worker at \<open>us @ (t, pc) # vs\<close>.\<close>

lemma taskMain_cases:
  assumes "taskMain (length us) s = Some s'" and "workers s = us @ (t, pc) # vs"
  obtains
    (start) "pc = W_start" "s' = s\<lparr>tp_ready := sem_post (tp_ready s), workers := us @ (t, W_wait) # vs\<rparr>"
  | (wait) b sem where "pc = W_wait" "sem_wait (tp_waitTask s) = Some (b, sem)"
      "s' = s\<lparr>tp_waitTask := sem, workers := us @ (t, W_check) # vs\<rparr>"
  | (check) "pc = W_check" "s' = s\<lparr>workers := us @ (t, if tp_terminated s then W_close else W_receive) # vs\<rparr>"
  | (task) k jobs where "pc = W_receive" "mailbox_receive (tp_jobs s) = (Some k, jobs)"
      "s' = s\<lparr>tp_jobs := jobs, workers := us @ (t, W_execute k) # vs\<rparr>"
  | (no_task) jobs where "pc = W_receive" "mailbox_receive (tp_jobs s) = (None, jobs)"
      "s' = s\<lparr>tp_jobs := jobs, workers := us @ (t, W_wait) # vs\<rparr>"
  | (execute) k where "pc = W_execute k" "s' = s\<lparr>executed := executed s @ [k], workers := us @ (t, W_count) # vs\<rparr>"
  | (complete) "pc = W_count" "s' = s\<lparr>tp_nbCompleted := tp_nbCompleted s + 1, workers := us @ (t, W_post) # vs\<rparr>"
  | (post) "pc = W_post" "s' = s\<lparr>tp_completeTask := sem_post (tp_completeTask s), workers := us @ (t, W_receive) # vs\<rparr>"
  | (close) "pc = W_close" "s' = s\<lparr>tp_closed := mailbox_send t (tp_closed s), workers := us @ (t, W_end) # vs\<rparr>"
proof -
  have pc: "snd (workers s ! length us) = pc" "fst (workers s ! length us) = t" by (simp_all add: assms(2))
  note step = assms(1) [unfolded taskMain_def pc]
  show ?thesis
  proof (cases pc)
    case W_wait
    with step obtain b sem where "sem_wait (tp_waitTask s) = Some (b, sem)"
      "s' = goto (length us) W_check (s\<lparr>tp_waitTask := sem\<rparr>)" by (auto split: option.splits)
    with wait [OF W_wait] show ?thesis by (simp add: goto_def assms(2))
  next
    case W_receive
    obtain r jobs where r: "mailbox_receive (tp_jobs s) = (r, jobs)" by (cases "mailbox_receive (tp_jobs s)")
    show ?thesis
    proof (cases r)
      case None
      then show ?thesis using step W_receive r no_task [OF W_receive] by (simp add: goto_def assms(2))
    next
      case (Some k)
      then show ?thesis using step W_receive r task [OF W_receive] by (simp add: goto_def assms(2))
    qed
  next
    case (W_execute k)
    then show ?thesis using step execute [OF W_execute] by (simp add: goto_def assms(2))
  next
    case W_start
    then show ?thesis using step start by (simp add: goto_def assms(2))
  next
    case W_check
    then show ?thesis using step check by (simp add: goto_def assms(2))
  next
    case W_count
    then show ?thesis using step complete by (simp add: goto_def assms(2))
  next
    case W_post
    then show ?thesis using step post by (simp add: goto_def assms(2))
  next
    case W_close
    then show ?thesis using step close by (simp add: goto_def assms(2))
  next
    case W_end
    then show ?thesis using step by simp
  qed
qed

lemma sem_wait_some: "sem_wait (Some n) = Some (b, sem) \<Longrightarrow> 0 < n \<and> sem = Some (n - 1)"
  by (auto simp: sem_wait_def split: if_splits)

lemmas pool_invs = tasks_inv_def threads_inv_def sems_inv_def wake_inv_def

lemma jobs_length:
  assumes "tasks_inv s"
  shows "length (mb_mails (tp_jobs s)) + length (held (workers s)) + length (executed s) = length (submitted s)"
proof -
  have "mset (submitted s) = mset (executed s) + mset (mb_mails (tp_jobs s)) + mset (held (workers s))"
    using assms by (simp add: tasks_inv_def)
  from arg_cong [OF this, of size] show ?thesis by simp
qed

lemma worker_tasks_inv:
  assumes "pool_inv s" and "workers s = us @ (t, pc) # vs" and "taskMain (length us) s = Some s'"
  shows "tasks_inv s'"
  using assms(3,2)
proof (cases rule: taskMain_cases)
  case (task k jobs)
  have "mailbox_ok (tp_jobs s)" using assms(1) by (simp add: pool_inv_def tasks_inv_def)
  from mb.receive_law [OF this task(2)] show ?thesis
    using assms(1,2) task by (auto simp: pool_inv_def tasks_inv_def split: list.splits)
next
  case (no_task jobs)
  have "mailbox_ok (tp_jobs s)" using assms(1) by (simp add: pool_inv_def tasks_inv_def)
  from mb.receive_law [OF this no_task(2)] show ?thesis
    using assms(1,2) no_task by (auto simp: pool_inv_def tasks_inv_def split: list.splits)
next
  case complete
  have "length (executed s) - joined s - count_at ((=) W_count) (us @ (t, W_post) # vs) =
      Suc (length (executed s) - joined s - count_at ((=) W_count) (workers s))"
    using assms(1,2) complete by (auto simp: pool_inv_def tasks_inv_def)
  then show ?thesis using assms(1,2) complete by (auto simp: pool_inv_def tasks_inv_def)
qed (use assms(1,2) in \<open>auto simp: pool_inv_def tasks_inv_def\<close>)

lemma worker_threads_inv:
  assumes "pool_inv s" and "workers s = us @ (t, pc) # vs" and "taskMain (length us) s = Some s'"
  shows "threads_inv s'"
proof -
  have "map fst (workers s') = map fst (workers s)" "main s' = main s" "tp_runningThreads s' = tp_runningThreads s"
    "tp_nbThread s' = tp_nbThread s" "next_id s' = next_id s" "joined s' = joined s" "submitted s' = submitted s"
    using assms(3,2) by (cases rule: taskMain_cases; simp)+
  moreover from this(1) have "length (workers s') = length (workers s)" "fst ` set (workers s') = fst ` set (workers s)"
    by (metis length_map, metis set_map)
  ultimately show ?thesis using assms(1) by (simp add: pool_inv_def threads_inv_def)
qed


lemma closed_fits:
  assumes "pool_inv s" and "count_at ((=) W_close) (workers s) \<noteq> 0"
  shows "length (mb_mails (tp_closed s)) < 2 ^ 32 - 1"
proof -
  have cl: "closing (main s)" using assms by (auto simp: pool_inv_def sems_inv_def)
  have nr: "\<not> reaping (main s)"
  proof
    assume "reaping (main s)"
    then have "count_at (\<lambda>pc. pc \<noteq> W_end) (workers s) = 0" using assms(1) by (auto simp: pool_inv_def sems_inv_def)
    then show False using assms(2) by (auto simp: count_at_def filter_empty_conv)
  qed
  have len: "length (workers s) \<le> unat (tp_nbThread s)"
  proof -
    have "map fst (workers s) = tp_runningThreads s \<and> (tp_runningThreads s = [] \<or> length (tp_runningThreads s) = unat (tp_nbThread s))"
      using assms(1) cl nr by (cases "main s") (auto simp: pool_inv_def threads_inv_def closing_def)
    then show ?thesis by (metis le_refl length_map list.size(3) zero_le)
  qed
  have "count_at ((=) W_end) ws + count_at ((=) W_close) ws \<le> length ws" for ws :: "(nat \<times> 'a worker_pc) list"
    by (induction ws) auto
  from this [of "workers s"] have "count_at ((=) W_end) (workers s) < length (workers s)" using assms(2) by simp
  moreover have "length (mb_mails (tp_closed s)) = count_at ((=) W_end) (workers s)"
    using assms(1) nr by (simp add: pool_inv_def sems_inv_def)
  ultimately show ?thesis using len unat_less_u32 [of "tp_nbThread s"] by simp
qed

lemma worker_sems_inv:
  assumes "pool_inv s" and "workers s = us @ (t, pc) # vs" and "taskMain (length us) s = Some s'"
  shows "sems_inv s'"
  using assms(3,2)
proof (cases rule: taskMain_cases)
  case start
  then show ?thesis using assms(1,2) by (auto simp: pool_inv_def sems_inv_def sem_post_def sem_get_def)
next
  case wait
  then show ?thesis using assms(1,2) by (auto simp: pool_inv_def sems_inv_def dest!: sem_wait_some)
next
  case check
  then show ?thesis using assms(1,2) by (auto simp: pool_inv_def sems_inv_def)
next
  case (task k jobs)
  then show ?thesis using assms(1,2) by (auto simp: pool_inv_def sems_inv_def)
next
  case (no_task jobs)
  then show ?thesis using assms(1,2) by (auto simp: pool_inv_def sems_inv_def)
next
  case (execute k)
  then show ?thesis using assms(1,2) by (auto simp: pool_inv_def sems_inv_def)
next
  case complete
  then show ?thesis using assms(1,2) by (auto simp: pool_inv_def sems_inv_def)
next
  case post
  then show ?thesis using assms(1,2) by (auto simp: pool_inv_def sems_inv_def sem_post_def)
next
  case close
  have "mailbox_ok (tp_closed s)" using assms(1) by (simp add: pool_inv_def sems_inv_def)
  from mb.send_law [OF this closed_fits [OF assms(1)], of t] show ?thesis
    using assms(1,2) close by (auto simp: pool_inv_def sems_inv_def)
qed

lemma worker_wake_inv:
  assumes "pool_inv s" and "workers s = us @ (t, pc) # vs" and "taskMain (length us) s = Some s'"
  shows "wake_inv s'"
  using assms(3,2)
proof (cases rule: taskMain_cases)
  case check
  have "mb_mails (tp_jobs s) = []" if "tp_terminated s"
    using that assms(1,2) by (auto simp: pool_inv_def sems_inv_def tasks_inv_def all_done_def)
  then show ?thesis using assms(1,2) check by (auto simp: pool_inv_def wake_inv_def)
next
  case wait
  then show ?thesis using assms(1,2) by (auto simp: pool_inv_def wake_inv_def)
next
  case (no_task jobs)
  have "mailbox_ok (tp_jobs s)" using assms(1) by (simp add: pool_inv_def tasks_inv_def)
  from mb.receive_law [OF this no_task(2)] have "mb_mails jobs = []" by (auto split: list.splits)
  then show ?thesis using assms(1,2) no_task by (auto simp: pool_inv_def wake_inv_def)
next
  case post
  have "tp_completeTask s \<noteq> None" using assms(1) by (simp add: pool_inv_def sems_inv_def)
  then show ?thesis using assms(1,2) post by (auto simp: pool_inv_def wake_inv_def sem_post_def sem_get_def)
qed (use assms(1,2) in \<open>auto simp: pool_inv_def wake_inv_def\<close>)

lemma worker_inv:
  assumes "pool_inv s" and "i < length (workers s)" and "taskMain i s = Some s'"
  shows "pool_inv s'"
proof -
  obtain us t pc vs where "workers s = us @ (t, pc) # vs" "i = length us" by (rule split_workers [OF assms(2)])
  then show ?thesis
    using worker_tasks_inv [OF assms(1)] worker_threads_inv [OF assms(1)] worker_sems_inv [OF assms(1)]
      worker_wake_inv [OF assms(1)] assms(3) by (simp add: pool_inv_def)
qed


lemma submit_inv:
  assumes inv: "pool_inv s" and "main s = M_idle" and "length (submitted s) - joined s + 1 < 2 ^ 32"
  shows "pool_inv (pool_submit task s)"
proof -
  have "joined s \<le> length (executed s)" "joined s \<le> length (submitted s)" and t: "tasks_inv s"
    using inv by (auto simp: pool_inv_def tasks_inv_def)
  then have "length (mb_mails (tp_jobs s)) < 2 ^ 32 - 1" using jobs_length [of s] assms(3) by simp
  with t have "mailbox_ok (mailbox_send task (tp_jobs s)) \<and> mb_mails (mailbox_send task (tp_jobs s)) = mb_mails (tp_jobs s) @ [task]"
    by (intro mb.send_law) (simp_all add: tasks_inv_def)
  moreover have "length (submitted s) - joined s < 4294967295" using assms(3) by simp
  ultimately show ?thesis
    using inv assms(2)
    by (auto simp: pool_inv_def pool_submit_def tasks_inv_def threads_inv_def sems_inv_def wake_inv_def all_done_def closing_def
        Suc_diff_le)
qed

lemma join_inv:
  assumes inv: "pool_inv s" and "main s = M_idle"
  shows "pool_inv (pool_join self s)"
  using assms by (auto simp: pool_join_def pool_inv_def tasks_inv_def threads_inv_def sems_inv_def wake_inv_def all_done_def closing_def)

text \<open>The counters agree only when every task is done.\<close>

lemma counters_equal:
  assumes t: "tasks_inv s" and "tp_nbSubmitted s = tp_nbCompleted s" and "\<not> counted_later (main s)"
  shows "mb_mails (tp_jobs s) = [] \<and> held (workers s) = [] \<and> count_at ((=) W_count) (workers s) = 0"
proof -
  let ?c = "count_at ((=) W_count) (workers s)"
  have l: "length (mb_mails (tp_jobs s)) + length (held (workers s)) + length (executed s) = length (submitted s)"
    by (rule jobs_length [OF t])
  have b: "joined s \<le> length (submitted s)" "length (submitted s) - joined s < 2 ^ 32" "joined s + ?c \<le> length (executed s)"
    using t by (auto simp: tasks_inv_def)
  have "unat (tp_nbSubmitted s) = length (submitted s) - joined s"
    using t assms(3) b(2) by (simp add: tasks_inv_def unat_of_nat del: of_nat_diff)
  moreover have "unat (tp_nbCompleted s) = length (executed s) - joined s - ?c"
  proof -
    have "length (executed s) - joined s - ?c < 2 ^ 32" using l b by linarith
    then show ?thesis using t by (simp add: tasks_inv_def unat_of_nat del: of_nat_diff)
  qed
  ultimately have "length (submitted s) - joined s = length (executed s) - joined s - ?c" using assms(2) by simp
  with l b have "length (mb_mails (tp_jobs s)) = 0" "length (held (workers s)) = 0" "?c = 0" by linarith+
  then show ?thesis by simp
qed

lemma main_cases:
  assumes "main_step s = Some s'"
  obtains
    (spawn) "main s = M_submit" "length (tp_runningThreads s) \<noteq> unat (tp_nbThread s)"
      "s' = s\<lparr>tp_terminated := False, main := M_spawn 0\<rparr>"
  | (full) "main s = M_submit" "length (tp_runningThreads s) = unat (tp_nbThread s)" "s' = s\<lparr>main := M_count\<rparr>"
  | (create) i where "main s = M_spawn i" "i < tp_nbThread s"
      "s' = s\<lparr>workers := workers s @ [(next_id s, W_start)], next_id := next_id s + 1, main := M_ready i (next_id s)\<rparr>"
  | (created) i where "main s = M_spawn i" "\<not> i < tp_nbThread s" "s' = s\<lparr>main := M_count\<rparr>"
  | (ready) i th b sem where "main s = M_ready i th" "sem_wait (tp_ready s) = Some (b, sem)"
      "s' = s\<lparr>tp_ready := sem, tp_runningThreads := emplace th (tp_runningThreads s), main := M_spawn (i + 1)\<rparr>"
  | (count) "main s = M_count" "s' = s\<lparr>tp_nbSubmitted := tp_nbSubmitted s + 1, main := M_post\<rparr>"
  | (post) "main s = M_post" "s' = s\<lparr>tp_waitTask := sem_post (tp_waitTask s), main := M_idle\<rparr>"
  | (block) "main s = M_waitall" "tp_nbSubmitted s \<noteq> tp_nbCompleted s" "s' = s\<lparr>main := M_blocked\<rparr>"
  | (pass) "main s = M_waitall" "tp_nbSubmitted s = tp_nbCompleted s" "s' = s\<lparr>main := M_terminate\<rparr>"
  | (unblock) b sem where "main s = M_blocked" "sem_wait (tp_completeTask s) = Some (b, sem)"
      "s' = s\<lparr>tp_completeTask := sem, main := M_waitall\<rparr>"
  | (stop) "main s = M_terminate" "s' = s\<lparr>tp_terminated := True, main := M_closing\<rparr>"
  | (wait) "main s = M_closing" "unat (mailbox_len (tp_closed s)) \<noteq> length (tp_runningThreads s)" "s' = s\<lparr>main := M_wake\<rparr>"
  | (closed) "main s = M_closing" "unat (mailbox_len (tp_closed s)) = length (tp_runningThreads s)"
      "s' = s\<lparr>main := M_joining (tp_runningThreads s)\<rparr>"
  | (wake) "main s = M_wake" "s' = s\<lparr>tp_waitTask := sem_post (tp_waitTask s), main := M_closing\<rparr>"
  | (reaped) "main s = M_joining []" "s' = s\<lparr>main := M_clear\<rparr>"
  | (reap) th ths where "main s = M_joining (th # ths)" "(th, W_end) \<in> set (workers s)"
      "s' = s\<lparr>workers := filter (\<lambda>w. fst w \<noteq> th) (workers s), main := M_joining ths\<rparr>"
  | (clear) "main s = M_clear" "s' = s\<lparr>tp_closed := mailbox_clear (tp_closed s), tp_runningThreads := [], tp_nbCompleted := 0,
       tp_nbSubmitted := 0, joined := length (submitted s), main := M_idle\<rparr>"
proof (cases "main s")
  case M_submit
  then show ?thesis using assms spawn full by (cases "length (tp_runningThreads s) = unat (tp_nbThread s)")
      (simp_all add: main_step_def submit_step_def)
next
  case (M_spawn i)
  then show ?thesis using assms create created by (cases "i < tp_nbThread s")
      (simp_all add: main_step_def spawnThread_step_def)
next
  case (M_ready i th)
  then show ?thesis using assms ready by (auto simp: main_step_def spawnThread_step_def split: option.splits)
next
  case M_waitall
  then show ?thesis using assms block pass by (cases "tp_nbSubmitted s = tp_nbCompleted s")
      (simp_all add: main_step_def waitAllCompletes_step_def)
next
  case M_blocked
  then show ?thesis using assms unblock by (auto simp: main_step_def waitAllCompletes_step_def split: option.splits)
next
  case M_closing
  then show ?thesis using assms wait closed by (cases "unat (mailbox_len (tp_closed s)) = length (tp_runningThreads s)")
      (simp_all add: main_step_def join_step_def)
next
  case (M_joining ths)
  then show ?thesis using assms reaped reap by (cases ths) (auto simp: main_step_def join_step_def split: if_splits)
next
  case M_idle
  then show ?thesis using assms by (simp add: main_step_def submit_step_def join_step_def)
next
  case M_count
  then show ?thesis using assms count by (simp add: main_step_def submit_step_def join_step_def)
next
  case M_post
  then show ?thesis using assms post by (simp add: main_step_def submit_step_def join_step_def)
next
  case M_terminate
  then show ?thesis using assms stop by (simp add: main_step_def submit_step_def join_step_def)
next
  case M_wake
  then show ?thesis using assms wake by (simp add: main_step_def submit_step_def join_step_def)
next
  case M_clear
  then show ?thesis using assms clear by (simp add: main_step_def submit_step_def join_step_def)
qed


lemma all_ended:
  assumes "count_at P ws = length ws" and "w \<in> set ws"
  shows "P (snd w)"
  using assms(1) assms(2) filter_id_conv [of "\<lambda>w. P (snd w)" ws] length_filter_less [of w ws "\<lambda>w. P (snd w)"]
  unfolding count_at_def by fastforce

lemma ended_none: "count_at (\<lambda>pc. pc \<noteq> W_end) ws = 0 \<longleftrightarrow> (\<forall>w \<in> set ws. snd w = W_end)"
  by (auto simp: count_at_def filter_empty_conv)

lemma count_at_filter: "count_at P ws = 0 \<Longrightarrow> count_at P (filter Q ws) = 0"
  by (auto simp: count_at_def filter_empty_conv)

lemma held_filter: "held ws = [] \<Longrightarrow> held (filter Q ws) = []"
  by (auto simp: held_def)

lemma main_inv:
  assumes inv: "pool_inv s" and "main_step s = Some s'"
  shows "pool_inv s'"
  using assms(2)
proof (cases rule: main_cases)
  case spawn
  then show ?thesis using inv by (auto simp: pool_inv_def pool_invs all_done_def closing_def)
next
  case full
  then show ?thesis using inv
    by (auto simp: pool_inv_def pool_invs all_done_def closing_def) (metis length_map)+
next
  case (create i)
  have "map fst (workers s) = tp_runningThreads s" using create(1) inv by (simp add: pool_inv_def threads_inv_def)
  moreover have "next_id s \<notin> set (map fst (workers s))" using inv by (auto simp: pool_inv_def threads_inv_def)
  ultimately have "next_id s \<notin> set (tp_runningThreads s)" by simp
  then show ?thesis using create inv by (auto simp: pool_inv_def pool_invs all_done_def closing_def word_less_nat_alt)
next
  case (created i)
  then have "length (workers s) = unat (tp_nbThread s)" "length (tp_runningThreads s) = unat (tp_nbThread s)"
    using inv by (auto simp: pool_inv_def threads_inv_def word_less_nat_alt dest: arg_cong [of _ _ length])
  then show ?thesis using created inv by (auto simp: pool_inv_def pool_invs all_done_def closing_def)
next
  case (ready i th b sem)
  have th: "map fst (workers s) = tp_runningThreads s @ [th]" "length (tp_runningThreads s) = unat i" "unat i < unat (tp_nbThread s)"
    using ready(1) inv by (simp_all add: pool_inv_def threads_inv_def)
  have "distinct (map fst (workers s))" using inv by (simp add: pool_inv_def threads_inv_def)
  with th(1) have d: "distinct (tp_runningThreads s @ [th])" by metis
  then have ins: "emplace th (tp_runningThreads s) = tp_runningThreads s @ [th]" by (simp add: emplace_def)
  have u: "unat (i + 1) = Suc (unat i)" using th(3) unat_less_u32 [of "tp_nbThread s"] by (subst unat_add_u32) simp_all
  obtain n where n: "tp_ready s = Some n" using inv by (auto simp: pool_inv_def sems_inv_def)
  with ready(2) have r: "0 < n" "sem = Some (n - 1)" using sem_wait_some by auto
  have "tasks_inv s'" using inv ready(1,3) by (auto simp: pool_inv_def tasks_inv_def all_done_def closing_def)
  moreover have "threads_inv s'"
  proof -
    from d show ?thesis using inv ready(1,3) th ins u by (auto simp: pool_inv_def threads_inv_def)
  qed
  moreover have "sems_inv s'"
    using inv ready(1,3) th(1,2) ins n r by (auto simp: pool_inv_def sems_inv_def sem_get_def closing_def)
  moreover have "wake_inv s'" using inv ready(1,3) by (auto simp: pool_inv_def wake_inv_def)
  ultimately show ?thesis by (simp add: pool_inv_def)
next
  case count
  have l: "joined s < length (submitted s)" using inv count(1) by (simp add: pool_inv_def tasks_inv_def)
  then have "length (submitted s) - joined s = Suc (length (submitted s) - joined s - 1)" by simp
  then have "tp_nbSubmitted s + 1 = of_nat (length (submitted s) - joined s)"
    using inv count(1) by (simp add: pool_inv_def tasks_inv_def)
  then have "tasks_inv s'" using inv count l by (auto simp: pool_inv_def tasks_inv_def all_done_def closing_def)
  then show ?thesis using inv count by (auto simp: pool_inv_def pool_invs all_done_def closing_def)
next
  case post
  then show ?thesis using inv by (auto simp: pool_inv_def pool_invs all_done_def closing_def sem_post_def sem_get_def)
next
  case block
  have "wake_inv s'" using inv block by (simp add: pool_inv_def wake_inv_def)
  moreover have "tasks_inv s' \<and> threads_inv s' \<and> sems_inv s'"
    using inv block(1,3) by (auto simp: pool_inv_def tasks_inv_def threads_inv_def sems_inv_def all_done_def closing_def)
  ultimately show ?thesis by (simp add: pool_inv_def)
next
  case pass
  have "tasks_inv s" "\<not> counted_later (main s)" using inv pass(1) by (simp_all add: pool_inv_def)
  from counters_equal [OF this(1) pass(2) this(2)] have "tasks_inv s'"
    using inv pass(1,3) by (simp add: pool_inv_def tasks_inv_def)
  moreover have "threads_inv s' \<and> sems_inv s' \<and> wake_inv s'"
    using inv pass(1,3) by (auto simp: pool_inv_def threads_inv_def sems_inv_def wake_inv_def closing_def)
  ultimately show ?thesis by (simp add: pool_inv_def)
next
  case unblock
  then show ?thesis using inv by (auto simp: pool_inv_def pool_invs all_done_def closing_def dest!: sem_wait_some)
next
  case stop
  then show ?thesis using inv by (auto simp: pool_inv_def pool_invs all_done_def closing_def)
next
  case wait
  then show ?thesis using inv by (auto simp: pool_inv_def pool_invs all_done_def closing_def)
next
  case closed
  have "map fst (workers s) = tp_runningThreads s" using inv closed(1) by (simp add: pool_inv_def threads_inv_def)
  then have len: "length (tp_runningThreads s) = length (workers s)" by (metis length_map)
  have "length (mb_mails (tp_closed s)) = length (tp_runningThreads s)"
    using inv closed(1,2) by (simp add: pool_inv_def sems_inv_def mailbox_ok_def mailbox_len_def)
  then have "count_at ((=) W_end) (workers s) = length (workers s)"
    using inv closed(1) len by (simp add: pool_inv_def sems_inv_def)
  from all_ended [OF this] have e: "count_at (\<lambda>pc. pc \<noteq> W_end) (workers s) = 0" by (auto simp: ended_none)
  obtain n where n: "tp_ready s = Some n" using inv by (auto simp: pool_inv_def sems_inv_def)
  then have "n = 0" using inv closed(1) len by (simp add: pool_inv_def sems_inv_def sem_get_def)
  then show ?thesis using inv closed n e by (auto simp: pool_inv_def pool_invs all_done_def closing_def)
next
  case wake
  then show ?thesis using inv by (auto simp: pool_inv_def pool_invs all_done_def closing_def sem_post_def sem_get_def)
next
  case reaped
  then show ?thesis using inv by (auto simp: pool_inv_def pool_invs all_done_def closing_def)
next
  case (reap th ths)
  have m: "map fst (workers s) = th # ths" using inv reap(1) by (simp add: pool_inv_def threads_inv_def)
  have "distinct (map fst (workers s))" using inv by (simp add: pool_inv_def threads_inv_def)
  with m have d: "distinct (th # ths)" by metis
  have "map fst (filter (\<lambda>w. fst w \<noteq> th) (workers s)) = filter (\<lambda>t. t \<noteq> th) (map fst (workers s))"
    by (simp add: filter_map o_def)
  also have "\<dots> = ths" unfolding m using d by (auto simp: filter_id_conv)
  finally have f: "map fst (filter (\<lambda>w. fst w \<noteq> th) (workers s)) = ths" .
  have "tasks_inv s'"
    using inv reap by (auto simp: pool_inv_def tasks_inv_def all_done_def closing_def count_at_filter held_filter)
  moreover have "threads_inv s'"
  proof -
    have "distinct ths" using d by simp
    then show ?thesis using inv reap(1,3) f by (auto simp: pool_inv_def threads_inv_def)
  qed
  moreover have "sems_inv s'" using inv reap by (auto simp: pool_inv_def sems_inv_def closing_def count_at_filter)
  moreover have "wake_inv s'"
    using inv reap by (auto simp: pool_inv_def wake_inv_def tasks_inv_def all_done_def closing_def)
  ultimately show ?thesis by (simp add: pool_inv_def)
next
  case clear
  have d: "mb_mails (tp_jobs s) = []" "held (workers s) = []" and t: "tasks_inv s"
    using inv clear(1) by (simp_all add: pool_inv_def tasks_inv_def all_done_def closing_def)
  have "length (executed s) = length (submitted s)" using jobs_length [OF t] d by simp
  moreover have "workers s = []" using inv clear(1) by (simp add: pool_inv_def threads_inv_def)
  ultimately show ?thesis using inv clear d
    by (auto simp: pool_inv_def pool_invs all_done_def closing_def sem_get_def)
qed


lemma pool_reach_inv: "pool_reach n s \<Longrightarrow> pool_inv s"
  by (induction rule: pool_reach.induct) (auto intro: new_inv submit_inv join_inv main_inv worker_inv)

lemma main_step_nbThread: "main_step s = Some s' \<Longrightarrow> tp_nbThread s' = tp_nbThread s"
  by (erule main_cases) simp_all

lemma reach_nbThread: "pool_reach n s \<Longrightarrow> tp_nbThread s = n"
proof (induction rule: pool_reach.induct)
  case (worker s i s')
  obtain us t pc vs where "workers s = us @ (t, pc) # vs" "i = length us" by (rule split_workers [OF worker(2)])
  then show ?case using worker(3,4) by (auto elim: taskMain_cases)
qed (simp_all add: taskPool_new_def pool_submit_def pool_join_def main_step_nbThread)

section \<open>What the pool guarantees\<close>

text \<open>
  C32. Every task that is submitted is executed exactly once, however the threads interleave: at any time
  the tasks executed, those in the queue and those being executed are the submitted ones. When
  \<^verbatim>\<open>join\<close> gets past its wait all are executed, and when it has joined its threads none is left.
\<close>

theorem pool_tasks_once:
  assumes "pool_reach n s"
  shows "mset (executed s) + mset (mb_mails (tp_jobs s)) + mset (held (workers s)) = mset (submitted s) \<and>
    (all_done (main s) \<longrightarrow> mset (executed s) = mset (submitted s)) \<and>
    (main s = M_clear \<longrightarrow> workers s = [])"
  using pool_reach_inv [OF assms] by (auto simp: pool_inv_def tasks_inv_def threads_inv_def)

theorem pool_tasks_once_witness:
  "\<exists>s :: nat threads. pool_reach 1 s \<and> main s = M_clear \<and> submitted s = [7] \<and> mset (executed s) = mset (submitted s) \<and> workers s = []"
proof -
  obtain s s'' where s: "pool_steps demo_run (pool_submit (7::nat) (taskPool_new 1)) = Some s" "main s = M_idle"
    and s'': "pool_steps demo_join (pool_join 0 s) = Some s''" "main s'' = M_clear" "submitted s'' = [7]"
    using demo_pool by blast
  have r: "pool_reach 1 s''"
    by (rule steps_reach [OF pool_reach.join [OF pool_one_reach [OF s(1)] s(2)] s''(1)])
  have "mset (executed s'') = mset (submitted s'')" "workers s'' = []"
    using pool_tasks_once [OF r] s''(2) by (simp_all add: all_done_def closing_def)
  with r s''(2,3) show ?thesis by blast
qed

section \<open>Nobody waits for ever\<close>

text \<open>A worker can go on unless it has ended or sleeps.\<close>

lemma worker_runs:
  assumes "pool_inv s" and w: "w \<in> set (workers s)" "snd w \<noteq> W_end" "snd w = W_wait \<longrightarrow> 0 < sem_get (tp_waitTask s)"
  shows "\<exists>i < length (workers s). taskMain i s \<noteq> None"
proof -
  obtain i where i: "i < length (workers s)" "workers s ! i = w" using w(1) by (auto simp: in_set_conv_nth)
  have "tp_waitTask s \<noteq> None" using assms(1) by (simp add: pool_inv_def sems_inv_def)
  then have "taskMain i s \<noteq> None"
    using i(2) w(2,3) by (cases "snd w") (auto simp: taskMain_def sem_wait_def sem_get_def split: option.splits prod.splits)
  with i(1) show ?thesis by blast
qed

lemma count_at_ex: "0 < count_at P ws \<Longrightarrow> \<exists>w \<in> set ws. P (snd w)"
  by (auto simp: count_at_def filter_empty_conv)

lemma counted_worker_runs:
  assumes "pool_inv s" and "0 < count_at P (workers s)" and "\<And>pc. P pc \<Longrightarrow> pc \<noteq> W_end \<and> pc \<noteq> W_wait"
  shows "\<exists>i < length (workers s). taskMain i s \<noteq> None"
  using count_at_ex [OF assms(2)] assms(3) worker_runs [OF assms(1)] by blast

lemma ready_progress:
  assumes inv: "pool_inv s" and m: "main s = M_ready i th"
  shows "main_step s \<noteq> None \<or> (\<exists>i < length (workers s). taskMain i s \<noteq> None)"
proof -
  have "length (workers s) = Suc (length (tp_runningThreads s))"
    using inv m by (auto simp: pool_inv_def threads_inv_def dest: arg_cong [of _ _ length])
  then have "sem_get (tp_ready s) + count_at ((=) W_start) (workers s) = 1" and r: "tp_ready s \<noteq> None"
    using inv m by (auto simp: pool_inv_def sems_inv_def)
  then consider (go) "0 < sem_get (tp_ready s)" | (start) "0 < count_at ((=) W_start) (workers s)" by linarith
  then show ?thesis
  proof cases
    case go
    then show ?thesis using m r by (auto simp: main_step_def spawnThread_step_def sem_wait_def sem_get_def)
  next
    case start
    from counted_worker_runs [OF inv start] show ?thesis by blast
  qed
qed

text \<open>While tasks are missing they are in the queue or with a worker that is awake.\<close>

lemma missing_tasks:
  assumes inv: "pool_inv s" and m: "main s = M_blocked" and ne: "tp_nbSubmitted s \<noteq> tp_nbCompleted s"
    and quiet: "mb_mails (tp_jobs s) = [] \<or> sem_get (tp_waitTask s) = 0"
  shows "\<exists>w \<in> set (workers s). is_active (snd w) \<or> held_by (snd w) \<noteq> []"
proof -
  have t: "tasks_inv s" using inv by (simp add: pool_inv_def)
  have "mb_mails (tp_jobs s) \<noteq> [] \<or> held (workers s) \<noteq> [] \<or> 0 < count_at ((=) W_count) (workers s)"
  proof (rule ccontr)
    assume "\<not> ?thesis"
    then have "length (executed s) = length (submitted s)" "count_at ((=) W_count) (workers s) = 0"
      using jobs_length [OF t] by auto
    then show False using t m ne by (simp add: tasks_inv_def)
  qed
  then consider (active) "0 < count_at is_active (workers s)" | (held) "held (workers s) \<noteq> []"
    | (count) "0 < count_at ((=) W_count) (workers s)"
    using quiet inv m by (auto simp: pool_inv_def wake_inv_def)
  then show ?thesis
  proof cases
    case held
    then show ?thesis by (auto simp: held_def)
  next
    case count
    then obtain w where "w \<in> set (workers s)" "snd w = W_count" using count_at_ex by metis
    then show ?thesis by force
  qed (use count_at_ex in blast)
qed

lemma blocked_progress:
  assumes inv: "pool_inv s" and m: "main s = M_blocked" and n: "tp_nbThread s \<noteq> 0"
    and ne: "tp_nbSubmitted s \<noteq> tp_nbCompleted s"
  shows "\<exists>i < length (workers s). taskMain i s \<noteq> None"
proof (cases "sem_get (tp_waitTask s) = 0 \<or> mb_mails (tp_jobs s) = []")
  case True
  then obtain w where w: "w \<in> set (workers s)" "is_active (snd w) \<or> held_by (snd w) \<noteq> []"
    using missing_tasks [OF inv m ne] by blast
  then have "snd w \<noteq> W_end" "snd w \<noteq> W_wait" by auto
  then show ?thesis using worker_runs [OF inv w(1)] by blast
next
  case False
  have t: "tasks_inv s" using inv by (simp add: pool_inv_def)
  have "0 < length (mb_mails (tp_jobs s))" using False by simp
  moreover have "joined s + count_at ((=) W_count) (workers s) \<le> length (executed s)" using t by (simp only: tasks_inv_def)
  ultimately have "joined s < length (submitted s)" using jobs_length [OF t] by linarith
  then have "length (workers s) = unat (tp_nbThread s)" using inv m by (simp add: pool_inv_def threads_inv_def)
  then have "workers s \<noteq> []" using n by (auto simp: word_unat_eq_iff)
  then obtain w where w: "w \<in> set (workers s)" by (cases "workers s") auto
  have "count_at ((=) W_end) (workers s) = 0" using inv m by (simp add: pool_inv_def sems_inv_def closing_def)
  then have "snd w \<noteq> W_end" using w by (auto simp: count_at_def filter_empty_conv)
  then show ?thesis using False by (intro worker_runs [OF inv w]) auto
qed

lemma joining_progress:
  assumes inv: "pool_inv s" and m: "main s = M_joining ths"
  shows "main_step s \<noteq> None"
proof (cases ths)
  case (Cons th ths')
  have "map fst (workers s) = th # ths'" "\<forall>w \<in> set (workers s). snd w = W_end"
    using inv m Cons by (simp_all add: pool_inv_def threads_inv_def sems_inv_def ended_none)
  then have "(th, W_end) \<in> set (workers s)" by (cases "workers s") auto
  then show ?thesis using m Cons by (simp add: main_step_def join_step_def)
qed (simp add: main_step_def join_step_def m)

text \<open>
  C35. No deadlock: as long as a method of the pool has not returned, the client or one of the workers
  can go on. A client that waits for its tasks is never alone with threads that sleep, a thread that
  was asked to end always gets to know it.
\<close>

theorem pool_progress:
  assumes "pool_reach n s" and "n \<noteq> 0" and "main s \<noteq> M_idle"
  shows "main_step s \<noteq> None \<or> (\<exists>i < length (workers s). taskMain i s \<noteq> None)"
proof -
  have inv: "pool_inv s" and n: "tp_nbThread s \<noteq> 0"
    using pool_reach_inv [OF assms(1)] reach_nbThread [OF assms(1)] assms(2) by simp_all
  show ?thesis
  proof (cases "main s")
    case M_blocked
    consider (go) "0 < sem_get (tp_completeTask s)" | (post) "0 < count_at ((=) W_post) (workers s)"
      | (missing) "tp_nbSubmitted s \<noteq> tp_nbCompleted s"
      using inv M_blocked by (auto simp: pool_inv_def wake_inv_def)
    then show ?thesis
    proof cases
      case go
      then show ?thesis
        using M_blocked by (auto simp: main_step_def waitAllCompletes_step_def sem_wait_def sem_get_def split: option.splits)
    next
      case post
      from counted_worker_runs [OF inv post] show ?thesis by blast
    next
      case missing
      from blocked_progress [OF inv M_blocked n missing] show ?thesis ..
    qed
  next
    case (M_ready i th)
    then show ?thesis by (rule ready_progress [OF inv])
  next
    case (M_joining ths)
    then show ?thesis using joining_progress [OF inv] by blast
  qed (use assms(3) in \<open>simp_all add: main_step_def submit_step_def spawnThread_step_def waitAllCompletes_step_def join_step_def\<close>)
qed

theorem pool_progress_witness:
  "\<exists>s :: nat threads. pool_reach 1 s \<and> main s = M_closing \<and> workers s \<noteq> [] \<and>
     (main_step s \<noteq> None \<or> (\<exists>i < length (workers s). taskMain i s \<noteq> None))"
proof -
  obtain s s' where s: "pool_steps demo_run (pool_submit (7::nat) (taskPool_new 1)) = Some s" "main s = M_idle"
    and s': "pool_steps [None, None] (pool_join 0 s) = Some s'" "main s' = M_closing" "workers s' \<noteq> []"
    using demo_pool by blast
  have r: "pool_reach 1 s'"
    by (rule steps_reach [OF pool_reach.join [OF pool_one_reach [OF s(1)] s(2)] s'(1)])
  have "main_step s' \<noteq> None \<or> (\<exists>i < length (workers s'). taskMain i s' \<noteq> None)"
    by (rule pool_progress [OF r]) (simp_all add: s'(2))
  with r s'(2,3) show ?thesis by blast
qed

end
