(* ===== verification/Listener.thy ===== *)
theory Listener
  imports Stream
begin

text \<open>
  \<^verbatim>\<open>net/listener.cc\<close>: the socket a server listens on. What the calls of the kernel answer is given as
  arguments. A descriptor is an \<^verbatim>\<open>int\<close>: the result of a failed \<^verbatim>\<open>socket\<close>, -1, is kept.
\<close>

record tcp_listener =
  ls_sockfd :: int
  ls_addr :: sockaddr
  ls_port :: u16

text \<open>\<open>junk\<close> is what the member \<^verbatim>\<open>_port\<close> holds, which the constructors do not set.\<close>

definition listener_new :: "sockaddr \<Rightarrow> u16 \<Rightarrow> tcp_listener" where
  "listener_new addr junk = \<lparr>ls_sockfd = 0, ls_addr = addr, ls_port = junk\<rparr>"

text \<open>The answers of \<^verbatim>\<open>socket\<close>, \<^verbatim>\<open>bind\<close>, \<^verbatim>\<open>listen\<close> and \<^verbatim>\<open>getsockname\<close> (the port).\<close>

record bind_answers =
  ba_socket :: int
  ba_bind :: bool
  ba_listen :: bool
  ba_sockname :: "u16 option"

definition listener_bind :: "bind_answers \<Rightarrow> (tcp_listener, unit) act" where
  "listener_bind os =
     bnd (modify (\<lambda>l. l\<lparr>ls_sockfd := ba_socket os\<rparr>)) (\<lambda>_.
     if ba_socket os = -1 then throw (Rd_UtilsError ''Error creating socket'')
     else if \<not> ba_bind os then
       bnd (modify (\<lambda>l. l\<lparr>ls_sockfd := 0\<rparr>)) (\<lambda>_. throw (Rd_UtilsError ''Error binding socket''))
     else if \<not> ba_listen os then
       bnd (modify (\<lambda>l. l\<lparr>ls_sockfd := 0\<rparr>)) (\<lambda>_. throw (Rd_UtilsError ''Error listening to socket''))
     else modify (\<lambda>l.
       if sa_port (ls_addr l) = 0
       then (case ba_sockname os of None \<Rightarrow> l | Some port \<Rightarrow> l\<lparr>ls_port := port\<rparr>)
       else l\<lparr>ls_port := sa_port (ls_addr l)\<rparr>))"

definition listener_start :: "bind_answers \<Rightarrow> (tcp_listener, unit) act" where
  "listener_start os = listener_bind os"

text \<open>A connection that comes in: its descriptor, the address of the peer and its two queues.\<close>

record connection =
  cn_sock :: int
  cn_addr :: sockaddr
  cn_inbox :: "bytes list"
  cn_room :: "nat list"

definition listener_accept :: "connection \<Rightarrow> tcp_stream res" where
  "listener_accept cn =
     (if cn_sock cn \<le> 0 then Inl (Rd_UtilsError ''Failed to accept client'')
      else Inr (tcpStream_sock (nat (cn_sock cn)) (cn_addr cn) (cn_inbox cn) (cn_room cn)))"

definition listener_close :: "tcp_listener \<Rightarrow> tcp_listener" where
  "listener_close l = (if ls_sockfd l \<noteq> 0 then l\<lparr>ls_sockfd := 0\<rparr> else l)"

definition listener_port :: "tcp_listener \<Rightarrow> u16" where
  "listener_port l = ls_port l"

definition listener_getHandle :: "tcp_listener \<Rightarrow> int" where
  "listener_getHandle l = ls_sockfd l"

text \<open>
  After a start the listener has a descriptor and its port is the one asked for, or the one the
  kernel chose for port 0; a start that fails leaves no descriptor (but -1 when none was made).
\<close>

lemma listener_start_spec:
  assumes "0 < ba_socket os"
  shows "listener_start os l =
    (if \<not> ba_bind os then Some (Inl (Rd_UtilsError ''Error binding socket''), l\<lparr>ls_sockfd := 0\<rparr>)
     else if \<not> ba_listen os then Some (Inl (Rd_UtilsError ''Error listening to socket''), l\<lparr>ls_sockfd := 0\<rparr>)
     else Some (Inr (), l\<lparr>ls_sockfd := ba_socket os,
       ls_port := (if sa_port (ls_addr l) = 0 then (case ba_sockname os of None \<Rightarrow> ls_port l | Some p \<Rightarrow> p) else sa_port (ls_addr l))\<rparr>))"
  using assms by (auto simp: listener_start_def listener_bind_def act_simps split: option.split)

end
