(* ===== verification/Signal.thy ===== *)
theory Signal
  imports Act
begin

text \<open>
  \<^verbatim>\<open>concurrency/signal.hh\<close> and \<^verbatim>\<open>utils/functional.hh\<close>: a signal and its slots. Functions, objects and methods are
  named by a number (0 is the null pointer); what calling them does is given by the program.
\<close>

section \<open>Slots\<close>

datatype slot =
    Func_ptr (slot_func: nat)
  | Delegate nat (slot_closure: nat) (slot_method: nat)
  | Const_delegate nat (slot_closure: nat) (slot_method: nat)

text \<open>
  The first number of a delegate is the class of its object: a comparison between delegates of two
  classes reads one as the other. The function of a delegate is null.
\<close>

definition func_of :: "slot \<Rightarrow> nat" where
  "func_of sl = (case sl of Func_ptr f \<Rightarrow> f | _ \<Rightarrow> 0)"

definition is_closure :: "slot \<Rightarrow> bool" where
  "is_closure sl = (case sl of Delegate X c m \<Rightarrow> True | _ \<Rightarrow> False)"

definition is_const_closure :: "slot \<Rightarrow> bool" where
  "is_const_closure sl = (case sl of Const_delegate X c m \<Rightarrow> True | _ \<Rightarrow> False)"

definition clone :: "slot \<Rightarrow> slot" where
  "clone sl = (case sl of Func_ptr f \<Rightarrow> Func_ptr f | Delegate X c m \<Rightarrow> Delegate X c m | Const_delegate X c m \<Rightarrow> Const_delegate X c m)"

text \<open>\<^verbatim>\<open>operator==\<close>, of the class of the first.\<close>

definition slot_eq :: "slot \<Rightarrow> slot \<Rightarrow> bool" where
  "slot_eq ptr other = (case ptr of
     Func_ptr f \<Rightarrow> f = func_of other
   | Delegate X c m \<Rightarrow> is_closure other \<and> m = slot_method other \<and> c = slot_closure other
   | Const_delegate X c m \<Rightarrow> is_const_closure other \<and> m = slot_method other \<and> c = slot_closure other)"

section \<open>Signals\<close>

type_synonym sig = "slot list"

definition sig_copy :: "sig \<Rightarrow> sig" where
  "sig_copy other = map clone other"

text \<open>The two signals after a move, and after a copy by assignment.\<close>

definition sig_move :: "sig \<Rightarrow> sig \<times> sig" where
  "sig_move other = (other, [])"

definition sig_assign :: "sig \<Rightarrow> sig \<Rightarrow> sig" where
  "sig_assign this other = sig_copy other"

definition sig_connect :: "slot \<Rightarrow> sig \<Rightarrow> sig" where
  "sig_connect sl s = s @ [sl]"

text \<open>
  The iterator that \<^verbatim>\<open>erase\<close> returns is increased once more: the slot behind an erased one is not
  looked at, and behind the last one the iterator leaves the list.
\<close>

fun sig_disconnect :: "slot \<Rightarrow> sig \<Rightarrow> sig res" where
  "sig_disconnect ptr [] = Inr []"
| "sig_disconnect ptr (sl # sls) =
     (if slot_eq ptr sl then
        (case sls of
           [] \<Rightarrow> Inl Undefined
         | next # sls \<Rightarrow> ebind (sig_disconnect ptr sls) (\<lambda>r. Inr (next # r)))
      else ebind (sig_disconnect ptr sls) (\<lambda>r. Inr (sl # r)))"

text \<open>The slots are called in the order of the connections; a slot that throws ends the emission.\<close>

fun sig_emit :: "(slot \<Rightarrow> 'a \<Rightarrow> ('s, unit) act) \<Rightarrow> sig \<Rightarrow> 'a \<Rightarrow> ('s, unit) act" where
  "sig_emit call [] args = ret ()"
| "sig_emit call (sl # sls) args = bnd (call sl args) (\<lambda>_. sig_emit call sls args)"

definition sig_dispose :: "sig \<Rightarrow> sig" where
  "sig_dispose s = []"

definition sig_isEmpty :: "sig \<Rightarrow> bool" where
  "sig_isEmpty s \<longleftrightarrow> length s = 0"

section \<open>What it means\<close>

lemma sig_copy_same [simp]: "sig_copy s = s"
proof -
  have "clone sl = sl" for sl by (simp add: clone_def split: slot.split)
  then show ?thesis by (simp add: sig_copy_def map_idI)
qed

lemma emit_append: "sig_emit call (s @ t) args = bnd (sig_emit call s args) (\<lambda>_. sig_emit call t args)"
  by (induction s) (simp_all add: bnd_assoc act_simps)

lemma emit_connected: "sig_emit call (sig_connect sl s) args = bnd (sig_emit call s args) (\<lambda>_. call sl args)"
proof -
  have r: "bnd m ret = m" for m :: "('s, unit) act"
    by (rule ext) (simp add: bnd_def ret_def split: option.split prod.split sum.split)
  show ?thesis by (simp add: sig_connect_def emit_append r)
qed

text \<open>One slot that is connected once, and not last, is taken out; the last one makes the iterator run away.\<close>

lemma disconnect_other:
  "(\<And>x. x \<in> set s \<Longrightarrow> \<not> slot_eq ptr x) \<Longrightarrow> sig_disconnect ptr s = Inr s"
  by (induction s) simp_all

lemma disconnect_one:
  assumes "slot_eq ptr sl" and "\<And>x. x \<in> set (s @ next # t) \<Longrightarrow> \<not> slot_eq ptr x"
  shows "sig_disconnect ptr (s @ sl # next # t) = Inr (s @ next # t)"
  using assms(2)
proof (induction s)
  case Nil
  then show ?case using assms(1) disconnect_other [of t ptr] by simp
qed simp

lemma disconnect_last:
  assumes "slot_eq ptr sl" and "\<And>x. x \<in> set s \<Longrightarrow> \<not> slot_eq ptr x"
  shows "sig_disconnect ptr (s @ [sl]) = Inl Undefined"
  using assms(2) by (induction s) (simp_all add: assms(1))

lemma disconnect_skips:
  assumes "slot_eq ptr sl" and "\<And>x. x \<in> set s \<Longrightarrow> \<not> slot_eq ptr x"
  shows "sig_disconnect ptr (sl # sl # s) = Inr (sl # s)"
  using assms disconnect_other [of s ptr] by simp

end
