(* ===== verification/Server.thy ===== *)
theory Server
  imports Listener Mailbox Signal
begin

text \<open>
  \<^verbatim>\<open>net/server.cc\<close>: the TCP server, its polling thread, its mailbox of connections and its workers. A
  thread runs from one wait to the next in one step, the epoll instance gives one event at a time. The
  session handler is the slot of a signal; what it does is a parameter, which works on \<open>sv_world\<close>, what
  the program has besides the server. The timeouts of the streams are left out.
\<close>

section \<open>The state\<close>

record 'x tcp_server =
  sv_addr :: sockaddr
  sv_context :: "tcp_listener option"
  sv_started :: bool
  sv_nbThreads :: u32
  sv_th :: nat
  sv_runningThreads :: "nat list"
  sv_next_thread :: nat
  sv_onSession :: sig
  sv_nbSubmitted :: int
  sv_jobs :: "tcp_stream mailbox"
  sv_trigger :: bytes
  sv_waitTask :: semaphore
  sv_world :: 'x

type_synonym ('x, 'a) server_act = "('x tcp_server, 'a) act"

definition getNbThreads :: "u32 \<Rightarrow> int \<Rightarrow> u32" where
  "getNbThreads hardware_concurrency nb =
     (if nb = -1 then (let nb = hardware_concurrency div 2 in if nb = 0 then 1 else nb) else of_int nb)"


section \<open>Threads\<close>

definition sv_spawn :: "('x, unit) server_act" where
  "sv_spawn = modify (\<lambda>s. s\<lparr>sv_runningThreads := sv_runningThreads s @ [sv_next_thread s], sv_next_thread := sv_next_thread s + 1\<rparr>)"

fun sv_spawn_loop :: "nat \<Rightarrow> ('x, unit) server_act" where
  "sv_spawn_loop 0 = ret ()"
| "sv_spawn_loop (Suc n) = bnd sv_spawn (\<lambda>_. sv_spawn_loop n)"

definition sv_spawnThreads :: "('x, unit) server_act" where
  "sv_spawnThreads = bnd (gets (\<lambda>s. (length (sv_runningThreads s), unat (sv_nbThreads s)))) (\<lambda>(start, nb).
     sv_spawn_loop (nb - start))"

definition sv_submit :: "tcp_stream \<Rightarrow> ('x, unit) server_act" where
  "sv_submit stream =
     bnd (modify (\<lambda>s. s\<lparr>sv_jobs := mailbox_send stream (sv_jobs s)\<rparr>)) (\<lambda>_.
     bnd (gets (\<lambda>s. length (sv_runningThreads s) \<noteq> unat (sv_nbThreads s))) (\<lambda>more.
     bnd (if more then sv_spawnThreads else ret ()) (\<lambda>_.
     modify (\<lambda>s. s\<lparr>sv_nbSubmitted := sv_nbSubmitted s + 1, sv_waitTask := sem_post (sv_waitTask s)\<rparr>))))"

definition sv_isWorkerThread :: "nat \<Rightarrow> 'x tcp_server \<Rightarrow> bool" where
  "sv_isWorkerThread self s \<longleftrightarrow> sv_th s = self \<or> self \<in> set (sv_runningThreads s)"

section \<open>Workers\<close>

definition on_world :: "('x, 'a) act \<Rightarrow> ('x, 'a) server_act" where
  "on_world = zoom sv_world (\<lambda>w s. s\<lparr>sv_world := w\<rparr>)"

text \<open>The inner loop takes sessions until there is none; an exception of a session leaves the thread.\<close>

partial_function (option) serve ::
  "(slot \<Rightarrow> tcp_stream \<Rightarrow> ('x, unit) act) \<Rightarrow> 'x tcp_server \<Rightarrow> (unit res \<times> 'x tcp_server) option"
where
  "serve call s = (case mailbox_receive (sv_jobs s) of
     (None, jobs) \<Rightarrow> Some (Inr (), s\<lparr>sv_jobs := jobs\<rparr>)
   | (Some stream, jobs) \<Rightarrow>
       bnd (on_world (sig_emit call (sv_onSession s) stream)) (\<lambda>_ s. serve call s) (s\<lparr>sv_jobs := jobs\<rparr>))"

declare serve.simps [code]

definition sv_worker :: "(slot \<Rightarrow> tcp_stream \<Rightarrow> ('x, unit) act) \<Rightarrow> nat \<Rightarrow> ('x, bool) server_act" where
  "sv_worker call self = (\<lambda>s. case sem_wait (sv_waitTask s) of
     None \<Rightarrow> None
   | Some (_, sem) \<Rightarrow>
       bnd (modify (\<lambda>s. s\<lparr>sv_waitTask := sem\<rparr>)) (\<lambda>_.
       bnd (gets sv_started) (\<lambda>started.
       if \<not> started then
         bnd (modify (\<lambda>s. s\<lparr>sv_runningThreads := remove1 self (sv_runningThreads s)\<rparr>)) (\<lambda>_. ret False)
       else bnd (serve call) (\<lambda>_. ret True))) s)"

section \<open>The polling thread\<close>

datatype server_event = SV_listener connection | SV_trigger | SV_other

definition sv_turn :: "server_event \<Rightarrow> ('x, unit) server_act" where
  "sv_turn event = (case event of
     SV_listener cn \<Rightarrow> (case listener_accept cn of
         Inl e \<Rightarrow> ret ()
       | Inr stream \<Rightarrow> sv_submit stream)
   | SV_trigger \<Rightarrow> modify (\<lambda>s. s\<lparr>sv_trigger := drop 1 (sv_trigger s)\<rparr>)
   | SV_other \<Rightarrow> ret ())"

fun sv_pollMain :: "server_event list \<Rightarrow> ('x, unit) server_act" where
  "sv_pollMain events s =
     (if \<not> sv_started s then Some (Inr (), s)
      else case events of
        [] \<Rightarrow> None
      | e # es \<Rightarrow> bnd (sv_turn e) (\<lambda>_. sv_pollMain es) s)"

section \<open>Start and end\<close>


definition sv_port :: "'x tcp_server \<Rightarrow> int" where
  "sv_port s = (case sv_context s of None \<Rightarrow> 0 | Some l \<Rightarrow> uint (listener_port l))"

definition sv_stop :: "('x, unit) server_act" where
  "sv_stop = modify (\<lambda>s. if sv_started s then s\<lparr>sv_started := False, sv_trigger := sv_trigger s @ [99]\<rparr> else s)"

definition sv_join :: "nat \<Rightarrow> ('x, bool) server_act" where
  "sv_join self = (\<lambda>s.
     if sv_isWorkerThread self s then Some (Inr False, s)
     else if sv_started s then None else Some (Inr True, s))"

text \<open>Every post of the loop lets the first worker that is left take its turn.\<close>

fun sv_wake :: "(slot \<Rightarrow> tcp_stream \<Rightarrow> ('x, unit) act) \<Rightarrow> nat list \<Rightarrow> ('x, unit) server_act" where
  "sv_wake call [] = ret ()"
| "sv_wake call (t # ts) =
     bnd (modify (\<lambda>s. s\<lparr>sv_waitTask := sem_post (sv_waitTask s)\<rparr>)) (\<lambda>_.
     bnd (sv_worker call t) (\<lambda>_. sv_wake call ts))"

definition sv_waitAllCompletes :: "(slot \<Rightarrow> tcp_stream \<Rightarrow> ('x, unit) act) \<Rightarrow> nat \<Rightarrow> ('x, unit) server_act" where
  "sv_waitAllCompletes call self =
     bnd (gets (sv_isWorkerThread self)) (\<lambda>worker.
     if worker then ret ()
     else
       bnd sv_stop (\<lambda>_.
       bnd (modify (\<lambda>s. s\<lparr>sv_jobs := mailbox_clear (sv_jobs s)\<rparr>)) (\<lambda>_.
       bnd (gets sv_runningThreads) (sv_wake call))))"

definition sv_dispose :: "(slot \<Rightarrow> tcp_stream \<Rightarrow> ('x, unit) act) \<Rightarrow> nat \<Rightarrow> ('x, bool) server_act" where
  "sv_dispose call self =
     bnd (gets (sv_isWorkerThread self)) (\<lambda>worker.
     if worker then ret False
     else
       bnd (sv_waitAllCompletes call self) (\<lambda>_.
       bnd (modify (\<lambda>s. s\<lparr>sv_context := None, sv_trigger := []\<rparr>)) (\<lambda>_. ret True)))"

section \<open>Sessions\<close>












end
