(* ===== verification/ActorMsg.thy ===== *)
theory ActorMsg
  imports Stream RawParser
begin

text \<open>
  \<^verbatim>\<open>concurrency/actor/msg.cc\<close>: the messages that actor systems exchange, and their form on the wire. The
  pointer to the system that manages a message is never read and is left out. The content is
  \<open>None\<close> for a null pointer.
\<close>

section \<open>Messages\<close>

text \<open>The enumeration \<^verbatim>\<open>Protocol\<close> by its underlying type: a received byte may be none of its members.\<close>

type_synonym protocol = u8

definition ACTOR_MSG :: protocol where "ACTOR_MSG = 0"
definition ACTOR_REQ :: protocol where "ACTOR_REQ = 1"
definition ACTOR_RESP :: protocol where "ACTOR_RESP = 2"
definition SYSTEM_KILL_ALL :: protocol where "SYSTEM_KILL_ALL = 3"
definition PROTOCOL_NONE :: protocol where "PROTOCOL_NONE = 4"

lemmas protocol_defs = ACTOR_MSG_def ACTOR_REQ_def ACTOR_RESP_def SYSTEM_KILL_ALL_def PROTOCOL_NONE_def

record actor_message =
  am_kind :: protocol
  am_uid :: u64
  am_actorName :: string
  am_addr :: sockaddr
  am_content :: "config option"

definition actorMessage_empty :: actor_message where
  "actorMessage_empty =
     \<lparr>am_kind = PROTOCOL_NONE, am_uid = 0, am_actorName = [], am_addr = addr_zero, am_content = None\<rparr>"

text \<open>\<open>addr\<close> is the address of the system.\<close>

definition actorMessage :: "sockaddr \<Rightarrow> protocol \<Rightarrow> string \<Rightarrow> config option \<Rightarrow> actor_message" where
  "actorMessage addr kind targetActor content =
     \<lparr>am_kind = kind, am_uid = 0, am_actorName = targetActor, am_addr = addr, am_content = content\<rparr>"

definition actorMessage_uid :: "sockaddr \<Rightarrow> protocol \<Rightarrow> u64 \<Rightarrow> string \<Rightarrow> config option \<Rightarrow> actor_message" where
  "actorMessage_uid addr kind uid targetActor content =
     \<lparr>am_kind = kind, am_uid = uid, am_actorName = targetActor, am_addr = addr, am_content = content\<rparr>"

section \<open>Serialisation\<close>

definition msg_serialize :: "actor_message \<Rightarrow> bytes" where
  "msg_serialize m =
     (let buffer = writeU8 [] (am_kind m);
          buffer = writeU64 buffer (am_uid m);
          buffer = writeU32 buffer (ucast (sa_port (am_addr m)));
          buffer = writeU32 buffer (of_nat (length (am_actorName m)));
          buffer = writeString buffer (am_actorName m)
      in case am_content m of
           None \<Rightarrow> writeU8 buffer 0
         | Some c \<Rightarrow> dump (writeU8 buffer 1) c)"

definition msg_deserialize :: "ipv4 \<Rightarrow> bytes \<Rightarrow> actor_message res" where
  "msg_deserialize origin content =
     ebind (readU8 (content, of_nat (length content))) (\<lambda>(kind, c).
     ebind (readU64 c) (\<lambda>(uid, c).
     ebind (readU32 c) (\<lambda>(port, c).
     ebind (readU32 c) (\<lambda>(actorNameSize, c).
     ebind (readString c actorNameSize) (\<lambda>(actorName, c).
     ebind (readU8 c) (\<lambda>(hasContent, c).
     ebind (if hasContent \<noteq> 0 then ebind (raw_parse c) (\<lambda>(v, c). Inr (Some v)) else Inr None) (\<lambda>cont.
     Inr \<lparr>am_kind = kind, am_uid = uid, am_actorName = actorName,
          am_addr = \<lparr>sa_ip = origin, sa_port = ucast port\<rparr>, am_content = cont\<rparr>)))))))"

section \<open>The round trip\<close>

definition message_limits :: "actor_message \<Rightarrow> bool" where
  "message_limits m \<longleftrightarrow> (case am_content m of None \<Rightarrow> True | Some c \<Rightarrow> config_ok c \<and> raw_limits c) \<and>
     length (msg_serialize m) \<le> 2 ^ 20"

text \<open>The message as it arrives from the address \<open>origin\<close>.\<close>

definition received_from :: "ipv4 \<Rightarrow> actor_message \<Rightarrow> actor_message" where
  "received_from origin m = m\<lparr>am_addr := (am_addr m)\<lparr>sa_ip := origin\<rparr>\<rparr>"

definition msg_header :: "actor_message \<Rightarrow> bytes" where
  "msg_header m = am_kind m # le_bytes 8 (am_uid m) @ le_bytes 4 (ucast (sa_port (am_addr m)) :: u32) @
     le_bytes 4 (of_nat (length (am_actorName m)) :: u32) @ map char_byte (am_actorName m)"

lemma msg_serialize_parts:
  "msg_serialize m = msg_header m @ (case am_content m of None \<Rightarrow> [0] | Some c \<Rightarrow> 1 # dump [] c)"
proof (cases "am_content m")
  case (Some c)
  then show ?thesis
    by (simp add: msg_serialize_def msg_header_def writers_append Let_def, subst dump_append) simp
qed (simp add: msg_serialize_def msg_header_def writers_append Let_def)

lemma length_msg_serialize:
  "length (msg_serialize m) = 18 + length (am_actorName m) + (case am_content m of None \<Rightarrow> 0 | Some c \<Rightarrow> length (dump [] c))"
  by (simp add: msg_serialize_parts msg_header_def split: option.split)

text \<open>The readers, with their count as a natural number.\<close>

lemma counted_readers:
  assumes "k < 2 ^ 31"
  shows "1 \<le> k \<Longrightarrow> readU8 (b # rest, of_nat k) = Inr (b, (rest, of_nat (k + 1)))"
    and "4 \<le> k \<Longrightarrow> readU32 (le_bytes 4 v @ rest, of_nat k) = Inr (v, (rest, of_nat (k + 4)))"
    and "8 \<le> k \<Longrightarrow> readU64 (le_bytes 8 x @ rest, of_nat k) = Inr (x, (rest, of_nat (k + 8)))"
    and "length s \<le> k \<Longrightarrow>
      readString (map char_byte s @ rest, of_nat k) (of_nat (length s)) = Inr (s, (rest, of_nat (k + length s)))"
proof -
  have le: "(of_nat n :: u32) \<le> of_nat k" if "n \<le> k" for n
    using that assms by (simp add: word_le_nat_alt unat_of_nat)
  show "1 \<le> k \<Longrightarrow> readU8 (b # rest, of_nat k) = Inr (b, (rest, of_nat (k + 1)))"
    using le [of 1] by (simp add: readU8_Cons add.commute)
  show "4 \<le> k \<Longrightarrow> readU32 (le_bytes 4 v @ rest, of_nat k) = Inr (v, (rest, of_nat (k + 4)))"
    using le [of 4] by (simp add: readU32_le_bytes add.commute)
  show "8 \<le> k \<Longrightarrow> readU64 (le_bytes 8 x @ rest, of_nat k) = Inr (x, (rest, of_nat (k + 8)))"
    using le [of 8] by (simp add: readU64_le_bytes add.commute)
  show "length s \<le> k \<Longrightarrow>
      readString (map char_byte s @ rest, of_nat k) (of_nat (length s)) = Inr (s, (rest, of_nat (k + length s)))"
    using le [of "length s"] assms by (subst readString_map) (simp_all add: unat_of_nat)
qed

lemma received_fields:
  "(received_from origin m)\<lparr>am_content := cont\<rparr> =
     \<lparr>am_kind = am_kind m, am_uid = am_uid m, am_actorName = am_actorName m,
      am_addr = \<lparr>sa_ip = origin, sa_port = sa_port (am_addr m)\<rparr>, am_content = cont\<rparr>"
  by (cases m; cases "am_addr m") (simp add: received_from_def)

lemma deserialize_header:
  fixes m :: actor_message
  defines "n \<equiv> length (am_actorName m)"
  assumes L: "length (msg_header m @ b # rest) = L" "L < 2 ^ 30"
  shows "msg_deserialize origin (msg_header m @ b # rest) =
    ebind (if b \<noteq> 0 then ebind (raw_parse (rest, of_nat (L + 1 + 8 + 4 + 4 + n + 1))) (\<lambda>(v, c). Inr (Some v)) else Inr None)
      (\<lambda>cont. Inr ((received_from origin m)\<lparr>am_content := cont\<rparr>))"
proof -
  let ?s = "map char_byte (am_actorName m) @ b # rest"
  have h: "msg_header m @ b # rest = am_kind m # le_bytes 8 (am_uid m) @ le_bytes 4 (ucast (sa_port (am_addr m)) :: u32) @
      le_bytes 4 (of_nat n :: u32) @ ?s"
    by (simp add: msg_header_def n_def)
  have n: "18 + n \<le> L" using L(1) unfolding h by (simp add: n_def)
  let ?p = "le_bytes 4 (ucast (sa_port (am_addr m)) :: u32)" and ?l = "le_bytes 4 (of_nat n :: u32)"
  have r: "readU8 (msg_header m @ b # rest, of_nat L) = Inr (am_kind m, (le_bytes 8 (am_uid m) @ ?p @ ?l @ ?s, of_nat (L + 1)))"
    unfolding h by (rule counted_readers(1)) (use L(2) n in simp_all)
  have "readU64 (le_bytes 8 (am_uid m) @ ?p @ ?l @ ?s, of_nat (L + 1)) = Inr (am_uid m, (?p @ ?l @ ?s, of_nat (L + 1 + 8)))"
    by (rule counted_readers(3)) (use L(2) n in simp_all)
  moreover have "readU32 (?p @ ?l @ ?s, of_nat (L + 1 + 8)) = Inr (ucast (sa_port (am_addr m)), (?l @ ?s, of_nat (L + 1 + 8 + 4)))"
    by (rule counted_readers(2)) (use L(2) n in simp_all)
  moreover have "readU32 (?l @ ?s, of_nat (L + 1 + 8 + 4)) = Inr (of_nat n, (?s, of_nat (L + 1 + 8 + 4 + 4)))"
    by (rule counted_readers(2)) (use L(2) n in simp_all)
  moreover have "readString (?s, of_nat (L + 1 + 8 + 4 + 4)) (of_nat n) =
      Inr (am_actorName m, (b # rest, of_nat (L + 1 + 8 + 4 + 4 + n)))"
    unfolding n_def by (rule counted_readers(4)) (use L(2) n in \<open>simp_all add: n_def\<close>)
  moreover have "readU8 (b # rest, of_nat (L + 1 + 8 + 4 + 4 + n)) = Inr (b, (rest, of_nat (L + 1 + 8 + 4 + 4 + n + 1)))"
    by (rule counted_readers(1)) (use L(2) n in simp_all)
  moreover have "ucast (ucast (sa_port (am_addr m)) :: u32) = sa_port (am_addr m)"
    by (rule bit_word_eqI) (simp add: bit_unsigned_iff)
  moreover note r
  ultimately show ?thesis
    unfolding msg_deserialize_def L(1) by (simp only: ebind_Inr prod.case received_fields)
qed

lemma msg_received:
  assumes "message_limits m"
  shows "msg_deserialize origin (msg_serialize m) = Inr (received_from origin m)"
proof (cases "am_content m")
  case None
  have "length (msg_header m @ 0 # []) < 2 ^ 30" using assms None by (simp add: message_limits_def msg_serialize_parts)
  from deserialize_header [OF refl this] None show ?thesis
    by (simp add: msg_serialize_parts received_from_def)
next
  case (Some c)
  let ?L = "length (msg_header m @ 1 # dump [] c)" and ?n = "length (am_actorName m)"
  have L: "?L < 2 ^ 30" "config_ok c" "raw_limits c" "length (dump [] c) \<le> ?L"
    using assms Some by (simp_all add: message_limits_def msg_serialize_parts)
  have n: "18 + ?n \<le> ?L" by (simp add: msg_header_def)
  have "raw_parse (dump [] c @ [], of_nat (?L + 1 + 8 + 4 + 4 + ?n + 1)) =
      Inr (c, ([], of_nat (?L + 1 + 8 + 4 + 4 + ?n + 1) + of_nat (length (dump [] c))))"
  proof (rule raw_roundtrip [OF L(2,3)])
    have "unat (of_nat (?L + 1 + 8 + 4 + 4 + ?n + 1) :: u32) = ?L + 1 + 8 + 4 + 4 + ?n + 1"
      using L(1) n by (simp only: unat_of_nat) (rule mod_less, simp)
    then show "length (dump [] c) \<le> unat (of_nat (?L + 1 + 8 + 4 + 4 + ?n + 1) :: u32)"
      "unat (of_nat (?L + 1 + 8 + 4 + 4 + ?n + 1) :: u32) + length (dump [] c) < 2 ^ 32"
      using L(1,4) n by simp_all
  qed
  then have "msg_deserialize origin (msg_header m @ 1 # dump [] c) = Inr ((received_from origin m)\<lparr>am_content := Some c\<rparr>)"
    unfolding deserialize_header [OF refl L(1)] by (simp only: append_Nil2) simp
  then show ?thesis using Some by (simp add: msg_serialize_parts received_from_def)
qed

text \<open>
  C36. A message sent to another system arrives as it was, with the address its reader saw it come from
  and the port the sender listens on; a message without content too. The bounds are those the
  receiver checks.
\<close>

theorem actor_message_roundtrip:
  assumes "message_limits m"
  shows "msg_deserialize origin (msg_serialize m) = Inr (received_from origin m)"
  by (rule msg_received [OF assms])

theorem actor_message_roundtrip_witness:
  "msg_deserialize (ipv4_new 10 0 0 1)
     (msg_serialize (actorMessage_uid (\<lparr>sa_ip = ipv4_new 127 0 0 1, sa_port = 8080\<rparr>) ACTOR_REQ 5 ''worker'' (Some (CInt 3)))) =
   Inr (actorMessage_uid (\<lparr>sa_ip = ipv4_new 10 0 0 1, sa_port = 8080\<rparr>) ACTOR_REQ 5 ''worker'' (Some (CInt 3)))"
proof -
  let ?m = "actorMessage_uid (\<lparr>sa_ip = ipv4_new 127 0 0 1, sa_port = 8080\<rparr>) ACTOR_REQ 5 ''worker'' (Some (CInt 3))"
  have "message_limits ?m"
    by (simp add: message_limits_def length_msg_serialize actorMessage_uid_def dumpInt_def writers_append)
  from actor_message_roundtrip [OF this, of "ipv4_new 10 0 0 1"] show ?thesis
    by (simp add: received_from_def actorMessage_uid_def)
qed

end
