(* ===== verification/ActorRequests.thy ===== *)
theory ActorRequests
  imports ActorMsg Mailbox
begin

text \<open>
  The requests of an actor system: the tables of \<^verbatim>\<open>concurrency/actor/sys.cc\<close> that its threads share
  under \<^verbatim>\<open>_rqMut\<close>, and the requests of \<^verbatim>\<open>concurrency/actor/ref.cc\<close> as state machines on them. Whoever
  asks waits on a semaphore of its own; the thread that gets the response posts it.
\<close>

section \<open>The tables\<close>

text \<open>\<^verbatim>\<open>std::map::emplace\<close>: a key that is there keeps its value.\<close>

definition map_emplace :: "'k :: linorder \<Rightarrow> 'v \<Rightarrow> ('k \<times> 'v) list \<Rightarrow> ('k \<times> 'v) list" where
  "map_emplace k v m = (if map_of m k = None then map_assign k v m else m)"

record response =
  rsp_reqId :: u64
  rsp_msg :: "config option"

text \<open>The semaphores are shared: they are named by their index.\<close>

record registry =
  rq_lastU :: u64
  rq_requestIds :: "(u64 \<times> nat) list"
  rq_responses :: "(u64 \<times> response) list"
  rq_sems :: "semaphore list"

definition genUniqId :: "'a registry_scheme \<Rightarrow> u64 \<times> 'a registry_scheme" where
  "genUniqId s = (rq_lastU s + 1, s\<lparr>rq_lastU := rq_lastU s + 1\<rparr>)"

definition registerRequestId :: "u64 \<Rightarrow> nat \<Rightarrow> 'a registry_scheme \<Rightarrow> 'a registry_scheme" where
  "registerRequestId rid who s = s\<lparr>rq_requestIds := map_emplace rid who (rq_requestIds s)\<rparr>"

definition removeRequestId :: "u64 \<Rightarrow> 'a registry_scheme \<Rightarrow> 'a registry_scheme" where
  "removeRequestId rid s = s\<lparr>rq_requestIds := map_erase rid (rq_requestIds s)\<rparr>"

definition pushResponse :: "response \<Rightarrow> 'a registry_scheme \<Rightarrow> 'a registry_scheme" where
  "pushResponse rep s = (case map_of (rq_requestIds s) (rsp_reqId rep) of
     None \<Rightarrow> s
   | Some who \<Rightarrow>
       s\<lparr>rq_responses := map_emplace (rsp_reqId rep) rep (rq_responses s),
         rq_sems := (rq_sems s)[who := sem_post (rq_sems s ! who)],
         rq_requestIds := map_erase (rsp_reqId rep) (rq_requestIds s)\<rparr>)"

definition consumeResponse :: "u64 \<Rightarrow> 'a registry_scheme \<Rightarrow> response option \<times> 'a registry_scheme" where
  "consumeResponse rid s = (case map_of (rq_responses s) rid of
     Some resp \<Rightarrow> (Some resp, s\<lparr>rq_responses := map_erase rid (rq_responses s)\<rparr>)
   | None \<Rightarrow> (None, s))"

section \<open>Requests\<close>

text \<open>
  Where a thread is in \<^verbatim>\<open>ActorRef::request\<close> and then in \<^verbatim>\<open>RequestFuture::wait\<close>: it takes an id,
  registers its semaphore, sends, waits, and takes the response; \<open>RQ_dropping\<close> is about to take its
  id off the table and to throw.
\<close>

datatype request_pc =
  RQ_start | RQ_named u64 | RQ_sending u64 nat | RQ_waiting u64 nat | RQ_consume u64 nat
| RQ_dropping u64 nat exn | RQ_done u64 nat "config option res"

record requests = registry +
  rq_pcs :: "request_pc list"
  rq_accepted :: "(u64 \<times> config option) list"

definition requests_new :: requests where
  "requests_new = \<lparr>rq_lastU = 0, rq_requestIds = [], rq_responses = [], rq_sems = [], rq_pcs = [], rq_accepted = []\<rparr>"

definition rq_goto :: "nat \<Rightarrow> request_pc \<Rightarrow> requests \<Rightarrow> requests" where
  "rq_goto i pc s = s\<lparr>rq_pcs := (rq_pcs s)[i := pc]\<rparr>"

text \<open>
  \<open>ok\<close> tells how the outside decided: that the message was sent, that the wait was not over in time
  (its time may be over before it begins). \<open>None\<close> while the thread is blocked.
\<close>

definition request_step :: "bool \<Rightarrow> nat \<Rightarrow> requests \<Rightarrow> requests option" where
  "request_step ok i s = (case rq_pcs s ! i of
     RQ_start \<Rightarrow> (let (rid, s) = genUniqId s in Some (rq_goto i (RQ_named rid) s))
   | RQ_named rid \<Rightarrow>
       (let who = length (rq_sems s); s = s\<lparr>rq_sems := rq_sems s @ [sem_new]\<rparr> in
        Some (rq_goto i (RQ_sending rid who) (registerRequestId rid who s)))
   | RQ_sending rid who \<Rightarrow>
       Some (rq_goto i (if ok then RQ_waiting rid who
                        else RQ_dropping rid who (RuntimeError ''Failed to send request'')) s)
   | RQ_waiting rid who \<Rightarrow>
       if ok then (case sem_wait (rq_sems s ! who) of
           None \<Rightarrow> None
         | Some (_, sem) \<Rightarrow> Some (rq_goto i (RQ_consume rid who) (s\<lparr>rq_sems := (rq_sems s)[who := sem]\<rparr>)))
       else Some (rq_goto i (RQ_dropping rid who (RuntimeError ''timeout'')) s)
   | RQ_consume rid who \<Rightarrow> (case consumeResponse rid s of
         (Some resp, s) \<Rightarrow> Some (rq_goto i (RQ_done rid who (Inr (rsp_msg resp))) s)
       | (None, s) \<Rightarrow> Some (rq_goto i (RQ_dropping rid who (RuntimeError ''not found'')) s))
   | RQ_dropping rid who e \<Rightarrow> Some (rq_goto i (RQ_done rid who (Inl e)) (removeRequestId rid s))
   | RQ_done _ _ _ \<Rightarrow> None)"

text \<open>A response that comes in: from anybody, with any id.\<close>

definition push_step :: "response \<Rightarrow> requests \<Rightarrow> requests" where
  "push_step rep s = (if map_of (rq_requestIds s) (rsp_reqId rep) = None then pushResponse rep s
     else (pushResponse rep s)\<lparr>rq_accepted := rq_accepted s @ [(rsp_reqId rep, rsp_msg rep)]\<rparr>)"

text \<open>Less than \<open>2 ^ 64\<close> requests are made, so that the ids are not used again.\<close>

inductive request_reach :: "requests \<Rightarrow> bool" where
  new: "request_reach requests_new"
| start: "request_reach s \<Longrightarrow> length (rq_pcs s) + 1 < 2 ^ 64 \<Longrightarrow> request_reach (s\<lparr>rq_pcs := rq_pcs s @ [RQ_start]\<rparr>)"
| step: "request_reach s \<Longrightarrow> i < length (rq_pcs s) \<Longrightarrow> request_step ok i s = Some s' \<Longrightarrow> request_reach s'"
| push: "request_reach s \<Longrightarrow> request_reach (push_step rep s)"

section \<open>The invariant\<close>

fun id_of :: "request_pc \<Rightarrow> u64 option" where
  "id_of RQ_start = None"
| "id_of (RQ_named rid) = Some rid" | "id_of (RQ_sending rid _) = Some rid" | "id_of (RQ_waiting rid _) = Some rid"
| "id_of (RQ_consume rid _) = Some rid" | "id_of (RQ_dropping rid _ _) = Some rid" | "id_of (RQ_done rid _ _) = Some rid"

fun sem_of :: "request_pc \<Rightarrow> (u64 \<times> nat) option" where
  "sem_of (RQ_sending rid who) = Some (rid, who)" | "sem_of (RQ_waiting rid who) = Some (rid, who)"
| "sem_of (RQ_consume rid who) = Some (rid, who)" | "sem_of (RQ_dropping rid who _) = Some (rid, who)"
| "sem_of (RQ_done rid who _) = Some (rid, who)" | "sem_of _ = None"

text \<open>Before the response, and with it.\<close>

definition asked :: "requests \<Rightarrow> u64 \<Rightarrow> nat \<Rightarrow> bool" where
  "asked s rid who \<longleftrightarrow> map_of (rq_requestIds s) rid = Some who \<and> map_of (rq_responses s) rid = None \<and> rq_sems s ! who = Some 0"

definition answered :: "requests \<Rightarrow> u64 \<Rightarrow> bool" where
  "answered s rid \<longleftrightarrow> map_of (rq_requestIds s) rid = None \<and>
     (\<exists>rep. map_of (rq_responses s) rid = Some rep \<and> (rid, rsp_msg rep) \<in> set (rq_accepted s))"

fun pc_ok :: "requests \<Rightarrow> request_pc \<Rightarrow> bool" where
  "pc_ok s RQ_start \<longleftrightarrow> True"
| "pc_ok s (RQ_named rid) \<longleftrightarrow> map_of (rq_requestIds s) rid = None \<and> map_of (rq_responses s) rid = None \<and> rid \<notin> fst ` set (rq_accepted s)"
| "pc_ok s (RQ_sending rid who) \<longleftrightarrow> asked s rid who \<or> answered s rid \<and> rq_sems s ! who = Some 1"
| "pc_ok s (RQ_waiting rid who) \<longleftrightarrow> asked s rid who \<or> answered s rid \<and> rq_sems s ! who = Some 1"
| "pc_ok s (RQ_consume rid who) \<longleftrightarrow> answered s rid"
| "pc_ok s (RQ_dropping rid who e) \<longleftrightarrow> e \<noteq> RuntimeError ''not found''"
| "pc_ok s (RQ_done rid who r) \<longleftrightarrow> map_of (rq_requestIds s) rid = None \<and>
     (case r of Inl e \<Rightarrow> e \<noteq> RuntimeError ''not found'' | Inr m \<Rightarrow> (rid, m) \<in> set (rq_accepted s))"

definition ids :: "request_pc list \<Rightarrow> u64 list" where
  "ids pcs = List.map_filter id_of pcs"

definition entries :: "request_pc list \<Rightarrow> (u64 \<times> nat) list" where
  "entries pcs = List.map_filter sem_of pcs"

lemma ids_simps [simp]:
  "ids [] = []" "ids (pc # pcs) = (case id_of pc of None \<Rightarrow> [] | Some rid \<Rightarrow> [rid]) @ ids pcs" "ids (us @ vs) = ids us @ ids vs"
  by (simp_all add: ids_def List.map_filter_def split: option.split)

lemma entries_simps [simp]:
  "entries [] = []" "entries (pc # pcs) = (case sem_of pc of None \<Rightarrow> [] | Some e \<Rightarrow> [e]) @ entries pcs"
  "entries (us @ vs) = entries us @ entries vs"
  by (simp_all add: entries_def List.map_filter_def split: option.split)

text \<open>The tables only hold ids of requests that are under way.\<close>

definition tables_inv :: "requests \<Rightarrow> bool" where
  "tables_inv s \<longleftrightarrow> map_ok (rq_requestIds s) \<and> map_ok (rq_responses s) \<and>
     (\<forall>rid who. map_of (rq_requestIds s) rid = Some who \<longrightarrow> (rid, who) \<in> set (entries (rq_pcs s)) \<and>
        map_of (rq_responses s) rid = None \<and> rid \<notin> fst ` set (rq_accepted s)) \<and>
     (\<forall>rid. map_of (rq_responses s) rid \<noteq> None \<longrightarrow> rid \<in> fst ` set (rq_accepted s)) \<and>
     fst ` set (rq_accepted s) \<subseteq> fst ` set (entries (rq_pcs s)) \<and> distinct (map fst (rq_accepted s))"

definition names_inv :: "requests \<Rightarrow> bool" where
  "names_inv s \<longleftrightarrow> length (rq_pcs s) < 2 ^ 64 \<and> distinct (ids (rq_pcs s)) \<and> unat (rq_lastU s) = length (ids (rq_pcs s)) \<and>
     (\<forall>rid \<in> set (ids (rq_pcs s)). rid \<le> rq_lastU s) \<and>
     distinct (map snd (entries (rq_pcs s))) \<and> (\<forall>rid who. (rid, who) \<in> set (entries (rq_pcs s)) \<longrightarrow> who < length (rq_sems s))"

definition request_inv :: "requests \<Rightarrow> bool" where
  "request_inv s \<longleftrightarrow> tables_inv s \<and> names_inv s \<and> (\<forall>pc \<in> set (rq_pcs s). pc_ok s pc)"

lemma requests_new_inv: "request_inv requests_new"
  by (simp add: request_inv_def tables_inv_def names_inv_def requests_new_def map_ok_def)

text \<open>What a request relies on: its row of the tables and its semaphore.\<close>

lemma pc_frame:
  assumes "pc_ok s pc"
    and "\<And>rid. id_of pc = Some rid \<Longrightarrow> map_of (rq_requestIds s') rid = map_of (rq_requestIds s) rid \<and>
      map_of (rq_responses s') rid = map_of (rq_responses s) rid \<and>
      (\<forall>m. (rid, m) \<in> set (rq_accepted s') \<longleftrightarrow> (rid, m) \<in> set (rq_accepted s))"
    and "\<And>rid who. sem_of pc = Some (rid, who) \<Longrightarrow> rq_sems s' ! who = rq_sems s ! who"
  shows "pc_ok s' pc"
proof -
  have acc: "(rid \<in> fst ` set (rq_accepted s')) = (rid \<in> fst ` set (rq_accepted s))" if "id_of pc = Some rid" for rid
    using assms(2) [OF that] by (force simp: image_iff)
  show ?thesis using assms acc by (cases pc) (auto simp: asked_def answered_def split: sum.splits)
qed

lemma entries_ids: "set (map fst (entries pcs)) \<subseteq> set (ids pcs)"
proof (induction pcs)
  case (Cons pc pcs)
  then show ?case by (cases pc) auto
qed simp

lemma map_of_emplace: "map_ok m \<Longrightarrow> map_of (map_emplace k v m) = (if map_of m k = None then (map_of m)(k \<mapsto> v) else map_of m)"
  by (simp add: map_emplace_def map_of_assign)

lemma map_ok_emplace: "map_ok m \<Longrightarrow> map_ok (map_emplace k v m)"
  by (simp add: map_emplace_def map_ok_assign)

lemmas row_simps = map_of_emplace map_ok_emplace map_of_erase map_ok_erase

lemma request_inv_move:
  assumes inv: "request_inv s" and pcs: "rq_pcs s = us @ pc # vs" "rq_pcs s' = us @ pc' # vs" and rid: "id_of pc' = Some rid"
    and new: "tables_inv s'" "names_inv s'" "pc_ok s' pc'"
    and rows: "\<And>r. r \<noteq> rid \<Longrightarrow> map_of (rq_requestIds s') r = map_of (rq_requestIds s) r \<and> map_of (rq_responses s') r = map_of (rq_responses s) r"
    and acc: "rq_accepted s' = rq_accepted s"
    and sems: "\<And>w. w < length (rq_sems s) \<Longrightarrow> (\<And>r. sem_of pc' \<noteq> Some (r, w)) \<Longrightarrow> rq_sems s' ! w = rq_sems s ! w"
  shows "request_inv s'"
proof -
  have "pc_ok s' q" if q: "q \<in> set us \<union> set vs" for q
  proof (rule pc_frame)
    show "pc_ok s q" using inv q pcs by (auto simp: request_inv_def)
    have d: "distinct (ids (us @ pc' # vs))" "distinct (map snd (entries (us @ pc' # vs)))"
      using new(2) pcs(2) by (simp_all only: names_inv_def)
    obtain as bs where "us = as @ q # bs \<or> vs = as @ q # bs" using q by (metis Un_iff split_list)
    then have "id_of q \<noteq> Some rid" "\<And>r w r'. sem_of q = Some (r, w) \<Longrightarrow> sem_of pc' \<noteq> Some (r', w)"
      using d rid by (auto split: option.splits)
    moreover have "w < length (rq_sems s)" if "sem_of q = Some (r, w)" for r w
    proof -
      have "(r, w) \<in> set (entries (rq_pcs s))"
        using \<open>us = as @ q # bs \<or> vs = as @ q # bs\<close> that pcs by auto
      then show ?thesis using inv by (force simp: request_inv_def names_inv_def)
    qed
    ultimately show "\<And>r. id_of q = Some r \<Longrightarrow> map_of (rq_requestIds s') r = map_of (rq_requestIds s) r \<and>
        map_of (rq_responses s') r = map_of (rq_responses s) r \<and> (\<forall>m. (r, m) \<in> set (rq_accepted s') \<longleftrightarrow> (r, m) \<in> set (rq_accepted s))"
      and "\<And>r w. sem_of q = Some (r, w) \<Longrightarrow> rq_sems s' ! w = rq_sems s ! w"
      using rows acc sems by auto
  qed
  then show ?thesis using new pcs by (auto simp: request_inv_def)
qed

lemma length_ids: "length (ids pcs) \<le> length pcs"
  by (induction pcs) (simp_all split: option.split)

lemma start_inv:
  assumes inv: "request_inv s" and pcs: "rq_pcs s = us @ RQ_start # vs"
  shows "request_inv (s\<lparr>rq_lastU := rq_lastU s + 1, rq_pcs := us @ RQ_named (rq_lastU s + 1) # vs\<rparr>)"
proof (rule request_inv_move [OF inv pcs])
  let ?r = "rq_lastU s + 1" and ?n = "length (ids us) + length (ids vs)"
  have names: "unat (rq_lastU s) = ?n" "distinct (ids us @ ids vs)" "\<And>rid. rid \<in> set (ids us) \<union> set (ids vs) \<Longrightarrow> rid \<le> rq_lastU s"
    and rest: "names_inv s" "tables_inv s"
    using inv pcs by (auto simp: request_inv_def names_inv_def)
  have "?n + 1 < 2 ^ 64"
    using rest(1) pcs length_ids [of us] length_ids [of vs] by (simp add: names_inv_def)
  then have r: "unat ?r = ?n + 1" using names(1) by (simp add: unat_word_ariths)
  then have less: "rq_lastU s < ?r" using names(1) by (simp add: word_less_nat_alt)
  then have le: "\<And>rid. rid \<in> set (ids us) \<union> set (ids vs) \<Longrightarrow> rid \<le> ?r" using names(3) by (meson less_imp_le order.trans)
  have fresh: "?r \<notin> set (ids us) \<union> set (ids vs)" using names(3) [of ?r] less by auto
  then have no: "?r \<notin> fst ` set (entries (rq_pcs s))" using entries_ids [of "rq_pcs s"] pcs by auto
  show "tables_inv (s\<lparr>rq_lastU := ?r, rq_pcs := us @ RQ_named ?r # vs\<rparr>)"
    using rest(2) pcs by (simp add: tables_inv_def)
  show "names_inv (s\<lparr>rq_lastU := ?r, rq_pcs := us @ RQ_named ?r # vs\<rparr>)"
    using rest(1) pcs r fresh le by (auto simp: names_inv_def)
  have "map_of (rq_requestIds s) ?r = None"
  proof (cases "map_of (rq_requestIds s) ?r")
    case (Some who)
    then have "(?r, who) \<in> set (entries (rq_pcs s))" using rest(2) by (simp add: tables_inv_def)
    then show ?thesis using no by force
  qed
  moreover have a: "?r \<notin> fst ` set (rq_accepted s)" using rest(2) no by (auto simp: tables_inv_def)
  moreover have "map_of (rq_responses s) ?r = None"
    using rest(2) a by (cases "map_of (rq_responses s) ?r") (auto simp: tables_inv_def)
  ultimately show "pc_ok (s\<lparr>rq_lastU := ?r, rq_pcs := us @ RQ_named ?r # vs\<rparr>) (RQ_named ?r)" by simp
qed simp_all

lemma register_inv:
  assumes inv: "request_inv s" and pcs: "rq_pcs s = us @ RQ_named rid # vs"
  shows "request_inv (s\<lparr>rq_sems := rq_sems s @ [sem_new], rq_requestIds := map_emplace rid (length (rq_sems s)) (rq_requestIds s),
    rq_pcs := us @ RQ_sending rid (length (rq_sems s)) # vs\<rparr>)" (is "request_inv ?s")
proof (rule request_inv_move [OF inv pcs])
  have ok: "map_of (rq_requestIds s) rid = None" "map_of (rq_responses s) rid = None" "rid \<notin> fst ` set (rq_accepted s)"
    and t: "tables_inv s" and n: "names_inv s"
    using inv pcs by (auto simp: request_inv_def)
  have m: "map_ok (rq_requestIds s)" using t by (simp add: tables_inv_def)
  show "tables_inv ?s"
    using t ok pcs by (auto simp: tables_inv_def row_simps)
  have "length (rq_sems s) \<notin> snd ` set (entries us)" "length (rq_sems s) \<notin> snd ` set (entries vs)"
    using n pcs by (fastforce simp: names_inv_def)+
  then show "names_inv ?s"
    using n pcs by (auto simp: names_inv_def less_Suc_eq)
  show "pc_ok ?s (RQ_sending rid (length (rq_sems s)))"
    using ok m by (simp add: asked_def row_simps sem_new_def)
  show "map_of (rq_requestIds ?s) r = map_of (rq_requestIds s) r \<and> map_of (rq_responses ?s) r = map_of (rq_responses s) r" if "r \<noteq> rid" for r
    using that ok m by (simp add: row_simps)
qed (simp_all add: nth_append)

text \<open>Going on without a change of the tables.\<close>

lemma goto_inv:
  assumes inv: "request_inv s" and pcs: "rq_pcs s = us @ pc # vs" and same: "id_of pc' = id_of pc" "sem_of pc' = sem_of pc"
    and rid: "id_of pc = Some rid" and ok: "pc_ok s pc'"
  shows "request_inv (s\<lparr>rq_pcs := us @ pc' # vs\<rparr>)"
proof (rule request_inv_move [OF inv pcs])
  have f: "\<And>q. pc_ok s q \<Longrightarrow> pc_ok (s\<lparr>rq_pcs := us @ pc' # vs\<rparr>) q" by (erule pc_frame) simp_all
  show "pc_ok (s\<lparr>rq_pcs := us @ pc' # vs\<rparr>) pc'" by (rule f [OF ok])
  show "tables_inv (s\<lparr>rq_pcs := us @ pc' # vs\<rparr>)" "names_inv (s\<lparr>rq_pcs := us @ pc' # vs\<rparr>)"
    using inv pcs same by (simp_all add: request_inv_def tables_inv_def names_inv_def)
qed (simp_all add: same rid)

lemma waited_inv:
  assumes inv: "request_inv s" and pcs: "rq_pcs s = us @ RQ_waiting rid who # vs" and w: "rq_sems s ! who = Some (Suc n)"
  shows "request_inv (s\<lparr>rq_sems := (rq_sems s)[who := Some n], rq_pcs := us @ RQ_consume rid who # vs\<rparr>)"
    (is "request_inv ?s")
proof (rule request_inv_move [OF inv pcs])
  have "answered s rid" using inv pcs w by (auto simp: request_inv_def asked_def)
  then show "pc_ok ?s (RQ_consume rid who)" by (simp add: answered_def)
  show "tables_inv ?s" "names_inv ?s"
    using inv pcs by (simp_all add: request_inv_def tables_inv_def names_inv_def)
qed (auto simp: nth_list_update)

lemma consumed_inv:
  assumes inv: "request_inv s" and pcs: "rq_pcs s = us @ RQ_consume rid who # vs"
  obtains rep where "map_of (rq_responses s) rid = Some rep"
    "request_inv (s\<lparr>rq_responses := map_erase rid (rq_responses s), rq_pcs := us @ RQ_done rid who (Inr (rsp_msg rep)) # vs\<rparr>)"
proof -
  have "answered s rid" and t: "tables_inv s" and n: "names_inv s" using inv pcs by (auto simp: request_inv_def)
  then obtain rep where rep: "map_of (rq_requestIds s) rid = None" "map_of (rq_responses s) rid = Some rep"
    "(rid, rsp_msg rep) \<in> set (rq_accepted s)" by (auto simp: answered_def)
  let ?s = "s\<lparr>rq_responses := map_erase rid (rq_responses s), rq_pcs := us @ RQ_done rid who (Inr (rsp_msg rep)) # vs\<rparr>"
  have m: "map_ok (rq_responses s)" using t by (simp add: tables_inv_def)
  have "request_inv ?s"
  proof (rule request_inv_move [OF inv pcs])
    show "tables_inv ?s" using t pcs rep by (auto simp: tables_inv_def row_simps)
    show "names_inv ?s" using n pcs by (simp add: names_inv_def)
    show "pc_ok ?s (RQ_done rid who (Inr (rsp_msg rep)))" using rep by simp
    show "map_of (rq_requestIds ?s) r = map_of (rq_requestIds s) r \<and> map_of (rq_responses ?s) r = map_of (rq_responses s) r"
      if "r \<noteq> rid" for r using that m by (simp add: row_simps)
  qed simp_all
  with rep(2) show thesis by (rule that)
qed

lemma dropped_inv:
  assumes inv: "request_inv s" and pcs: "rq_pcs s = us @ RQ_dropping rid who e # vs"
  shows "request_inv (s\<lparr>rq_requestIds := map_erase rid (rq_requestIds s), rq_pcs := us @ RQ_done rid who (Inl e) # vs\<rparr>)"
    (is "request_inv ?s")
proof (rule request_inv_move [OF inv pcs])
  have t: "tables_inv s" and n: "names_inv s" and e: "e \<noteq> RuntimeError ''not found''"
    using inv pcs by (auto simp: request_inv_def)
  have m: "map_ok (rq_requestIds s)" using t by (simp add: tables_inv_def)
  show "tables_inv ?s" using t pcs by (auto simp: tables_inv_def row_simps)
  show "names_inv ?s" using n pcs by (simp add: names_inv_def)
  show "pc_ok ?s (RQ_done rid who (Inl e))" using e m by (simp add: row_simps)
  show "map_of (rq_requestIds ?s) r = map_of (rq_requestIds s) r \<and> map_of (rq_responses ?s) r = map_of (rq_responses s) r" if "r \<noteq> rid" for r
    using that m by (simp add: row_simps)
qed simp_all

lemma request_step_inv:
  assumes inv: "request_inv s" and i: "i < length (rq_pcs s)" and step: "request_step ok i s = Some s'"
  shows "request_inv s'"
proof -
  define us vs pc where "us = take i (rq_pcs s)" and "vs = drop (Suc i) (rq_pcs s)" and "pc = rq_pcs s ! i"
  have pcs: "rq_pcs s = us @ pc # vs" and len: "length us = i"
    using i by (simp_all add: us_def vs_def pc_def id_take_nth_drop)
  have go: "rq_goto i q r = r\<lparr>rq_pcs := us @ q # vs\<rparr>" if "rq_pcs r = rq_pcs s" for q r
    using that pcs by (simp add: rq_goto_def len [symmetric])
  have at: "pc_ok s pc" using inv pcs by (simp add: request_inv_def)
  note step = step [unfolded request_step_def pc_def [symmetric]]
  show ?thesis
  proof (cases pc)
    case RQ_start
    with step start_inv [OF inv, of us vs] pcs show ?thesis by (simp add: genUniqId_def go)
  next
    case (RQ_named rid)
    with step register_inv [OF inv, of us rid vs] pcs show ?thesis
      by (simp add: Let_def registerRequestId_def go)
  next
    case (RQ_sending rid who)
    let ?q = "if ok then RQ_waiting rid who else RQ_dropping rid who (RuntimeError ''Failed to send request'')"
    have "request_inv (s\<lparr>rq_pcs := us @ ?q # vs\<rparr>)"
      by (rule goto_inv [OF inv pcs]) (use at RQ_sending in auto)
    with step RQ_sending show ?thesis by (simp add: go)
  next
    case (RQ_waiting rid who)
    show ?thesis
    proof (cases ok)
      case True
      have "rq_sems s ! who = Some 0 \<or> rq_sems s ! who = Some (Suc 0)" using at RQ_waiting by (auto simp: asked_def)
      then show ?thesis
        using step RQ_waiting True waited_inv [OF inv, of us rid who vs 0] pcs by (auto simp: sem_wait_def go)
    next
      case False
      have "request_inv (s\<lparr>rq_pcs := us @ RQ_dropping rid who (RuntimeError ''timeout'') # vs\<rparr>)"
        by (rule goto_inv [OF inv pcs]) (use RQ_waiting in auto)
      with step RQ_waiting False show ?thesis by (simp add: go)
    qed
  next
    case (RQ_consume rid who)
    with consumed_inv [OF inv, of us rid who vs] pcs obtain rep where "map_of (rq_responses s) rid = Some rep"
      "request_inv (s\<lparr>rq_responses := map_erase rid (rq_responses s), rq_pcs := us @ RQ_done rid who (Inr (rsp_msg rep)) # vs\<rparr>)"
      by metis
    with step RQ_consume show ?thesis by (simp add: consumeResponse_def go)
  next
    case (RQ_dropping rid who e)
    with step dropped_inv [OF inv, of us rid who e vs] pcs show ?thesis by (simp add: removeRequestId_def go)
  qed (use step in simp)
qed

lemma distinct_snd: "distinct (map snd xs) \<Longrightarrow> (a, w) \<in> set xs \<Longrightarrow> (b, w) \<in> set xs \<Longrightarrow> a = b"
  by (metis distinct_map inj_onD prod.inject snd_conv)

lemma in_entries: "pc \<in> set pcs \<Longrightarrow> sem_of pc = Some e \<Longrightarrow> e \<in> set (entries pcs)"
  by (cases e) (induction pcs, auto)

lemma push_inv:
  assumes inv: "request_inv s"
  shows "request_inv (push_step rep s)"
proof (cases "map_of (rq_requestIds s) (rsp_reqId rep)")
  case None
  then show ?thesis using inv by (simp add: push_step_def pushResponse_def)
next
  case (Some who)
  let ?rid = "rsp_reqId rep"
  define s' where "s' = push_step rep s"
  have s': "s' = s\<lparr>rq_responses := map_emplace ?rid rep (rq_responses s), rq_sems := (rq_sems s)[who := sem_post (rq_sems s ! who)],
      rq_requestIds := map_erase ?rid (rq_requestIds s), rq_accepted := rq_accepted s @ [(?rid, rsp_msg rep)]\<rparr>"
    using Some by (simp add: s'_def push_step_def pushResponse_def)
  have t: "tables_inv s" and n: "names_inv s" and oks: "\<And>pc. pc \<in> set (rq_pcs s) \<Longrightarrow> pc_ok s pc"
    using inv by (simp_all add: request_inv_def)
  have e: "(?rid, who) \<in> set (entries (rq_pcs s))" and new: "map_of (rq_responses s) ?rid = None" "?rid \<notin> fst ` set (rq_accepted s)"
    and m: "map_ok (rq_requestIds s)" "map_ok (rq_responses s)"
    using t Some by (simp_all add: tables_inv_def)
  have "tables_inv s'"
    unfolding tables_inv_def
  proof (intro conjI allI impI)
    show "map_ok (rq_requestIds s')" "map_ok (rq_responses s')" using m by (simp_all add: s' row_simps)
    show "(r, w) \<in> set (entries (rq_pcs s'))" "map_of (rq_responses s') r = None" "r \<notin> fst ` set (rq_accepted s')"
      if a: "map_of (rq_requestIds s') r = Some w" for r w
    proof -
      have r: "r \<noteq> ?rid" "map_of (rq_requestIds s) r = Some w" using a m by (auto simp: s' row_simps split: if_splits)
      then have old: "(r, w) \<in> set (entries (rq_pcs s))" "map_of (rq_responses s) r = None" "r \<notin> fst ` set (rq_accepted s)"
        using t by (simp_all add: tables_inv_def)
      show "(r, w) \<in> set (entries (rq_pcs s'))" "map_of (rq_responses s') r = None" "r \<notin> fst ` set (rq_accepted s')"
        using old r(1) m by (simp_all add: s' row_simps)
    qed
    show "r \<in> fst ` set (rq_accepted s')" if "map_of (rq_responses s') r \<noteq> None" for r
      using that t m by (cases "r = ?rid") (auto simp: s' row_simps tables_inv_def split: if_splits)
    show "fst ` set (rq_accepted s') \<subseteq> fst ` set (entries (rq_pcs s'))"
      using t e image_eqI [of ?rid fst "(?rid, who)"] by (simp add: s' tables_inv_def)
    show "distinct (map fst (rq_accepted s'))" using t new by (simp add: s' tables_inv_def)
  qed
  moreover have "names_inv s'" using n by (simp add: s' names_inv_def)
  moreover have "pc_ok s' pc" if pc: "pc \<in> set (rq_pcs s)" for pc
  proof (cases "id_of pc = Some ?rid")
    case True
    have w: "w = who" if "sem_of pc = Some (?rid, w)" "asked s ?rid w" for w using that(2) Some by (simp add: asked_def)
    have len: "who < length (rq_sems s)" using n e by (auto simp: names_inv_def)
    show ?thesis using oks [OF pc] True Some new m len
      by (cases pc) (auto simp: s' asked_def answered_def row_simps sem_post_def split: sum.splits)
  next
    case False
    show ?thesis
    proof (rule pc_frame [OF oks [OF pc]])
      show "rq_sems s' ! w = rq_sems s ! w" if "sem_of pc = Some (r, w)" for r w
      proof -
        have "r \<noteq> ?rid" using False that by (cases pc) auto
        then have "w \<noteq> who"
          using distinct_snd [of "entries (rq_pcs s)" r w ?rid] in_entries [OF pc that] e n by (auto simp: names_inv_def)
        then show ?thesis by (simp add: s')
      qed
    qed (use False m in \<open>auto simp: s' row_simps\<close>)
  qed
  ultimately show ?thesis by (simp add: request_inv_def s' s'_def [symmetric])
qed

lemma request_reach_inv: "request_reach s \<Longrightarrow> request_inv s"
proof (induction rule: request_reach.induct)
  case (start s)
  have "pc_ok (s\<lparr>rq_pcs := rq_pcs s @ [RQ_start]\<rparr>) pc" if "pc_ok s pc" for pc
    by (rule pc_frame [OF that]) simp_all
  with start show ?case by (auto simp: request_inv_def tables_inv_def names_inv_def)
qed (simp_all add: requests_new_inv request_step_inv push_inv)

section \<open>Properties\<close>

text \<open>
  C37. Requests and responses match, however the threads interleave and whatever responses come in: a
  request that returns does so with the response that was accepted for its own id, no id is given
  twice or answered twice, a request whose semaphore was posted finds its response (the error \<^verbatim>\<open>not
  found\<close> does not occur), and one that waits when its response has come can go on.
\<close>

theorem requests_answered:
  assumes "request_reach s"
  shows "(\<forall>rid who m. RQ_done rid who (Inr m) \<in> set (rq_pcs s) \<longrightarrow> (rid, m) \<in> set (rq_accepted s)) \<and>
    distinct (map fst (rq_accepted s)) \<and> distinct (ids (rq_pcs s)) \<and>
    (\<forall>rid who. RQ_done rid who (Inl (RuntimeError ''not found'')) \<notin> set (rq_pcs s)) \<and>
    (\<forall>i < length (rq_pcs s). \<forall>rid who. rq_pcs s ! i = RQ_waiting rid who \<longrightarrow> rid \<in> fst ` set (rq_accepted s) \<longrightarrow>
       request_step True i s \<noteq> None)"
proof -
  have inv: "tables_inv s" "names_inv s" and oks: "\<And>pc. pc \<in> set (rq_pcs s) \<Longrightarrow> pc_ok s pc"
    using request_reach_inv [OF assms] by (simp_all add: request_inv_def)
  have "request_step True i s \<noteq> None"
    if i: "i < length (rq_pcs s)" "rq_pcs s ! i = RQ_waiting rid who" and a: "rid \<in> fst ` set (rq_accepted s)" for i rid who
  proof -
    have "pc_ok s (RQ_waiting rid who)" using oks [of "rq_pcs s ! i"] nth_mem [OF i(1)] i(2) by simp
    moreover have "\<not> asked s rid who" using a inv(1) by (auto simp: asked_def tables_inv_def)
    ultimately have "rq_sems s ! who = Some 1" by simp
    then show ?thesis using i by (simp add: request_step_def sem_wait_def)
  qed
  moreover have "RQ_done rid who (Inl (RuntimeError ''not found'')) \<notin> set (rq_pcs s)" for rid who
    using oks [of "RQ_done rid who (Inl (RuntimeError ''not found''))"] by auto
  moreover have "(rid, m) \<in> set (rq_accepted s)" if "RQ_done rid who (Inr m) \<in> set (rq_pcs s)" for rid who m
    using oks [OF that] by simp
  ultimately show ?thesis using inv by (simp add: tables_inv_def names_inv_def)
qed

text \<open>A schedule: the steps of the requests, \<open>None\<close> for a new one.\<close>

primrec request_steps :: "(bool \<times> nat) option list \<Rightarrow> requests \<Rightarrow> requests option" where
  "request_steps [] s = Some s"
| "request_steps (c # cs) s = (case c of
     None \<Rightarrow> if length (rq_pcs s) + 1 < 2 ^ 64 then request_steps cs (s\<lparr>rq_pcs := rq_pcs s @ [RQ_start]\<rparr>) else None
   | Some (ok, i) \<Rightarrow> if i < length (rq_pcs s)
       then (case request_step ok i s of None \<Rightarrow> None | Some s' \<Rightarrow> request_steps cs s') else None)"

lemma request_steps_reach: "request_reach s \<Longrightarrow> request_steps cs s = Some s' \<Longrightarrow> request_reach s'"
proof (induction cs arbitrary: s)
  case (Cons c cs)
  show ?case
  proof (cases c)
    case None
    with Cons.prems show ?thesis by (auto split: if_splits intro!: Cons.IH [OF request_reach.start])
  next
    case (Some a)
    with Cons.prems show ?thesis by (auto split: option.splits if_splits prod.splits intro: Cons.IH request_reach.step)
  qed
qed simp

text \<open>Two requests; the response to the second comes in, and it returns.\<close>

definition demo_asked :: "(bool \<times> nat) option list" where
  "demo_asked = [None, None, Some (True, 0), Some (True, 1), Some (True, 1), Some (True, 0), Some (True, 1)]"

lemma demo_requests:
  "\<exists>s s' s''. request_steps demo_asked requests_new = Some s \<and>
     request_steps [Some (True, 1), Some (True, 1)] (push_step \<lparr>rsp_reqId = 2, rsp_msg = Some (CInt 9)\<rparr> s) = Some s' \<and>
     rq_pcs s' ! 1 = RQ_done 2 0 (Inr (Some (CInt 9))) \<and> rq_accepted s' = [(2, Some (CInt 9))] \<and>
     request_steps [Some (True, 0), Some (False, 0), Some (False, 1), Some (False, 0), Some (False, 1)]
       (push_step \<lparr>rsp_reqId = 2, rsp_msg = None\<rparr> s) = Some s'' \<and>
     (\<forall>pc \<in> set (rq_pcs s''). case pc of RQ_done _ _ (Inl _) \<Rightarrow> True | _ \<Rightarrow> False) \<and>
     rq_responses s'' = [(2, \<lparr>rsp_reqId = 2, rsp_msg = None\<rparr>)]"
  by (simp add: demo_asked_def requests_new_def request_step_def genUniqId_def rq_goto_def registerRequestId_def
      map_emplace_def push_step_def pushResponse_def sem_new_def sem_post_def sem_wait_def consumeResponse_def
      removeRequestId_def)

theorem requests_answered_witness:
  "\<exists>s. request_reach s \<and> rq_pcs s ! 1 = RQ_done 2 0 (Inr (Some (CInt 9))) \<and> distinct (ids (rq_pcs s)) \<and>
     (\<forall>rid who. RQ_done rid who (Inl (RuntimeError ''not found'')) \<notin> set (rq_pcs s))"
proof -
  obtain s s' where s: "request_steps demo_asked requests_new = Some s"
    and s': "request_steps [Some (True, 1), Some (True, 1)] (push_step \<lparr>rsp_reqId = 2, rsp_msg = Some (CInt 9)\<rparr> s) = Some s'"
      "rq_pcs s' ! 1 = RQ_done 2 0 (Inr (Some (CInt 9)))"
    using demo_requests by blast
  have "request_reach s'"
    by (rule request_steps_reach [OF request_reach.push [OF request_steps_reach [OF request_reach.new s]] s'(1)])
  with requests_answered [OF this] s'(2) show ?thesis by blast
qed

text \<open>
  A response that is accepted when its request has just stopped waiting stays in the table: nobody
  takes it.
\<close>

lemma late_response_kept:
  "\<exists>s. request_reach s \<and> (\<forall>pc \<in> set (rq_pcs s). case pc of RQ_done _ _ (Inl _) \<Rightarrow> True | _ \<Rightarrow> False) \<and> rq_responses s \<noteq> []"
proof -
  obtain s s'' where s: "request_steps demo_asked requests_new = Some s"
    and s'': "request_steps [Some (True, 0), Some (False, 0), Some (False, 1), Some (False, 0), Some (False, 1)]
        (push_step \<lparr>rsp_reqId = 2, rsp_msg = None\<rparr> s) = Some s''"
      "\<forall>pc \<in> set (rq_pcs s''). case pc of RQ_done _ _ (Inl _) \<Rightarrow> True | _ \<Rightarrow> False" "rq_responses s'' \<noteq> []"
    using demo_requests by (metis list.distinct(1))
  have "request_reach s''"
    by (rule request_steps_reach [OF request_reach.push [OF request_steps_reach [OF request_reach.new s]] s''(1)])
  with s''(2,3) show ?thesis by blast
qed

end
