(* ===== verification/ActorSys.thy ===== *)
theory ActorSys
  imports ActorRequests Listener MemSize
begin

text \<open>
  \<^verbatim>\<open>concurrency/actor/sys.cc\<close>, \<^verbatim>\<open>base.cc\<close> and \<^verbatim>\<open>ref.cc\<close>: the system that runs actors. A method is a function of
  the state of the system (\<open>Act\<close>), a thread runs from one wait to the next in one step, and a thread
  that locks what another one holds does not return. Actors, streams and semaphores are objects that
  the tables share; they are named by their index. The classes that derive from \<^verbatim>\<open>ActorBase\<close> are
  given by their virtual methods, which may do anything to the system.
\<close>

section \<open>The state\<close>

text \<open>An actor: the members of \<^verbatim>\<open>ActorBase\<close> and those of its class.\<close>

record 'x actor_obj =
  ao_name :: string
  ao_atomic :: bool
  ao_locked :: bool
  ao_data :: 'x

record job =
  job_data :: bytes
  job_packet :: bool
  job_origin :: ipv4
  job_msg :: actor_message

text \<open>
  \<open>as_dials\<close> holds what the kernel will answer to the next connections: the descriptor of \<^verbatim>\<open>socket\<close>
  and, when the peer answers, the two queues of the connection.
\<close>

record 'x actor_system = registry +
  as_stopOnEmpty :: bool
  as_actors :: "(string \<times> nat) list"
  as_objs :: "'x actor_obj list"
  as_actMut :: bool
  as_isRunning :: bool
  as_sockets :: "u32 \<Rightarrow> nat option"
  as_remotes :: "u64 \<Rightarrow> nat list option"
  as_streams :: "tcp_stream list"
  as_addr :: sockaddr
  as_listener :: "tcp_listener option"
  as_nbJobThreads :: u32
  as_th :: nat
  as_runningJobThreads :: "nat list"
  as_next_thread :: nat
  as_jobs :: "job mailbox"
  as_waitJobTask :: semaphore
  as_trigger :: bytes
  as_dials :: "(nat option \<times> (bytes list \<times> nat list) option) list"

type_synonym ('x, 'a) sys_act = "('x actor_system, 'a) act"

definition actorSystem :: "sockaddr \<Rightarrow> int \<Rightarrow> u32 \<Rightarrow> (nat option \<times> (bytes list \<times> nat list) option) list \<Rightarrow> 'x actor_system" where
  "actorSystem addr nbThreads hardware_concurrency dials =
     \<lparr>rq_lastU = 0, rq_requestIds = [], rq_responses = [], rq_sems = [], as_stopOnEmpty = False, as_actors = [],
      as_objs = [], as_actMut = False, as_isRunning = False, as_sockets = (\<lambda>_. None), as_remotes = (\<lambda>_. None),
      as_streams = [], as_addr = addr, as_listener = None,
      as_nbJobThreads = (if nbThreads \<le> 0 then hardware_concurrency else of_int (nbThreads + 1)),
      as_th = 0, as_runningJobThreads = [], as_next_thread = 1, as_jobs = mailbox_new, as_waitJobTask = sem_new,
      as_trigger = [], as_dials = dials\<rparr>"

text \<open>The virtual methods of an actor; \<open>actorBase\<close> has those of the class itself.\<close>

record 'x behaviour =
  onStart :: "nat \<Rightarrow> ('x, unit) sys_act"
  onMessage :: "nat \<Rightarrow> config \<Rightarrow> ('x, unit) sys_act"
  onRequest :: "nat \<Rightarrow> config \<Rightarrow> ('x, config option) sys_act"
  onQuit :: "nat \<Rightarrow> ('x, unit) sys_act"

definition actorBase :: "'x behaviour" where
  "actorBase = \<lparr>onStart = (\<lambda>_. ret ()), onMessage = (\<lambda>_ _. ret ()), onRequest = (\<lambda>_ _. ret None), onQuit = (\<lambda>_. ret ())\<rparr>"

section \<open>Locks and exceptions\<close>

text \<open>\<^verbatim>\<open>try { m } catch (...) { h }\<close>\<close>

definition try_act :: "('s, 'a) act \<Rightarrow> ('s, 'a) act \<Rightarrow> ('s, 'a) act" where
  "try_act m h = (\<lambda>s. case m s of
     None \<Rightarrow> None
   | Some (Inl e, s') \<Rightarrow> h s'
   | Some (Inr x, s') \<Rightarrow> Some (Inr x, s'))"

text \<open>\<^verbatim>\<open>WITH_LOCK\<close>: the lock is released when the block is left, by an exception too.\<close>

definition locked :: "('s \<Rightarrow> bool) \<Rightarrow> (bool \<Rightarrow> 's \<Rightarrow> 's) \<Rightarrow> ('s, 'a) act \<Rightarrow> ('s, 'a) act" where
  "locked held set_held m = (\<lambda>s.
     if held s then None
     else (case m (set_held True s) of None \<Rightarrow> None | Some (r, s') \<Rightarrow> Some (r, set_held False s')))"

definition with_actMut :: "('x, 'a) sys_act \<Rightarrow> ('x, 'a) sys_act" where
  "with_actMut = locked as_actMut (\<lambda>b s. s\<lparr>as_actMut := b\<rparr>)"

definition set_locked :: "nat \<Rightarrow> bool \<Rightarrow> 'x actor_system \<Rightarrow> 'x actor_system" where
  "set_locked act b s = s\<lparr>as_objs := (as_objs s)[act := (as_objs s ! act)\<lparr>ao_locked := b\<rparr>]\<rparr>"

definition with_mutex :: "nat \<Rightarrow> ('x, 'a) sys_act \<Rightarrow> ('x, 'a) sys_act" where
  "with_mutex act = locked (\<lambda>s. ao_locked (as_objs s ! act)) (set_locked act)"

definition mutex_lock :: "nat \<Rightarrow> ('x, unit) sys_act" where
  "mutex_lock act = (\<lambda>s. if ao_locked (as_objs s ! act) then None else Some (Inr (), set_locked act True s))"

definition mutex_unlock :: "nat \<Rightarrow> ('x, unit) sys_act" where
  "mutex_unlock act = modify (set_locked act False)"

definition isAtomic :: "nat \<Rightarrow> 'x actor_system \<Rightarrow> bool" where
  "isAtomic act s = ao_atomic (as_objs s ! act)"

section \<open>Threads\<close>

definition spawn_job_thread :: "('x, unit) sys_act" where
  "spawn_job_thread = modify (\<lambda>s. s\<lparr>as_runningJobThreads := as_runningJobThreads s @ [as_next_thread s],
     as_next_thread := as_next_thread s + 1\<rparr>)"

text \<open>A thread that was spawned posts \<^verbatim>\<open>_ready\<close>, which its creator waits for.\<close>

fun spawn_loop :: "nat \<Rightarrow> ('x, unit) sys_act" where
  "spawn_loop 0 = ret ()"
| "spawn_loop (Suc n) = bnd spawn_job_thread (\<lambda>_. spawn_loop n)"

definition spawnJobThreads :: "('x, unit) sys_act" where
  "spawnJobThreads = bnd (gets (\<lambda>s. (length (as_runningJobThreads s), unat (as_nbJobThreads s)))) (\<lambda>(start, nb).
     spawn_loop (nb - start))"

definition submitJob :: "job \<Rightarrow> ('x, unit) sys_act" where
  "submitJob job =
     bnd (modify (\<lambda>s. s\<lparr>as_jobs := mailbox_send job (as_jobs s)\<rparr>)) (\<lambda>_.
     bnd (gets (\<lambda>s. length (as_runningJobThreads s) \<noteq> unat (as_nbJobThreads s))) (\<lambda>more.
     bnd (if more then spawnJobThreads else ret ()) (\<lambda>_.
     modify (\<lambda>s. s\<lparr>as_waitJobTask := sem_post (as_waitJobTask s)\<rparr>))))"

definition as_isWorkerThread :: "nat \<Rightarrow> 'x actor_system \<Rightarrow> bool" where
  "as_isWorkerThread self s \<longleftrightarrow> as_th s = self \<or> self \<in> set (as_runningJobThreads s)"

section \<open>Addresses and references\<close>

definition as_port :: "'x actor_system \<Rightarrow> u32" where
  "as_port s = (case as_listener s of None \<Rightarrow> 0 | Some l \<Rightarrow> ucast (listener_port l))"

definition sys_addr :: "'x actor_system \<Rightarrow> sockaddr" where
  "sys_addr s = \<lparr>sa_ip = sa_ip (as_addr s), sa_port = ucast (as_port s)\<rparr>"

definition isLocalAddr :: "sockaddr \<Rightarrow> 'x actor_system \<Rightarrow> bool" where
  "isLocalAddr addr s \<longleftrightarrow> sa_port addr = sa_port (sys_addr s) \<and> toN (sa_ip addr) = toN (sa_ip (sys_addr s))"

record actor_ref =
  ref_isLocal :: bool
  ref_name :: string
  ref_addr :: sockaddr

definition actorRef :: "string \<Rightarrow> sockaddr \<Rightarrow> 'x actor_system \<Rightarrow> actor_ref" where
  "actorRef name addr s = \<lparr>ref_isLocal = isLocalAddr addr s, ref_name = name, ref_addr = addr\<rparr>"

definition localActor :: "string \<Rightarrow> 'x actor_system \<Rightarrow> actor_ref res" where
  "localActor name s =
     ebind (ipv4_str ''127.0.0.1'') (\<lambda>ip. Inr (actorRef name \<lparr>sa_ip = ip, sa_port = ucast (as_port s)\<rparr> s))"

definition remoteActor :: "string \<Rightarrow> sockaddr \<Rightarrow> 'x actor_system \<Rightarrow> actor_ref" where
  "remoteActor name addr s = actorRef name addr s"

section \<open>Connections\<close>

definition on_socket :: "nat \<Rightarrow> (tcp_stream, 'a) act \<Rightarrow> ('x, 'a) sys_act" where
  "on_socket k = zoom (\<lambda>s. as_streams s ! k) (\<lambda>t s. s\<lparr>as_streams := (as_streams s)[k := t]\<rparr>)"

definition remote_key :: "sockaddr \<Rightarrow> u64" where
  "remote_key addr = ucast (toN (sa_ip addr)) OR push_bit 32 (ucast (sa_port addr))"

definition new_stream :: "tcp_stream \<Rightarrow> ('x, nat) sys_act" where
  "new_stream t = bnd (gets (\<lambda>s. length (as_streams s))) (\<lambda>k.
     bnd (modify (\<lambda>s. s\<lparr>as_streams := as_streams s @ [t]\<rparr>)) (\<lambda>_. ret k))"

definition next_dial :: "('x, nat option \<times> (bytes list \<times> nat list) option) sys_act" where
  "next_dial = bnd (gets as_dials) (\<lambda>ds. case ds of
     [] \<Rightarrow> ret (None, None)
   | d # ds \<Rightarrow> bnd (modify (\<lambda>s. s\<lparr>as_dials := ds\<rparr>)) (\<lambda>_. ret d))"

text \<open>A connection of the pool, from its end, or a new one.\<close>

definition sys_connect :: "sockaddr \<Rightarrow> ('x, nat option) sys_act" where
  "sys_connect addr = bnd (gets (\<lambda>s. as_remotes s (remote_key addr))) (\<lambda>it.
     if it \<noteq> None \<and> the it \<noteq> [] then
       bnd (modify (\<lambda>s. s\<lparr>as_remotes := (as_remotes s)(remote_key addr \<mapsto> butlast (the it))\<rparr>)) (\<lambda>_.
       ret (Some (last (the it))))
     else
       bnd (new_stream (tcpStream_addr addr)) (\<lambda>newConn.
       bnd next_dial (\<lambda>(sock, dial).
       try_act (bnd (on_socket newConn (stream_connect sock (\<lambda>_. dial))) (\<lambda>_. ret (Some newConn))) (ret None))))"

text \<open>A connection that still works goes to the front of the pool; another one is closed when it is dropped.\<close>

definition sys_release :: "sockaddr \<Rightarrow> nat \<Rightarrow> ('x, unit) sys_act" where
  "sys_release addr socket = bnd (gets (\<lambda>s. isOpen (as_streams s ! socket))) (\<lambda>open.
     if open then modify (\<lambda>s. s\<lparr>as_remotes := (as_remotes s)(remote_key addr \<mapsto>
         (case as_remotes s (remote_key addr) of Some lst \<Rightarrow> socket # lst | None \<Rightarrow> [socket]))\<rparr>)
     else on_socket socket stream_close)"

section \<open>Sending\<close>

fun send_tries :: "nat \<Rightarrow> sockaddr \<Rightarrow> bytes \<Rightarrow> ('x, bool) sys_act" where
  "send_tries 0 addr buffer = ret False"
| "send_tries (Suc n) addr buffer =
     bnd (sys_connect addr) (\<lambda>str. case str of
       None \<Rightarrow> send_tries n addr buffer
     | Some str \<Rightarrow>
         bnd (try_act
           (bnd (on_socket str (sendU32 (of_nat (length buffer)) True)) (\<lambda>_.
            bnd (on_socket str (inner_sendRaw buffer True)) (\<lambda>_. ret True)))
           (ret False)) (\<lambda>success.
         bnd (sys_release addr str) (\<lambda>_.
         if success then ret True else send_tries n addr buffer)))"

definition sendMessage :: "sockaddr \<Rightarrow> actor_message \<Rightarrow> nat \<Rightarrow> bool \<Rightarrow> ('x, bool) sys_act" where
  "sendMessage addr msg nbTries local =
     (if local then
        bnd (gets (\<lambda>s. sa_ip (sys_addr s))) (\<lambda>origin.
        bnd (submitJob \<lparr>job_data = [], job_packet = False, job_origin = origin, job_msg = msg\<rparr>) (\<lambda>_. ret True))
      else send_tries nbTries addr (msg_serialize msg))"

end
