(* ===== verification/ActorRun.thy ===== *)
theory ActorRun
  imports ActorSys
begin

text \<open>
  \<^verbatim>\<open>concurrency/actor/sys.cc\<close>, continued: the actors that come and go, what a worker does with a job,
  what the polling thread does with a socket, and the end of the system; and the references of
  \<^verbatim>\<open>concurrency/actor/ref.cc\<close>, through which everything is asked.
\<close>

section \<open>Actors\<close>

definition getActor :: "string \<Rightarrow> ('x, nat option) sys_act" where
  "getActor name = with_actMut (gets (\<lambda>s. map_of (as_actors s) name))"

definition removeActor :: "string \<Rightarrow> ('x, unit) sys_act" where
  "removeActor name = with_actMut (modify (\<lambda>s. s\<lparr>as_actors := map_erase name (as_actors s)\<rparr>))"

definition quoted :: "string \<Rightarrow> string" where
  "quoted name = CHR 0x27 # name @ [CHR 0x27]"

definition crashed :: "string \<Rightarrow> exn" where
  "crashed name = RuntimeError (''Actor '' @ quoted name @ '' crashed at startup'')"

definition joinOnEmpty :: "bool \<Rightarrow> ('x, unit) sys_act" where
  "joinOnEmpty j = modify (\<lambda>s. s\<lparr>as_stopOnEmpty := j\<rparr>)"

text \<open>
  \<open>built\<close> is what the constructor of the actor does: the object, or an exception. Its mutex is new.
\<close>

definition add_actor :: "'x behaviour \<Rightarrow> string \<Rightarrow> 'x actor_obj res \<Rightarrow> ('x, unit) sys_act" where
  "add_actor beh name built =
     bnd (with_actMut (bnd (gets (\<lambda>s. map_of (as_actors s) name)) (\<lambda>it.
       if it \<noteq> None then throw (RuntimeError (''Already an actor named '' @ quoted name)) else ret ()))) (\<lambda>_.
     try_act
       (bnd (lift_res built) (\<lambda>obj.
        bnd (gets (\<lambda>s. length (as_objs s))) (\<lambda>act.
        bnd (modify (\<lambda>s. s\<lparr>as_objs := as_objs s @ [obj\<lparr>ao_locked := False\<rparr>]\<rparr>)) (\<lambda>_.
        bnd (with_actMut (modify (\<lambda>s. s\<lparr>as_actors := map_emplace name act (as_actors s)\<rparr>))) (\<lambda>_.
        onStart beh act)))))
       (bnd (with_actMut (modify (\<lambda>s. s\<lparr>as_actors := map_erase name (as_actors s)\<rparr>))) (\<lambda>_.
        throw (crashed name))))"

definition stop_polling :: "('x, unit) sys_act" where
  "stop_polling = bnd (gets as_isRunning) (\<lambda>running.
     if running then modify (\<lambda>s. s\<lparr>as_isRunning := False, as_trigger := as_trigger s @ [99]\<rparr>) else ret ())"

fun quit_locked :: "'x behaviour \<Rightarrow> (string \<times> nat) list \<Rightarrow> ('x, unit) sys_act" where
  "quit_locked beh [] = ret ()"
| "quit_locked beh (it # its) =
     bnd (with_mutex (snd it) (try_act (onQuit beh (snd it)) (ret ()))) (\<lambda>_. quit_locked beh its)"

definition onSystemKill :: "'x behaviour \<Rightarrow> ('x, unit) sys_act" where
  "onSystemKill beh =
     bnd (with_actMut (bnd (gets as_actors) (quit_locked beh))) (\<lambda>_.
     bnd (modify (\<lambda>s. s\<lparr>as_actors := []\<rparr>)) (\<lambda>_. stop_polling))"

definition sys_remove :: "'x behaviour \<Rightarrow> string \<Rightarrow> bool \<Rightarrow> ('x, unit) sys_act" where
  "sys_remove beh name lock =
     bnd (getActor name) (\<lambda>it.
     bnd (case it of
         None \<Rightarrow> ret ()
       | Some act \<Rightarrow> bnd (removeActor name) (\<lambda>_.
           try_act (if lock then with_mutex act (onQuit beh act) else onQuit beh act) (ret ()))) (\<lambda>_.
     bnd (gets (\<lambda>s. as_stopOnEmpty s \<and> as_actors s = [])) (\<lambda>kill.
     if kill then onSystemKill beh else ret ())))"

text \<open>\<^verbatim>\<open>ActorBase::exit\<close> and \<^verbatim>\<open>getRef\<close>.\<close>

definition actor_exit :: "'x behaviour \<Rightarrow> nat \<Rightarrow> ('x, unit) sys_act" where
  "actor_exit beh act = bnd (gets (\<lambda>s. ao_name (as_objs s ! act))) (\<lambda>name. sys_remove beh name False)"

definition actor_getRef :: "nat \<Rightarrow> 'x actor_system \<Rightarrow> actor_ref res" where
  "actor_getRef act s = localActor (ao_name (as_objs s ! act)) s"

section \<open>Sessions\<close>

definition reply :: "actor_message \<Rightarrow> config option \<Rightarrow> ('x, bool) sys_act" where
  "reply msg content =
     bnd (gets sys_addr) (\<lambda>addr. bnd (gets (isLocalAddr (am_addr msg))) (\<lambda>local.
     sendMessage (am_addr msg) (actorMessage_uid addr ACTOR_RESP (am_uid msg) [] content) 100 local))"

definition lock_if_atomic :: "nat \<Rightarrow> ('x, unit) sys_act" where
  "lock_if_atomic act = bnd (gets (isAtomic act)) (\<lambda>a. if a then mutex_lock act else ret ())"

definition unlock_if_atomic :: "nat \<Rightarrow> ('x, unit) sys_act" where
  "unlock_if_atomic act = bnd (gets (isAtomic act)) (\<lambda>a. if a then mutex_unlock act else ret ())"

text \<open>The actor that a message names is only looked up when the message has a content.\<close>

definition find_target :: "actor_message \<Rightarrow> ('x, nat option) sys_act" where
  "find_target msg = (if am_content msg = None then ret None else getActor (am_actorName msg))"

definition onActorReq :: "'x behaviour \<Rightarrow> actor_message \<Rightarrow> ('x, unit) sys_act" where
  "onActorReq beh msg =
     bnd (find_target msg) (\<lambda>it. case it of
       None \<Rightarrow> bnd (reply msg None) (\<lambda>_. ret ())
     | Some act \<Rightarrow>
         bnd (lock_if_atomic act) (\<lambda>_.
         bnd (try_act (bnd (onRequest beh act (the (am_content msg))) (\<lambda>result.
                       bnd (reply msg result) (\<lambda>_. ret ()))) (ret ())) (\<lambda>_.
         unlock_if_atomic act)))"

definition onActorMsg :: "'x behaviour \<Rightarrow> actor_message \<Rightarrow> ('x, unit) sys_act" where
  "onActorMsg beh msg =
     bnd (find_target msg) (\<lambda>it. case it of
       None \<Rightarrow> ret ()
     | Some act \<Rightarrow>
         bnd (lock_if_atomic act) (\<lambda>_.
         bnd (try_act (onMessage beh act (the (am_content msg))) (ret ())) (\<lambda>_.
         unlock_if_atomic act)))"

definition as_onSession :: "'x behaviour \<Rightarrow> actor_message \<Rightarrow> ('x, unit) sys_act" where
  "as_onSession beh msg = try_act
     (if am_kind msg = ACTOR_RESP
      then modify (pushResponse \<lparr>rsp_reqId = am_uid msg, rsp_msg = am_content msg\<rparr>)
      else if am_kind msg = ACTOR_MSG then onActorMsg beh msg
      else if am_kind msg = ACTOR_REQ then onActorReq beh msg
      else ret ())
     (ret ())"

section \<open>Workers\<close>

definition treat_job :: "'x behaviour \<Rightarrow> job \<Rightarrow> ('x, unit) sys_act" where
  "treat_job beh job = try_act
     (if job_packet job
      then bnd (lift_res (msg_deserialize (job_origin job) (job_data job))) (as_onSession beh)
      else as_onSession beh (job_msg job))
     (ret ())"

text \<open>
  What a worker does when it is woken, until it waits again (true) or leaves; it does not return while
  there is nothing to be woken by.
\<close>

definition leave_pool :: "nat \<Rightarrow> ('x, bool) sys_act" where
  "leave_pool self = bnd (modify (\<lambda>s. s\<lparr>as_runningJobThreads := remove1 self (as_runningJobThreads s)\<rparr>)) (\<lambda>_. ret False)"

definition workerJobThread :: "'x behaviour \<Rightarrow> nat \<Rightarrow> ('x, bool) sys_act" where
  "workerJobThread beh self = (\<lambda>s. case sem_wait (as_waitJobTask s) of
     None \<Rightarrow> None
   | Some (_, sem) \<Rightarrow>
       bnd (modify (\<lambda>s. s\<lparr>as_waitJobTask := sem\<rparr>)) (\<lambda>_.
       bnd (gets as_isRunning) (\<lambda>running.
       if \<not> running then leave_pool self
       else bnd (gets (\<lambda>s. mailbox_receive (as_jobs s))) (\<lambda>(got, jobs).
         bnd (modify (\<lambda>s. s\<lparr>as_jobs := jobs\<rparr>)) (\<lambda>_.
         case got of
           Some job \<Rightarrow> bnd (treat_job beh job) (\<lambda>_. ret True)
         | None \<Rightarrow> leave_pool self)))) s)"

section \<open>The polling thread\<close>

definition receiveMessage :: "'x behaviour \<Rightarrow> nat \<Rightarrow> ('x, unit) sys_act" where
  "receiveMessage beh stream =
     bnd (try_act
       (bnd (on_socket stream receiveU32) (\<lambda>n.
        if ms_size (ms_MB 1) < ucast n then throw (RuntimeError ''message to big'')
        else bnd (on_socket stream (inner_receiveRaw (unat n) True)) (\<lambda>(ok, got). ret (Some got))))
       (ret None)) (\<lambda>buffer. case buffer of
       None \<Rightarrow> ret ()
     | Some buffer \<Rightarrow> try_act
         (bnd (lift_res (readU8 (buffer, of_nat (length buffer)))) (\<lambda>(result, c).
          if result = SYSTEM_KILL_ALL then onSystemKill beh
          else bnd (gets (\<lambda>s. sa_ip (stream_addr (as_streams s ! stream)))) (\<lambda>origin.
            submitJob \<lparr>job_data = buffer, job_packet = True, job_origin = origin, job_msg = actorMessage_empty\<rparr>)))
         (ret ()))"

text \<open>A stream whose descriptor is already in the table is dropped, which closes it.\<close>

definition addPoll :: "nat \<Rightarrow> ('x, unit) sys_act" where
  "addPoll socket =
     bnd (gets (\<lambda>s. of_nat (sockfd (as_streams s ! socket)))) (\<lambda>fd.
     bnd (gets (\<lambda>s. as_sockets s fd)) (\<lambda>it.
     if it = None then modify (\<lambda>s. s\<lparr>as_sockets := (as_sockets s)(fd \<mapsto> socket)\<rparr>)
     else on_socket socket stream_close))"

definition delPoll :: "u32 \<Rightarrow> ('x, unit) sys_act" where
  "delPoll fd = modify (\<lambda>s. s\<lparr>as_sockets := (as_sockets s)(fd := None)\<rparr>)"

text \<open>What \<^verbatim>\<open>epoll_wait\<close> returns: the socket that listens, with what \<^verbatim>\<open>accept\<close> gives, the trigger, a client.\<close>

datatype poll_event = EV_listener connection | EV_trigger | EV_client u32

definition accept_client :: "connection \<Rightarrow> ('x, nat) sys_act" where
  "accept_client cn = bnd (lift_res (listener_accept cn)) new_stream"

definition poll_turn :: "'x behaviour \<Rightarrow> poll_event \<Rightarrow> ('x, unit) sys_act" where
  "poll_turn beh event = (case event of
     EV_listener cn \<Rightarrow> try_act
       (bnd (accept_client cn) (\<lambda>stream.
        bnd (receiveMessage beh stream) (\<lambda>_.
        bnd (gets (\<lambda>s. isOpen (as_streams s ! stream))) (\<lambda>open.
        if open then addPoll stream else ret ()))))
       (ret ())
   | EV_trigger \<Rightarrow> modify (\<lambda>s. s\<lparr>as_trigger := drop 1 (as_trigger s)\<rparr>)
   | EV_client fd \<Rightarrow> bnd (gets (\<lambda>s. as_sockets s fd)) (\<lambda>sc. case sc of
         None \<Rightarrow> delPoll fd
       | Some stream \<Rightarrow>
           bnd (receiveMessage beh stream) (\<lambda>_.
           bnd (gets (\<lambda>s. isOpen (as_streams s ! stream))) (\<lambda>open.
           if open then ret () else delPoll fd))))"

text \<open>The loop, on the events that come; it ends when the system was told to stop.\<close>

fun pollMain :: "'x behaviour \<Rightarrow> poll_event list \<Rightarrow> ('x, unit) sys_act" where
  "pollMain beh events s =
     (if \<not> as_isRunning s then Some (Inr (), s)
      else case events of
        [] \<Rightarrow> None
      | e # es \<Rightarrow> bnd (poll_turn beh e) (\<lambda>_. pollMain beh es) s)"

section \<open>Start and end\<close>

definition sys_start :: "bind_answers \<Rightarrow> u16 \<Rightarrow> ('x, unit) sys_act" where
  "sys_start os junk =
     bnd (gets as_isRunning) (\<lambda>running.
     if running then throw (RuntimeError ''Already running'')
     else
       bnd (modify (\<lambda>s. s\<lparr>as_listener := Some (listener_new (as_addr s) junk)\<rparr>)) (\<lambda>_.
       bnd (zoom (\<lambda>s. the (as_listener s)) (\<lambda>l s. s\<lparr>as_listener := Some l\<rparr>) (listener_start os)) (\<lambda>_.
       modify (\<lambda>s. s\<lparr>as_th := as_next_thread s, as_next_thread := as_next_thread s + 1, as_isRunning := True\<rparr>))))"

fun quit_all :: "'x behaviour \<Rightarrow> (string \<times> nat) list \<Rightarrow> ('x, unit) sys_act" where
  "quit_all beh [] = ret ()"
| "quit_all beh (it # its) =
     bnd (lock_if_atomic (snd it)) (\<lambda>_.
     bnd (try_act (onQuit beh (snd it)) (ret ())) (\<lambda>_.
     bnd (unlock_if_atomic (snd it)) (\<lambda>_. quit_all beh its)))"

text \<open>Every post of the loop lets the first worker that is left take its turn.\<close>

fun wake_workers :: "'x behaviour \<Rightarrow> nat list \<Rightarrow> ('x, unit) sys_act" where
  "wake_workers beh [] = ret ()"
| "wake_workers beh (t # ts) =
     bnd (modify (\<lambda>s. s\<lparr>as_waitJobTask := sem_post (as_waitJobTask s)\<rparr>)) (\<lambda>_.
     bnd (workerJobThread beh t) (\<lambda>_. wake_workers beh ts))"

definition as_waitAllCompletes :: "'x behaviour \<Rightarrow> nat \<Rightarrow> ('x, unit) sys_act" where
  "as_waitAllCompletes beh self =
     bnd (gets (as_isWorkerThread self)) (\<lambda>worker.
     if worker then ret ()
     else
       bnd stop_polling (\<lambda>_.
       bnd (modify (\<lambda>s. s\<lparr>as_jobs := mailbox_clear (as_jobs s)\<rparr>)) (\<lambda>_.
       bnd (gets as_runningJobThreads) (wake_workers beh))))"

definition sys_dispose :: "'x behaviour \<Rightarrow> nat \<Rightarrow> ('x, bool) sys_act" where
  "sys_dispose beh self =
     bnd (gets (as_isWorkerThread self)) (\<lambda>worker.
     if worker then ret False
     else
       bnd (with_actMut (bnd (gets as_actors) (quit_all beh))) (\<lambda>_.
       bnd (as_waitAllCompletes beh self) (\<lambda>_.
       bnd (modify (\<lambda>s. s\<lparr>as_actors := [], as_listener := None\<rparr>)) (\<lambda>_. ret True))))"

text \<open>Waiting for the polling thread, from another thread, while the system runs does not return.\<close>

definition sys_join :: "nat \<Rightarrow> ('x, bool) sys_act" where
  "sys_join self = (\<lambda>s.
     if as_isWorkerThread self s then Some (Inr False, s)
     else if as_isRunning s then None else Some (Inr True, s))"

section \<open>References\<close>

definition ref_send :: "actor_ref \<Rightarrow> config option \<Rightarrow> ('x, unit) sys_act" where
  "ref_send ref node =
     bnd (gets sys_addr) (\<lambda>addr.
     bnd (sendMessage (ref_addr ref) (actorMessage addr ACTOR_MSG (ref_name ref) node) 100 (ref_isLocal ref)) (\<lambda>success.
     if success then ret () else throw (RuntimeError (''Failed to send message to '' @ ref_name ref))))"

record request_future =
  rf_reqId :: u64
  rf_wait :: nat

definition ref_request :: "actor_ref \<Rightarrow> config option \<Rightarrow> ('x, request_future) sys_act" where
  "ref_request ref node =
     bnd (gets (\<lambda>s. fst (genUniqId s))) (\<lambda>uniqId.
     bnd (modify (\<lambda>s. snd (genUniqId s))) (\<lambda>_.
     bnd (gets (\<lambda>s. length (rq_sems s))) (\<lambda>who.
     bnd (modify (\<lambda>s. s\<lparr>rq_sems := rq_sems s @ [sem_new]\<rparr>)) (\<lambda>_.
     bnd (modify (registerRequestId uniqId who)) (\<lambda>_.
     bnd (gets sys_addr) (\<lambda>addr.
     bnd (sendMessage (ref_addr ref) (actorMessage_uid addr ACTOR_REQ uniqId (ref_name ref) node) 100 (ref_isLocal ref)) (\<lambda>success.
     if success then ret \<lparr>rf_reqId = uniqId, rf_wait = who\<rparr>
     else bnd (modify (removeRequestId uniqId)) (\<lambda>_.
       throw (RuntimeError (''Failed to send request '' @ show_nat (unat uniqId) @ '' to '' @ ref_name ref))))))))))"

text \<open>\<open>expired\<close>: the time given was over before the wait; \<open>for_ever\<close>: no time was given.\<close>

definition future_wait :: "bool \<Rightarrow> bool \<Rightarrow> request_future \<Rightarrow> ('x, config option) sys_act" where
  "future_wait expired for_ever fut =
     (if expired then bnd (modify (removeRequestId (rf_reqId fut))) (\<lambda>_. throw (RuntimeError ''timeout''))
      else (\<lambda>s.
        case (case sem_wait (rq_sems s ! rf_wait fut) of
            Some w \<Rightarrow> Some w
          | None \<Rightarrow> if for_ever then None else Some (sem_timedwait (rq_sems s ! rf_wait fut))) of
          None \<Rightarrow> None
        | Some (woken, sem) \<Rightarrow>
            bnd (modify (\<lambda>s. s\<lparr>rq_sems := (rq_sems s)[rf_wait fut := sem]\<rparr>)) (\<lambda>_.
            if woken then
              bnd (gets (consumeResponse (rf_reqId fut))) (\<lambda>(resp, s'). case resp of
                Some resp \<Rightarrow> bnd (modify (\<lambda>_. s')) (\<lambda>_. ret (rsp_msg resp))
              | None \<Rightarrow> bnd (modify (removeRequestId (rf_reqId fut))) (\<lambda>_. throw (RuntimeError ''not found'')))
            else bnd (modify (removeRequestId (rf_reqId fut))) (\<lambda>_.
              throw (RuntimeError (''timeout '' @ show_nat (unat (rf_reqId fut)))))) s))"

definition ref_response :: "actor_ref \<Rightarrow> u64 \<Rightarrow> config option \<Rightarrow> ('x, unit) sys_act" where
  "ref_response ref reqId node =
     bnd (gets sys_addr) (\<lambda>addr.
     bnd (sendMessage (ref_addr ref) (actorMessage_uid addr ACTOR_RESP reqId [] node) 100 (ref_isLocal ref)) (\<lambda>success.
     if success then ret () else throw (RuntimeError (''Failed to send response '' @ show_nat (unat reqId)))))"

end
