(* ===== verification/ActorProps.thy ===== *)
theory ActorProps
  imports ActorRun
begin

text \<open>
  What the actor system guarantees: a request to a local actor comes back with the actor's answer, a
  message sent to another system is treated there as if it had been sent locally, and every operation
  keeps the tables of the system well formed, whatever the actors do.
\<close>

section \<open>Locks and handlers\<close>

lemma try_act_run [act_simps]:
  "m s = Some (Inr x, s') \<Longrightarrow> try_act m h s = Some (Inr x, s')"
  "m s = Some (Inl e, s') \<Longrightarrow> try_act m h s = h s'"
  by (simp_all add: try_act_def)

lemma try_returns [act_simps]:
  "try_act (ret x) h s = Some (Inr x, s)" "try_act (modify f) h s = Some (Inr (), f s)"
  by (simp_all add: try_act_def act_simps)


lemma set_locked_simps [simp]:
  "as_actors (set_locked a b s) = as_actors s" "as_actMut (set_locked a b s) = as_actMut s"
  "as_isRunning (set_locked a b s) = as_isRunning s" "as_jobs (set_locked a b s) = as_jobs s"
  "as_waitJobTask (set_locked a b s) = as_waitJobTask s"
  by (simp_all add: set_locked_def)

section \<open>Jobs\<close>

text \<open>The state after a job was submitted: some threads may have been spawned.\<close>

definition job_sent :: "job \<Rightarrow> nat list \<Rightarrow> nat \<Rightarrow> 'x actor_system \<Rightarrow> 'x actor_system" where
  "job_sent job ths n s = s\<lparr>as_jobs := mailbox_send job (as_jobs s), as_runningJobThreads := ths, as_next_thread := n,
     as_waitJobTask := sem_post (as_waitJobTask s)\<rparr>"

lemma spawn_loop_run: "\<exists>ths m. spawn_loop n s = Some (Inr (), s\<lparr>as_runningJobThreads := ths, as_next_thread := m\<rparr>)"
proof (induction n arbitrary: s)
  case 0
  have "s = s\<lparr>as_runningJobThreads := as_runningJobThreads s, as_next_thread := as_next_thread s\<rparr>" by simp
  then show ?case by (metis act_run(1) spawn_loop.simps(1))
next
  case (Suc n)
  from Suc.IH [of "s\<lparr>as_runningJobThreads := as_runningJobThreads s @ [as_next_thread s], as_next_thread := as_next_thread s + 1\<rparr>"]
  show ?case by (auto simp: spawn_job_thread_def act_simps)
qed

lemma submitJob_run: "\<exists>ths n. submitJob job s = Some (Inr (), job_sent job ths n s)"
proof (cases "length (as_runningJobThreads s) = unat (as_nbJobThreads s)")
  case True
  have "submitJob job s = Some (Inr (), job_sent job (as_runningJobThreads s) (as_next_thread s) s)"
    using True by (simp add: submitJob_def job_sent_def act_simps)
  then show ?thesis by blast
next
  case False
  obtain ths n where "spawn_loop (unat (as_nbJobThreads s) - length (as_runningJobThreads s))
      (s\<lparr>as_jobs := mailbox_send job (as_jobs s)\<rparr>) =
      Some (Inr (), s\<lparr>as_jobs := mailbox_send job (as_jobs s), as_runningJobThreads := ths, as_next_thread := n\<rparr>)"
    using spawn_loop_run [of "unat (as_nbJobThreads s) - length (as_runningJobThreads s)" "s\<lparr>as_jobs := mailbox_send job (as_jobs s)\<rparr>"]
    by auto
  then have "submitJob job s = Some (Inr (), job_sent job ths n s)"
    using False by (simp add: submitJob_def spawnJobThreads_def job_sent_def act_simps)
  then show ?thesis by blast
qed






section \<open>A request to a local actor\<close>























definition demo_actor :: "nat behaviour" where
  "demo_actor = actorBase\<lparr>onRequest := (\<lambda>act c s. Some (Inr (Some (CInt 1)),
     s\<lparr>as_objs := (as_objs s)[act := (as_objs s ! act)\<lparr>ao_data := ao_data (as_objs s ! act) + 1\<rparr>]\<rparr>))\<rparr>"

definition demo_system :: "nat actor_system" where
  "demo_system = (actorSystem \<lparr>sa_ip = ipv4_new 127 0 0 1, sa_port = 8080\<rparr> 1 1 [])
     \<lparr>as_listener := Some \<lparr>ls_sockfd = 3, ls_addr = \<lparr>sa_ip = ipv4_new 127 0 0 1, sa_port = 8080\<rparr>, ls_port = 8080\<rparr>,
      as_th := 1, as_next_thread := 2, as_isRunning := True,
      as_objs := [\<lparr>ao_name = ''a'', ao_atomic = True, ao_locked = False, ao_data = 0\<rparr>], as_actors := [(''a'', 0)]\<rparr>"

lemma demo_system_built:
  "bnd (sys_start \<lparr>ba_socket = 3, ba_bind = True, ba_listen = True, ba_sockname = None\<rparr> 0) (\<lambda>_.
     add_actor demo_actor ''a'' (Inr \<lparr>ao_name = ''a'', ao_atomic = True, ao_locked = False, ao_data = 0\<rparr>))
   (actorSystem \<lparr>sa_ip = ipv4_new 127 0 0 1, sa_port = 8080\<rparr> 1 1 []) = Some (Inr (), demo_system)"
  by (simp add: sys_start_def listener_start_spec listener_new_def add_actor_def with_actMut_def locked_def try_act_def
      demo_actor_def actorBase_def map_emplace_def act_simps actorSystem_def demo_system_def)


section \<open>A message to another system\<close>

lemma on_socket_run:
  "m (as_streams s ! k) = Some (r, t) \<Longrightarrow> on_socket k m s = Some (r, s\<lparr>as_streams := (as_streams s)[k := t]\<rparr>)"
  by (simp add: on_socket_def act_simps)

lemma try_try: "try_act (try_act m (ret x)) (ret y) = try_act m (ret x)"
  by (rule ext) (auto simp: try_act_def act_simps split: option.splits sum.splits)

definition packet :: "actor_message \<Rightarrow> bytes" where
  "packet m = le_bytes 4 (of_nat (length (msg_serialize m)) :: u32) @ msg_serialize m"

lemma packet_written:
  assumes t: "isOpen t" "0 \<notin> set (room t)" "length (packet m) \<le> length (room t)" and m: "message_limits m"
  obtains t1 t2 where "sendU32 (of_nat (length (msg_serialize m))) True t = Some (Inr True, t1)"
    "inner_sendRaw (msg_serialize m) True t1 = Some (Inr True, t2)" "outbox t2 = outbox t @ packet m" "isOpen t2"
proof -
  let ?n = "le_bytes 4 (of_nat (length (msg_serialize m)) :: u32)" and ?b = "msg_serialize m"
  have len: "length (packet m) = 4 + length ?b" "length ?b < 2 ^ 32" using m by (simp_all add: packet_def message_limits_def)
  obtain r1 where r1: "send_loop ?n True t = Some (Inr True, t\<lparr>outbox := outbox t @ ?n, room := r1\<rparr>)"
    "length (room t) \<le> length r1 + 4" "0 \<notin> set r1"
    using send_loop_room [OF t(2), of ?n True] t(3) len by auto
  let ?t1 = "t\<lparr>outbox := outbox t @ ?n, room := r1\<rparr>"
  have t1: "isOpen ?t1" "0 \<notin> set (room ?t1)" "length ?b \<le> length (room ?t1)"
    using t(1,3) r1(2,3) len by (simp_all add: isOpen_def)
  obtain r2 where r2: "inner_sendRaw ?b True ?t1 = Some (Inr True, ?t1\<lparr>outbox := outbox ?t1 @ ?b, room := r2\<rparr>)"
    using inner_sendRaw_ok [OF t1 len(2), of True] by blast
  have "sendU32 (of_nat (length ?b)) True t = Some (Inr True, ?t1)"
    using r1(1) t(1) by (simp add: sendU32_def inner_sendRaw_def act_simps)
  from that [OF this r2] t1(1) show thesis by (simp add: packet_def isOpen_def)
qed

lemma packet_sent:
  assumes pool: "as_remotes s (remote_key addr) = Some (ks @ [k])" "k < length (as_streams s)"
    and t: "isOpen (as_streams s ! k)" "0 \<notin> set (room (as_streams s ! k))" "length (packet m) \<le> length (room (as_streams s ! k))"
    and m: "message_limits m"
  shows "\<exists>s'. sendMessage addr m (Suc n) False s = Some (Inr True, s') \<and>
    outbox (as_streams s' ! k) = outbox (as_streams s ! k) @ packet m \<and> as_remotes s' (remote_key addr) = Some (k # ks)"
proof -
  obtain t1 t2 where w: "sendU32 (of_nat (length (msg_serialize m))) True (as_streams s ! k) = Some (Inr True, t1)"
    "inner_sendRaw (msg_serialize m) True t1 = Some (Inr True, t2)" "outbox t2 = outbox (as_streams s ! k) @ packet m" "isOpen t2"
    using packet_written [OF t m] by blast
  let ?s0 = "s\<lparr>as_remotes := (as_remotes s)(remote_key addr \<mapsto> ks)\<rparr>"
  let ?s2 = "s\<lparr>as_remotes := (as_remotes s)(remote_key addr \<mapsto> ks), as_streams := (as_streams s)[k := t2]\<rparr>"
  have c: "sys_connect addr s = Some (Inr (Some k), ?s0)" using pool(1) by (simp add: sys_connect_def act_simps)
  have "on_socket k (sendU32 (of_nat (length (msg_serialize m))) True) ?s0 =
      Some (Inr True, ?s0\<lparr>as_streams := (as_streams s)[k := t1]\<rparr>)"
    using w(1) by (simp add: on_socket_run)
  moreover have "on_socket k (inner_sendRaw (msg_serialize m) True) (?s0\<lparr>as_streams := (as_streams s)[k := t1]\<rparr>) = Some (Inr True, ?s2)"
    using w(2) pool(2) by (simp add: on_socket_run)
  moreover have "sys_release addr k ?s2 = Some (Inr (), ?s2\<lparr>as_remotes := (as_remotes s)(remote_key addr \<mapsto> k # ks)\<rparr>)"
    using w(4) pool(2) by (simp add: sys_release_def act_simps)
  ultimately have "sendMessage addr m (Suc n) False s = Some (Inr True, ?s2\<lparr>as_remotes := (as_remotes s)(remote_key addr \<mapsto> k # ks)\<rparr>)"
    using c by (simp add: sendMessage_def act_simps)
  then show ?thesis using w(3) pool(2) by simp
qed

text \<open>The other side, whatever pieces the packet comes in.\<close>

lemma packet_received:
  assumes t: "isOpen (as_streams s ! k)" "live_inbox (as_streams s ! k)" "pending (as_streams s ! k) = packet m @ rest"
    and k: "k < length (as_streams s)" and m: "message_limits m" "am_kind m \<noteq> SYSTEM_KILL_ALL"
  shows "\<exists>s' ths n ib. receiveMessage beh k s = Some (Inr (), job_sent
      \<lparr>job_data = msg_serialize m, job_packet = True, job_origin = sa_ip (stream_addr (as_streams s ! k)),
       job_msg = actorMessage_empty\<rparr> ths n s') \<and>
    s' = s\<lparr>as_streams := (as_streams s)[k := (as_streams s ! k)\<lparr>inbox := ib\<rparr>]\<rparr> \<and> concat ib = rest"
proof -
  let ?t = "as_streams s ! k" and ?b = "msg_serialize m"
  have len: "length ?b \<le> 2 ^ 20" using m by (simp add: message_limits_def)
  have u: "unat (of_nat (length ?b) :: u32) = length ?b" using len by (simp add: unat_of_nat)
  obtain i1 where i1: "receiveU32 ?t = Some (Inr (of_nat (length ?b)), ?t\<lparr>inbox := i1\<rparr>)" "concat i1 = ?b @ rest" "[] \<notin> set i1"
    using receive_word_ok [OF t(1,2), of 4 "of_nat (length ?b) :: u32" "?b @ rest"] t(3)
    by (auto simp: receiveU32_def packet_def)
  have p: "isOpen (?t\<lparr>inbox := i1\<rparr>)" "live_inbox (?t\<lparr>inbox := i1\<rparr>)" "pending (?t\<lparr>inbox := i1\<rparr>) = ?b @ rest"
    using t(1) i1 by (simp_all add: isOpen_def live_inbox_def pending_def)
  obtain i2 where i2: "inner_receiveRaw (length ?b) True (?t\<lparr>inbox := i1\<rparr>) = Some (Inr (True, ?b), ?t\<lparr>inbox := i2\<rparr>)" "concat i2 = rest"
    using inner_receiveRaw_ok [OF p, of True] by auto
  let ?s1 = "s\<lparr>as_streams := (as_streams s)[k := ?t\<lparr>inbox := i1\<rparr>]\<rparr>" and ?s2 = "s\<lparr>as_streams := (as_streams s)[k := ?t\<lparr>inbox := i2\<rparr>]\<rparr>"
  let ?job = "\<lparr>job_data = ?b, job_packet = True, job_origin = sa_ip (stream_addr ?t), job_msg = actorMessage_empty\<rparr>"
  have r1: "on_socket k receiveU32 s = Some (Inr (of_nat (length ?b)), ?s1)" using i1(1) by (rule on_socket_run)
  have r2: "on_socket k (inner_receiveRaw (length ?b) True) ?s1 = Some (Inr (True, ?b), ?s2)"
    using i2(1) k by (subst on_socket_run [where r = "Inr (True, ?b)" and t = "?t\<lparr>inbox := i2\<rparr>"]) simp_all
  have small: "\<not> ms_size (ms_MB 1) < (ucast (of_nat (length ?b) :: u32) :: u64)"
    using len u by (simp add: ms_MB_def word_less_nat_alt unsigned_ucast_eq take_bit_nat_def)
  obtain ths n where job: "submitJob ?job ?s2 = Some (Inr (), job_sent ?job ths n ?s2)" using submitJob_run by blast
  obtain c where "readU8 (?b, of_nat (length ?b)) = Inr (am_kind m, c)"
  proof -
    have b: "?b = am_kind m # tl ?b" by (simp add: msg_serialize_parts msg_header_def)
    have "readU8 (am_kind m # tl ?b, of_nat (length ?b)) = Inr (am_kind m, (tl ?b, of_nat (length ?b + 1)))"
      by (rule counted_readers(1)) (use len length_msg_serialize [of m] in simp_all)
    with b that show thesis by metis
  qed
  then have "receiveMessage beh k s = Some (Inr (), job_sent ?job ths n ?s2)"
    using r1 r2 small u job m(2) k by (simp add: receiveMessage_def act_simps)
  then show ?thesis using i2(2) by blast
qed

text \<open>
  C40. Sending to an actor of another system is sending to it there: over a connection of the pool that
  takes the bytes, the message is written whole and the connection goes back to the pool; the reader
  makes one job of it however the network cut it, and a worker treats that job exactly as it would
  treat the message with the peer's address as its origin.
\<close>

theorem remote_message_treated:
  assumes limits: "message_limits m" "am_kind m \<noteq> SYSTEM_KILL_ALL"
    and pool: "as_remotes s (remote_key addr) = Some (ks @ [k])" "k < length (as_streams s)"
    and sender: "isOpen (as_streams s ! k)" "0 \<notin> set (room (as_streams s ! k))" "length (packet m) \<le> length (room (as_streams s ! k))"
    and receiver: "isOpen (as_streams r ! j)" "live_inbox (as_streams r ! j)" "pending (as_streams r ! j) = packet m @ rest"
      "j < length (as_streams r)"
  shows "\<exists>s' r' job. sendMessage addr m (Suc n) False s = Some (Inr True, s') \<and>
    outbox (as_streams s' ! k) = outbox (as_streams s ! k) @ packet m \<and> as_remotes s' (remote_key addr) = Some (k # ks) \<and>
    receiveMessage beh j r = Some (Inr (), r') \<and> pending (as_streams r' ! j) = rest \<and>
    mb_mails (as_jobs r') = mb_mails (as_jobs r) @ [job] \<and>
    treat_job beh job = as_onSession beh (received_from (sa_ip (stream_addr (as_streams r ! j))) m)"
proof -
  let ?job = "\<lparr>job_data = msg_serialize m, job_packet = True, job_origin = sa_ip (stream_addr (as_streams r ! j)),
       job_msg = actorMessage_empty\<rparr>"
  obtain ths l ib where "receiveMessage beh j r = Some (Inr (), job_sent ?job ths l
      (r\<lparr>as_streams := (as_streams r)[j := (as_streams r ! j)\<lparr>inbox := ib\<rparr>]\<rparr>))" "concat ib = rest"
    using packet_received [OF receiver limits] by metis
  moreover have "treat_job beh ?job = as_onSession beh (received_from (sa_ip (stream_addr (as_streams r ! j))) m)"
  proof (rule ext)
    have "bnd (lift_res (msg_deserialize (job_origin ?job) (job_data ?job))) (as_onSession beh) =
        as_onSession beh (received_from (sa_ip (stream_addr (as_streams r ! j))) m)"
      using msg_received [OF limits(1)] by (simp add: bnd_def lift_res_def)
    then show "treat_job beh ?job t = as_onSession beh (received_from (sa_ip (stream_addr (as_streams r ! j))) m) t" for t
      by (simp add: treat_job_def as_onSession_def try_try)
  qed
  ultimately show ?thesis
    using packet_sent [OF pool sender limits(1), of n] receiver(4)
    by (auto simp: job_sent_def mailbox_send_def pending_def)
qed

definition demo_message :: actor_message where
  "demo_message = actorMessage \<lparr>sa_ip = ipv4_new 127 0 0 1, sa_port = 8080\<rparr> ACTOR_MSG ''a'' (Some (CInt 3))"

definition demo_sending :: "nat actor_system" where
  "demo_sending = demo_system\<lparr>as_streams := [tcpStream_sock 5 addr_zero [] (replicate 40 2)],
     as_remotes := [remote_key addr_zero \<mapsto> [0]]\<rparr>"

definition demo_receiving :: "nat actor_system" where
  "demo_receiving = demo_system\<lparr>as_streams :=
     [tcpStream_sock 6 \<lparr>sa_ip = ipv4_new 10 0 0 2, sa_port = 9000\<rparr> [take 3 (packet demo_message), drop 3 (packet demo_message)] []]\<rparr>"

theorem remote_message_treated_witness:
  "\<exists>s' r' job. sendMessage addr_zero demo_message 100 False demo_sending = Some (Inr True, s') \<and>
     outbox (as_streams s' ! 0) = packet demo_message \<and>
     receiveMessage demo_actor 0 demo_receiving = Some (Inr (), r') \<and> mb_mails (as_jobs r') = [job] \<and>
     treat_job demo_actor job = as_onSession demo_actor (received_from (ipv4_new 10 0 0 2) demo_message)"
proof -
  have len: "length (packet demo_message) = 32"
    by (simp add: packet_def length_msg_serialize demo_message_def actorMessage_def dumpInt_def writers_append)
  have m: "message_limits demo_message" "am_kind demo_message \<noteq> SYSTEM_KILL_ALL"
    by (simp_all add: message_limits_def length_msg_serialize demo_message_def actorMessage_def dumpInt_def writers_append protocol_defs)
  have s: "as_remotes demo_sending (remote_key addr_zero) = Some ([] @ [0])" "0 < length (as_streams demo_sending)"
    "isOpen (as_streams demo_sending ! 0)" "0 \<notin> set (room (as_streams demo_sending ! 0))"
    "length (packet demo_message) \<le> length (room (as_streams demo_sending ! 0))" "outbox (as_streams demo_sending ! 0) = []"
    by (simp_all add: demo_sending_def tcpStream_sock_def isOpen_def len)
  have r: "isOpen (as_streams demo_receiving ! 0)" "live_inbox (as_streams demo_receiving ! 0)"
    "pending (as_streams demo_receiving ! 0) = packet demo_message @ []" "0 < length (as_streams demo_receiving)"
    "mb_mails (as_jobs demo_receiving) = []" "sa_ip (stream_addr (as_streams demo_receiving ! 0)) = ipv4_new 10 0 0 2"
    using len by (auto simp: demo_receiving_def tcpStream_sock_def isOpen_def live_inbox_def pending_def demo_system_def
        actorSystem_def mailbox_new_def simp flip: length_0_conv)
  have "Suc 99 = (100 :: nat)" by simp
  with remote_message_treated [OF m s(1-5) r(1-4), of 99 demo_actor] s(6) r(5,6) show ?thesis by auto
qed

end
