(* ===== verification/ActorWf.thy ===== *)
theory ActorWf
  imports ActorProps
begin

text \<open>
  The state of an actor system stays well formed: whatever is asked of it and whatever its actors do,
  its tables name objects that exist, no connection is in the pool twice, and every lock that an
  operation takes is free again when it is over. What the actors must respect is the locale
  \<open>well_behaved\<close>.
\<close>

section \<open>Well-formed systems\<close>

definition pool_wf :: "'x actor_system \<Rightarrow> bool" where
  "pool_wf s \<longleftrightarrow>
     (\<forall>key ks. as_remotes s key = Some ks \<longrightarrow> distinct ks \<and> (\<forall>k \<in> set ks. k < length (as_streams s))) \<and>
     (\<forall>key key' ks ks' k. as_remotes s key = Some ks \<longrightarrow> as_remotes s key' = Some ks' \<longrightarrow> k \<in> set ks \<longrightarrow> k \<in> set ks' \<longrightarrow> key = key')"

definition tables_wf :: "'x actor_system \<Rightarrow> bool" where
  "tables_wf s \<longleftrightarrow> map_ok (as_actors s) \<and> map_ok (rq_requestIds s) \<and> map_ok (rq_responses s) \<and>
     (\<forall>p \<in> set (as_actors s). snd p < length (as_objs s)) \<and>
     (\<forall>fd k. as_sockets s fd = Some k \<longrightarrow> k < length (as_streams s))"

definition threads_wf :: "'x actor_system \<Rightarrow> bool" where
  "threads_wf s \<longleftrightarrow> as_waitJobTask s \<noteq> None \<and> distinct (as_runningJobThreads s) \<and>
     (\<forall>t \<in> set (as_runningJobThreads s). t < as_next_thread s) \<and> as_th s < as_next_thread s \<and>
     as_th s \<notin> set (as_runningJobThreads s)"

definition sys_wf :: "'x actor_system \<Rightarrow> bool" where
  "sys_wf s \<longleftrightarrow> pool_wf s \<and> tables_wf s \<and> threads_wf s"

lemmas wf_defs = sys_wf_def pool_wf_def tables_wf_def threads_wf_def

text \<open>What an operation leaves: objects are never taken away, and locks are as they were; those of new objects are free.\<close>

definition lock_of :: "'x actor_system \<Rightarrow> nat \<Rightarrow> bool \<times> bool" where
  "lock_of s a = (ao_atomic (as_objs s ! a), ao_locked (as_objs s ! a))"

definition evolves :: "'x actor_system \<Rightarrow> 'x actor_system \<Rightarrow> bool" where
  "evolves s s' \<longleftrightarrow> sys_wf s' \<and> as_actMut s' = as_actMut s \<and> length (as_streams s) \<le> length (as_streams s') \<and>
     length (as_objs s) \<le> length (as_objs s') \<and> (\<forall>a < length (as_objs s). lock_of s' a = lock_of s a) \<and>
     (\<forall>a < length (as_objs s'). length (as_objs s) \<le> a \<longrightarrow> \<not> snd (lock_of s' a))"

definition keeps :: "('x, 'a) sys_act \<Rightarrow> bool" where
  "keeps m \<longleftrightarrow> (\<forall>s r s'. sys_wf s \<longrightarrow> m s = Some (r, s') \<longrightarrow> evolves s s')"

named_theorems keeps_intros \<open>operations that keep the system well formed\<close>

lemma keepsD: "keeps m \<Longrightarrow> sys_wf s \<Longrightarrow> m s = Some (r, s') \<Longrightarrow> evolves s s'"
  by (simp add: keeps_def)

lemma evolves_refl: "sys_wf s \<Longrightarrow> evolves s s"
  by (simp add: evolves_def)

lemma evolves_trans:
  assumes st: "evolves s t" and tu: "evolves t u"
  shows "evolves s u"
proof -
  have "\<not> snd (lock_of u a)" if "a < length (as_objs u)" "length (as_objs s) \<le> a" for a
    using st tu that by (cases "a < length (as_objs t)") (simp_all add: evolves_def)
  then show ?thesis using st tu by (simp add: evolves_def)
qed

lemma evolves_wf: "evolves s s' \<Longrightarrow> sys_wf s'"
  by (simp add: evolves_def)

lemma keeps_ret [keeps_intros]: "keeps (ret x)" "keeps (throw e)" "keeps (gets g)" "keeps (lift_res r)"
  by (simp_all add: keeps_def act_simps evolves_refl)

lemma keeps_modify: "(\<And>s. sys_wf s \<Longrightarrow> evolves s (f s)) \<Longrightarrow> keeps (modify f)"
  by (simp add: keeps_def act_simps)

lemma keeps_bnd [keeps_intros]:
  assumes "keeps m" and "\<And>x. keeps (f x)"
  shows "keeps (bnd m f)"
  unfolding keeps_def
proof (intro allI impI)
  fix s r s' assume "sys_wf s" and run: "bnd m f s = Some (r, s')"
  from run show "evolves s s'"
  proof (cases rule: bnd_SomeE)
    case (raised e)
    then show ?thesis using keepsD [OF assms(1) \<open>sys_wf s\<close>] by blast
  next
    case (returned x t)
    then show ?thesis using keepsD [OF assms(1) \<open>sys_wf s\<close>] keepsD [OF assms(2)] evolves_wf evolves_trans by metis
  qed
qed

lemma keeps_try [keeps_intros]:
  assumes "keeps m" and "keeps h"
  shows "keeps (try_act m h)"
  unfolding keeps_def
proof (intro allI impI)
  fix s r s' assume wf: "sys_wf s" and run: "try_act m h s = Some (r, s')"
  then obtain q t where t: "m s = Some (q, t)" by (auto simp: try_act_def split: option.splits)
  have e: "evolves s t" by (rule keepsD [OF assms(1) wf t])
  show "evolves s s'"
  proof (cases q)
    case (Inl x)
    then have "h t = Some (r, s')" using run t by (simp add: try_act_def)
    from keepsD [OF assms(2) evolves_wf [OF e] this] show ?thesis using e evolves_trans by blast
  next
    case (Inr x)
    then show ?thesis using run t e by (simp add: try_act_def)
  qed
qed

lemma keeps_if [keeps_intros]: "(b \<Longrightarrow> keeps m) \<Longrightarrow> (\<not> b \<Longrightarrow> keeps m') \<Longrightarrow> keeps (if b then m else m')"
  by simp

lemma keeps_option [keeps_intros]: "keeps m \<Longrightarrow> (\<And>x. keeps (f x)) \<Longrightarrow> keeps (case z of None \<Rightarrow> m | Some x \<Rightarrow> f x)"
  by (cases z) simp_all

lemma keeps_prod [keeps_intros]: "(\<And>a b. keeps (f a b)) \<Longrightarrow> keeps (case z of (a, b) \<Rightarrow> f a b)"
  by (cases z) simp

section \<open>Locks\<close>

lemma keeps_actMut [keeps_intros]:
  assumes "keeps m"
  shows "keeps (with_actMut m)"
  unfolding keeps_def
proof (intro allI impI)
  fix s r s' assume wf: "sys_wf s" and run: "with_actMut m s = Some (r, s')"
  let ?s = "s\<lparr>as_actMut := True\<rparr>"
  obtain t where t: "m ?s = Some (r, t)" "s' = t\<lparr>as_actMut := False\<rparr>" "\<not> as_actMut s"
    using run by (auto simp: with_actMut_def locked_def split: if_splits option.splits)
  have "sys_wf ?s" using wf by (simp add: wf_defs)
  from keepsD [OF assms this t(1)] show "evolves s s'" using t(2,3) by (auto simp: evolves_def wf_defs lock_of_def)
qed

lemma set_locked_wf: "sys_wf (set_locked a b s) = sys_wf s"
  by (simp add: wf_defs set_locked_def)

lemma lock_of_set: "lock_of (set_locked a b s) i = (if i = a \<and> a < length (as_objs s) then (fst (lock_of s i), b) else lock_of s i)"
  by (cases "a < length (as_objs s)") (auto simp: lock_of_def set_locked_def nth_list_update list_update_beyond not_less)

lemma set_locked_more [simp]: "length (as_streams (set_locked a b s)) = length (as_streams s)"
    "length (as_objs (set_locked a b s)) = length (as_objs s)"
  by (simp_all add: set_locked_def)

text \<open>Between a lock and its unlock.\<close>

lemma evolves_locked:
  assumes "evolves (set_locked a True s) t" and "\<not> ao_locked (as_objs s ! a)"
  shows "evolves s (set_locked a False t)"
proof -
  have "lock_of s a = (fst (lock_of s a), False)" using assms(2) by (simp add: lock_of_def)
  then show ?thesis using assms(1) by (auto simp: evolves_def set_locked_wf lock_of_set)
qed

lemma keeps_mutex [keeps_intros]:
  assumes "keeps m"
  shows "keeps (with_mutex a m)"
  unfolding keeps_def
proof (intro allI impI)
  fix s r s' assume wf: "sys_wf s" and run: "with_mutex a m s = Some (r, s')"
  obtain t where t: "m (set_locked a True s) = Some (r, t)" "s' = set_locked a False t" "\<not> ao_locked (as_objs s ! a)"
    using run by (auto simp: with_mutex_def locked_def split: if_splits option.splits)
  have "sys_wf (set_locked a True s)" using wf by (simp add: set_locked_wf)
  from evolves_locked [OF keepsD [OF assms this t(1)] t(3)] show "evolves s s'" using t(2) by simp
qed

lemma evolves_atomic: "evolves s t \<Longrightarrow> a < length (as_objs s) \<Longrightarrow> isAtomic a t = isAtomic a s"
  by (auto simp: evolves_def isAtomic_def lock_of_def)

text \<open>An atomic actor is locked by hand around its handler, which does not throw any more there.\<close>

lemma keeps_bracket:
  assumes m: "keeps m" and catch: "\<And>s e t. m s \<noteq> Some (Inl e, t)" and a: "sys_wf s" "a < length (as_objs s)"
    and run: "bnd (lock_if_atomic a) (\<lambda>_. bnd m (\<lambda>_. unlock_if_atomic a)) s = Some (r, s')"
  shows "evolves s s'"
proof (cases "isAtomic a s")
  case True
  then have free: "\<not> ao_locked (as_objs s ! a)" and run': "bnd m (\<lambda>_. unlock_if_atomic a) (set_locked a True s) = Some (r, s')"
    using run by (auto simp: lock_if_atomic_def mutex_lock_def bnd_def act_simps split: if_splits)
  obtain x t where t: "m (set_locked a True s) = Some (Inr x, t)" "unlock_if_atomic a t = Some (r, s')"
    using run' catch by (cases rule: bnd_SomeE) auto
  have e: "evolves (set_locked a True s) t" by (rule keepsD [OF m _ t(1)]) (simp add: set_locked_wf a)
  have "isAtomic a (set_locked a True s)" using True a(2) by (simp add: isAtomic_def set_locked_def)
  then have "s' = set_locked a False t"
    using evolves_atomic [OF e] a(2) t(2) by (simp add: unlock_if_atomic_def mutex_unlock_def act_simps)
  then show ?thesis using evolves_locked [OF e free] by simp
next
  case False
  then have run': "bnd m (\<lambda>_. unlock_if_atomic a) s = Some (r, s')"
    using run by (simp add: lock_if_atomic_def bnd_def act_simps)
  obtain x t where t: "m s = Some (Inr x, t)" "unlock_if_atomic a t = Some (r, s')"
    using run' catch by (cases rule: bnd_SomeE) auto
  have e: "evolves s t" by (rule keepsD [OF m a(1) t(1)])
  then have "s' = t" using evolves_atomic [OF e a(2)] False t(2) by (simp add: unlock_if_atomic_def act_simps)
  then show ?thesis using e by simp
qed

section \<open>Operations without handlers\<close>

lemma keeps_spawn [keeps_intros]: "keeps spawn_job_thread"
  unfolding spawn_job_thread_def
  by (rule keeps_modify) (auto simp: evolves_def wf_defs lock_of_def less_Suc_eq)

lemma keeps_spawn_loop [keeps_intros]: "keeps (spawn_loop n)"
  by (induction n) (auto intro!: keeps_intros)

lemma keeps_submitJob [keeps_intros]: "keeps (submitJob job)"
proof -
  have j: "keeps (modify (\<lambda>s. s\<lparr>as_jobs := mailbox_send job (as_jobs s)\<rparr>))"
    by (rule keeps_modify) (simp add: evolves_def wf_defs lock_of_def)
  have p: "keeps (modify (\<lambda>s. s\<lparr>as_waitJobTask := sem_post (as_waitJobTask s)\<rparr>))"
    by (rule keeps_modify) (simp add: evolves_def wf_defs lock_of_def sem_post_def)
  show ?thesis unfolding submitJob_def spawnJobThreads_def by (intro keeps_intros j p)
qed

text \<open>A stream that no pool holds.\<close>

definition unpooled :: "'x actor_system \<Rightarrow> nat \<Rightarrow> bool" where
  "unpooled s k \<longleftrightarrow> k < length (as_streams s) \<and> (\<forall>key ks. as_remotes s key = Some ks \<longrightarrow> k \<notin> set ks)"

lemma on_socket_evolves:
  assumes "sys_wf s" and "on_socket k m s = Some (r, s')"
  shows "evolves s s' \<and> unpooled s' j = unpooled s j"
proof -
  obtain t where s': "s' = s\<lparr>as_streams := (as_streams s)[k := t]\<rparr>"
    using assms(2) by (auto simp: on_socket_def zoom_def split: option.splits)
  have "sys_wf s'" using assms(1) by (simp add: s' wf_defs)
  then show ?thesis by (simp add: s' evolves_def unpooled_def lock_of_def)
qed

lemma keeps_on_socket [keeps_intros]: "keeps (on_socket k m)"
  unfolding keeps_def by (blast dest: on_socket_evolves)

lemma new_stream_evolves:
  assumes "sys_wf s" and "new_stream t s = Some (r, s')"
  obtains k where "r = Inr k" "evolves s s'" "unpooled s' k" "k = length (as_streams s)"
proof -
  have s': "r = Inr (length (as_streams s))" "s' = s\<lparr>as_streams := as_streams s @ [t]\<rparr>"
    using assms(2) by (simp_all add: new_stream_def act_simps)
  have "sys_wf s'" using assms(1) by (fastforce simp: s'(2) wf_defs)
  then have "evolves s s'" by (simp add: s'(2) evolves_def lock_of_def)
  moreover have "unpooled s' (length (as_streams s))" using assms(1) by (fastforce simp: s'(2) wf_defs unpooled_def)
  ultimately show thesis using that s'(1) by blast
qed

lemma sys_connect_evolves:
  assumes wf: "sys_wf s" and run: "sys_connect addr s = Some (r, s')"
  shows "evolves s s' \<and> (\<forall>k. r = Inr (Some k) \<longrightarrow> unpooled s' k)"
proof (cases "as_remotes s (remote_key addr) \<noteq> None \<and> the (as_remotes s (remote_key addr)) \<noteq> []")
  case True
  then obtain ks k where ks: "as_remotes s (remote_key addr) = Some (ks @ [k])" by (metis option.exhaust_sel rev_exhaust)
  then have s': "r = Inr (Some k)" "s' = s\<lparr>as_remotes := (as_remotes s)(remote_key addr \<mapsto> ks)\<rparr>"
    using run by (simp_all add: sys_connect_def act_simps)
  have p: "distinct (ks @ [k])" "\<forall>j \<in> set (ks @ [k]). j < length (as_streams s)"
    "\<And>key js j. as_remotes s key = Some js \<Longrightarrow> j \<in> set js \<Longrightarrow> j \<in> set (ks @ [k]) \<Longrightarrow> key = remote_key addr"
    using wf ks unfolding sys_wf_def pool_wf_def by blast+
  have "pool_wf s'"
    unfolding pool_wf_def
  proof (intro conjI allI impI)
    fix key js assume js: "as_remotes s' key = Some js"
    have "distinct js \<and> (\<forall>j \<in> set js. j < length (as_streams s))"
    proof (cases "key = remote_key addr")
      case False
      then have "as_remotes s key = Some js" using js by (simp add: s'(2))
      then show ?thesis using wf unfolding sys_wf_def pool_wf_def by blast
    qed (use js p(1,2) in \<open>simp add: s'(2)\<close>)
    then show "distinct js" "\<forall>j \<in> set js. j < length (as_streams s')" by (simp_all add: s'(2))
  next
    fix key key' js js' j
    assume a: "as_remotes s' key = Some js" "as_remotes s' key' = Some js'" "j \<in> set js" "j \<in> set js'"
    show "key = key'"
    proof (cases "key = remote_key addr")
      case True
      then show ?thesis using a p(3) [of key' js' j] by (auto simp: s'(2) split: if_splits)
    next
      case False
      then have k: "as_remotes s key = Some js" using a(1) by (simp add: s'(2))
      show ?thesis
      proof (cases "key' = remote_key addr")
        case True
        then show ?thesis using a p(3) [OF k a(3)] by (auto simp: s'(2))
      next
        case False
        then have "as_remotes s key' = Some js'" using a(2) by (simp add: s'(2))
        then show ?thesis using k a(3,4) wf unfolding sys_wf_def pool_wf_def by blast
      qed
    qed
  qed
  then have "sys_wf s'" using wf by (simp add: sys_wf_def s'(2) tables_wf_def threads_wf_def)
  moreover have "unpooled s' k"
    unfolding unpooled_def
  proof (intro conjI allI impI)
    show "k < length (as_streams s')" using p(2) by (simp add: s'(2))
    fix key js assume js: "as_remotes s' key = Some js"
    show "k \<notin> set js"
    proof (cases "key = remote_key addr")
      case True
      then show ?thesis using js p(1) by (simp add: s'(2))
    next
      case False
      then show ?thesis using js p(3) [of key js k] by (auto simp: s'(2))
    qed
  qed
  ultimately show ?thesis using s' by (simp add: evolves_def lock_of_def)
next
  case False
  then have "bnd (new_stream (tcpStream_addr addr)) (\<lambda>k. bnd next_dial (\<lambda>(sock, dial).
      try_act (bnd (on_socket k (stream_connect sock (\<lambda>_. dial))) (\<lambda>_. ret (Some k))) (ret None))) s = Some (r, s')"
    using run by (auto simp: sys_connect_def act_simps)
  then obtain k t where k: "new_stream (tcpStream_addr addr) s = Some (Inr k, t)" and
    rest: "bnd next_dial (\<lambda>(sock, dial). try_act (bnd (on_socket k (stream_connect sock (\<lambda>_. dial))) (\<lambda>_. ret (Some k))) (ret None)) t
      = Some (r, s')"
    using new_stream_evolves [OF wf] by (cases rule: bnd_SomeE) (metis Inl_Inr_False, blast)
  have t: "evolves s t" "unpooled t k" using new_stream_evolves [OF wf k] by auto
  obtain d u where u: "next_dial t = Some (Inr d, u)" "evolves t u" "unpooled u k"
  proof (cases "as_dials t")
    case Nil
    then show ?thesis using that [of "(None, None)" t] t evolves_refl [OF evolves_wf [OF t(1)]] by (simp add: next_dial_def act_simps)
  next
    case (Cons d ds)
    have "sys_wf (t\<lparr>as_dials := ds\<rparr>)" using evolves_wf [OF t(1)] by (simp add: wf_defs)
    then show ?thesis using that [of d "t\<lparr>as_dials := ds\<rparr>"] t Cons
      by (simp add: next_dial_def act_simps evolves_def unpooled_def lock_of_def)
  qed
  obtain sock dial where d: "d = (sock, dial)" by (cases d)
  have last: "try_act (bnd (on_socket k (stream_connect sock (\<lambda>_. dial))) (\<lambda>_. ret (Some k))) (ret None) u = Some (r, s')"
    using rest u(1) d by (simp add: act_simps)
  have "evolves u s' \<and> (\<forall>j. r = Inr (Some j) \<longrightarrow> unpooled s' j)"
  proof (cases "on_socket k (stream_connect sock (\<lambda>_. dial)) u")
    case (Some p)
    obtain q v where p: "p = (q, v)" by (cases p)
    have v: "evolves u v" "unpooled v k"
      using on_socket_evolves [OF evolves_wf [OF u(2)] Some [unfolded p]] u(3) by auto
    show ?thesis using last Some p v by (cases q) (auto simp: try_act_def bnd_def act_simps)
  qed (use last in \<open>simp add: try_act_def bnd_def\<close>)
  then show ?thesis using evolves_trans [OF evolves_trans [OF t(1) u(2)]] by blast
qed

lemma release_evolves:
  assumes wf: "sys_wf s" and k: "unpooled s k" and run: "sys_release addr k s = Some (r, s')"
  shows "evolves s s'"
proof (cases "isOpen (as_streams s ! k)")
  case True
  define old where "old = (case as_remotes s (remote_key addr) of Some lst \<Rightarrow> lst | None \<Rightarrow> [])"
  have s': "s' = s\<lparr>as_remotes := (as_remotes s)(remote_key addr \<mapsto> k # old)\<rparr>"
    using run True by (auto simp: sys_release_def act_simps old_def split: option.splits)
  have old: "distinct old" "\<forall>j \<in> set old. j < length (as_streams s)" "k \<notin> set old"
    "\<And>key js j. as_remotes s key = Some js \<Longrightarrow> j \<in> set js \<Longrightarrow> j \<in> set old \<Longrightarrow> key = remote_key addr"
    using wf k unfolding sys_wf_def pool_wf_def unpooled_def by (cases "as_remotes s (remote_key addr)"; simp add: old_def; blast)+
  have new: "\<And>key js. as_remotes s key = Some js \<Longrightarrow> k \<notin> set js" "k < length (as_streams s)" using k by (auto simp: unpooled_def)
  have "pool_wf s'"
    unfolding pool_wf_def
  proof (intro conjI allI impI)
    fix key js assume js: "as_remotes s' key = Some js"
    have "distinct js \<and> (\<forall>j \<in> set js. j < length (as_streams s))"
    proof (cases "key = remote_key addr")
      case False
      then have "as_remotes s key = Some js" using js by (simp add: s')
      then show ?thesis using wf unfolding sys_wf_def pool_wf_def by blast
    qed (use js old(1-3) new(2) in \<open>auto simp: s'\<close>)
    then show "distinct js" "\<forall>j \<in> set js. j < length (as_streams s')" by (simp_all add: s')
  next
    fix key key' js js' j
    assume a: "as_remotes s' key = Some js" "as_remotes s' key' = Some js'" "j \<in> set js" "j \<in> set js'"
    show "key = key'"
    proof (rule ccontr)
      assume ne: "key \<noteq> key'"
      have other: "as_remotes s x = Some y" if "as_remotes s' x = Some y" "x \<noteq> remote_key addr" for x y
        using that by (simp add: s')
      have mine: "y = k # old" if "as_remotes s' (remote_key addr) = Some y" for y
        using that by (simp add: s')
      consider (1) "key = remote_key addr" "as_remotes s key' = Some js'" "js = k # old"
        | (2) "key' = remote_key addr" "as_remotes s key = Some js" "js' = k # old"
        | (3) "as_remotes s key = Some js" "as_remotes s key' = Some js'"
        using ne other [OF a(1)] other [OF a(2)] mine [of js] mine [of js'] a(1,2) by metis
      then show False
      proof cases
        case 1
        then have "j \<in> set old" using a(3,4) new(1) [of key' js'] by auto
        then show False using old(4) [OF 1(2) a(4)] 1(1) ne by simp
      next
        case 2
        then have "j \<in> set old" using a(3,4) new(1) [of key js] by auto
        then show False using old(4) [OF 2(2) a(3)] 2(1) ne by simp
      next
        case 3
        then show False using a(3,4) ne wf unfolding sys_wf_def pool_wf_def by blast
      qed
    qed
  qed
  then have "sys_wf s'" using wf by (simp add: sys_wf_def s' tables_wf_def threads_wf_def)
  then show ?thesis by (simp add: s' evolves_def lock_of_def)
next
  case False
  then have "on_socket k stream_close s = Some (r, s')" using run by (simp add: sys_release_def act_simps)
  then show ?thesis using on_socket_evolves [OF wf] by blast
qed

lemma send_on_evolves:
  assumes "sys_wf s" and "unpooled s k"
    and "try_act (bnd (on_socket k m) (\<lambda>_. bnd (on_socket k m') (\<lambda>_. ret True))) (ret False) s = Some (r, s')"
  shows "evolves s s' \<and> unpooled s' k \<and> (\<exists>b. r = Inr b)"
proof (cases "on_socket k m s")
  case (Some p)
  obtain q t where p: "p = (q, t)" by (cases p)
  have t: "evolves s t" "unpooled t k" using on_socket_evolves [OF assms(1) Some [unfolded p]] assms(2) by auto
  show ?thesis
  proof (cases q)
    case (Inr x)
    show ?thesis
    proof (cases "on_socket k m' t")
      case (Some p')
      obtain q' u where p': "p' = (q', u)" by (cases p')
      have "evolves t u" "unpooled u k" using on_socket_evolves [OF evolves_wf [OF t(1)] Some [unfolded p']] t(2) by auto
      moreover have "s' = u \<and> (\<exists>b. r = Inr b)"
        using assms(3) \<open>on_socket k m s = Some p\<close> p Inr Some p' by (cases q') (auto simp: try_act_def bnd_def act_simps)
      ultimately show ?thesis using evolves_trans [OF t(1)] by blast
    qed (use assms(3) Some p Inr in \<open>simp add: try_act_def bnd_def\<close>)
  qed (use assms(3) Some p t in \<open>auto simp: try_act_def bnd_def act_simps\<close>)
qed (use assms(3) in \<open>simp add: try_act_def bnd_def\<close>)

lemma keeps_send_tries [keeps_intros]: "keeps (send_tries n addr buffer :: ('x, bool) sys_act)"
proof (induction n)
  case (Suc n)
  show ?case
    unfolding keeps_def
  proof (intro allI impI)
    fix s s' :: "'x actor_system" and r
    assume wf: "sys_wf s" and run: "send_tries (Suc n) addr buffer s = Some (r, s')"
    obtain q t where q: "sys_connect addr s = Some (q, t)" using run by (auto simp: bnd_def split: option.splits)
    have t: "evolves s t" "\<And>k. q = Inr (Some k) \<Longrightarrow> unpooled t k" using sys_connect_evolves [OF wf q] by auto
    note wft = evolves_wf [OF t(1)]
    consider e where "q = Inl e" | "q = Inr None" | k where "q = Inr (Some k)" by (metis option.exhaust sum.exhaust)
    then show "evolves s s'"
    proof cases
      case 1
      then show ?thesis using run q t by (simp add: bnd_def)
    next
      case 2
      then have "send_tries n addr buffer t = Some (r, s')" using run q by (simp add: bnd_def)
      then show ?thesis using keepsD [OF Suc.IH wft] evolves_trans [OF t(1)] by blast
    next
      case (3 k)
      let ?send = "try_act (bnd (on_socket k (sendU32 (of_nat (length buffer)) True)) (\<lambda>_.
          bnd (on_socket k (inner_sendRaw buffer True)) (\<lambda>_. ret True))) (ret False)"
      have run': "bnd ?send (\<lambda>success. bnd (sys_release addr k) (\<lambda>_. if success then ret True else send_tries n addr buffer)) t
          = Some (r, s')"
        using run q 3 by (simp add: bnd_def [of "sys_connect addr"])
      then obtain p u where u: "?send t = Some (p, u)" by (auto simp: bnd_def split: option.splits)
      have e: "evolves t u" "unpooled u k" and b: "\<exists>b. p = Inr b" using send_on_evolves [OF wft t(2) [OF 3] u] by auto
      obtain b where "bnd (sys_release addr k) (\<lambda>_. if b then ret True else send_tries n addr buffer) u = Some (r, s')"
        using run' u b by (auto simp: bnd_def [of ?send])
      then show ?thesis
      proof (cases rule: bnd_SomeE)
        case (raised x)
        then show ?thesis using release_evolves [OF evolves_wf [OF e(1)] e(2)] evolves_trans [OF evolves_trans [OF t(1) e(1)]] by blast
      next
        case (returned x v)
        have v: "evolves s v"
          using release_evolves [OF evolves_wf [OF e(1)] e(2) returned(1)] evolves_trans [OF evolves_trans [OF t(1) e(1)]] by blast
        have "keeps (if b then ret True else send_tries n addr buffer :: ('x, bool) sys_act)" using Suc.IH by (simp add: keeps_ret)
        from keepsD [OF this evolves_wf [OF v] returned(2)] show ?thesis by (rule evolves_trans [OF v])
      qed
    qed
  qed
qed (auto intro: keeps_intros)

lemma keeps_sendMessage [keeps_intros]: "keeps (sendMessage addr msg n local)"
  unfolding sendMessage_def by (intro keeps_intros)

lemma keeps_reply [keeps_intros]: "keeps (reply msg content)"
  unfolding reply_def by (intro keeps_intros)

lemma keeps_getActor [keeps_intros]: "keeps (getActor name)"
  unfolding getActor_def by (intro keeps_intros)

lemma keeps_find_target [keeps_intros]: "keeps (find_target msg)"
  unfolding find_target_def by (intro keeps_intros)

lemma keeps_actors_erase [keeps_intros]: "keeps (modify (\<lambda>s. s\<lparr>as_actors := map_erase name (as_actors s)\<rparr>))"
  by (rule keeps_modify) (use map_erase_keys in \<open>fastforce simp: evolves_def wf_defs lock_of_def map_ok_erase\<close>)

lemma keeps_removeActor [keeps_intros]: "keeps (removeActor name)"
  unfolding removeActor_def by (intro keeps_intros)

lemma keeps_stop_polling [keeps_intros]: "keeps stop_polling"
proof -
  have "keeps (modify (\<lambda>s. s\<lparr>as_isRunning := False, as_trigger := as_trigger s @ [99]\<rparr>))"
    by (rule keeps_modify) (simp add: evolves_def wf_defs lock_of_def)
  then show ?thesis unfolding stop_polling_def by (intro keeps_intros)
qed

lemma keeps_pushResponse [keeps_intros]: "keeps (modify (pushResponse rep))"
  by (rule keeps_modify) (simp add: evolves_def wf_defs lock_of_def pushResponse_def row_simps split: option.split)

text \<open>What is found in the table of actors is an actor.\<close>

lemma target_valid:
  assumes "sys_wf s" and "find_target msg s = Some (Inr (Some a), t)"
  shows "a < length (as_objs t)"
proof -
  have e: "evolves s t" by (rule keepsD [OF keeps_find_target assms])
  have "map_of (as_actors s) (am_actorName msg) = Some a"
    using assms(2) by (auto simp: find_target_def getActor_def with_actMut_def locked_def act_simps split: if_splits)
  then have "(am_actorName msg, a) \<in> set (as_actors s)" by (rule map_of_SomeD)
  then have "a < length (as_objs s)" using assms(1) by (auto simp: wf_defs)
  then show ?thesis using e by (simp add: evolves_def)
qed

section \<open>Actors that behave\<close>

text \<open>
  The contract of the handlers: they may send messages, add and remove actors and change what they
  hold; when they are over the system is well formed and no lock has changed.
\<close>

locale well_behaved =
  fixes beh :: "'x behaviour"
  assumes onStart_law: "keeps (onStart beh act)"
    and onMessage_law: "keeps (onMessage beh act c)"
    and onRequest_law: "keeps (onRequest beh act c)"
    and onQuit_law: "keeps (onQuit beh act)"
begin

lemmas handler_laws = onStart_law onMessage_law onRequest_law onQuit_law

lemma handled_keeps:
  assumes reject: "keeps (reject :: ('x, unit) sys_act)" and h: "\<And>act. keeps (h act)"
  shows "keeps (bnd (find_target msg) (\<lambda>it. case it of None \<Rightarrow> reject
    | Some act \<Rightarrow> bnd (lock_if_atomic act) (\<lambda>_. bnd (try_act (h act) (ret ())) (\<lambda>_. unlock_if_atomic act))))"
  unfolding keeps_def
proof (intro allI impI)
  fix s s' :: "'x actor_system" and r
  assume wf: "sys_wf s" and run: "bnd (find_target msg) (\<lambda>it. case it of None \<Rightarrow> reject
    | Some act \<Rightarrow> bnd (lock_if_atomic act) (\<lambda>_. bnd (try_act (h act) (ret ())) (\<lambda>_. unlock_if_atomic act))) s = Some (r, s')"
  from run show "evolves s s'"
  proof (cases rule: bnd_SomeE)
    case (raised e)
    then show ?thesis using keepsD [OF keeps_find_target wf] by blast
  next
    case (returned it t)
    have t: "evolves s t" by (rule keepsD [OF keeps_find_target wf returned(1)])
    note wft = evolves_wf [OF t]
    show ?thesis
    proof (cases it)
      case None
      then show ?thesis using returned(2) keepsD [OF reject wft] evolves_trans [OF t] by simp
    next
      case (Some act)
      have catch: "try_act (h act) (ret ()) u \<noteq> Some (Inl e, v)" for u e v
        by (auto simp: try_act_def act_simps split: option.splits sum.splits)
      have "keeps (try_act (h act) (ret ()))" by (intro keeps_intros h)
      from keeps_bracket [OF this catch wft target_valid [OF wf returned(1) [unfolded Some]]] returned(2) Some
      show ?thesis using evolves_trans [OF t] by simp
    qed
  qed
qed

lemma onActorMsg_keeps: "keeps (onActorMsg beh msg)"
  unfolding onActorMsg_def by (rule handled_keeps) (intro keeps_intros onMessage_law)+

lemma onActorReq_keeps: "keeps (onActorReq beh msg)"
  unfolding onActorReq_def by (rule handled_keeps) (intro keeps_intros onRequest_law)+

lemma onSession_keeps: "keeps (as_onSession beh msg)"
  unfolding as_onSession_def by (intro keeps_intros onActorMsg_keeps onActorReq_keeps)

lemma treat_job_keeps: "keeps (treat_job beh job)"
  unfolding treat_job_def by (intro keeps_intros onSession_keeps)

lemma leave_keeps: "keeps (leave_pool self)"
proof -
  have "keeps (modify (\<lambda>s. s\<lparr>as_runningJobThreads := remove1 self (as_runningJobThreads s)\<rparr>))"
    by (rule keeps_modify) (auto simp: evolves_def wf_defs lock_of_def dest: notin_set_remove1)
  then show ?thesis unfolding leave_pool_def by (intro keeps_intros)
qed

lemma worker_keeps: "keeps (workerJobThread beh self)"
  unfolding keeps_def
proof (intro allI impI)
  fix s s' :: "'x actor_system" and r
  assume wf: "sys_wf s" and run: "workerJobThread beh self s = Some (r, s')"
  obtain b sem where sem: "sem_wait (as_waitJobTask s) = Some (b, sem)"
    using run by (auto simp: workerJobThread_def split: option.splits)
  have "sem \<noteq> None" using sem wf by (auto simp: sem_wait_def wf_defs split: option.splits if_splits)
  then have s: "evolves s (s\<lparr>as_waitJobTask := sem\<rparr>)" using wf by (simp add: evolves_def wf_defs lock_of_def)
  let ?rest = "bnd (gets as_isRunning) (\<lambda>running.
       if \<not> running then leave_pool self
       else bnd (gets (\<lambda>s. mailbox_receive (as_jobs s))) (\<lambda>(got, jobs).
         bnd (modify (\<lambda>s. s\<lparr>as_jobs := jobs\<rparr>)) (\<lambda>_.
         case got of
           Some job \<Rightarrow> bnd (treat_job beh job) (\<lambda>_. ret True)
         | None \<Rightarrow> leave_pool self)))"
  have "keeps (modify (\<lambda>s :: 'x actor_system. s\<lparr>as_jobs := jobs\<rparr>))" for jobs
    by (rule keeps_modify) (simp add: evolves_def wf_defs lock_of_def)
  then have "keeps ?rest" by (intro keeps_intros leave_keeps treat_job_keeps)
  moreover have "?rest (s\<lparr>as_waitJobTask := sem\<rparr>) = Some (r, s')"
    using run sem by (simp add: workerJobThread_def act_simps)
  ultimately show "evolves s s'" using keepsD evolves_wf [OF s] evolves_trans [OF s] by blast
qed

lemma quit_locked_keeps: "keeps (quit_locked beh its)"
  by (induction its) (auto intro!: keeps_intros onQuit_law)

lemma onSystemKill_keeps: "keeps (onSystemKill beh)"
proof -
  have "keeps (modify (\<lambda>s :: 'x actor_system. s\<lparr>as_actors := []\<rparr>))"
    by (rule keeps_modify) (simp add: evolves_def wf_defs lock_of_def map_ok_def)
  then show ?thesis unfolding onSystemKill_def by (intro keeps_intros quit_locked_keeps)
qed

lemma receiveMessage_keeps: "keeps (receiveMessage beh k)"
  unfolding receiveMessage_def by (intro keeps_intros onSystemKill_keeps)

lemma remove_keeps: "keeps (sys_remove beh name lock)"
  unfolding sys_remove_def by (intro keeps_intros onQuit_law onSystemKill_keeps)

end

end
