(* ===== verification/ActorReach.thy ===== *)
theory ActorReach
  imports ActorWf
begin

text \<open>
  The rest of what can happen to an actor system, and the states it can reach: operations asked of it
  by any thread, workers that take jobs, events for the polling thread and the network at any moment.
\<close>

section \<open>Operations without handlers\<close>

lemma keeps_case [keeps_intros]:
  assumes "\<And>s r s'. sys_wf s \<Longrightarrow> f (g s) s = Some (r, s') \<Longrightarrow> evolves s s'"
  shows "keeps (bnd (gets g) f)"
  using assms by (simp add: keeps_def act_simps)

lemma keeps_sem_post: "keeps (modify (\<lambda>s. s\<lparr>as_waitJobTask := sem_post (as_waitJobTask s)\<rparr>))"
  by (rule keeps_modify) (simp add: evolves_def wf_defs lock_of_def sem_post_def)

lemma keeps_joinOnEmpty [keeps_intros]: "keeps (joinOnEmpty j)"
  unfolding joinOnEmpty_def by (rule keeps_modify) (simp add: evolves_def wf_defs lock_of_def)

lemma keeps_delPoll [keeps_intros]: "keeps (delPoll fd)"
  unfolding delPoll_def by (rule keeps_modify) (simp add: evolves_def wf_defs lock_of_def)

lemma addPoll_evolves:
  assumes "sys_wf s" and "k < length (as_streams s)" and "addPoll k s = Some (r, s')"
  shows "evolves s s'"
proof (cases "as_sockets s (of_nat (sockfd (as_streams s ! k))) = None")
  case True
  then have "s' = s\<lparr>as_sockets := (as_sockets s)(of_nat (sockfd (as_streams s ! k)) \<mapsto> k)\<rparr>"
    using assms(3) by (simp add: addPoll_def act_simps)
  then show ?thesis using assms(1,2) by (simp add: evolves_def wf_defs lock_of_def)
next
  case False
  then have "on_socket k stream_close s = Some (r, s')" using assms(3) by (auto simp: addPoll_def act_simps)
  then show ?thesis using on_socket_evolves [OF assms(1)] by blast
qed

lemma keeps_sys_start [keeps_intros]: "keeps (sys_start os junk)"
proof -
  have l: "keeps (modify (\<lambda>s. s\<lparr>as_listener := Some (listener_new (as_addr s) junk)\<rparr>))"
    by (rule keeps_modify) (simp add: evolves_def wf_defs lock_of_def)
  have z: "keeps (zoom (\<lambda>s. the (as_listener s)) (\<lambda>l s. s\<lparr>as_listener := Some l\<rparr>) (listener_start os))"
    by (auto simp: keeps_def zoom_def evolves_def wf_defs lock_of_def split: option.splits)
  have t: "keeps (modify (\<lambda>s. s\<lparr>as_th := as_next_thread s, as_next_thread := as_next_thread s + 1, as_isRunning := True\<rparr>))"
    by (rule keeps_modify) (auto simp: evolves_def wf_defs lock_of_def less_Suc_eq)
  show ?thesis unfolding sys_start_def by (intro keeps_ret keeps_bnd keeps_if l z t)
qed

lemma keeps_registry:
  "keeps (modify (\<lambda>s. snd (genUniqId s)))" "keeps (modify (\<lambda>s. s\<lparr>rq_sems := sems s\<rparr>))"
  "keeps (modify (registerRequestId rid who))" "keeps (modify (removeRequestId rid))"
  by (rule keeps_modify; simp add: evolves_def wf_defs lock_of_def genUniqId_def registerRequestId_def removeRequestId_def row_simps)+

lemma keeps_ref_send [keeps_intros]: "keeps (ref_send ref node)"
  unfolding ref_send_def by (intro keeps_ret keeps_bnd keeps_if keeps_sendMessage)

lemma keeps_ref_response [keeps_intros]: "keeps (ref_response ref rid node)"
  unfolding ref_response_def by (intro keeps_ret keeps_bnd keeps_if keeps_sendMessage)

lemma keeps_ref_request [keeps_intros]: "keeps (ref_request ref node)"
  unfolding ref_request_def by (intro keeps_ret keeps_bnd keeps_if keeps_sendMessage keeps_registry)

lemma keeps_consume: "keeps (bnd (gets (consumeResponse rid)) (\<lambda>(resp, s'). case resp of
    Some resp \<Rightarrow> bnd (modify (\<lambda>_. s')) (\<lambda>_. ret (rsp_msg resp))
  | None \<Rightarrow> bnd (modify (removeRequestId rid)) (\<lambda>_. throw e)))"
  by (rule keeps_case) (auto simp: consumeResponse_def removeRequestId_def act_simps evolves_def wf_defs lock_of_def row_simps
      split: option.splits)

lemma keeps_future_wait [keeps_intros]: "keeps (future_wait expired for_ever fut :: ('x, config option) sys_act)"
proof (cases expired)
  case False
  have "keeps (bnd (modify (\<lambda>s :: 'x actor_system. s\<lparr>rq_sems := (rq_sems s)[rf_wait fut := sem]\<rparr>)) (\<lambda>_.
      if woken then
        bnd (gets (consumeResponse (rf_reqId fut))) (\<lambda>(resp, s'). case resp of
          Some resp \<Rightarrow> bnd (modify (\<lambda>_. s')) (\<lambda>_. ret (rsp_msg resp))
        | None \<Rightarrow> bnd (modify (removeRequestId (rf_reqId fut))) (\<lambda>_. throw (RuntimeError ''not found'')))
      else bnd (modify (removeRequestId (rf_reqId fut))) (\<lambda>_.
        throw (RuntimeError (''timeout '' @ show_nat (unat (rf_reqId fut)))))))" for sem woken
    by (intro keeps_ret keeps_bnd keeps_if keeps_registry keeps_consume)
  then show ?thesis using False
    by (auto simp: future_wait_def keeps_def split: option.splits)
qed (simp add: future_wait_def keeps_intros keeps_registry)

lemma keeps_as_clear: "keeps (modify (\<lambda>s. s\<lparr>as_jobs := mailbox_clear (as_jobs s)\<rparr>))"
  "keeps (modify (\<lambda>s. s\<lparr>as_actors := [], as_listener := None\<rparr>))"
  by (rule keeps_modify; simp add: evolves_def wf_defs lock_of_def map_ok_def)+

section \<open>Operations with handlers\<close>

text \<open>A new actor has a mutex of its own that nobody holds, and the table names it.\<close>

lemma object_evolves:
  assumes "sys_wf s"
  shows "evolves s (s\<lparr>as_objs := as_objs s @ [obj\<lparr>ao_locked := False\<rparr>]\<rparr>)"
  using assms by (fastforce simp: evolves_def wf_defs lock_of_def nth_append)

lemma named_evolves:
  assumes "sys_wf s" and "act < length (as_objs s)"
  shows "evolves s (s\<lparr>as_actors := map_emplace name act (as_actors s)\<rparr>)"
proof -
  have "snd p < length (as_objs s)" if "p \<in> set (map_emplace name act (as_actors s))" for p
    using that assms set_map_assign [of name act "as_actors s"] by (fastforce simp: map_emplace_def wf_defs split: if_split_asm)
  then show ?thesis using assms by (simp add: evolves_def wf_defs lock_of_def row_simps)
qed


lemma keeps_named:
  assumes "sys_wf s" and "act < length (as_objs s)" and "keeps m"
    and run: "bnd (with_actMut (modify (\<lambda>s. s\<lparr>as_actors := map_emplace name act (as_actors s)\<rparr>))) (\<lambda>_. m) s = Some (r, s')"
  shows "evolves s s'"
proof -
  have free: "\<not> as_actMut s" using run by (auto simp: with_actMut_def locked_def bnd_def)
  then have same: "s\<lparr>as_actors := n, as_actMut := False\<rparr> = s\<lparr>as_actors := n\<rparr>" for n by (cases s) simp
  have "m (s\<lparr>as_actors := map_emplace name act (as_actors s), as_actMut := False\<rparr>) = Some (r, s')"
    using run free by (simp add: with_actMut_def locked_def bnd_def act_simps)
  note m = this [unfolded same]
  have e: "evolves s (s\<lparr>as_actors := map_emplace name act (as_actors s)\<rparr>)" by (rule named_evolves [OF assms(1,2)])
  show ?thesis by (rule evolves_trans [OF e keepsD [OF assms(3) evolves_wf [OF e] m]])
qed

text \<open>The actors of the table are locked one after the other.\<close>

context well_behaved
begin

lemma add_actor_keeps: "keeps (add_actor beh name built)"
proof -
  have new: "keeps (bnd (gets (\<lambda>s. length (as_objs s))) (\<lambda>act.
      bnd (modify (\<lambda>s. s\<lparr>as_objs := as_objs s @ [obj\<lparr>ao_locked := False\<rparr>]\<rparr>)) (\<lambda>_.
      bnd (with_actMut (modify (\<lambda>s. s\<lparr>as_actors := map_emplace name act (as_actors s)\<rparr>))) (\<lambda>_.
      onStart beh act))))" for obj
  proof (rule keeps_case)
    fix s s' :: "'x actor_system" and r
    let ?s = "s\<lparr>as_objs := as_objs s @ [obj\<lparr>ao_locked := False\<rparr>]\<rparr>" and ?act = "length (as_objs s)"
    assume wf: "sys_wf s" and run: "bnd (modify (\<lambda>s. s\<lparr>as_objs := as_objs s @ [obj\<lparr>ao_locked := False\<rparr>]\<rparr>)) (\<lambda>_.
      bnd (with_actMut (modify (\<lambda>s. s\<lparr>as_actors := map_emplace name ?act (as_actors s)\<rparr>))) (\<lambda>_. onStart beh ?act)) s = Some (r, s')"
    have e: "evolves s ?s" by (rule object_evolves [OF wf])
    have "bnd (with_actMut (modify (\<lambda>s. s\<lparr>as_actors := map_emplace name ?act (as_actors s)\<rparr>))) (\<lambda>_. onStart beh ?act) ?s = Some (r, s')"
      using run by (simp add: act_simps)
    from keeps_named [OF evolves_wf [OF e] _ onStart_law this] show "evolves s s'" by (simp add: evolves_trans [OF e])
  qed
  have check: "keeps (with_actMut (bnd (gets (\<lambda>s. map_of (as_actors s) name)) (\<lambda>it.
      if it \<noteq> None then throw (RuntimeError (''Already an actor named '' @ quoted name)) else ret ())) :: ('x, unit) sys_act)"
    and undo: "keeps (bnd (with_actMut (modify (\<lambda>s :: 'x actor_system. s\<lparr>as_actors := map_erase name (as_actors s)\<rparr>)))
      (\<lambda>_. throw (crashed name)) :: ('x, unit) sys_act)"
    by (intro keeps_intros)+
  show ?thesis unfolding add_actor_def
    by (rule keeps_bnd, rule check, rule keeps_try, rule keeps_bnd, rule keeps_ret(4), rule new, rule undo)
qed

lemma quit_all_evolves:
  "sys_wf s \<Longrightarrow> \<forall>p \<in> set its. snd p < length (as_objs s) \<Longrightarrow> quit_all beh its s = Some (r, s') \<Longrightarrow> evolves s s'"
proof (induction its arbitrary: s)
  case Nil
  then show ?case by (simp add: act_simps evolves_refl)
next
  case (Cons it its)
  let ?one = "bnd (lock_if_atomic (snd it)) (\<lambda>_. bnd (try_act (onQuit beh (snd it)) (ret ())) (\<lambda>_. unlock_if_atomic (snd it)))"
  have catch: "try_act (onQuit beh (snd it)) (ret ()) u \<noteq> Some (Inl e, v)" for u e v
    by (auto simp: try_act_def act_simps split: option.splits sum.splits)
  have "keeps (try_act (onQuit beh (snd it)) (ret ()))" by (intro keeps_intros onQuit_law)
  note one = keeps_bracket [OF this catch Cons.prems(1)]
  have "bnd ?one (\<lambda>_. quit_all beh its) s = Some (r, s')"
    using Cons.prems(3) by (simp add: bnd_assoc)
  then show ?case
  proof (cases rule: bnd_SomeE)
    case (raised e)
    then show ?thesis using one [OF _ raised(1)] Cons.prems(2) by simp
  next
    case (returned x t)
    have e: "evolves s t" using one [OF _ returned(1)] Cons.prems(2) by simp
    then have "\<forall>p \<in> set its. snd p < length (as_objs t)" using Cons.prems(2) by (auto simp: evolves_def)
    from Cons.IH [OF evolves_wf [OF e] this returned(2)] show ?thesis by (rule evolves_trans [OF e])
  qed
qed

lemma wake_workers_keeps: "keeps (wake_workers beh ts)"
  by (induction ts) (simp_all add: keeps_bnd keeps_ret keeps_sem_post worker_keeps)

lemma waitAllCompletes_keeps: "keeps (as_waitAllCompletes beh self)"
  unfolding as_waitAllCompletes_def
  by (intro keeps_ret keeps_bnd keeps_if keeps_stop_polling keeps_as_clear wake_workers_keeps)

lemma dispose_keeps: "keeps (sys_dispose beh self)"
proof -
  have q: "keeps (bnd (gets as_actors) (quit_all beh))"
    by (rule keeps_case) (rule quit_all_evolves, auto simp: wf_defs)
  then show ?thesis unfolding sys_dispose_def
    by (intro keeps_ret keeps_bnd [OF keeps_actMut [OF q]] keeps_bnd [OF waitAllCompletes_keeps] keeps_bnd [OF keeps_as_clear(2)]
        keeps_bnd [OF keeps_ret(3)] keeps_if)
qed

text \<open>A stream that was accepted is there when it is handed to the poll.\<close>

lemma poll_turn_keeps: "keeps (poll_turn beh event)"
proof (cases event)
  case (EV_listener cn)
  have rest: "evolves s s'" if "sys_wf s" "k < length (as_streams s)"
    "bnd (receiveMessage beh k) (\<lambda>_. bnd (gets (\<lambda>s. isOpen (as_streams s ! k))) (\<lambda>open. if open then addPoll k else ret ())) s = Some (r, s')"
    for k r and s s' :: "'x actor_system"
    using that(3)
  proof (cases rule: bnd_SomeE)
    case (raised e)
    then show ?thesis using keepsD [OF receiveMessage_keeps that(1)] by blast
  next
    case (returned x t)
    have e: "evolves s t" by (rule keepsD [OF receiveMessage_keeps that(1) returned(1)])
    then have "k < length (as_streams t)" using that(2) by (simp add: evolves_def)
    then have "evolves t s'"
      using returned(2) addPoll_evolves [OF evolves_wf [OF e]] evolves_refl [OF evolves_wf [OF e]]
      by (auto simp: act_simps split: if_splits)
    then show ?thesis by (rule evolves_trans [OF e])
  qed
  have "keeps (bnd (accept_client cn) (\<lambda>stream. bnd (receiveMessage beh stream) (\<lambda>_.
      bnd (gets (\<lambda>s. isOpen (as_streams s ! stream))) (\<lambda>open. if open then addPoll stream else ret ()))))"
    unfolding keeps_def
  proof (intro allI impI)
    fix s s' :: "'x actor_system" and r
    assume wf: "sys_wf s" and run: "bnd (accept_client cn) (\<lambda>stream. bnd (receiveMessage beh stream) (\<lambda>_.
      bnd (gets (\<lambda>s. isOpen (as_streams s ! stream))) (\<lambda>open. if open then addPoll stream else ret ()))) s = Some (r, s')"
    show "evolves s s'"
    proof (cases "listener_accept cn")
      case (Inl e)
      then show ?thesis using run wf by (simp add: accept_client_def act_simps bnd_def evolves_refl)
    next
      case (Inr str)
      obtain k t where k: "new_stream str s = Some (Inr k, t)" "k < length (as_streams t)" "evolves s t"
      proof -
        obtain q t where q: "new_stream str s = Some (q, t)" by (simp add: new_stream_def act_simps)
        show thesis using new_stream_evolves [OF wf q] that q by (auto simp: unpooled_def)
      qed
      have "bnd (receiveMessage beh k) (\<lambda>_. bnd (gets (\<lambda>s. isOpen (as_streams s ! k))) (\<lambda>open. if open then addPoll k else ret ())) t = Some (r, s')"
        using run Inr k(1) by (simp add: accept_client_def act_simps bnd_def)
      then show ?thesis using rest [OF evolves_wf [OF k(3)] k(2)] evolves_trans [OF k(3)] by blast
    qed
  qed
  then show ?thesis using EV_listener by (simp add: poll_turn_def keeps_try keeps_ret)
next
  case EV_trigger
  have "keeps (modify (\<lambda>s :: 'x actor_system. s\<lparr>as_trigger := drop 1 (as_trigger s)\<rparr>))"
    by (rule keeps_modify) (simp add: evolves_def wf_defs lock_of_def)
  then show ?thesis using EV_trigger by (simp add: poll_turn_def)
next
  case (EV_client fd)
  then show ?thesis by (simp add: poll_turn_def keeps_bnd keeps_ret keeps_option keeps_delPoll receiveMessage_keeps)
qed

lemma pollMain_keeps: "keeps (pollMain beh events)"
proof (induction events)
  case (Cons e es)
  have "keeps (bnd (poll_turn beh e) (\<lambda>_. pollMain beh es))" by (rule keeps_bnd [OF poll_turn_keeps Cons.IH])
  then show ?case by (auto simp: keeps_def evolves_refl simp del: pollMain.simps split: if_splits simp: pollMain.simps [of beh "e # es"])
qed (auto simp: keeps_def evolves_refl split: if_splits)

lemma exit_keeps: "keeps (actor_exit beh act)"
  unfolding actor_exit_def by (intro keeps_bnd keeps_ret remove_keeps)

end

interpretation base: well_behaved actorBase
  by unfold_locales (simp_all add: actorBase_def keeps_ret)

section \<open>What a system can reach\<close>

text \<open>The operations that a thread asks of a system, and the turns of its own threads.\<close>

datatype 'x sys_op =
    OP_start bind_answers u16
  | OP_add string "'x actor_obj res"
  | OP_remove string bool
  | OP_exit nat
  | OP_joinOnEmpty bool
  | OP_send actor_ref "config option"
  | OP_request actor_ref "config option"
  | OP_wait bool bool request_future
  | OP_response actor_ref u64 "config option"
  | OP_worker nat
  | OP_poll "poll_event list"
  | OP_waitAllCompletes nat
  | OP_dispose nat

definition unit_act :: "('s, 'a) act \<Rightarrow> ('s, unit) act" where
  "unit_act m = bnd m (\<lambda>_. ret ())"

fun sys_run :: "'x behaviour \<Rightarrow> 'x sys_op \<Rightarrow> ('x, unit) sys_act" where
  "sys_run beh (OP_start os junk) = sys_start os junk"
| "sys_run beh (OP_add name built) = add_actor beh name built"
| "sys_run beh (OP_remove name lock) = sys_remove beh name lock"
| "sys_run beh (OP_exit act) = actor_exit beh act"
| "sys_run beh (OP_joinOnEmpty j) = joinOnEmpty j"
| "sys_run beh (OP_send ref node) = ref_send ref node"
| "sys_run beh (OP_request ref node) = unit_act (ref_request ref node)"
| "sys_run beh (OP_wait expired for_ever fut) = unit_act (future_wait expired for_ever fut)"
| "sys_run beh (OP_response ref rid node) = ref_response ref rid node"
| "sys_run beh (OP_worker self) = unit_act (workerJobThread beh self)"
| "sys_run beh (OP_poll events) = pollMain beh events"
| "sys_run beh (OP_waitAllCompletes self) = as_waitAllCompletes beh self"
| "sys_run beh (OP_dispose self) = unit_act (sys_dispose beh self)"

text \<open>The network changes what a stream has to give and takes, and what the next connections will find.\<close>

inductive sys_reach :: "'x behaviour \<Rightarrow> 'x actor_system \<Rightarrow> bool" for beh where
  reach_new: "sys_reach beh (actorSystem addr nbThreads hw dials)"
| reach_op: "sys_reach beh s \<Longrightarrow> sys_run beh op s = Some (r, s') \<Longrightarrow> sys_reach beh s'"
| reach_network: "sys_reach beh s \<Longrightarrow> sys_reach beh (s\<lparr>as_streams := (as_streams s)[k := t], as_dials := ds\<rparr>)"

context well_behaved
begin

lemma run_keeps: "keeps (sys_run beh op)"
proof -
  have u: "keeps m \<Longrightarrow> keeps (unit_act m)" for m :: "('x, 'a) sys_act"
    by (simp add: unit_act_def keeps_bnd keeps_ret)
  show ?thesis
    by (cases op) (simp_all del: pollMain.simps add: u keeps_sys_start keeps_joinOnEmpty keeps_ref_send keeps_ref_request keeps_future_wait keeps_ref_response
        add_actor_keeps remove_keeps exit_keeps worker_keeps pollMain_keeps waitAllCompletes_keeps dispose_keeps)
qed

lemma reach_wf: "sys_reach beh s \<Longrightarrow> sys_wf s \<and> \<not> as_actMut s \<and> (\<forall>a < length (as_objs s). \<not> snd (lock_of s a))"
proof (induction rule: sys_reach.induct)
  case (reach_new addr nbThreads hw dials)
  then show ?case by (simp add: wf_defs actorSystem_def map_ok_def sem_new_def)
next
  case (reach_op s op r s')
  then have "evolves s s'" using keepsD [OF run_keeps] by blast
  then show ?case using reach_op.IH unfolding evolves_def by (metis not_le)
next
  case (reach_network s k t ds)
  then show ?case by (simp add: wf_defs lock_of_def)
qed

end






end
